(* ===== verification/Prelude.thy ===== *)
theory Prelude
  imports Main "HOL-Library.Word" "HOL-Library.Monad_Syntax"
begin

unbundle bit_operations_syntax

section \<open>Shared vocabulary of the development\<close>

text \<open>
  The types that stand for the C types of the sources, the reading of \<open>ASSERT\<close>, the
  collections of simplification rules the component theories add to, and the lemmas on
  lists, options and words that several components use.

  A C \<open>int\<close> is a HOL \<open>int\<close>; the places where a value is converted to or from an unsigned
  type, or could leave the range of the type, say so. Unsigned fixed-width integers are words,
  on which the operators wrap around as they do in C. A pair of a pointer and a length that
  denotes a memory block is a list of bytes.
\<close>

type_synonym byte = "8 word"
type_synonym u16 = "16 word"
type_synonym u32 = "32 word"
type_synonym u64 = "64 word"
type_synonym bytes = "byte list"

abbreviation INT_MAX :: int where "INT_MAX \<equiv> 2147483647"
abbreviation UINT16_MAX :: int where "UINT16_MAX \<equiv> 65535"

named_theorems mem_simps \<open>sizes and memory images of packed structures\<close>
named_theorems step_simps \<open>unfolding rules of handlers and steps\<close>

subsection \<open>Assertions\<close>

text \<open>
  \<open>ASSERT(e)\<close> is a branch of the model: a function that contains assertions returns an option,
  and \<open>None\<close> is the value of a run in which an assertion fails. A theorem that the result is
  \<open>Some\<close> therefore says that every assertion on the path holds.
\<close>

definition ASSERT :: "bool \<Rightarrow> unit option" where
  "ASSERT b = (if b then Some () else None)"

lemma ASSERT_simps [simp]: "ASSERT True = Some ()" "ASSERT False = None"
  by (simp_all add: ASSERT_def)

lemma ASSERT_eq_Some [simp]: "ASSERT b = Some u \<longleftrightarrow> b"
  by (simp add: ASSERT_def)

lemma ASSERT_bind: "(ASSERT b \<bind> f) = (if b then f () else None)"
  by (simp add: ASSERT_def)

lemma ASSERT_bind_Some: "(ASSERT b \<bind> f) = Some r \<longleftrightarrow> b \<and> f () = Some r"
  by (simp add: ASSERT_def)

lemma ASSERT_conj: "(ASSERT (a \<and> b) \<bind> f) = (ASSERT a \<bind> (\<lambda>_. ASSERT b \<bind> f))"
  by (simp add: ASSERT_def)

lemma bind_Some_iff: "(m \<bind> f) = Some r \<longleftrightarrow> (\<exists>x. m = Some x \<and> f x = Some r)"
  by (cases m) auto

lemmas assert_simps = ASSERT_bind_Some bind_Some_iff

subsection \<open>Memory blocks\<close>

text \<open>
  \<open>store b i xs\<close> is the effect of \<open>memcpy(b + i, xs, len)\<close> on the block \<open>b\<close>. A copy that
  leaves the block is undefined behaviour in C; it has no value here.
\<close>

definition store :: "'a list \<Rightarrow> nat \<Rightarrow> 'a list \<Rightarrow> 'a list option" where
  "store b i xs = (if i + length xs \<le> length b
                   then Some (take i b @ xs @ drop (i + length xs) b) else None)"

definition segment :: "'a list \<Rightarrow> nat \<Rightarrow> nat \<Rightarrow> 'a list" where
  "segment b i n = take n (drop i b)"

lemma length_segment [simp]: "i + n \<le> length b \<Longrightarrow> length (segment b i n) = n"
  by (simp add: segment_def)

lemma segment_0 [simp]: "segment b i 0 = []"
  by (simp add: segment_def)

lemma segment_all [simp]: "segment b 0 (length b) = b"
  by (simp add: segment_def)

lemma segment_append: "segment b i (m + n) = segment b i m @ segment b (i + m) n"
  by (simp add: segment_def take_add add.commute)

lemma segment_segment: "j + n \<le> m \<Longrightarrow> segment (segment b i m) j n = segment b (i + j) n"
  by (simp add: segment_def drop_take take_take min_def add.commute)

lemma nth_segment: "j < n \<Longrightarrow> i + n \<le> length b \<Longrightarrow> segment b i n ! j = b ! (i + j)"
  by (simp add: segment_def)

lemma drop_segment: "drop j (segment b i m) = segment b (i + j) (m - j)"
  by (simp add: segment_def drop_take add.commute)

lemma take_segment: "take j (segment b i m) = segment b i (min j m)"
  by (simp add: segment_def min.commute)

lemma length_store: "store b i xs = Some b' \<Longrightarrow> length b' = length b"
  by (auto simp: store_def split: if_splits)

lemma segment_store_same: "store b i xs = Some b' \<Longrightarrow> segment b' i (length xs) = xs"
  by (auto simp: store_def segment_def split: if_splits)

lemma segment_store_before:
  "store b i xs = Some b' \<Longrightarrow> j + n \<le> i \<Longrightarrow> segment b' j n = segment b j n"
  by (auto simp: store_def segment_def drop_take split: if_splits)

lemma segment_store_after:
  "store b i xs = Some b' \<Longrightarrow> i + length xs \<le> j \<Longrightarrow> segment b' j n = segment b j n"
  by (auto simp: store_def segment_def split: if_splits)

lemma store_Some: "i + length xs \<le> length b \<Longrightarrow> \<exists>b'. store b i xs = Some b'"
  by (simp add: store_def)

text \<open>\<open>same_on m m' a b\<close>: the two blocks have the same length and the same bytes from \<open>a\<close> up to
  \<open>b\<close>.\<close>

definition same_on :: "'a list \<Rightarrow> 'a list \<Rightarrow> nat \<Rightarrow> nat \<Rightarrow> bool" where
  "same_on m m' a b \<longleftrightarrow> length m = length m' \<and> (\<forall>k. a \<le> k \<and> k < b \<longrightarrow> m ! k = m' ! k)"

lemma segment_cong:
  "same_on m m' a b \<Longrightarrow> a \<le> i \<Longrightarrow> i + n \<le> b \<Longrightarrow> b \<le> length m \<Longrightarrow> segment m i n = segment m' i n"
  by (rule nth_equalityI) (auto simp: same_on_def segment_def)

lemma same_on_store:
  "store m i xs = Some m' \<Longrightarrow> b \<le> i \<or> i + length xs \<le> a \<Longrightarrow> same_on m m' a b"
  by (auto simp: same_on_def store_def nth_append split: if_splits)

lemma same_on_trans: "same_on m m' a b \<Longrightarrow> same_on m' m'' a b \<Longrightarrow> same_on m m'' a b"
  by (auto simp: same_on_def)

lemma same_on_mono: "same_on m m' a b \<Longrightarrow> a \<le> a' \<Longrightarrow> b' \<le> b \<Longrightarrow> same_on m m' a' b'"
  by (auto simp: same_on_def)

subsection \<open>Traces of a step relation\<close>

text \<open>
  Components that react to events are labelled step relations; \<open>steps step s ls s'\<close> says that the
  labels \<open>ls\<close> lead from \<open>s\<close> to \<open>s'\<close>.
\<close>

inductive steps :: "('s \<Rightarrow> 'l \<Rightarrow> 's \<Rightarrow> bool) \<Rightarrow> 's \<Rightarrow> 'l list \<Rightarrow> 's \<Rightarrow> bool" for step where
  steps_Nil [intro]: "steps step s [] s"
| steps_snoc [intro]: "steps step s ls s' \<Longrightarrow> step s' l s'' \<Longrightarrow> steps step s (ls @ [l]) s''"

lemma steps_Cons: "step s l s' \<Longrightarrow> steps step s' ls s'' \<Longrightarrow> steps step s (l # ls) s''"
proof (induction ls arbitrary: s'' rule: rev_induct)
  case Nil
  then have "s'' = s'" by (auto elim: steps.cases)
  with Nil show ?case using steps_snoc [OF steps_Nil, of step s l s'] by simp
next
  case (snoc x xs)
  from snoc.prems(2) obtain t where "steps step s' xs t" "step t x s''" by (auto elim: steps.cases)
  with snoc show ?case using steps_snoc [of step s "l # xs" t x s''] by auto
qed

lemma steps_invariant:
  assumes "steps step s ls s'" and "I s" and "\<And>s l s'. I s \<Longrightarrow> step s l s' \<Longrightarrow> I s'"
  shows "I s'"
  using assms by (induction rule: steps.induct) auto

text \<open>
  The contract of a component that reacts to events: in a state of its invariant it handles every event
  that can occur, without failing an assertion, and keeps the invariant.
\<close>

locale event_system =
  fixes inv :: "'s \<Rightarrow> bool" and allowed :: "'s \<Rightarrow> 'e \<Rightarrow> bool" and handle :: "'s \<Rightarrow> 'e \<Rightarrow> ('s \<times> 'r) option"
    and step :: "'s \<Rightarrow> 'l \<Rightarrow> 's \<Rightarrow> bool"
  assumes handle_ok: "inv s \<Longrightarrow> allowed s e \<Longrightarrow> \<exists>s' r. handle s e = Some (s', r) \<and> inv s'"
    and step_handle: "step s l s' \<Longrightarrow> \<exists>e r. allowed s e \<and> handle s e = Some (s', r)"
begin

lemma step_inv:
  assumes "inv s" and "step s l s'"
  shows "inv s'"
proof -
  obtain e r where "allowed s e" "handle s e = Some (s', r)" using step_handle [OF assms(2)] by blast
  then show ?thesis using handle_ok [OF assms(1)] by fastforce
qed

lemma reached_inv: "steps step s ls s' \<Longrightarrow> inv s \<Longrightarrow> inv s'"
  by (rule steps_invariant) (use step_inv in blast)+

lemma never_fails: "inv s \<Longrightarrow> \<forall>e. allowed s e \<longrightarrow> handle s e \<noteq> None"
  using handle_ok by fastforce

end

end
