(* ===== verification/ByteOrder.thy ===== *)
theory ByteOrder
  imports Prelude
begin

section \<open>Byte order, unaligned access, checked sizes and rounding\<close>

text \<open>
  The headers \<open>misc/byteorder.h\<close>, \<open>misc/read_write_int.h\<close>, \<open>misc/bsize.h\<close>, \<open>misc/balign.h\<close>
  and \<open>misc/compare.h\<close>. The build is for a little-endian target
  (\<open>BADVPN_LITTLE_ENDIAN\<close>), so the memory image of an integer is its list of bytes, least
  significant byte first.
\<close>

subsection \<open>Memory images of integers on the little-endian target\<close>

definition mem16 :: "u16 \<Rightarrow> bytes" where
  "mem16 x = [ucast x, ucast (drop_bit 8 x)]"

definition mem32 :: "u32 \<Rightarrow> bytes" where
  "mem32 x = [ucast x, ucast (drop_bit 8 x), ucast (drop_bit 16 x), ucast (drop_bit 24 x)]"

definition mem64 :: "u64 \<Rightarrow> bytes" where
  "mem64 x = [ucast x, ucast (drop_bit 8 x), ucast (drop_bit 16 x), ucast (drop_bit 24 x),
              ucast (drop_bit 32 x), ucast (drop_bit 40 x), ucast (drop_bit 48 x),
              ucast (drop_bit 56 x)]"

fun badvpn_read_le16 :: "bytes \<Rightarrow> u16" where
  "badvpn_read_le16 (a # b # _) = push_bit 8 (ucast b) OR ucast a"
| "badvpn_read_le16 _ = 0"

fun badvpn_read_le32 :: "bytes \<Rightarrow> u32" where
  "badvpn_read_le32 (a # b # c # d # _) =
     push_bit 24 (ucast d) OR push_bit 16 (ucast c) OR push_bit 8 (ucast b) OR ucast a"
| "badvpn_read_le32 _ = 0"

fun badvpn_read_le64 :: "bytes \<Rightarrow> u64" where
  "badvpn_read_le64 (a # b # c # d # e # f # g # h # _) =
     push_bit 56 (ucast h) OR push_bit 48 (ucast g) OR push_bit 40 (ucast f) OR
     push_bit 32 (ucast e) OR push_bit 24 (ucast d) OR push_bit 16 (ucast c) OR
     push_bit 8 (ucast b) OR ucast a"
| "badvpn_read_le64 _ = 0"

fun badvpn_read_be16 :: "bytes \<Rightarrow> u16" where
  "badvpn_read_be16 (a # b # _) = push_bit 8 (ucast a) OR ucast b"
| "badvpn_read_be16 _ = 0"

fun badvpn_read_be32 :: "bytes \<Rightarrow> u32" where
  "badvpn_read_be32 (a # b # c # d # _) =
     push_bit 24 (ucast a) OR push_bit 16 (ucast b) OR push_bit 8 (ucast c) OR ucast d"
| "badvpn_read_be32 _ = 0"

fun badvpn_write_be16 :: "u16 \<Rightarrow> bytes" where
  "badvpn_write_be16 x = [ucast (drop_bit 8 x), ucast x]"

lemma length_mem [mem_simps]: "length (mem16 x) = 2" "length (mem32 y) = 4" "length (mem64 z) = 8"
  by (simp_all add: mem16_def mem32_def mem64_def)

text \<open>
  An integer is determined by its bits, and a bit by the byte it lies in: the case rules below
  split an index by byte, after which each equation is one rewriting with \<open>bit_simps\<close>.
\<close>

lemma byte_cases16:
  fixes n :: nat assumes "n < 16" obtains "n < 8" | "8 \<le> n" "n < 16"
  using assms by linarith

lemma byte_cases32:
  fixes n :: nat assumes "n < 32"
  obtains "n < 8" | "8 \<le> n" "n < 16" | "16 \<le> n" "n < 24" | "24 \<le> n" "n < 32"
  using assms by linarith

lemma byte_cases64:
  fixes n :: nat assumes "n < 64"
  obtains "n < 8" | "8 \<le> n" "n < 16" | "16 \<le> n" "n < 24" | "24 \<le> n" "n < 32"
    | "32 \<le> n" "n < 40" | "40 \<le> n" "n < 48" | "48 \<le> n" "n < 56" | "56 \<le> n" "n < 64"
  using assms by linarith

lemma word16_eqI: "(\<And>n. n < 16 \<Longrightarrow> bit x n = bit y n) \<Longrightarrow> x = y" for x y :: u16
  by (rule bit_word_eqI) simp

lemma word32_eqI: "(\<And>n. n < 32 \<Longrightarrow> bit x n = bit y n) \<Longrightarrow> x = y" for x y :: u32
  by (rule bit_word_eqI) simp

lemma word64_eqI: "(\<And>n. n < 64 \<Longrightarrow> bit x n = bit y n) \<Longrightarrow> x = y" for x y :: u64
  by (rule bit_word_eqI) simp

lemma word8_eqI: "(\<And>n. n < 8 \<Longrightarrow> bit x n = bit y n) \<Longrightarrow> x = y" for x y :: byte
  by (rule bit_word_eqI) simp

lemma byte_bit_beyond: "8 \<le> n \<Longrightarrow> \<not> bit (a :: byte) n"
  by (auto dest: bit_imp_le_length)

lemma read_le16_mem: "badvpn_read_le16 (mem16 x @ r) = x"
proof (rule word16_eqI)
  fix n :: nat assume "n < 16"
  then show "bit (badvpn_read_le16 (mem16 x @ r)) n = bit x n"
    by (cases n rule: byte_cases16) (simp_all add: mem16_def bit_simps less_diff_conv2)
qed

lemma read_le32_mem: "badvpn_read_le32 (mem32 x @ r) = x"
proof (rule word32_eqI)
  fix n :: nat assume "n < 32"
  then show "bit (badvpn_read_le32 (mem32 x @ r)) n = bit x n"
    by (cases n rule: byte_cases32) (simp_all add: mem32_def bit_simps less_diff_conv2)
qed

lemma read_le64_mem: "badvpn_read_le64 (mem64 x @ r) = x"
proof (rule word64_eqI)
  fix n :: nat assume "n < 64"
  then show "bit (badvpn_read_le64 (mem64 x @ r)) n = bit x n"
    by (cases n rule: byte_cases64) (simp_all add: mem64_def bit_simps less_diff_conv2)
qed

lemma mem16_read: "mem16 (badvpn_read_le16 [a, b]) = [a, b]"
  unfolding mem16_def by (simp, intro conjI; rule word8_eqI) (simp_all add: bit_simps byte_bit_beyond)

lemma mem32_read: "mem32 (badvpn_read_le32 [a, b, c, d]) = [a, b, c, d]"
  unfolding mem32_def by (simp, intro conjI; rule word8_eqI) (simp_all add: bit_simps byte_bit_beyond)

lemma mem64_read: "mem64 (badvpn_read_le64 [a, b, c, d, e, f, g, h]) = [a, b, c, d, e, f, g, h]"
  unfolding mem64_def by (simp, intro conjI; rule word8_eqI) (simp_all add: bit_simps byte_bit_beyond)

subsection \<open>Integers that live in memory\<close>

text \<open>
  What the packed structures of the protocols rely on: an integer has a memory image of a fixed
  size, and reading the image gives the integer back whatever follows it. \<open>swap\<close> is the byte
  reversal \<open>badvpn_reverse*\<close>, which exchanges the bytes of the image; that it is an involution,
  so that \<open>ntoh*\<close> undoes \<open>hton*\<close>, follows for every width.
\<close>

locale memory_integer =
  fixes mem :: "'w \<Rightarrow> bytes"
    and rd :: "bytes \<Rightarrow> 'w"
    and sz :: nat
    and swap :: "'w \<Rightarrow> 'w"
  assumes mem_size: "length (mem x) = sz"
    and rd_mem: "rd (mem x @ r) = x"
    and mem_rd: "length b = sz \<Longrightarrow> mem (rd b) = b"
    and swap_rev: "swap x = rd (rev (mem x))"
begin

lemma rd_mem_exact: "rd (mem x) = x"
  using rd_mem [of x "[]"] by simp

lemma mem_swap: "mem (swap x) = rev (mem x)"
  by (simp add: swap_rev mem_rd mem_size)

lemma swap_swap: "swap (swap x) = x"
  by (simp add: swap_rev [of "swap x"] mem_swap rd_mem_exact)

lemma mem_inj: "mem x = mem y \<longleftrightarrow> x = y"
  by (metis rd_mem_exact)

lemma swap_inj: "swap x = swap y \<longleftrightarrow> x = y"
  by (metis swap_swap)

lemma split_field: "sz \<le> length b \<Longrightarrow> mem (rd (take sz b)) @ drop sz b = b"
  by (simp add: mem_rd)

end

subsection \<open>Byte reversal and conversion to network byte order\<close>

definition badvpn_reverse16 :: "u16 \<Rightarrow> u16" where
  "badvpn_reverse16 x = badvpn_read_le16 [mem16 x ! 1, mem16 x ! 0]"

definition badvpn_reverse32 :: "u32 \<Rightarrow> u32" where
  "badvpn_reverse32 x = badvpn_read_le32 [mem32 x ! 3, mem32 x ! 2, mem32 x ! 1, mem32 x ! 0]"

definition badvpn_reverse64 :: "u64 \<Rightarrow> u64" where
  "badvpn_reverse64 x = badvpn_read_le64
     [mem64 x ! 7, mem64 x ! 6, mem64 x ! 5, mem64 x ! 4, mem64 x ! 3, mem64 x ! 2, mem64 x ! 1,
      mem64 x ! 0]"

definition hton8 :: "byte \<Rightarrow> byte" where "hton8 x = x"
definition htol8 :: "byte \<Rightarrow> byte" where "htol8 x = x"
definition hton16 :: "u16 \<Rightarrow> u16" where "hton16 x = badvpn_reverse16 x"
definition hton32 :: "u32 \<Rightarrow> u32" where "hton32 x = badvpn_reverse32 x"
definition hton64 :: "u64 \<Rightarrow> u64" where "hton64 x = badvpn_reverse64 x"
definition htol16 :: "u16 \<Rightarrow> u16" where "htol16 x = x"
definition htol32 :: "u32 \<Rightarrow> u32" where "htol32 x = x"
definition ntoh8 :: "byte \<Rightarrow> byte" where "ntoh8 x = hton8 x"
definition ntoh16 :: "u16 \<Rightarrow> u16" where "ntoh16 x = hton16 x"
definition ntoh32 :: "u32 \<Rightarrow> u32" where "ntoh32 x = hton32 x"
definition ntoh64 :: "u64 \<Rightarrow> u64" where "ntoh64 x = hton64 x"
definition ltoh8 :: "byte \<Rightarrow> byte" where "ltoh8 x = htol8 x"
definition ltoh16 :: "u16 \<Rightarrow> u16" where "ltoh16 x = htol16 x"
definition ltoh32 :: "u32 \<Rightarrow> u32" where "ltoh32 x = htol32 x"

lemmas byte_id = hton8_def htol8_def ntoh8_def ltoh8_def htol16_def ltoh16_def htol32_def ltoh32_def

lemma length_2_conv: "length b = 2 \<longleftrightarrow> (\<exists>x y. b = [x, y])"
  by (auto simp: numeral_eq_Suc length_Suc_conv)

lemma length_4_conv: "length b = 4 \<longleftrightarrow> (\<exists>x y z w. b = [x, y, z, w])"
  by (auto simp: numeral_eq_Suc length_Suc_conv)

lemma length_8_conv:
  "length b = 8 \<longleftrightarrow> (\<exists>x y z w p q r s. b = [x, y, z, w, p, q, r, s])"
  by (auto simp: numeral_eq_Suc length_Suc_conv)

lemma reverse16_rev: "badvpn_reverse16 x = badvpn_read_le16 (rev (mem16 x))"
  by (simp add: badvpn_reverse16_def mem16_def del: badvpn_read_le16.simps)

interpretation m16: memory_integer mem16 badvpn_read_le16 2 hton16
  by unfold_locales
     (auto simp: mem_simps read_le16_mem length_2_conv mem16_read hton16_def reverse16_rev
           simp del: badvpn_read_le16.simps)

lemma reverse32_rev: "badvpn_reverse32 x = badvpn_read_le32 (rev (mem32 x))"
  by (simp add: badvpn_reverse32_def mem32_def del: badvpn_read_le32.simps)

interpretation m32: memory_integer mem32 badvpn_read_le32 4 hton32
  by unfold_locales
     (auto simp: mem_simps read_le32_mem length_4_conv mem32_read hton32_def reverse32_rev
           simp del: badvpn_read_le32.simps)

lemma reverse64_rev: "badvpn_reverse64 x = badvpn_read_le64 (rev (mem64 x))"
  by (simp add: badvpn_reverse64_def mem64_def del: badvpn_read_le64.simps)

interpretation m64: memory_integer mem64 badvpn_read_le64 8 hton64
  by unfold_locales
     (auto simp: mem_simps read_le64_mem length_8_conv mem64_read hton64_def reverse64_rev
           simp del: badvpn_read_le64.simps)

lemma ntoh_hton [simp]:
  "ntoh16 (hton16 x) = x" "hton16 (ntoh16 x) = x" "ntoh32 (hton32 y) = y" "hton32 (ntoh32 y) = y"
  by (simp_all add: ntoh16_def ntoh32_def m16.swap_swap m32.swap_swap)

text \<open>Reading big-endian is reading little-endian and swapping.\<close>

lemma read_be16_ntoh16: "badvpn_read_be16 (a # b # r) = ntoh16 (badvpn_read_le16 (a # b # r))"
proof -
  have "ntoh16 (badvpn_read_le16 [a, b]) = badvpn_read_le16 (rev (mem16 (badvpn_read_le16 [a, b])))"
    unfolding ntoh16_def by (rule m16.swap_rev)
  then show ?thesis by (simp only: mem16_read) simp
qed

lemma read_be16_mem16: "badvpn_read_be16 (mem16 x) = ntoh16 x"
proof -
  have "badvpn_read_be16 (mem16 x) = ntoh16 (badvpn_read_le16 (mem16 x))"
    by (subst (1 2) mem16_def) (rule read_be16_ntoh16)
  then show ?thesis by (simp only: m16.rd_mem_exact)
qed

lemma write_be16: "badvpn_write_be16 x = mem16 (hton16 x)"
  by (simp add: m16.mem_swap) (simp add: mem16_def)

lemma read_be32_ntoh32:
  "badvpn_read_be32 (a # b # c # d # r) = ntoh32 (badvpn_read_le32 (a # b # c # d # r))"
proof -
  have "ntoh32 (badvpn_read_le32 [a, b, c, d]) =
        badvpn_read_le32 (rev (mem32 (badvpn_read_le32 [a, b, c, d])))"
    unfolding ntoh32_def by (rule m32.swap_rev)
  then show ?thesis by (simp only: mem32_read) simp
qed

lemma mem32_conv: "\<exists>a b c d. mem32 x = [a, b, c, d]"
  by (simp add: mem32_def)

lemma mem16_conv: "\<exists>a b. mem16 x = [a, b]"
  by (simp add: mem16_def)

lemma read_be16_mem: "badvpn_read_be16 (mem16 (hton16 x) @ r) = x"
proof -
  obtain a b where m: "mem16 (hton16 x) = [a, b]" using mem16_conv by blast
  have "badvpn_read_le16 ([a, b] @ r) = hton16 x" by (simp only: m [symmetric] m16.rd_mem)
  then show ?thesis by (simp only: m append_Cons append_Nil read_be16_ntoh16) simp
qed

lemma read_be32_mem: "badvpn_read_be32 (mem32 (hton32 x) @ r) = x"
proof -
  obtain a b c d where m: "mem32 (hton32 x) = [a, b, c, d]" using mem32_conv by blast
  have "badvpn_read_le32 ([a, b, c, d] @ r) = hton32 x" by (simp only: m [symmetric] m32.rd_mem)
  then show ?thesis by (simp only: m append_Cons append_Nil read_be32_ntoh32) simp
qed

text \<open>
  Byte order. Whatever follows it in memory, a 16- or 32-bit field that was stored in network
  byte order (with \<open>hton16\<close>, \<open>hton32\<close>) is the value itself when it is read back with
  \<open>ntoh16\<close> or \<open>ntoh32\<close>, and also when its bytes are read in big-endian order with
  \<open>badvpn_read_be16\<close> or \<open>badvpn_read_be32\<close>; the 64-bit conversion is undone by \<open>ntoh64\<close>.
\<close>

theorem network_order_roundtrip:
  "ntoh16 (badvpn_read_le16 (mem16 (hton16 x) @ r)) = x
   \<and> badvpn_read_be16 (mem16 (hton16 x) @ r) = x
   \<and> ntoh32 (badvpn_read_le32 (mem32 (hton32 y) @ r)) = y
   \<and> badvpn_read_be32 (mem32 (hton32 y) @ r) = y
   \<and> ntoh64 (badvpn_read_le64 (mem64 (hton64 z) @ r)) = z"
  by (simp only: m16.rd_mem m32.rd_mem m64.rd_mem ntoh_hton read_be16_mem read_be32_mem
        ntoh64_def m64.swap_swap)

subsection \<open>Sizes with overflow detection\<close>

text \<open>
  \<open>size_t\<close> has 32 or 64 bits, depending on the target the library is built for. The largest
  value of the type is the parameter \<open>size_max\<close> of the functions that depend on it; a value of
  the type is a \<open>nat\<close> up to \<open>size_max\<close>, and an arithmetic result is reduced modulo
  \<open>size_max + 1\<close>.
\<close>

record bsize_t =
  is_overflow :: bool
  bvalue :: nat

definition bsize_fromsize :: "nat \<Rightarrow> bsize_t" where
  "bsize_fromsize v = \<lparr>is_overflow = False, bvalue = v\<rparr>"

definition bsize_fromint :: "nat \<Rightarrow> int \<Rightarrow> bsize_t" where
  "bsize_fromint size_max v =
     (let c = nat (v mod (int size_max + 1))
      in \<lparr>is_overflow = (v < 0 \<or> c > size_max), bvalue = c\<rparr>)"

definition bsize_overflow :: "bsize_t" where
  "bsize_overflow = \<lparr>is_overflow = True, bvalue = 0\<rparr>"

definition bsize_tosize :: "bsize_t \<Rightarrow> nat option" where
  "bsize_tosize s = (if is_overflow s then None else Some (bvalue s))"

definition bsize_toint :: "bsize_t \<Rightarrow> int option" where
  "bsize_toint s = (if is_overflow s \<or> int (bvalue s) > INT_MAX then None else Some (int (bvalue s)))"

definition bsize_add :: "nat \<Rightarrow> bsize_t \<Rightarrow> bsize_t \<Rightarrow> bsize_t" where
  "bsize_add size_max s1 s2 =
     \<lparr>is_overflow = (is_overflow s1 \<or> is_overflow s2 \<or> bvalue s2 > size_max - bvalue s1),
      bvalue = (bvalue s1 + bvalue s2) mod (size_max + 1)\<rparr>"

definition bsize_max :: "bsize_t \<Rightarrow> bsize_t \<Rightarrow> bsize_t" where
  "bsize_max s1 s2 =
     \<lparr>is_overflow = (is_overflow s1 \<or> is_overflow s2),
      bvalue = of_bool (bvalue s1 > bvalue s2) * bvalue s1 + of_bool (bvalue s1 \<le> bvalue s2) * bvalue s2\<rparr>"

definition bsize_mul :: "nat \<Rightarrow> bsize_t \<Rightarrow> bsize_t \<Rightarrow> bsize_t" where
  "bsize_mul size_max s1 s2 =
     \<lparr>is_overflow = (is_overflow s1 \<or> is_overflow s2 \<or>
        (bvalue s1 \<noteq> 0 \<and> bvalue s2 > size_max div bvalue s1)),
      bvalue = (bvalue s1 * bvalue s2) mod (size_max + 1)\<rparr>"

text \<open>
  \<open>denotes size_max s n\<close>: the checked size \<open>s\<close> is a value of the type and carries the
  mathematical value \<open>n\<close>, or it is marked as overflown. The operations are exact in this sense:
  a result that is not marked is the result in \<open>nat\<close>, and it is marked only if an operand was or
  the exact result does not fit.
\<close>

definition denotes :: "nat \<Rightarrow> bsize_t \<Rightarrow> nat \<Rightarrow> bool" where
  "denotes size_max s n \<longleftrightarrow> \<not> is_overflow s \<and> bvalue s = n \<and> n \<le> size_max"

lemma denotes_fromsize: "v \<le> size_max \<Longrightarrow> denotes size_max (bsize_fromsize v) v"
  by (simp add: denotes_def bsize_fromsize_def)

lemma denotes_fromint:
  "0 \<le> v \<Longrightarrow> v \<le> int size_max \<Longrightarrow> denotes size_max (bsize_fromint size_max v) (nat v)"
  by (auto simp: denotes_def bsize_fromint_def Let_def nat_le_iff)

lemma denotes_add:
  "denotes size_max s m \<Longrightarrow> denotes size_max t n \<Longrightarrow>
   (if m + n \<le> size_max then denotes size_max (bsize_add size_max s t) (m + n)
    else is_overflow (bsize_add size_max s t))"
  by (auto simp: denotes_def bsize_add_def)

lemma denotes_max:
  "denotes size_max s m \<Longrightarrow> denotes size_max t n \<Longrightarrow> denotes size_max (bsize_max s t) (max m n)"
  by (auto simp: denotes_def bsize_max_def max_def)

lemma denotes_mul:
  assumes "denotes size_max s m" "denotes size_max t n"
  shows "if m * n \<le> size_max then denotes size_max (bsize_mul size_max s t) (m * n)
         else is_overflow (bsize_mul size_max s t)"
proof (cases "m = 0")
  case True
  with assms show ?thesis by (auto simp: denotes_def bsize_mul_def)
next
  case False
  then have "n > size_max div m \<longleftrightarrow> m * n > size_max"
    by (simp add: div_less_iff_less_mult mult.commute)
  with False assms show ?thesis by (auto simp: denotes_def bsize_mul_def not_less)
qed

lemma toint_denotes:
  "denotes size_max s n \<Longrightarrow> bsize_toint s = (if int n \<le> INT_MAX then Some (int n) else None)"
  by (auto simp: denotes_def bsize_toint_def)

subsection \<open>Rounding\<close>

text \<open>
  The arguments and results are values of \<open>size_t\<close>. \<open>bdivide_up\<close> adds one only where the
  remainder is not zero, so its result never exceeds the type.
\<close>

definition balign_up_overflows :: "nat \<Rightarrow> nat \<Rightarrow> nat \<Rightarrow> bool" where
  "balign_up_overflows size_max x n = (let r = x mod n in r \<noteq> 0 \<and> x > size_max - (n - r))"

definition balign_up :: "nat \<Rightarrow> nat \<Rightarrow> nat \<Rightarrow> nat" where
  "balign_up size_max x n = (let r = x mod n in if r \<noteq> 0 then (x + (n - r)) mod (size_max + 1) else x)"

definition balign_down :: "nat \<Rightarrow> nat \<Rightarrow> nat" where
  "balign_down x n = x - x mod n"

definition bdivide_up :: "nat \<Rightarrow> nat \<Rightarrow> nat" where
  "bdivide_up a b = (let r = a mod b in if r > 0 then a div b + 1 else a div b)"

lemma bdivide_up_le_iff:
  assumes "0 < b"
  shows "bdivide_up a b \<le> k \<longleftrightarrow> a \<le> k * b"
proof -
  have e: "a div b * b + a mod b = a" by simp
  have q1: "a div b + 1 \<le> k \<longleftrightarrow> a < k * b"
    using assms by (simp add: div_less_iff_less_mult flip: less_eq_Suc_le)
  show ?thesis
  proof (cases "a mod b = 0")
    case True
    then have "a = a div b * b" using e by simp
    then have "a \<le> k * b \<longleftrightarrow> a div b \<le> k" using assms by (metis mult_le_cancel2)
    with True show ?thesis by (simp add: bdivide_up_def)
  next
    case False
    then have "a \<noteq> k * b" by auto
    with False q1 show ?thesis by (auto simp: bdivide_up_def Let_def)
  qed
qed

lemma bdivide_up_bound: "0 < b \<Longrightarrow> a \<le> bdivide_up a b * b"
  using bdivide_up_le_iff [of b a "bdivide_up a b"] by simp

lemma bdivide_up_mono: "0 < b \<Longrightarrow> a \<le> c \<Longrightarrow> bdivide_up a b \<le> bdivide_up c b"
  using bdivide_up_bound [of b c] by (simp add: bdivide_up_le_iff)

lemma balign_up_correct:
  assumes "0 < n" and "n \<le> size_max" and "\<not> balign_up_overflows size_max x n"
  shows "balign_up size_max x n = bdivide_up x n * n"
proof -
  have e: "x = x div n * n + x mod n" by simp
  have r: "x mod n < n" using assms by simp
  show ?thesis
  proof (cases "x mod n = 0")
    case True
    then show ?thesis by (auto simp: balign_up_def bdivide_up_def Let_def)
  next
    case False
    with assms have "x + (n - x mod n) \<le> size_max"
      unfolding balign_up_overflows_def Let_def by linarith
    moreover have "x + (n - x mod n) = (x div n + 1) * n"
      using e r by (simp only: add_mult_distrib mult_1)
    ultimately show ?thesis using False by (simp add: balign_up_def bdivide_up_def Let_def)
  qed
qed

subsection \<open>Three-way comparison\<close>

definition B_COMPARE :: "'a::linorder \<Rightarrow> 'a \<Rightarrow> int" where
  "B_COMPARE a b = of_bool (a > b) - of_bool (a < b)"

text \<open>
  The comment on \<open>BAVL_comparator\<close> states what the trees need of a comparison function: its
  results are \<open>-1\<close>, \<open>0\<close> and \<open>1\<close>, and the relation it defines is a total order on the values.
  The locale is that contract, on the values that satisfy \<open>ok\<close>.
\<close>

locale comparator =
  fixes cmp :: "'k \<Rightarrow> 'k \<Rightarrow> int" and ok :: "'k \<Rightarrow> bool"
  assumes cmp_range: "ok a \<Longrightarrow> ok b \<Longrightarrow> cmp a b \<in> {-1, 0, 1}"
    and cmp_eq: "ok a \<Longrightarrow> ok b \<Longrightarrow> cmp a b = 0 \<longleftrightarrow> a = b"
    and cmp_anti: "ok a \<Longrightarrow> ok b \<Longrightarrow> cmp a b = - cmp b a"
    and cmp_trans: "ok a \<Longrightarrow> ok b \<Longrightarrow> ok c \<Longrightarrow> cmp a b = -1 \<Longrightarrow> cmp b c = -1 \<Longrightarrow> cmp a c = -1"
begin

lemma cmp_self: "ok a \<Longrightarrow> cmp a a = 0"
  by (simp add: cmp_eq)

lemma cmp_gt: "ok a \<Longrightarrow> ok b \<Longrightarrow> cmp a b = 1 \<longleftrightarrow> cmp b a = -1"
  using cmp_anti [of a b] by auto

lemma cmp_cases:
  assumes "ok a" "ok b"
  obtains "cmp a b = -1" "a \<noteq> b" | "a = b" "cmp a b = 0" | "cmp a b = 1" "a \<noteq> b"
  using cmp_range [OF assms] cmp_eq [OF assms] by auto

lemma cmp_asym: "ok a \<Longrightarrow> ok b \<Longrightarrow> cmp a b = -1 \<Longrightarrow> cmp b a \<noteq> -1"
  using cmp_anti [of a b] by auto

end

lemma B_COMPARE_simps [simp]:
  "B_COMPARE a b = 0 \<longleftrightarrow> a = b" "B_COMPARE a b = -1 \<longleftrightarrow> a < b" "B_COMPARE a b = 1 \<longleftrightarrow> b < a"
  "B_COMPARE a a = 0"
  by (auto simp: B_COMPARE_def)

lemma B_COMPARE_anti: "B_COMPARE a b = - B_COMPARE b a"
  by (simp add: B_COMPARE_def)

lemma B_COMPARE_range: "B_COMPARE a b \<in> {-1, 0, 1}"
  by (cases a b rule: linorder_cases) (auto simp: B_COMPARE_def)

interpretation b_compare: comparator "B_COMPARE :: 'a::linorder \<Rightarrow> 'a \<Rightarrow> int" "\<lambda>_. True"
  by unfold_locales (use B_COMPARE_range in \<open>auto intro: B_COMPARE_anti\<close>)

text \<open>
  The comparison functions of the sources compare a first key and, where that is equal, a second
  one: \<open>int cmp = ...; if (cmp) return cmp; return ...\<close>.
\<close>

definition B_COMPARE_COMBINE :: "int \<Rightarrow> int \<Rightarrow> int" where
  "B_COMPARE_COMBINE c d = (if c \<noteq> 0 then c else d)"

lemma comparator_lex:
  assumes "comparator c1 ok1" and "comparator c2 ok2"
  shows "comparator (\<lambda>(a, b) (a', b'). B_COMPARE_COMBINE (c1 a a') (c2 b b')) (\<lambda>(a, b). ok1 a \<and> ok2 b)"
proof -
  note c1 = comparator.cmp_range [OF assms(1)] comparator.cmp_eq [OF assms(1)]
    comparator.cmp_anti [OF assms(1)] comparator.cmp_trans [OF assms(1)]
  note c2 = comparator.cmp_range [OF assms(2)] comparator.cmp_eq [OF assms(2)]
    comparator.cmp_anti [OF assms(2)] comparator.cmp_trans [OF assms(2)]
  show ?thesis
  proof (unfold_locales, goal_cases)
    case (1 a b)
    then show ?case using c1(1) c2(1) by (auto simp: B_COMPARE_COMBINE_def split: prod.splits)
  next
    case (2 a b)
    then show ?case using c1(2) c2(2) by (auto simp: B_COMPARE_COMBINE_def split: prod.splits)
  next
    case (3 a b)
    then show ?case
      by (auto simp: B_COMPARE_COMBINE_def c1(2) c2(2) split: prod.splits) (metis c1(2,3) c2(3) neg_equal_0_iff_equal)+
  next
    case (4 a b c)
    then show ?case
      by (auto simp: B_COMPARE_COMBINE_def c1(2) split: prod.splits if_splits) (metis c1(2,4) c2(4) zero_neq_neg_one)+
  qed
qed

end
