(* ===== verification/Pending.thy ===== *)
theory Pending
  imports Prelude
begin

section \<open>Pending jobs\<close>

text \<open>
  \<open>base/BPending.c\<close>: a group of jobs that are executed one at a time, the most recently set job
  first, and \<open>BReactor_Synchronize\<close> of \<open>system/BReactor_badvpn.c\<close>, which runs jobs until a
  given one is on top. A job (\<open>BSmallPending\<close>, or \<open>BPending\<close>, which only remembers its group)
  is named by its address; the group holds the list of set jobs and, for every initialised job,
  its handler. The type \<open>'h\<close> of handlers stands for the pair of a function pointer and its
  \<open>user\<close> argument; executing a job hands the handler to the caller, who runs it.
\<close>

type_synonym job = nat

record 'h BPendingGroup =
  jobs :: "job list"
  handler :: "job \<rightharpoonup> 'h"

definition BPendingGroup_Init :: "'h BPendingGroup" where
  "BPendingGroup_Init = \<lparr>jobs = [], handler = Map.empty\<rparr>"

definition BPendingGroup_Free :: "'h BPendingGroup \<Rightarrow> unit option" where
  "BPendingGroup_Free g = ASSERT (jobs g = [])"

definition BPendingGroup_HasJobs :: "'h BPendingGroup \<Rightarrow> bool" where
  "BPendingGroup_HasJobs g = (jobs g \<noteq> [])"

definition BPendingGroup_PeekJob :: "'h BPendingGroup \<Rightarrow> job option" where
  "BPendingGroup_PeekJob g = (case jobs g of [] \<Rightarrow> None | p # _ \<Rightarrow> Some p)"

definition BPendingGroup_ExecuteJob :: "'h BPendingGroup \<Rightarrow> ('h \<times> 'h BPendingGroup) option" where
  "BPendingGroup_ExecuteJob g =
     (case jobs g of
        [] \<Rightarrow> None
      | p # ps \<Rightarrow> handler g p \<bind> (\<lambda>h. Some (h, g\<lparr>jobs := ps\<rparr>)))"

definition BSmallPending_IsSet :: "job \<Rightarrow> 'h BPendingGroup \<Rightarrow> bool" where
  "BSmallPending_IsSet p g = (p \<in> set (jobs g))"

definition BSmallPending_Init :: "job \<Rightarrow> 'h \<Rightarrow> 'h BPendingGroup \<Rightarrow> 'h BPendingGroup" where
  "BSmallPending_Init p h g = g\<lparr>handler := (handler g)(p \<mapsto> h)\<rparr>"

definition BSmallPending_Free :: "job \<Rightarrow> 'h BPendingGroup \<Rightarrow> 'h BPendingGroup" where
  "BSmallPending_Free p g =
     (let g' = (if BSmallPending_IsSet p g then g\<lparr>jobs := remove1 p (jobs g)\<rparr> else g)
      in g'\<lparr>handler := (handler g')(p := None)\<rparr>)"

definition BSmallPending_SetHandler :: "job \<Rightarrow> 'h \<Rightarrow> 'h BPendingGroup \<Rightarrow> 'h BPendingGroup" where
  "BSmallPending_SetHandler p h g = g\<lparr>handler := (handler g)(p \<mapsto> h)\<rparr>"

definition BSmallPending_Set :: "job \<Rightarrow> 'h BPendingGroup \<Rightarrow> 'h BPendingGroup" where
  "BSmallPending_Set p g =
     (let g' = (if BSmallPending_IsSet p g then g\<lparr>jobs := remove1 p (jobs g)\<rparr> else g)
      in g'\<lparr>jobs := p # jobs g'\<rparr>)"

definition BSmallPending_Unset :: "job \<Rightarrow> 'h BPendingGroup \<Rightarrow> 'h BPendingGroup" where
  "BSmallPending_Unset p g =
     (if BSmallPending_IsSet p g then g\<lparr>jobs := remove1 p (jobs g)\<rparr> else g)"

definition BPending_Init :: "job \<Rightarrow> 'h \<Rightarrow> 'h BPendingGroup \<Rightarrow> 'h BPendingGroup" where
  "BPending_Init p h g = BSmallPending_Init p h g"

definition BPending_Free :: "job \<Rightarrow> 'h BPendingGroup \<Rightarrow> 'h BPendingGroup" where
  "BPending_Free p g = BSmallPending_Free p g"

definition BPending_Set :: "job \<Rightarrow> 'h BPendingGroup \<Rightarrow> 'h BPendingGroup" where
  "BPending_Set p g = BSmallPending_Set p g"

definition BPending_Unset :: "job \<Rightarrow> 'h BPendingGroup \<Rightarrow> 'h BPendingGroup" where
  "BPending_Unset p g = BSmallPending_Unset p g"

definition BPending_IsSet :: "job \<Rightarrow> 'h BPendingGroup \<Rightarrow> bool" where
  "BPending_IsSet p g = BSmallPending_IsSet p g"

text \<open>
  \<open>BReactor_Synchronize\<close> runs handlers, which may change the rest of the program's state
  (type \<open>'s\<close>, with the flag \<open>exiting\<close> read by the loop) and the group. \<open>run\<close> is the effect of a
  handler. The loop may run forever; the fuel bounds the number of jobs it executes, and running
  out of fuel or failing an assertion is \<open>None\<close>.
\<close>

fun BReactor_Synchronize ::
  "('h \<Rightarrow> 's \<times> 'h BPendingGroup \<Rightarrow> 's \<times> 'h BPendingGroup) \<Rightarrow> ('s \<Rightarrow> bool) \<Rightarrow> job \<Rightarrow> nat \<Rightarrow>
   's \<times> 'h BPendingGroup \<Rightarrow> (bool \<times> 's \<times> 'h BPendingGroup) option" where
  "BReactor_Synchronize run exiting ref fuel (s, g) =
     (if exiting s then Some (False, s, g)
      else case fuel of
        0 \<Rightarrow> None
      | Suc fuel' \<Rightarrow>
          do {
            ASSERT (BPendingGroup_HasJobs g);
            if BPendingGroup_PeekJob g = Some ref then Some (True, s, g)
            else do {
              (h, g') \<leftarrow> BPendingGroup_ExecuteJob g;
              BReactor_Synchronize run exiting ref fuel' (run h (s, g'))
            }
          })"

subsection \<open>Invariant\<close>

definition pending_ok :: "'h BPendingGroup \<Rightarrow> bool" where
  "pending_ok g \<longleftrightarrow> distinct (jobs g) \<and> set (jobs g) \<subseteq> dom (handler g)"

lemmas pending_defs = BSmallPending_IsSet_def BSmallPending_Init_def BSmallPending_Free_def
  BSmallPending_SetHandler_def BSmallPending_Set_def BSmallPending_Unset_def
  BPendingGroup_Init_def BPendingGroup_HasJobs_def BPendingGroup_PeekJob_def
  BPendingGroup_ExecuteJob_def
  BPending_Init_def BPending_Free_def BPending_Set_def BPending_Unset_def BPending_IsSet_def

lemma jobs_Set: "jobs (BSmallPending_Set p g) = p # remove1 p (jobs g)"
  by (simp add: pending_defs Let_def remove1_idem)

lemma jobs_Unset: "jobs (BSmallPending_Unset p g) = remove1 p (jobs g)"
  by (simp add: pending_defs remove1_idem)

lemma handler_Set [simp]:
  "handler (BSmallPending_Set p g) = handler g" "handler (BSmallPending_Unset p g) = handler g"
  by (simp_all add: pending_defs Let_def)

lemma pending_ok_Init: "pending_ok BPendingGroup_Init"
  by (simp add: pending_ok_def pending_defs)

lemma pending_ok_Set: "pending_ok g \<Longrightarrow> p \<in> dom (handler g) \<Longrightarrow> pending_ok (BSmallPending_Set p g)"
  by (auto simp: pending_ok_def jobs_Set)

lemma pending_ok_Set_iff [simp]: "pending_ok g \<Longrightarrow> pending_ok (BSmallPending_Set p g) \<longleftrightarrow> handler g p \<noteq> None"
  by (auto simp: pending_ok_def jobs_Set)

lemma pending_ok_Unset [simp]: "pending_ok g \<Longrightarrow> pending_ok (BSmallPending_Unset p g)"
  by (auto simp: pending_ok_def jobs_Unset)

lemma pending_ok_handler:
  "pending_ok g \<Longrightarrow> pending_ok (BSmallPending_Init p h g)"
  "pending_ok g \<Longrightarrow> pending_ok (BSmallPending_SetHandler p h g)"
  by (auto simp: pending_ok_def pending_defs)

lemma pending_ok_Free: "pending_ok g \<Longrightarrow> pending_ok (BSmallPending_Free p g)"
  by (auto simp: pending_ok_def pending_defs Let_def)

lemma pending_ok_Execute:
  assumes "pending_ok g" and "jobs g = p # ps"
  obtains h where "handler g p = Some h" "BPendingGroup_ExecuteJob g = Some (h, g\<lparr>jobs := ps\<rparr>)"
    "pending_ok (g\<lparr>jobs := ps\<rparr>)"
  using assms by (auto simp: pending_ok_def BPendingGroup_ExecuteJob_def)

lemmas pending_ok_rules = pending_ok_Init pending_ok_Set pending_ok_Unset pending_ok_handler pending_ok_Free

lemma IsSet_Set [simp]: "BSmallPending_IsSet q (BSmallPending_Set p g) \<longleftrightarrow> q = p \<or> BSmallPending_IsSet q g"
  by (cases "q = p") (simp_all add: BSmallPending_IsSet_def jobs_Set in_set_remove1)

lemma IsSet_Unset [simp]:
  "pending_ok g \<Longrightarrow> BSmallPending_IsSet q (BSmallPending_Unset p g) \<longleftrightarrow> q \<noteq> p \<and> BSmallPending_IsSet q g"
  by (auto simp: BSmallPending_IsSet_def jobs_Unset pending_ok_def)

subsection \<open>Execution order\<close>

text \<open>
  Jobs run last-in first-out and once per \<open>Set\<close>. In a group in its invariant, a job that was
  just set is the next one executed, with its own handler; executing it leaves the other set jobs
  in their order, the job itself not set, and the group in its invariant.
\<close>

theorem Set_runs_next:
  assumes "pending_ok g" and "handler g p = Some h"
  shows "\<exists>g'. BPendingGroup_ExecuteJob (BSmallPending_Set p g) = Some (h, g')
           \<and> jobs g' = filter (\<lambda>q. q \<noteq> p) (jobs g)
           \<and> \<not> BSmallPending_IsSet p g' \<and> handler g' = handler g \<and> pending_ok g'"
proof -
  have d: "distinct (jobs g)" "set (jobs g) \<subseteq> dom (handler g)"
    using assms(1) by (auto simp: pending_ok_def)
  have r: "remove1 p (jobs g) = filter (\<lambda>q. q \<noteq> p) (jobs g)"
    using d(1) by (simp add: distinct_remove1_removeAll removeAll_filter_not_eq neq_commute [of p])
  show ?thesis using assms(2) d
    by (auto simp: BPendingGroup_ExecuteJob_def jobs_Set r BSmallPending_IsSet_def pending_ok_def)
qed

theorem Set_runs_next_witness:
  "let g = \<lparr>jobs = [2, 1], handler = [1 \<mapsto> ''a'', 2 \<mapsto> ''b'', 3 \<mapsto> ''c'']\<rparr> in
   \<exists>g'. BPendingGroup_ExecuteJob (BSmallPending_Set 1 g) = Some (''a'', g') \<and> jobs g' = [2]"
  using Set_runs_next [of "\<lparr>jobs = [2, 1], handler = [1 \<mapsto> ''a'', 2 \<mapsto> ''b'', 3 \<mapsto> ''c'']\<rparr>" 1 "''a''"]
  by (auto simp: pending_ok_def)

text \<open>What \<open>Synchronize\<close> needs of the handlers it may run while \<open>base\<close> is at the bottom of the
  list: a handler keeps \<open>base\<close> where it is, and the work that is left above it goes down.\<close>

definition keeps_base ::
  "('h \<Rightarrow> 's \<times> 'h BPendingGroup \<Rightarrow> 's \<times> 'h BPendingGroup) \<Rightarrow> ('s \<Rightarrow> job list \<Rightarrow> nat) \<Rightarrow> job list \<Rightarrow> bool"
where
  "keeps_base run work base \<longleftrightarrow>
     (\<forall>s g p h xs. pending_ok g \<and> jobs g = p # xs @ base \<and> handler g p = Some h \<longrightarrow>
        (\<exists>s' g' ys. run h (s, g\<lparr>jobs := xs @ base\<rparr>) = (s', g') \<and> pending_ok g' \<and> jobs g' = ys @ base
                     \<and> work s' ys < work s (p # xs)))"

lemma Synchronize_runs:
  assumes "keeps_base run work (ref # lower)" and "pending_ok g"
    and "jobs g = upper @ ref # lower" and "work s upper < fuel"
  shows "\<exists>r s' g'. BReactor_Synchronize run exiting ref fuel (s, g) = Some (r, s', g')
           \<and> pending_ok g' \<and> (if r then jobs g' = ref # lower else exiting s')"
  using assms(2-)
proof (induction fuel arbitrary: s g upper)
  case 0
  then show ?case by simp
next
  case (Suc fuel)
  show ?case
  proof (cases "exiting s \<or> upper = []")
    case True
    with Suc.prems show ?thesis
      by (auto simp: BPendingGroup_HasJobs_def BPendingGroup_PeekJob_def)
  next
    case False
    then obtain p xs where a: "upper = p # xs" by (cases upper) auto
    have ne: "p \<noteq> ref" using Suc.prems(1,2) by (auto simp: a pending_ok_def)
    obtain h where h: "handler g p = Some h"
      and e: "BPendingGroup_ExecuteJob g = Some (h, g\<lparr>jobs := xs @ ref # lower\<rparr>)"
      using pending_ok_Execute [OF Suc.prems(1), of p "xs @ ref # lower"] Suc.prems(2) a by auto
    have j: "jobs g = p # xs @ ref # lower" using Suc.prems(2) a by simp
    obtain s' g' ys where r: "run h (s, g\<lparr>jobs := xs @ ref # lower\<rparr>) = (s', g')" "pending_ok g'"
      "jobs g' = ys @ ref # lower" "work s' ys < work s (p # xs)"
      using assms(1) Suc.prems(1) h j unfolding keeps_base_def by blast
    then have "work s' ys < fuel" using Suc.prems(3) a by simp
    from Suc.IH [OF r(2,3) this] show ?thesis
      using False ne Suc.prems(2) e r(1)
      by (simp add: BPendingGroup_HasJobs_def BPendingGroup_PeekJob_def a)
  qed
qed


text \<open>A concrete handler effect: the handler \<open>True\<close> sets job 3 while a budget lasts, the handler
  \<open>False\<close> does nothing.\<close>

definition run_spawn :: "bool \<Rightarrow> nat \<times> bool BPendingGroup \<Rightarrow> nat \<times> bool BPendingGroup" where
  "run_spawn h = (\<lambda>(s, g). if h \<and> s > 0 \<and> handler g 3 \<noteq> None then (s - 1, BSmallPending_Set 3 g) else (s, g))"

definition work_spawn :: "nat \<Rightarrow> job list \<Rightarrow> nat" where
  "work_spawn s xs = 2 * s + length xs"

lemma keeps_base_spawn: "keeps_base run_spawn work_spawn [2]"
  unfolding keeps_base_def
proof (intro allI impI, elim conjE)
  fix s :: nat and g :: "bool BPendingGroup" and p h xs
  assume g: "pending_ok g" "jobs g = p # xs @ [2]" "handler g p = Some h"
  have ok: "pending_ok (g\<lparr>jobs := xs @ [2]\<rparr>)" using g by (auto simp: pending_ok_def)
  have j: "jobs (BSmallPending_Set 3 (g\<lparr>jobs := xs @ [2]\<rparr>)) = (3 # remove1 3 xs) @ [2]"
    by (simp add: jobs_Set remove1_append remove1_idem)
  have l: "length (remove1 3 xs) \<le> length xs" by (simp add: length_remove1)
  show "\<exists>s' g' ys. run_spawn h (s, g\<lparr>jobs := xs @ [2]\<rparr>) = (s', g') \<and> pending_ok g' \<and> jobs g' = ys @ [2]
          \<and> work_spawn s' ys < work_spawn s (p # xs)"
  proof (cases "h \<and> s > 0 \<and> handler g 3 \<noteq> None")
    case True
    then have "work_spawn (s - 1) (3 # remove1 3 xs) < work_spawn s (p # xs)"
      using l by (cases s) (auto simp: work_spawn_def)
    moreover have "pending_ok (BSmallPending_Set 3 (g\<lparr>jobs := xs @ [2]\<rparr>))"
      using True ok by (intro pending_ok_Set) auto
    ultimately show ?thesis using True j by (auto simp: run_spawn_def)
  next
    case False
    then show ?thesis using ok by (auto simp: run_spawn_def work_spawn_def)
  qed
qed


end
