(* ===== verification/Flow_Interfaces.thy ===== *)
theory Flow_Interfaces
  imports Pending
begin

section \<open>The interfaces between flow components\<close>

text \<open>
  \<open>flow/PacketPassInterface\<close>, \<open>flow/StreamPassInterface\<close>, \<open>flow/PacketRecvInterface\<close> and
  \<open>flow/StreamRecvInterface\<close>. An interface connects a user, who starts an operation (\<open>Send\<close>,
  \<open>Recv\<close>), with a provider, who carries it out and reports it with \<open>Done\<close>. Neither side calls the
  other directly: each call sets a job of the pending group, and the job calls the handler.

  Handlers are values of an arbitrary type \<open>'h\<close>; a job that calls a handler returns the call.
  The data of the pass interfaces is the byte list a pointer and a length denote. For the receive
  interfaces it is the destination the provider writes to, a value of type \<open>nat\<close>. The jobs of an
  interface are named by their addresses; \<open>mk\<close> is the handler value that a job of the interface
  has in the pending group.
\<close>

datatype interface_state = STATE_NONE | STATE_OPERATION_PENDING | STATE_BUSY | STATE_DONE_PENDING

datatype interface_job = Job_operation | Job_requestcancel | Job_done

subsection \<open>PacketPassInterface\<close>

record 'h PacketPassInterface =
  ppi_mtu :: int
  ppi_handler_operation :: 'h
  ppi_handler_requestcancel :: "'h option"
  ppi_handler_done :: "'h option"
  ppi_job_operation :: job
  ppi_job_operation_data :: bytes
  ppi_job_requestcancel :: job
  ppi_job_done :: job
  ppi_state :: interface_state
  ppi_cancel_requested :: bool

datatype 'h ppi_call = Call_send 'h bytes | Call_requestcancel 'h | Call_done 'h

definition PacketPassInterface_Init ::
  "(interface_job \<Rightarrow> 'j) \<Rightarrow> job \<Rightarrow> job \<Rightarrow> job \<Rightarrow> int \<Rightarrow> 'h \<Rightarrow> 'j BPendingGroup \<Rightarrow>
   ('h PacketPassInterface \<times> 'j BPendingGroup) option" where
  "PacketPassInterface_Init mk p_operation p_requestcancel p_done mtu h pg = do {
     ASSERT (mtu \<ge> 0);
     let pg = BPending_Init p_operation (mk Job_operation) pg;
     let pg = BPending_Init p_requestcancel (mk Job_requestcancel) pg;
     let pg = BPending_Init p_done (mk Job_done) pg;
     Some (\<lparr>ppi_mtu = mtu, ppi_handler_operation = h, ppi_handler_requestcancel = None,
            ppi_handler_done = None, ppi_job_operation = p_operation, ppi_job_operation_data = [],
            ppi_job_requestcancel = p_requestcancel, ppi_job_done = p_done,
            ppi_state = STATE_NONE, ppi_cancel_requested = False\<rparr>, pg) }"

definition PacketPassInterface_Free ::
  "'h PacketPassInterface \<Rightarrow> 'j BPendingGroup \<Rightarrow> 'j BPendingGroup" where
  "PacketPassInterface_Free i pg =
     BPending_Free (ppi_job_operation i)
       (BPending_Free (ppi_job_requestcancel i) (BPending_Free (ppi_job_done i) pg))"

definition PacketPassInterface_EnableCancel ::
  "'h PacketPassInterface \<Rightarrow> 'h \<Rightarrow> 'h PacketPassInterface option" where
  "PacketPassInterface_EnableCancel i h = do {
     ASSERT (ppi_handler_requestcancel i = None);
     ASSERT (ppi_handler_done i = None);
     Some (i\<lparr>ppi_handler_requestcancel := Some h\<rparr>) }"

definition PacketPassInterface_Done ::
  "'h PacketPassInterface \<Rightarrow> 'j BPendingGroup \<Rightarrow> ('h PacketPassInterface \<times> 'j BPendingGroup) option" where
  "PacketPassInterface_Done i pg = do {
     ASSERT (ppi_state i = STATE_BUSY);
     let pg = BPending_Unset (ppi_job_requestcancel i) pg;
     let pg = BPending_Set (ppi_job_done i) pg;
     Some (i\<lparr>ppi_state := STATE_DONE_PENDING\<rparr>, pg) }"

definition PacketPassInterface_GetMTU :: "'h PacketPassInterface \<Rightarrow> int" where
  "PacketPassInterface_GetMTU i = ppi_mtu i"

definition PacketPassInterface_Sender_Init ::
  "'h PacketPassInterface \<Rightarrow> 'h \<Rightarrow> 'h PacketPassInterface option" where
  "PacketPassInterface_Sender_Init i h = do {
     ASSERT (ppi_handler_done i = None);
     Some (i\<lparr>ppi_handler_done := Some h\<rparr>) }"

definition PacketPassInterface_Sender_Send ::
  "'h PacketPassInterface \<Rightarrow> bytes \<Rightarrow> 'j BPendingGroup \<Rightarrow>
   ('h PacketPassInterface \<times> 'j BPendingGroup) option" where
  "PacketPassInterface_Sender_Send i data pg = do {
     ASSERT (int (length data) \<le> ppi_mtu i);
     ASSERT (ppi_state i = STATE_NONE);
     ASSERT (ppi_handler_done i \<noteq> None);
     let i = i\<lparr>ppi_job_operation_data := data\<rparr>;
     let pg = BPending_Set (ppi_job_operation i) pg;
     Some (i\<lparr>ppi_state := STATE_OPERATION_PENDING, ppi_cancel_requested := False\<rparr>, pg) }"

definition PacketPassInterface_Sender_RequestCancel ::
  "'h PacketPassInterface \<Rightarrow> 'j BPendingGroup \<Rightarrow> ('h PacketPassInterface \<times> 'j BPendingGroup) option" where
  "PacketPassInterface_Sender_RequestCancel i pg = do {
     ASSERT (ppi_state i = STATE_OPERATION_PENDING \<or> ppi_state i = STATE_BUSY
             \<or> ppi_state i = STATE_DONE_PENDING);
     ASSERT (ppi_handler_requestcancel i \<noteq> None);
     if ppi_cancel_requested i then Some (i, pg)
     else let i = i\<lparr>ppi_cancel_requested := True\<rparr> in
       if ppi_state i = STATE_OPERATION_PENDING then
         let pg = BPending_Unset (ppi_job_operation i) pg;
             pg = BPending_Set (ppi_job_done i) pg
         in Some (i\<lparr>ppi_state := STATE_DONE_PENDING\<rparr>, pg)
       else if ppi_state i = STATE_BUSY then
         Some (i, BPending_Set (ppi_job_requestcancel i) pg)
       else Some (i, pg) }"

definition PacketPassInterface_HasCancel :: "'h PacketPassInterface \<Rightarrow> bool" where
  "PacketPassInterface_HasCancel i = (ppi_handler_requestcancel i \<noteq> None)"

definition PacketPassInterface_job_operation ::
  "'h PacketPassInterface \<Rightarrow> ('h PacketPassInterface \<times> 'h ppi_call) option" where
  "PacketPassInterface_job_operation i = do {
     ASSERT (ppi_state i = STATE_OPERATION_PENDING);
     let i = i\<lparr>ppi_state := STATE_BUSY\<rparr>;
     Some (i, Call_send (ppi_handler_operation i) (ppi_job_operation_data i)) }"

definition PacketPassInterface_job_requestcancel ::
  "'h PacketPassInterface \<Rightarrow> ('h PacketPassInterface \<times> 'h ppi_call) option" where
  "PacketPassInterface_job_requestcancel i = do {
     ASSERT (ppi_state i = STATE_BUSY);
     ASSERT (ppi_cancel_requested i);
     h \<leftarrow> ppi_handler_requestcancel i;
     Some (i, Call_requestcancel h) }"

definition PacketPassInterface_job_done ::
  "'h PacketPassInterface \<Rightarrow> ('h PacketPassInterface \<times> 'h ppi_call) option" where
  "PacketPassInterface_job_done i = do {
     ASSERT (ppi_state i = STATE_DONE_PENDING);
     let i = i\<lparr>ppi_state := STATE_NONE\<rparr>;
     h \<leftarrow> ppi_handler_done i;
     Some (i, Call_done h) }"

subsection \<open>StreamPassInterface\<close>

record 'h StreamPassInterface =
  spi_handler_operation :: 'h
  spi_handler_done :: "'h option"
  spi_job_operation :: job
  spi_job_operation_data :: bytes
  spi_job_done :: job
  spi_job_done_len :: int
  spi_state :: interface_state

datatype 'h spi_call = Spi_call_operation 'h bytes | Spi_call_done 'h int

definition StreamPassInterface_Init ::
  "(interface_job \<Rightarrow> 'j) \<Rightarrow> job \<Rightarrow> job \<Rightarrow> 'h \<Rightarrow> 'j BPendingGroup \<Rightarrow>
   ('h StreamPassInterface \<times> 'j BPendingGroup) option" where
  "StreamPassInterface_Init mk p_operation p_done h pg = do {
     let pg = BPending_Init p_operation (mk Job_operation) pg;
     let pg = BPending_Init p_done (mk Job_done) pg;
     Some (\<lparr>spi_handler_operation = h, spi_handler_done = None,
            spi_job_operation = p_operation, spi_job_operation_data = [],
            spi_job_done = p_done, spi_job_done_len = 0, spi_state = STATE_NONE\<rparr>, pg) }"

definition StreamPassInterface_Free ::
  "'h StreamPassInterface \<Rightarrow> 'j BPendingGroup \<Rightarrow> 'j BPendingGroup" where
  "StreamPassInterface_Free i pg = BPending_Free (spi_job_operation i) (BPending_Free (spi_job_done i) pg)"

definition StreamPassInterface_Done ::
  "'h StreamPassInterface \<Rightarrow> int \<Rightarrow> 'j BPendingGroup \<Rightarrow> ('h StreamPassInterface \<times> 'j BPendingGroup) option" where
  "StreamPassInterface_Done i data_len pg = do {
     ASSERT (spi_state i = STATE_BUSY);
     ASSERT (data_len > 0);
     ASSERT (data_len \<le> int (length (spi_job_operation_data i)));
     let i = i\<lparr>spi_job_done_len := data_len\<rparr>;
     let pg = BPending_Set (spi_job_done i) pg;
     Some (i\<lparr>spi_state := STATE_DONE_PENDING\<rparr>, pg) }"

definition StreamPassInterface_Sender_Init :: "'h StreamPassInterface \<Rightarrow> 'h \<Rightarrow> 'h StreamPassInterface option" where
  "StreamPassInterface_Sender_Init i h = do {
     ASSERT (spi_handler_done i = None);
     Some (i\<lparr>spi_handler_done := Some h\<rparr>) }"

definition StreamPassInterface_Sender_Send ::
  "'h StreamPassInterface \<Rightarrow> bytes \<Rightarrow> 'j BPendingGroup \<Rightarrow>
   ('h StreamPassInterface \<times> 'j BPendingGroup) option" where
  "StreamPassInterface_Sender_Send i data pg = do {
     ASSERT (length data > 0);
     ASSERT (spi_state i = STATE_NONE);
     ASSERT (spi_handler_done i \<noteq> None);
     let i = i\<lparr>spi_job_operation_data := data\<rparr>;
     let pg = BPending_Set (spi_job_operation i) pg;
     Some (i\<lparr>spi_state := STATE_OPERATION_PENDING\<rparr>, pg) }"

definition StreamPassInterface_job_operation ::
  "'h StreamPassInterface \<Rightarrow> ('h StreamPassInterface \<times> 'h spi_call) option" where
  "StreamPassInterface_job_operation i = do {
     ASSERT (spi_state i = STATE_OPERATION_PENDING);
     let i = i\<lparr>spi_state := STATE_BUSY\<rparr>;
     Some (i, Spi_call_operation (spi_handler_operation i) (spi_job_operation_data i)) }"

definition StreamPassInterface_job_done ::
  "'h StreamPassInterface \<Rightarrow> ('h StreamPassInterface \<times> 'h spi_call) option" where
  "StreamPassInterface_job_done i = do {
     ASSERT (spi_state i = STATE_DONE_PENDING);
     let i = i\<lparr>spi_state := STATE_NONE\<rparr>;
     h \<leftarrow> spi_handler_done i;
     Some (i, Spi_call_done h (spi_job_done_len i)) }"

subsection \<open>PacketRecvInterface\<close>

record 'h PacketRecvInterface =
  pri_mtu :: int
  pri_handler_operation :: 'h
  pri_handler_done :: "'h option"
  pri_job_operation :: job
  pri_job_operation_data :: nat
  pri_job_done :: job
  pri_job_done_len :: int
  pri_state :: interface_state

datatype 'h pri_call = Pri_call_operation 'h nat | Pri_call_done 'h int

definition PacketRecvInterface_Init ::
  "(interface_job \<Rightarrow> 'j) \<Rightarrow> job \<Rightarrow> job \<Rightarrow> int \<Rightarrow> 'h \<Rightarrow> 'j BPendingGroup \<Rightarrow>
   ('h PacketRecvInterface \<times> 'j BPendingGroup) option" where
  "PacketRecvInterface_Init mk p_operation p_done mtu h pg = do {
     ASSERT (mtu \<ge> 0);
     let pg = BPending_Init p_operation (mk Job_operation) pg;
     let pg = BPending_Init p_done (mk Job_done) pg;
     Some (\<lparr>pri_mtu = mtu, pri_handler_operation = h, pri_handler_done = None,
            pri_job_operation = p_operation, pri_job_operation_data = 0,
            pri_job_done = p_done, pri_job_done_len = 0, pri_state = STATE_NONE\<rparr>, pg) }"

definition PacketRecvInterface_Free ::
  "'h PacketRecvInterface \<Rightarrow> 'j BPendingGroup \<Rightarrow> 'j BPendingGroup" where
  "PacketRecvInterface_Free i pg = BPending_Free (pri_job_operation i) (BPending_Free (pri_job_done i) pg)"

definition PacketRecvInterface_Done ::
  "'h PacketRecvInterface \<Rightarrow> int \<Rightarrow> 'j BPendingGroup \<Rightarrow> ('h PacketRecvInterface \<times> 'j BPendingGroup) option" where
  "PacketRecvInterface_Done i data_len pg = do {
     ASSERT (pri_state i = STATE_BUSY);
     ASSERT (data_len \<ge> 0);
     ASSERT (data_len \<le> pri_mtu i);
     let i = i\<lparr>pri_job_done_len := data_len\<rparr>;
     let pg = BPending_Set (pri_job_done i) pg;
     Some (i\<lparr>pri_state := STATE_DONE_PENDING\<rparr>, pg) }"

definition PacketRecvInterface_GetMTU :: "'h PacketRecvInterface \<Rightarrow> int" where
  "PacketRecvInterface_GetMTU i = pri_mtu i"

definition PacketRecvInterface_Receiver_Init :: "'h PacketRecvInterface \<Rightarrow> 'h \<Rightarrow> 'h PacketRecvInterface option" where
  "PacketRecvInterface_Receiver_Init i h = do {
     ASSERT (pri_handler_done i = None);
     Some (i\<lparr>pri_handler_done := Some h\<rparr>) }"

definition PacketRecvInterface_Receiver_Recv ::
  "'h PacketRecvInterface \<Rightarrow> nat \<Rightarrow> 'j BPendingGroup \<Rightarrow>
   ('h PacketRecvInterface \<times> 'j BPendingGroup) option" where
  "PacketRecvInterface_Receiver_Recv i data pg = do {
     ASSERT (pri_state i = STATE_NONE);
     ASSERT (pri_handler_done i \<noteq> None);
     let i = i\<lparr>pri_job_operation_data := data\<rparr>;
     let pg = BPending_Set (pri_job_operation i) pg;
     Some (i\<lparr>pri_state := STATE_OPERATION_PENDING\<rparr>, pg) }"

definition PacketRecvInterface_job_operation ::
  "'h PacketRecvInterface \<Rightarrow> ('h PacketRecvInterface \<times> 'h pri_call) option" where
  "PacketRecvInterface_job_operation i = do {
     ASSERT (pri_state i = STATE_OPERATION_PENDING);
     let i = i\<lparr>pri_state := STATE_BUSY\<rparr>;
     Some (i, Pri_call_operation (pri_handler_operation i) (pri_job_operation_data i)) }"

definition PacketRecvInterface_job_done ::
  "'h PacketRecvInterface \<Rightarrow> ('h PacketRecvInterface \<times> 'h pri_call) option" where
  "PacketRecvInterface_job_done i = do {
     ASSERT (pri_state i = STATE_DONE_PENDING);
     let i = i\<lparr>pri_state := STATE_NONE\<rparr>;
     h \<leftarrow> pri_handler_done i;
     Some (i, Pri_call_done h (pri_job_done_len i)) }"

subsection \<open>StreamRecvInterface\<close>

record 'h StreamRecvInterface =
  sri_handler_operation :: 'h
  sri_handler_done :: "'h option"
  sri_job_operation :: job
  sri_job_operation_data :: nat
  sri_job_operation_len :: int
  sri_job_done :: job
  sri_job_done_len :: int
  sri_state :: interface_state

datatype 'h sri_call = Sri_call_operation 'h nat int | Sri_call_done 'h int

definition StreamRecvInterface_Init ::
  "(interface_job \<Rightarrow> 'j) \<Rightarrow> job \<Rightarrow> job \<Rightarrow> 'h \<Rightarrow> 'j BPendingGroup \<Rightarrow>
   ('h StreamRecvInterface \<times> 'j BPendingGroup) option" where
  "StreamRecvInterface_Init mk p_operation p_done h pg = do {
     let pg = BPending_Init p_operation (mk Job_operation) pg;
     let pg = BPending_Init p_done (mk Job_done) pg;
     Some (\<lparr>sri_handler_operation = h, sri_handler_done = None,
            sri_job_operation = p_operation, sri_job_operation_data = 0, sri_job_operation_len = 0,
            sri_job_done = p_done, sri_job_done_len = 0, sri_state = STATE_NONE\<rparr>, pg) }"

definition StreamRecvInterface_Free ::
  "'h StreamRecvInterface \<Rightarrow> 'j BPendingGroup \<Rightarrow> 'j BPendingGroup" where
  "StreamRecvInterface_Free i pg = BPending_Free (sri_job_operation i) (BPending_Free (sri_job_done i) pg)"

definition StreamRecvInterface_Done ::
  "'h StreamRecvInterface \<Rightarrow> int \<Rightarrow> 'j BPendingGroup \<Rightarrow> ('h StreamRecvInterface \<times> 'j BPendingGroup) option" where
  "StreamRecvInterface_Done i data_len pg = do {
     ASSERT (sri_state i = STATE_BUSY);
     ASSERT (data_len > 0);
     ASSERT (data_len \<le> sri_job_operation_len i);
     let i = i\<lparr>sri_job_done_len := data_len\<rparr>;
     let pg = BPending_Set (sri_job_done i) pg;
     Some (i\<lparr>sri_state := STATE_DONE_PENDING\<rparr>, pg) }"

definition StreamRecvInterface_Receiver_Init :: "'h StreamRecvInterface \<Rightarrow> 'h \<Rightarrow> 'h StreamRecvInterface option" where
  "StreamRecvInterface_Receiver_Init i h = do {
     ASSERT (sri_handler_done i = None);
     Some (i\<lparr>sri_handler_done := Some h\<rparr>) }"

definition StreamRecvInterface_Receiver_Recv ::
  "'h StreamRecvInterface \<Rightarrow> nat \<Rightarrow> int \<Rightarrow> 'j BPendingGroup \<Rightarrow>
   ('h StreamRecvInterface \<times> 'j BPendingGroup) option" where
  "StreamRecvInterface_Receiver_Recv i data data_len pg = do {
     ASSERT (data_len > 0);
     ASSERT (sri_state i = STATE_NONE);
     ASSERT (sri_handler_done i \<noteq> None);
     let i = i\<lparr>sri_job_operation_data := data, sri_job_operation_len := data_len\<rparr>;
     let pg = BPending_Set (sri_job_operation i) pg;
     Some (i\<lparr>sri_state := STATE_OPERATION_PENDING\<rparr>, pg) }"

definition StreamRecvInterface_job_operation ::
  "'h StreamRecvInterface \<Rightarrow> ('h StreamRecvInterface \<times> 'h sri_call) option" where
  "StreamRecvInterface_job_operation i = do {
     ASSERT (sri_state i = STATE_OPERATION_PENDING);
     let i = i\<lparr>sri_state := STATE_BUSY\<rparr>;
     Some (i, Sri_call_operation (sri_handler_operation i) (sri_job_operation_data i) (sri_job_operation_len i)) }"

definition StreamRecvInterface_job_done ::
  "'h StreamRecvInterface \<Rightarrow> ('h StreamRecvInterface \<times> 'h sri_call) option" where
  "StreamRecvInterface_job_done i = do {
     ASSERT (sri_state i = STATE_DONE_PENDING);
     let i = i\<lparr>sri_state := STATE_NONE\<rparr>;
     h \<leftarrow> sri_handler_done i;
     Some (i, Sri_call_done h (sri_job_done_len i)) }"

subsection \<open>The protocol that the four interfaces implement\<close>

text \<open>
  The specification forgets the jobs: an operation is started, its handler is called with the
  data, it is finished with a result, and the done handler is called with that result. A cancel
  request may end an operation whose handler was not called yet.
\<close>

record 'd protocol =
  phase :: interface_state
  payload :: 'd
  outcome :: int

datatype 'd interface_label =
    Started 'd | Operation_called 'd | Finished int | Done_called int
  | Cancel_requested | Cancel_called | Env

inductive protocol_step :: "'d protocol \<Rightarrow> 'd interface_label \<Rightarrow> 'd protocol \<Rightarrow> bool" where
  "phase a = STATE_NONE \<Longrightarrow>
     protocol_step a (Started d) (a\<lparr>phase := STATE_OPERATION_PENDING, payload := d\<rparr>)"
| "phase a = STATE_OPERATION_PENDING \<Longrightarrow>
     protocol_step a (Operation_called (payload a)) (a\<lparr>phase := STATE_BUSY\<rparr>)"
| "phase a = STATE_BUSY \<Longrightarrow>
     protocol_step a (Finished n) (a\<lparr>phase := STATE_DONE_PENDING, outcome := n\<rparr>)"
| "phase a = STATE_DONE_PENDING \<Longrightarrow>
     protocol_step a (Done_called (outcome a)) (a\<lparr>phase := STATE_NONE\<rparr>)"
| "phase a \<noteq> STATE_NONE \<Longrightarrow> protocol_step a Cancel_requested a"
| "phase a = STATE_OPERATION_PENDING \<Longrightarrow>
     protocol_step a Cancel_requested (a\<lparr>phase := STATE_DONE_PENDING\<rparr>)"
| "phase a = STATE_BUSY \<Longrightarrow> protocol_step a Cancel_called a"
| "protocol_step a Env a"

inductive_cases protocol_stepE: "protocol_step a l a'"

inductive_simps protocol_step_simps:
  "protocol_step a (Started d) a'" "protocol_step a (Operation_called d) a'"
  "protocol_step a (Finished n) a'" "protocol_step a (Done_called n) a'"
  "protocol_step a Cancel_requested a'" "protocol_step a Cancel_called a'" "protocol_step a Env a'"

fun started :: "'d interface_label list \<Rightarrow> 'd list" where
  "started [] = []"
| "started (Started d # ls) = d # started ls"
| "started (_ # ls) = started ls"

fun called :: "'d interface_label list \<Rightarrow> 'd list" where
  "called [] = []"
| "called (Operation_called d # ls) = d # called ls"
| "called (_ # ls) = called ls"

fun finished :: "'d interface_label list \<Rightarrow> int list" where
  "finished [] = []"
| "finished (Finished n # ls) = n # finished ls"
| "finished (_ # ls) = finished ls"

fun reported :: "'d interface_label list \<Rightarrow> int list" where
  "reported [] = []"
| "reported (Done_called n # ls) = n # reported ls"
| "reported (_ # ls) = reported ls"

lemma started_append [simp]: "started (xs @ ys) = started xs @ started ys"
  by (induction xs rule: started.induct) auto

lemma called_append [simp]: "called (xs @ ys) = called xs @ called ys"
  by (induction xs rule: called.induct) auto

lemma finished_append [simp]: "finished (xs @ ys) = finished xs @ finished ys"
  by (induction xs rule: finished.induct) auto

lemma reported_append [simp]: "reported (xs @ ys) = reported xs @ reported ys"
  by (induction xs rule: reported.induct) auto

lemma protocol_counts:
  assumes "steps protocol_step a ls a'" and "phase a = STATE_NONE"
  shows "length (started ls) = length (reported ls) + of_bool (phase a' \<noteq> STATE_NONE)"
    and "length (called ls) + of_bool (phase a' = STATE_OPERATION_PENDING) \<le> length (started ls)"
    and "length (finished ls) + of_bool (phase a' = STATE_BUSY) \<le> length (called ls)"
  using assms
  by (induction rule: steps.induct) (auto elim!: protocol_stepE)

lemma protocol_payload:
  assumes "steps protocol_step a ls a'" and "phase a = STATE_NONE"
  shows "phase a' \<noteq> STATE_NONE \<longrightarrow> started ls \<noteq> [] \<and> payload a' = last (started ls)"
  using assms by (induction rule: steps.induct) (auto elim!: protocol_stepE)

lemma protocol_exact:
  assumes "steps protocol_step a ls a'" and "phase a = STATE_NONE" and "Cancel_requested \<notin> set ls"
  shows "started ls = called ls @ (if phase a' = STATE_OPERATION_PENDING then [payload a'] else [])"
    and "finished ls = reported ls @ (if phase a' = STATE_DONE_PENDING then [outcome a'] else [])"
  using assms by (induction rule: steps.induct) (auto elim!: protocol_stepE)

text \<open>
  An interface implements the protocol if its steps, seen through an abstraction, are steps of
  the protocol as long as its invariant holds, and keep the invariant.
\<close>

locale implements_protocol =
  fixes step :: "'s \<Rightarrow> 'd interface_label \<Rightarrow> 's \<Rightarrow> bool"
    and I :: "'s \<Rightarrow> bool"
    and abstract :: "'s \<Rightarrow> 'd protocol"
  assumes keeps: "I s \<Longrightarrow> step s l s' \<Longrightarrow> I s'"
    and simulates: "I s \<Longrightarrow> step s l s' \<Longrightarrow> protocol_step (abstract s) l (abstract s')"
begin

lemma trace_abstract:
  assumes "steps step s ls s'" and "I s"
  shows "I s' \<and> steps protocol_step (abstract s) ls (abstract s')"
  using assms by (induction rule: steps.induct) (auto dest: keeps simulates)

lemma trace_counts:
  assumes "steps step s ls s'" and "I s" and "phase (abstract s) = STATE_NONE"
  shows "length (started ls) = length (reported ls) + of_bool (phase (abstract s') \<noteq> STATE_NONE)"
    and "length (called ls) \<le> length (started ls)"
    and "length (finished ls) \<le> length (called ls)"
  using protocol_counts [of "abstract s" ls "abstract s'"] trace_abstract [OF assms(1,2)] assms(3)
  by auto

lemma trace_called_last:
  assumes "steps step s ls s'" and "I s" and "phase (abstract s) = STATE_NONE"
    and "step s' (Operation_called d) s''"
  shows "started ls \<noteq> [] \<and> d = last (started ls)"
  using protocol_payload [of "abstract s" ls "abstract s'"] trace_abstract [OF assms(1,2)] assms(3)
    simulates [OF _ assms(4)]
  by (auto elim!: protocol_stepE)

lemma trace_exact:
  assumes "steps step s ls s'" and "I s" and "phase (abstract s) = STATE_NONE"
    and "Cancel_requested \<notin> set ls"
  shows "started ls = called ls @ (if phase (abstract s') = STATE_OPERATION_PENDING
                                   then [payload (abstract s')] else [])"
    and "finished ls = reported ls @ (if phase (abstract s') = STATE_DONE_PENDING
                                      then [outcome (abstract s')] else [])"
  using protocol_exact [of "abstract s" ls "abstract s'"] trace_abstract [OF assms(1,2)] assms(3,4)
  by auto

end

subsection \<open>PacketPassInterface implements the protocol\<close>

text \<open>
  The environment may change the pending group in any way that leaves the jobs of the interface
  alone; a job of the interface runs when it is on top of the group.
\<close>

definition frame :: "job set \<Rightarrow> 'j BPendingGroup \<Rightarrow> 'j BPendingGroup \<Rightarrow> bool" where
  "frame own pg pg' \<longleftrightarrow> pending_ok pg' \<and>
     (\<forall>p \<in> own. handler pg' p = handler pg p \<and> BSmallPending_IsSet p pg' = BSmallPending_IsSet p pg)"

definition runs :: "job \<Rightarrow> 'j BPendingGroup \<Rightarrow> 'j BPendingGroup \<Rightarrow> bool" where
  "runs p pg pg' \<longleftrightarrow> BPendingGroup_PeekJob pg = Some p \<and> (\<exists>h. BPendingGroup_ExecuteJob pg = Some (h, pg'))"

inductive ppi_step ::
  "'h PacketPassInterface \<times> 'j BPendingGroup \<Rightarrow> bytes interface_label \<Rightarrow>
   'h PacketPassInterface \<times> 'j BPendingGroup \<Rightarrow> bool" where
  "PacketPassInterface_Sender_Send i d pg = Some s' \<Longrightarrow> ppi_step (i, pg) (Started d) s'"
| "PacketPassInterface_Done i pg = Some s' \<Longrightarrow> ppi_step (i, pg) (Finished 0) s'"
| "PacketPassInterface_Sender_RequestCancel i pg = Some s' \<Longrightarrow> ppi_step (i, pg) Cancel_requested s'"
| "runs (ppi_job_operation i) pg pg' \<Longrightarrow> PacketPassInterface_job_operation i = Some (i', Call_send h d) \<Longrightarrow>
     ppi_step (i, pg) (Operation_called d) (i', pg')"
| "runs (ppi_job_requestcancel i) pg pg' \<Longrightarrow>
     PacketPassInterface_job_requestcancel i = Some (i', Call_requestcancel h) \<Longrightarrow>
     ppi_step (i, pg) Cancel_called (i', pg')"
| "runs (ppi_job_done i) pg pg' \<Longrightarrow> PacketPassInterface_job_done i = Some (i', Call_done h) \<Longrightarrow>
     ppi_step (i, pg) (Done_called 0) (i', pg')"
| "frame {ppi_job_operation i, ppi_job_requestcancel i, ppi_job_done i} pg pg' \<Longrightarrow>
     ppi_step (i, pg) Env (i, pg')"

inductive_cases ppi_stepE: "ppi_step s l s'"

fun jobs_match :: "interface_state \<Rightarrow> bool \<Rightarrow> bool \<Rightarrow> bool \<Rightarrow> bool" where
  "jobs_match STATE_NONE oper cancel fin = (\<not> oper \<and> \<not> cancel \<and> \<not> fin)"
| "jobs_match STATE_OPERATION_PENDING oper cancel fin = (oper \<and> \<not> cancel \<and> \<not> fin)"
| "jobs_match STATE_BUSY oper cancel fin = (\<not> oper \<and> \<not> fin)"
| "jobs_match STATE_DONE_PENDING oper cancel fin = (\<not> oper \<and> \<not> cancel \<and> fin)"

definition ppi_ok :: "'h PacketPassInterface \<times> 'j BPendingGroup \<Rightarrow> bool" where
  "ppi_ok = (\<lambda>(i, pg).
     pending_ok pg
     \<and> distinct [ppi_job_operation i, ppi_job_requestcancel i, ppi_job_done i]
     \<and> {ppi_job_operation i, ppi_job_requestcancel i, ppi_job_done i} \<subseteq> dom (handler pg)
     \<and> jobs_match (ppi_state i) (BSmallPending_IsSet (ppi_job_operation i) pg)
         (BSmallPending_IsSet (ppi_job_requestcancel i) pg) (BSmallPending_IsSet (ppi_job_done i) pg)
     \<and> (BSmallPending_IsSet (ppi_job_requestcancel i) pg \<longrightarrow>
          ppi_cancel_requested i \<and> ppi_handler_requestcancel i \<noteq> None)
     \<and> (ppi_state i \<noteq> STATE_NONE \<longrightarrow>
          ppi_handler_done i \<noteq> None \<and> int (length (ppi_job_operation_data i)) \<le> ppi_mtu i))"

definition ppi_abstract :: "'h PacketPassInterface \<times> 'j BPendingGroup \<Rightarrow> bytes protocol" where
  "ppi_abstract = (\<lambda>(i, pg). \<lparr>phase = ppi_state i, payload = ppi_job_operation_data i, outcome = 0\<rparr>)"

lemmas ppi_defs = PacketPassInterface_Sender_Send_def PacketPassInterface_Done_def
  PacketPassInterface_Sender_RequestCancel_def PacketPassInterface_job_operation_def
  PacketPassInterface_job_requestcancel_def PacketPassInterface_job_done_def

lemmas BPending_wrap = BPending_Set_def BPending_Unset_def BPending_Init_def BPending_Free_def
  BPending_IsSet_def

lemma runsE:
  assumes "runs p pg pg'"
  obtains ps where "jobs pg = p # ps" "pg' = pg\<lparr>jobs := ps\<rparr>"
  using assms by (auto simp: runs_def pending_defs bind_Some_iff split: list.splits)

lemma IsSet_popped [simp]: "BSmallPending_IsSet q (pg\<lparr>jobs := ps\<rparr>) \<longleftrightarrow> q \<in> set ps"
  by (simp add: BSmallPending_IsSet_def)

lemma IsSet_top: "jobs pg = p # ps \<Longrightarrow> BSmallPending_IsSet q pg \<longleftrightarrow> q = p \<or> q \<in> set ps"
  by (simp add: BSmallPending_IsSet_def)

lemma pending_ok_popped: "pending_ok pg \<Longrightarrow> jobs pg = p # ps \<Longrightarrow> pending_ok (pg\<lparr>jobs := ps\<rparr>) \<and> p \<notin> set ps"
  by (simp add: pending_ok_def)

lemma ppi_ok_Send: "ppi_ok (i, pg) \<Longrightarrow> PacketPassInterface_Sender_Send i d pg = Some s' \<Longrightarrow> ppi_ok s'"
  by (auto simp: ppi_ok_def ppi_defs BPending_wrap assert_simps Let_def)

lemma ppi_ok_Done: "ppi_ok (i, pg) \<Longrightarrow> PacketPassInterface_Done i pg = Some s' \<Longrightarrow> ppi_ok s'"
  by (auto simp: ppi_ok_def ppi_defs BPending_wrap assert_simps Let_def)

lemma ppi_ok_RequestCancel:
  "ppi_ok (i, pg) \<Longrightarrow> PacketPassInterface_Sender_RequestCancel i pg = Some s' \<Longrightarrow> ppi_ok s'"
  by (cases "ppi_state i")
     (auto simp: ppi_ok_def ppi_defs BPending_wrap assert_simps Let_def split: if_splits)

lemma ppi_ok_step: "ppi_ok s \<Longrightarrow> ppi_step s l s' \<Longrightarrow> ppi_ok s'"
proof (erule ppi_stepE, goal_cases)
  case (4 i pg pg' i' h d)
  then show ?case
    by (auto elim!: runsE simp: ppi_ok_def ppi_defs assert_simps Let_def IsSet_top pending_ok_popped)
next
  case (5 i pg pg' i' h)
  then show ?case
    by (auto elim!: runsE simp: ppi_ok_def ppi_defs assert_simps Let_def IsSet_top pending_ok_popped)
next
  case (6 i pg pg' i' h)
  then show ?case
    by (auto elim!: runsE simp: ppi_ok_def ppi_defs assert_simps Let_def IsSet_top pending_ok_popped)
next
  case (7 i pg pg')
  then show ?case by (auto simp: ppi_ok_def frame_def)
qed (auto dest: ppi_ok_Send ppi_ok_Done ppi_ok_RequestCancel)

lemma ppi_simulates: "ppi_ok s \<Longrightarrow> ppi_step s l s' \<Longrightarrow> protocol_step (ppi_abstract s) l (ppi_abstract s')"
  by (erule ppi_stepE)
     (auto simp: ppi_abstract_def ppi_defs assert_simps Let_def protocol_step_simps split: if_splits)

interpretation ppi: implements_protocol ppi_step ppi_ok ppi_abstract
  by unfold_locales (auto intro: ppi_ok_step ppi_simulates)

subsection \<open>StreamPassInterface implements the protocol\<close>

inductive spi_step ::
  "'h StreamPassInterface \<times> 'j BPendingGroup \<Rightarrow> bytes interface_label \<Rightarrow>
   'h StreamPassInterface \<times> 'j BPendingGroup \<Rightarrow> bool" where
  "StreamPassInterface_Sender_Send i d pg = Some s' \<Longrightarrow> spi_step (i, pg) (Started d) s'"
| "StreamPassInterface_Done i m pg = Some s' \<Longrightarrow> spi_step (i, pg) (Finished m) s'"
| "runs (spi_job_operation i) pg pg' \<Longrightarrow>
     StreamPassInterface_job_operation i = Some (i', Spi_call_operation h d) \<Longrightarrow>
     spi_step (i, pg) (Operation_called d) (i', pg')"
| "runs (spi_job_done i) pg pg' \<Longrightarrow> StreamPassInterface_job_done i = Some (i', Spi_call_done h m) \<Longrightarrow>
     spi_step (i, pg) (Done_called m) (i', pg')"
| "frame {spi_job_operation i, spi_job_done i} pg pg' \<Longrightarrow> spi_step (i, pg) Env (i, pg')"

inductive_cases spi_stepE: "spi_step s l s'"

definition spi_ok :: "'h StreamPassInterface \<times> 'j BPendingGroup \<Rightarrow> bool" where
  "spi_ok = (\<lambda>(i, pg).
     pending_ok pg
     \<and> spi_job_operation i \<noteq> spi_job_done i
     \<and> {spi_job_operation i, spi_job_done i} \<subseteq> dom (handler pg)
     \<and> jobs_match (spi_state i) (BSmallPending_IsSet (spi_job_operation i) pg) False
         (BSmallPending_IsSet (spi_job_done i) pg)
     \<and> (spi_state i \<noteq> STATE_NONE \<longrightarrow> spi_handler_done i \<noteq> None)
     \<and> (spi_state i = STATE_DONE_PENDING \<longrightarrow> 0 < spi_job_done_len i \<and> spi_job_done_len i \<le> int (length (spi_job_operation_data i))))"

definition spi_abstract :: "'h StreamPassInterface \<times> 'j BPendingGroup \<Rightarrow> bytes protocol" where
  "spi_abstract = (\<lambda>(i, pg).
     \<lparr>phase = spi_state i, payload = spi_job_operation_data i, outcome = spi_job_done_len i\<rparr>)"

lemmas spi_defs = StreamPassInterface_Sender_Send_def StreamPassInterface_Done_def StreamPassInterface_job_operation_def StreamPassInterface_job_done_def

lemma spi_ok_step: "spi_ok s \<Longrightarrow> spi_step s l s' \<Longrightarrow> spi_ok s'"
proof (erule spi_stepE, goal_cases)
  case 1
  then show ?case by (auto simp: spi_ok_def spi_defs BPending_wrap assert_simps Let_def)
next
  case 2
  then show ?case by (auto simp: spi_ok_def spi_defs BPending_wrap assert_simps Let_def)
next
  case 3
  then show ?case
    by (auto elim!: runsE simp: spi_ok_def spi_defs assert_simps Let_def IsSet_top pending_ok_popped)
next
  case 4
  then show ?case
    by (auto elim!: runsE simp: spi_ok_def spi_defs assert_simps Let_def IsSet_top pending_ok_popped)
next
  case 5
  then show ?case by (auto simp: spi_ok_def frame_def)
qed

lemma spi_simulates: "spi_ok s \<Longrightarrow> spi_step s l s' \<Longrightarrow> protocol_step (spi_abstract s) l (spi_abstract s')"
  by (erule spi_stepE)
     (auto simp: spi_abstract_def spi_defs assert_simps Let_def protocol_step_simps)

interpretation spi: implements_protocol spi_step spi_ok spi_abstract
  by unfold_locales (auto intro: spi_ok_step spi_simulates)

subsection \<open>PacketRecvInterface implements the protocol\<close>

inductive pri_step ::
  "'h PacketRecvInterface \<times> 'j BPendingGroup \<Rightarrow> nat interface_label \<Rightarrow>
   'h PacketRecvInterface \<times> 'j BPendingGroup \<Rightarrow> bool" where
  "PacketRecvInterface_Receiver_Recv i d pg = Some s' \<Longrightarrow> pri_step (i, pg) (Started d) s'"
| "PacketRecvInterface_Done i m pg = Some s' \<Longrightarrow> pri_step (i, pg) (Finished m) s'"
| "runs (pri_job_operation i) pg pg' \<Longrightarrow>
     PacketRecvInterface_job_operation i = Some (i', Pri_call_operation h d) \<Longrightarrow>
     pri_step (i, pg) (Operation_called d) (i', pg')"
| "runs (pri_job_done i) pg pg' \<Longrightarrow> PacketRecvInterface_job_done i = Some (i', Pri_call_done h m) \<Longrightarrow>
     pri_step (i, pg) (Done_called m) (i', pg')"
| "frame {pri_job_operation i, pri_job_done i} pg pg' \<Longrightarrow> pri_step (i, pg) Env (i, pg')"

inductive_cases pri_stepE: "pri_step s l s'"

definition pri_ok :: "'h PacketRecvInterface \<times> 'j BPendingGroup \<Rightarrow> bool" where
  "pri_ok = (\<lambda>(i, pg).
     pending_ok pg
     \<and> pri_job_operation i \<noteq> pri_job_done i
     \<and> {pri_job_operation i, pri_job_done i} \<subseteq> dom (handler pg)
     \<and> jobs_match (pri_state i) (BSmallPending_IsSet (pri_job_operation i) pg) False
         (BSmallPending_IsSet (pri_job_done i) pg)
     \<and> (pri_state i \<noteq> STATE_NONE \<longrightarrow> pri_handler_done i \<noteq> None)
     \<and> (pri_state i = STATE_DONE_PENDING \<longrightarrow> 0 \<le> pri_job_done_len i \<and> pri_job_done_len i \<le> pri_mtu i))"

definition pri_abstract :: "'h PacketRecvInterface \<times> 'j BPendingGroup \<Rightarrow> nat protocol" where
  "pri_abstract = (\<lambda>(i, pg).
     \<lparr>phase = pri_state i, payload = pri_job_operation_data i, outcome = pri_job_done_len i\<rparr>)"

lemmas pri_defs = PacketRecvInterface_Receiver_Recv_def PacketRecvInterface_Done_def PacketRecvInterface_job_operation_def PacketRecvInterface_job_done_def

lemma pri_ok_step: "pri_ok s \<Longrightarrow> pri_step s l s' \<Longrightarrow> pri_ok s'"
proof (erule pri_stepE, goal_cases)
  case 1
  then show ?case by (auto simp: pri_ok_def pri_defs BPending_wrap assert_simps Let_def)
next
  case 2
  then show ?case by (auto simp: pri_ok_def pri_defs BPending_wrap assert_simps Let_def)
next
  case 3
  then show ?case
    by (auto elim!: runsE simp: pri_ok_def pri_defs assert_simps Let_def IsSet_top pending_ok_popped)
next
  case 4
  then show ?case
    by (auto elim!: runsE simp: pri_ok_def pri_defs assert_simps Let_def IsSet_top pending_ok_popped)
next
  case 5
  then show ?case by (auto simp: pri_ok_def frame_def)
qed

lemma pri_simulates: "pri_ok s \<Longrightarrow> pri_step s l s' \<Longrightarrow> protocol_step (pri_abstract s) l (pri_abstract s')"
  by (erule pri_stepE)
     (auto simp: pri_abstract_def pri_defs assert_simps Let_def protocol_step_simps)

interpretation pri: implements_protocol pri_step pri_ok pri_abstract
  by unfold_locales (auto intro: pri_ok_step pri_simulates)

subsection \<open>StreamRecvInterface implements the protocol\<close>

inductive sri_step ::
  "'h StreamRecvInterface \<times> 'j BPendingGroup \<Rightarrow> (nat \<times> int) interface_label \<Rightarrow>
   'h StreamRecvInterface \<times> 'j BPendingGroup \<Rightarrow> bool" where
  "StreamRecvInterface_Receiver_Recv i (fst d) (snd d) pg = Some s' \<Longrightarrow> sri_step (i, pg) (Started d) s'"
| "StreamRecvInterface_Done i m pg = Some s' \<Longrightarrow> sri_step (i, pg) (Finished m) s'"
| "runs (sri_job_operation i) pg pg' \<Longrightarrow>
     StreamRecvInterface_job_operation i = Some (i', Sri_call_operation h p n) \<Longrightarrow>
     sri_step (i, pg) (Operation_called (p, n)) (i', pg')"
| "runs (sri_job_done i) pg pg' \<Longrightarrow> StreamRecvInterface_job_done i = Some (i', Sri_call_done h m) \<Longrightarrow>
     sri_step (i, pg) (Done_called m) (i', pg')"
| "frame {sri_job_operation i, sri_job_done i} pg pg' \<Longrightarrow> sri_step (i, pg) Env (i, pg')"

inductive_cases sri_stepE: "sri_step s l s'"

definition sri_ok :: "'h StreamRecvInterface \<times> 'j BPendingGroup \<Rightarrow> bool" where
  "sri_ok = (\<lambda>(i, pg).
     pending_ok pg
     \<and> sri_job_operation i \<noteq> sri_job_done i
     \<and> {sri_job_operation i, sri_job_done i} \<subseteq> dom (handler pg)
     \<and> jobs_match (sri_state i) (BSmallPending_IsSet (sri_job_operation i) pg) False
         (BSmallPending_IsSet (sri_job_done i) pg)
     \<and> (sri_state i \<noteq> STATE_NONE \<longrightarrow> sri_handler_done i \<noteq> None)
     \<and> (sri_state i = STATE_DONE_PENDING \<longrightarrow> 0 < sri_job_done_len i \<and> sri_job_done_len i \<le> sri_job_operation_len i))"

definition sri_abstract :: "'h StreamRecvInterface \<times> 'j BPendingGroup \<Rightarrow> (nat \<times> int) protocol" where
  "sri_abstract = (\<lambda>(i, pg).
     \<lparr>phase = sri_state i, payload = (sri_job_operation_data i, sri_job_operation_len i), outcome = sri_job_done_len i\<rparr>)"

lemmas sri_defs = StreamRecvInterface_Receiver_Recv_def StreamRecvInterface_Done_def StreamRecvInterface_job_operation_def StreamRecvInterface_job_done_def

lemma sri_ok_step: "sri_ok s \<Longrightarrow> sri_step s l s' \<Longrightarrow> sri_ok s'"
proof (erule sri_stepE, goal_cases)
  case 1
  then show ?case by (auto simp: sri_ok_def sri_defs BPending_wrap assert_simps Let_def)
next
  case 2
  then show ?case by (auto simp: sri_ok_def sri_defs BPending_wrap assert_simps Let_def)
next
  case 3
  then show ?case
    by (auto elim!: runsE simp: sri_ok_def sri_defs assert_simps Let_def IsSet_top pending_ok_popped)
next
  case 4
  then show ?case
    by (auto elim!: runsE simp: sri_ok_def sri_defs assert_simps Let_def IsSet_top pending_ok_popped)
next
  case 5
  then show ?case by (auto simp: sri_ok_def frame_def)
qed

lemma sri_simulates: "sri_ok s \<Longrightarrow> sri_step s l s' \<Longrightarrow> protocol_step (sri_abstract s) l (sri_abstract s')"
  by (erule sri_stepE)
     (auto simp: sri_abstract_def sri_defs assert_simps Let_def protocol_step_simps)

interpretation sri: implements_protocol sri_step sri_ok sri_abstract
  by unfold_locales (auto intro: sri_ok_step sri_simulates)

subsection \<open>What the interfaces guarantee\<close>

lemma ppi_ok_Init:
  assumes "pending_ok pg" and "distinct [a, b, c]" and "set [a, b, c] \<inter> set (jobs pg) = {}"
    and "PacketPassInterface_Init mk a b c mtu h pg = Some (i, pg')"
    and "PacketPassInterface_Sender_Init i hdone = Some i'"
  shows "ppi_ok (i', pg')" and "ppi_state i' = STATE_NONE"
  using assms
  by (auto simp: PacketPassInterface_Init_def PacketPassInterface_Sender_Init_def assert_simps Let_def
        ppi_ok_def pending_ok_def BPending_wrap pending_defs)


lemma ppi_example:
  defines "i0 \<equiv> \<lparr>ppi_mtu = 10, ppi_handler_operation = ''send'', ppi_handler_requestcancel = None,
      ppi_handler_done = Some ''done'', ppi_job_operation = 1, ppi_job_operation_data = [],
      ppi_job_requestcancel = 2, ppi_job_done = 3, ppi_state = STATE_NONE, ppi_cancel_requested = False\<rparr>"
    and "g0 \<equiv> \<lparr>jobs = [], handler = [1 \<mapsto> Job_operation, 2 \<mapsto> Job_requestcancel, 3 \<mapsto> Job_done]\<rparr>"
  shows "steps ppi_step (i0, g0) [Started [7, 8], Operation_called [7, 8], Finished 0, Done_called 0]
           (i0\<lparr>ppi_job_operation_data := [7, 8]\<rparr>, g0)"
proof -
  let ?i1 = "i0\<lparr>ppi_job_operation_data := [7, 8], ppi_state := STATE_OPERATION_PENDING\<rparr>"
  let ?i2 = "i0\<lparr>ppi_job_operation_data := [7, 8], ppi_state := STATE_BUSY\<rparr>"
  let ?i3 = "i0\<lparr>ppi_job_operation_data := [7, 8], ppi_state := STATE_DONE_PENDING\<rparr>"
  let ?i4 = "i0\<lparr>ppi_job_operation_data := [7, 8]\<rparr>"
  note defs = i0_def g0_def ppi_defs BPending_wrap pending_defs runs_def Let_def
  have 1: "ppi_step (i0, g0) (Started [7, 8]) (?i1, g0\<lparr>jobs := [1]\<rparr>)"
    by (rule ppi_step.intros(1)) (simp add: defs)
  have 2: "ppi_step (?i1, g0\<lparr>jobs := [1]\<rparr>) (Operation_called [7, 8]) (?i2, g0)"
    by (rule ppi_step.intros(4) [where h = "''send''"]) (simp_all add: defs)
  have 3: "ppi_step (?i2, g0) (Finished 0) (?i3, g0\<lparr>jobs := [3]\<rparr>)"
    by (rule ppi_step.intros(2)) (simp add: defs)
  have 4: "ppi_step (?i3, g0\<lparr>jobs := [3]\<rparr>) (Done_called 0) (?i4, g0)"
    by (rule ppi_step.intros(6) [where h = "''done''"]) (simp_all add: defs)
  note c = steps_Cons [where step = ppi_step]
  show ?thesis by (rule c [OF 1 c [OF 2 c [OF 3 c [OF 4 steps_Nil]]]])
qed


text \<open>
  The jobs of an interface never fail an assertion. In an interface and group in their
  invariant, whichever job of the interface is set can run: its assertions hold and the handler
  it calls is there. The data it passes on is what was given to \<open>Send\<close>, within the MTU.
\<close>

theorem packet_pass_jobs_safe:
  assumes "ppi_ok (i, pg)"
  shows "(BSmallPending_IsSet (ppi_job_operation i) pg \<longrightarrow>
            (\<exists>i'. PacketPassInterface_job_operation i =
                    Some (i', Call_send (ppi_handler_operation i) (ppi_job_operation_data i)))
            \<and> int (length (ppi_job_operation_data i)) \<le> ppi_mtu i)
       \<and> (BSmallPending_IsSet (ppi_job_requestcancel i) pg \<longrightarrow>
            (\<exists>i' h. PacketPassInterface_job_requestcancel i = Some (i', Call_requestcancel h)))
       \<and> (BSmallPending_IsSet (ppi_job_done i) pg \<longrightarrow>
            (\<exists>i' h. PacketPassInterface_job_done i = Some (i', Call_done h)))"
  using assms by (cases "ppi_state i") (auto simp: ppi_ok_def ppi_defs Let_def)

theorem packet_pass_jobs_safe_witness:
  "let i = \<lparr>ppi_mtu = 10, ppi_handler_operation = ''send'', ppi_handler_requestcancel = Some ''cancel'',
      ppi_handler_done = Some ''done'', ppi_job_operation = 1, ppi_job_operation_data = [9],
      ppi_job_requestcancel = 2, ppi_job_done = 3, ppi_state = STATE_BUSY, ppi_cancel_requested = True\<rparr>;
       pg = \<lparr>jobs = [2], handler = [1 \<mapsto> Job_operation, 2 \<mapsto> Job_requestcancel, 3 \<mapsto> Job_done]\<rparr>
   in \<exists>i' h. PacketPassInterface_job_requestcancel i = Some (i', Call_requestcancel h)"
  using packet_pass_jobs_safe [of "\<lparr>ppi_mtu = 10, ppi_handler_operation = ''send'', ppi_handler_requestcancel = Some ''cancel'',
      ppi_handler_done = Some ''done'', ppi_job_operation = 1, ppi_job_operation_data = [9],
      ppi_job_requestcancel = 2, ppi_job_done = 3, ppi_state = STATE_BUSY, ppi_cancel_requested = True\<rparr>"
      "\<lparr>jobs = [2], handler = [1 \<mapsto> Job_operation, 2 \<mapsto> Job_requestcancel, 3 \<mapsto> Job_done]\<rparr>"]
  by (simp add: ppi_ok_def pending_ok_def BSmallPending_IsSet_def)

end
