(* ===== verification/ChunkBuffer.thy ===== *)
theory ChunkBuffer
  imports ByteOrder
begin

section \<open>The chunk buffer\<close>

text \<open>
  \<open>structure/ChunkBuffer2.h\<close>: a ring buffer for packets of different lengths. Memory is an array of
  blocks of four bytes; a packet takes one block for its length and as many following blocks as
  its data needs, without wrapping around inside a packet. \<open>wrap\<close> is where the used part continues
  at block zero. The writer puts data at \<open>input_dest\<close> and submits it, the reader finds the first
  packet at \<open>output_dest\<close>.

  The memory of the blocks is a byte list; the destinations are byte offsets into it, with
  \<open>None\<close> for \<open>NULL\<close>. The debug assertions of the code (\<open>_ChunkBuffer2_assert_buffer\<close>,
  \<open>_ChunkBuffer2_assert_io\<close>) are part of the model.
\<close>

record ChunkBuffer2 =
  cb_buffer :: bytes
  cb_size :: int
  cb_wrap :: int
  cb_start :: int
  cb_used :: int
  cb_mtu :: int
  cb_input_dest :: "int option"
  cb_input_avail :: int
  cb_output_dest :: "int option"
  cb_output_avail :: int

definition block_size :: nat where "block_size = 4"

definition data_blocks :: "int \<Rightarrow> int" where
  "data_blocks len = int (bdivide_up (nat len) block_size)"

definition ChunkBuffer2_len_at :: "ChunkBuffer2 \<Rightarrow> int \<Rightarrow> int" where
  "ChunkBuffer2_len_at b i = sint (badvpn_read_le32 (segment (cb_buffer b) (nat (4 * i)) 4))"

definition ChunkBuffer2_end :: "ChunkBuffer2 \<Rightarrow> int" where
  "ChunkBuffer2_end b =
     (if cb_used b \<ge> cb_wrap b - cb_start b then cb_used b - (cb_wrap b - cb_start b)
      else cb_start b + cb_used b)"

definition ChunkBuffer2_assert_buffer :: "ChunkBuffer2 \<Rightarrow> bool" where
  "ChunkBuffer2_assert_buffer b \<longleftrightarrow>
     cb_size b > 0 \<and> cb_wrap b > 0 \<and> cb_wrap b \<le> cb_size b \<and> cb_start b \<ge> 0 \<and> cb_start b < cb_wrap b
     \<and> cb_used b \<ge> 0 \<and> cb_used b \<le> cb_wrap b
     \<and> (cb_wrap b = cb_size b \<or> cb_used b \<ge> cb_wrap b - cb_start b) \<and> cb_mtu b \<ge> 0"

definition ChunkBuffer2_free :: "ChunkBuffer2 \<Rightarrow> int" where
  "ChunkBuffer2_free b =
     (if cb_used b \<ge> cb_wrap b - cb_start b then cb_start b - ChunkBuffer2_end b
      else cb_size b - ChunkBuffer2_end b)"

definition ChunkBuffer2_assert_io :: "ChunkBuffer2 \<Rightarrow> bool" where
  "ChunkBuffer2_assert_io b \<longleftrightarrow>
     (if cb_size b - ChunkBuffer2_end b - 1 < cb_mtu b then
        cb_input_dest b = None \<and> cb_input_avail b = -1
      else if ChunkBuffer2_free b > 0 then
        cb_input_dest b = Some (4 * (ChunkBuffer2_end b + 1))
        \<and> cb_input_avail b = (ChunkBuffer2_free b - 1) * int block_size
      else cb_input_dest b = None \<and> cb_input_avail b = -1)
     \<and> (if cb_used b > 0 then
          let datalen = ChunkBuffer2_len_at b (cb_start b);
              blocklen = data_blocks datalen
          in datalen \<ge> 0 \<and> blocklen \<le> cb_used b - 1 \<and> blocklen \<le> cb_wrap b - cb_start b - 1
             \<and> cb_output_dest b = Some (4 * (cb_start b + 1)) \<and> cb_output_avail b = datalen
        else cb_output_dest b = None \<and> cb_output_avail b = -1)"

definition ChunkBuffer2_update_input :: "ChunkBuffer2 \<Rightarrow> ChunkBuffer2" where
  "ChunkBuffer2_update_input b =
     (if cb_size b - ChunkBuffer2_end b - 1 < cb_mtu b then
        b\<lparr>cb_input_dest := None, cb_input_avail := -1\<rparr>
      else let free = ChunkBuffer2_free b in
        if free > 0 then
          b\<lparr>cb_input_dest := Some (4 * (ChunkBuffer2_end b + 1)),
            cb_input_avail := (free - 1) * int block_size\<rparr>
        else b\<lparr>cb_input_dest := None, cb_input_avail := -1\<rparr>)"

definition ChunkBuffer2_update_output :: "ChunkBuffer2 \<Rightarrow> ChunkBuffer2 option" where
  "ChunkBuffer2_update_output b =
     (if cb_used b > 0 then do {
        let datalen = ChunkBuffer2_len_at b (cb_start b);
        ASSERT (datalen \<ge> 0);
        let blocklen = data_blocks datalen;
        ASSERT (blocklen \<le> cb_used b - 1);
        ASSERT (blocklen \<le> cb_wrap b - cb_start b - 1);
        Some (b\<lparr>cb_output_dest := Some (4 * (cb_start b + 1)), cb_output_avail := datalen\<rparr>) }
      else Some (b\<lparr>cb_output_dest := None, cb_output_avail := -1\<rparr>))"

definition ChunkBuffer2_calc_blocks :: "int \<Rightarrow> int \<Rightarrow> int" where
  "ChunkBuffer2_calc_blocks chunk_len num =
     (let chunk_data_blocks = data_blocks chunk_len in
      if chunk_data_blocks > INT_MAX - 1 then -1
      else let chunk_blocks = 1 + chunk_data_blocks in
        if num > INT_MAX - 1 then -1
        else let num_chunks = num + 1 in
          if chunk_blocks > INT_MAX div num_chunks then -1
          else chunk_blocks * num_chunks)"

definition ChunkBuffer2_Init :: "bytes \<Rightarrow> int \<Rightarrow> int \<Rightarrow> ChunkBuffer2 option" where
  "ChunkBuffer2_Init buffer blocks mtu = do {
     ASSERT (blocks > 0);
     ASSERT (mtu \<ge> 0);
     let b = \<lparr>cb_buffer = buffer, cb_size = blocks, cb_wrap = blocks, cb_start = 0, cb_used = 0,
              cb_mtu = data_blocks mtu, cb_input_dest = None, cb_input_avail = -1,
              cb_output_dest = None, cb_output_avail = -1\<rparr>;
     ASSERT (ChunkBuffer2_assert_buffer b);
     let b = ChunkBuffer2_update_input b;
     b \<leftarrow> ChunkBuffer2_update_output b;
     ASSERT (ChunkBuffer2_assert_io b);
     Some b }"

definition ChunkBuffer2_SubmitPacket :: "ChunkBuffer2 \<Rightarrow> int \<Rightarrow> ChunkBuffer2 option" where
  "ChunkBuffer2_SubmitPacket b len = do {
     ASSERT (cb_input_dest b \<noteq> None);
     ASSERT (len \<ge> 0);
     ASSERT (len \<le> cb_input_avail b);
     ASSERT (ChunkBuffer2_assert_buffer b);
     ASSERT (ChunkBuffer2_assert_io b);
     let end = ChunkBuffer2_end b;
     let blocklen = data_blocks len;
     ASSERT (blocklen \<le> cb_size b - end - 1);
     ASSERT (cb_used b < cb_wrap b - cb_start b \<or> blocklen \<le> cb_start b - end - 1);
     m \<leftarrow> store (cb_buffer b) (nat (4 * end)) (mem32 (word_of_int len));
     let b = b\<lparr>cb_buffer := m, cb_used := cb_used b + (1 + blocklen)\<rparr>;
     let b = (if cb_used b \<le> cb_wrap b - cb_start b \<and> cb_mtu b > cb_size b - (end + 1 + blocklen) - 1
              then b\<lparr>cb_wrap := end + 1 + blocklen\<rparr> else b);
     ASSERT (ChunkBuffer2_assert_buffer b);
     let b = ChunkBuffer2_update_input b;
     b \<leftarrow> (if cb_used b = 1 + blocklen then ChunkBuffer2_update_output b else Some b);
     ASSERT (ChunkBuffer2_assert_io b);
     Some b }"

definition ChunkBuffer2_ConsumePacket :: "ChunkBuffer2 \<Rightarrow> ChunkBuffer2 option" where
  "ChunkBuffer2_ConsumePacket b = do {
     ASSERT (cb_output_dest b \<noteq> None);
     ASSERT (ChunkBuffer2_assert_buffer b);
     ASSERT (ChunkBuffer2_assert_io b);
     ASSERT (1 \<le> cb_wrap b - cb_start b);
     ASSERT (1 \<le> cb_used b);
     let blocklen = data_blocks (ChunkBuffer2_len_at b (cb_start b));
     ASSERT (blocklen \<le> cb_wrap b - cb_start b - 1);
     ASSERT (blocklen \<le> cb_used b - 1);
     let data_wrapped = (cb_used b \<ge> cb_wrap b - cb_start b);
     let b = b\<lparr>cb_start := cb_start b + (1 + blocklen), cb_used := cb_used b - (1 + blocklen)\<rparr>;
     let b = (if cb_start b = cb_wrap b then b\<lparr>cb_start := 0, cb_wrap := cb_size b\<rparr> else b);
     ASSERT (ChunkBuffer2_assert_buffer b);
     let b = (if data_wrapped then ChunkBuffer2_update_input b else b);
     b \<leftarrow> ChunkBuffer2_update_output b;
     ASSERT (ChunkBuffer2_assert_io b);
     Some b }"

text \<open>The writer puts the packet at \<open>input_dest\<close>, the reader takes it from \<open>output_dest\<close>.\<close>

definition cb_write :: "ChunkBuffer2 \<Rightarrow> bytes \<Rightarrow> ChunkBuffer2 option" where
  "cb_write b data = do {
     d \<leftarrow> cb_input_dest b;
     m \<leftarrow> store (cb_buffer b) (nat d) data;
     Some (b\<lparr>cb_buffer := m\<rparr>) }"

definition cb_put :: "ChunkBuffer2 \<Rightarrow> bytes \<Rightarrow> ChunkBuffer2 option" where
  "cb_put b data = do { b \<leftarrow> cb_write b data; ChunkBuffer2_SubmitPacket b (int (length data)) }"

definition cb_output :: "ChunkBuffer2 \<Rightarrow> bytes option" where
  "cb_output b = do {
     d \<leftarrow> cb_output_dest b;
     Some (segment (cb_buffer b) (nat d) (nat (cb_output_avail b))) }"

subsection \<open>Layout\<close>

text \<open>
  \<open>chunk_at m i p\<close>: at block \<open>i\<close> there is a chunk that holds the packet \<open>p\<close>.
  \<open>contig m lim i ps j\<close>: the chunks of the packets \<open>ps\<close> follow each other from block \<open>i\<close> up to
  block \<open>j\<close>, and each starts at \<open>lim\<close> or before.
\<close>

definition chunk_blocks :: "bytes \<Rightarrow> int" where
  "chunk_blocks p = 1 + data_blocks (int (length p))"

definition chunk_at :: "bytes \<Rightarrow> int \<Rightarrow> bytes \<Rightarrow> bool" where
  "chunk_at m i p \<longleftrightarrow> 0 \<le> i \<and> int (length p) \<le> INT_MAX
     \<and> segment m (nat (4 * i)) 4 = mem32 (word_of_int (int (length p)))
     \<and> segment m (nat (4 * (i + 1))) (length p) = p"

fun contig :: "bytes \<Rightarrow> int \<Rightarrow> int \<Rightarrow> bytes list \<Rightarrow> int \<Rightarrow> bool" where
  "contig m lim i [] j \<longleftrightarrow> i = j"
| "contig m lim i (p # ps) j \<longleftrightarrow> i \<le> lim \<and> chunk_at m i p \<and> contig m lim (i + chunk_blocks p) ps j"

text \<open>
  The invariant, with the packets the buffer holds, first one first. A packet starts only where a
  packet of the MTU fits before the end of the memory. The size of the memory in bytes is an
  \<open>int\<close>, as \<open>input_avail\<close> is.
\<close>

definition cb_wrapped :: "ChunkBuffer2 \<Rightarrow> bool" where
  "cb_wrapped b \<longleftrightarrow> cb_used b \<ge> cb_wrap b - cb_start b"

definition cb_layout :: "ChunkBuffer2 \<Rightarrow> bytes list \<Rightarrow> bool" where
  "cb_layout b q \<longleftrightarrow>
     (let lim = cb_size b - cb_mtu b - 1 in
      length (cb_buffer b) = nat (4 * cb_size b) \<and> 4 * cb_size b \<le> INT_MAX \<and> cb_start b \<le> lim \<and> ChunkBuffer2_end b \<le> lim \<and>
      (if cb_wrapped b then
         cb_size b - cb_mtu b \<le> cb_wrap b \<and>
         (\<exists>upper lower. q = upper @ lower \<and> contig (cb_buffer b) lim (cb_start b) upper (cb_wrap b)
            \<and> contig (cb_buffer b) lim 0 lower (ChunkBuffer2_end b))
       else contig (cb_buffer b) lim (cb_start b) q (ChunkBuffer2_end b)))"

definition cb_holds :: "ChunkBuffer2 \<Rightarrow> bytes list \<Rightarrow> bool" where
  "cb_holds b q \<longleftrightarrow> ChunkBuffer2_assert_buffer b \<and> ChunkBuffer2_assert_io b \<and> cb_layout b q"

lemma data_blocks_nonneg [simp]: "0 \<le> data_blocks n"
  by (simp add: data_blocks_def)

lemma data_blocks_le_iff: "0 \<le> n \<Longrightarrow> data_blocks n \<le> k \<longleftrightarrow> n \<le> 4 * k"
proof (cases "0 \<le> k")
  case True
  assume "0 \<le> n"
  then obtain n' k' where e: "n = int n'" "k = int k'" using True by (metis nonneg_int_cases)
  have "data_blocks n \<le> k \<longleftrightarrow> n' \<le> k' * 4"
    using bdivide_up_le_iff [of 4 n' k'] by (simp add: e data_blocks_def block_size_def)
  then show ?thesis unfolding e by linarith
next
  case False
  assume "0 \<le> n"
  then show ?thesis using False data_blocks_nonneg [of n] by linarith
qed

lemma data_blocks_bound: "0 \<le> n \<Longrightarrow> n \<le> 4 * data_blocks n"
  using data_blocks_le_iff by blast

lemma data_blocks_mono: "0 \<le> n \<Longrightarrow> n \<le> m \<Longrightarrow> data_blocks n \<le> data_blocks m"
  using data_blocks_bound [of m] by (simp add: data_blocks_le_iff)

lemma chunk_blocks_pos: "1 \<le> chunk_blocks p"
  by (simp add: chunk_blocks_def)

lemma chunk_blocks_data: "int (length p) \<le> 4 * (chunk_blocks p - 1)"
  by (simp add: chunk_blocks_def data_blocks_bound)

lemma contig_le: "contig m lim i ps j \<Longrightarrow> i + int (length ps) \<le> j"
proof (induction ps arbitrary: i)
  case (Cons p ps)
  then show ?case using chunk_blocks_pos [of p] by fastforce
qed simp

lemma contig_append: "contig m lim i (ps @ qs) j \<longleftrightarrow> (\<exists>k. contig m lim i ps k \<and> contig m lim k qs j)"
  by (induction ps arbitrary: i) auto

lemma chunk_at_cong:
  assumes "chunk_at m i p" and "same_on m m' (nat (4 * i)) (nat (4 * j))"
    and "i + chunk_blocks p \<le> j" and "nat (4 * j) \<le> length m"
  shows "chunk_at m' i p"
proof -
  have i: "0 \<le> i" using assms(1) by (simp add: chunk_at_def)
  have "segment m (nat (4 * i)) 4 = segment m' (nat (4 * i)) 4"
    using assms chunk_blocks_pos [of p] i by (intro segment_cong [where a = "nat (4 * i)" and b = "nat (4 * j)"]) auto
  moreover have "segment m (nat (4 * (i + 1))) (length p) = segment m' (nat (4 * (i + 1))) (length p)"
    using assms chunk_blocks_data [of p] i
    by (intro segment_cong [where a = "nat (4 * i)" and b = "nat (4 * j)"]) auto
  ultimately show ?thesis using assms(1) by (simp add: chunk_at_def)
qed

lemma contig_cong:
  assumes "contig m lim i ps j" and "same_on m m' (nat (4 * i)) (nat (4 * j))" and "nat (4 * j) \<le> length m"
  shows "contig m' lim i ps j"
  using assms
proof (induction ps arbitrary: i)
  case Nil
  then show ?case by simp
next
  case (Cons p ps)
  have le: "i + chunk_blocks p \<le> j" using contig_le [of m lim "i + chunk_blocks p" ps j] Cons.prems by simp
  have "same_on m m' (nat (4 * (i + chunk_blocks p))) (nat (4 * j))"
    by (rule same_on_mono [OF Cons.prems(2)]) (use chunk_blocks_pos [of p] in auto)
  then show ?case using Cons le by (auto intro: chunk_at_cong)
qed

lemma sint_word_of_int_small: "0 \<le> n \<Longrightarrow> n \<le> INT_MAX \<Longrightarrow> sint (word_of_int n :: u32) = n"
  by (simp add: signed_of_int signed_take_bit_int_eq_self)

lemma len_at_chunk: "chunk_at (cb_buffer b) i p \<Longrightarrow> ChunkBuffer2_len_at b i = int (length p)"
  using sint_word_of_int_small [of "int (length p)"]
  by (auto simp: chunk_at_def ChunkBuffer2_len_at_def m32.rd_mem_exact)

subsection \<open>The operations\<close>

definition cb_input_ok :: "ChunkBuffer2 \<Rightarrow> bool" where
  "cb_input_ok b \<longleftrightarrow>
     (if cb_size b - ChunkBuffer2_end b - 1 < cb_mtu b then
        cb_input_dest b = None \<and> cb_input_avail b = -1
      else if ChunkBuffer2_free b > 0 then
        cb_input_dest b = Some (4 * (ChunkBuffer2_end b + 1))
        \<and> cb_input_avail b = (ChunkBuffer2_free b - 1) * int block_size
      else cb_input_dest b = None \<and> cb_input_avail b = -1)"

definition cb_output_ok :: "ChunkBuffer2 \<Rightarrow> bytes list \<Rightarrow> bool" where
  "cb_output_ok b q \<longleftrightarrow>
     (case q of [] \<Rightarrow> cb_output_dest b = None \<and> cb_output_avail b = -1
      | p # _ \<Rightarrow> cb_output_dest b = Some (4 * (cb_start b + 1)) \<and> cb_output_avail b = int (length p))"

lemma layout_empty_iff:
  assumes "cb_layout b q" and "ChunkBuffer2_assert_buffer b"
  shows "cb_used b > 0 \<longleftrightarrow> q \<noteq> []"
proof (cases "cb_wrapped b")
  case True
  then obtain upper lower where q: "q = upper @ lower"
    and c: "contig (cb_buffer b) (cb_size b - cb_mtu b - 1) (cb_start b) upper (cb_wrap b)"
    using assms(1) by (auto simp: cb_layout_def Let_def)
  have "upper \<noteq> []" using c assms(2) by (auto simp: ChunkBuffer2_assert_buffer_def)
  then show ?thesis using q True assms(2) by (auto simp: cb_wrapped_def ChunkBuffer2_assert_buffer_def)
next
  case False
  then have c: "contig (cb_buffer b) (cb_size b - cb_mtu b - 1) (cb_start b) q (cb_start b + cb_used b)"
    using assms(1) by (auto simp: cb_layout_def Let_def cb_wrapped_def ChunkBuffer2_end_def)
  show ?thesis using contig_le [OF c] c by (cases q) auto
qed

lemma layout_head:
  assumes "cb_layout b (p # q)" and "ChunkBuffer2_assert_buffer b"
  shows "chunk_at (cb_buffer b) (cb_start b) p" and "chunk_blocks p \<le> cb_used b"
    and "chunk_blocks p \<le> cb_wrap b - cb_start b"
proof -
  have "chunk_at (cb_buffer b) (cb_start b) p \<and> chunk_blocks p \<le> cb_used b
        \<and> chunk_blocks p \<le> cb_wrap b - cb_start b"
  proof (cases "cb_wrapped b")
    case True
    then obtain upper lower where q: "p # q = upper @ lower"
      and c: "contig (cb_buffer b) (cb_size b - cb_mtu b - 1) (cb_start b) upper (cb_wrap b)"
      using assms(1) by (auto simp: cb_layout_def Let_def)
    have "upper \<noteq> []" using c assms(2) by (auto simp: ChunkBuffer2_assert_buffer_def)
    then obtain us where u: "upper = p # us" using q by (cases upper) auto
    show ?thesis using c contig_le [of "cb_buffer b" _ _ us "cb_wrap b"] True
      by (fastforce simp: u cb_wrapped_def)
  next
    case False
    then have c: "contig (cb_buffer b) (cb_size b - cb_mtu b - 1) (cb_start b) (p # q) (cb_start b + cb_used b)"
      using assms(1) by (auto simp: cb_layout_def Let_def cb_wrapped_def ChunkBuffer2_end_def)
    then show ?thesis
      using contig_le [of "cb_buffer b" "cb_size b - cb_mtu b - 1" "cb_start b + chunk_blocks p" q "cb_start b + cb_used b"] False
      by (auto simp: cb_wrapped_def)
  qed
  then show "chunk_at (cb_buffer b) (cb_start b) p" "chunk_blocks p \<le> cb_used b"
    "chunk_blocks p \<le> cb_wrap b - cb_start b" by auto
qed

lemma assert_io_iff:
  assumes "cb_layout b q" and "ChunkBuffer2_assert_buffer b"
  shows "ChunkBuffer2_assert_io b \<longleftrightarrow> cb_input_ok b \<and> cb_output_ok b q"
proof (cases q)
  case Nil
  then show ?thesis using layout_empty_iff [OF assms]
    by (simp add: ChunkBuffer2_assert_io_def cb_input_ok_def cb_output_ok_def)
next
  case (Cons p ps)
  note h = layout_head [OF assms(1) [unfolded Cons] assms(2)]
  show ?thesis using layout_empty_iff [OF assms] h Cons
    by (simp add: ChunkBuffer2_assert_io_def cb_input_ok_def cb_output_ok_def len_at_chunk chunk_blocks_def)
qed

lemma cb_holds_iff:
  "cb_holds b q \<longleftrightarrow> ChunkBuffer2_assert_buffer b \<and> cb_layout b q \<and> cb_input_ok b \<and> cb_output_ok b q"
  using assert_io_iff by (auto simp: cb_holds_def)

lemma update_output_Some:
  assumes "cb_layout b q" and "ChunkBuffer2_assert_buffer b"
  obtains d a where "ChunkBuffer2_update_output b = Some (b\<lparr>cb_output_dest := d, cb_output_avail := a\<rparr>)"
    and "cb_output_ok (b\<lparr>cb_output_dest := d, cb_output_avail := a\<rparr>) q"
proof (cases q)
  case Nil
  then show ?thesis using layout_empty_iff [OF assms] that
    by (simp add: ChunkBuffer2_update_output_def cb_output_ok_def)
next
  case (Cons p ps)
  note h = layout_head [OF assms(1) [unfolded Cons] assms(2)]
  show ?thesis using layout_empty_iff [OF assms] h Cons that
    by (simp add: ChunkBuffer2_update_output_def cb_output_ok_def len_at_chunk chunk_blocks_def)
qed

text \<open>The destinations and counts have no part in the layout.\<close>

lemma end_free_io [simp]:
  "ChunkBuffer2_end (b\<lparr>cb_input_dest := d, cb_input_avail := a\<rparr>) = ChunkBuffer2_end b"
  "ChunkBuffer2_end (b\<lparr>cb_output_dest := d, cb_output_avail := a\<rparr>) = ChunkBuffer2_end b"
  "ChunkBuffer2_free (b\<lparr>cb_input_dest := d, cb_input_avail := a\<rparr>) = ChunkBuffer2_free b"
  "ChunkBuffer2_free (b\<lparr>cb_output_dest := d, cb_output_avail := a\<rparr>) = ChunkBuffer2_free b"
  by (simp_all add: ChunkBuffer2_end_def ChunkBuffer2_free_def)

lemma buffer_irrelevant [simp]:
  "ChunkBuffer2_end (b\<lparr>cb_buffer := m\<rparr>) = ChunkBuffer2_end b"
  "ChunkBuffer2_free (b\<lparr>cb_buffer := m\<rparr>) = ChunkBuffer2_free b"
  "cb_wrapped (b\<lparr>cb_buffer := m\<rparr>) = cb_wrapped b"
  "ChunkBuffer2_assert_buffer (b\<lparr>cb_buffer := m\<rparr>) = ChunkBuffer2_assert_buffer b"
  by (simp_all add: ChunkBuffer2_end_def ChunkBuffer2_free_def cb_wrapped_def ChunkBuffer2_assert_buffer_def)

lemma io_ok_buffer [simp]:
  "cb_input_ok (b\<lparr>cb_buffer := m\<rparr>) = cb_input_ok b"
  "cb_output_ok (b\<lparr>cb_buffer := m\<rparr>) q = cb_output_ok b q"
  by (simp add: cb_input_ok_def, cases q) (simp_all add: cb_output_ok_def)

lemma io_fields_irrelevant [simp]:
  "cb_layout (b\<lparr>cb_input_dest := d, cb_input_avail := a\<rparr>) q = cb_layout b q"
  "cb_layout (b\<lparr>cb_output_dest := d, cb_output_avail := a\<rparr>) q = cb_layout b q"
  "ChunkBuffer2_assert_buffer (b\<lparr>cb_input_dest := d, cb_input_avail := a\<rparr>) = ChunkBuffer2_assert_buffer b"
  "ChunkBuffer2_assert_buffer (b\<lparr>cb_output_dest := d, cb_output_avail := a\<rparr>) = ChunkBuffer2_assert_buffer b"
  "cb_input_ok (b\<lparr>cb_output_dest := d, cb_output_avail := a\<rparr>) = cb_input_ok b"
  by (simp_all add: cb_layout_def cb_wrapped_def ChunkBuffer2_assert_buffer_def cb_input_ok_def)

lemma output_ok_input_fields [simp]:
  "cb_output_ok (b\<lparr>cb_input_dest := d, cb_input_avail := a\<rparr>) q = cb_output_ok b q"
  by (cases q) (simp_all add: cb_output_ok_def)

lemma update_input_ok:
  obtains d a where "ChunkBuffer2_update_input b = b\<lparr>cb_input_dest := d, cb_input_avail := a\<rparr>"
    and "cb_input_ok (b\<lparr>cb_input_dest := d, cb_input_avail := a\<rparr>)"
proof (cases "cb_size b - ChunkBuffer2_end b - 1 < cb_mtu b \<or> \<not> ChunkBuffer2_free b > 0")
  case True
  then show ?thesis using that [where d = None and a = "-1"] by (auto simp: ChunkBuffer2_update_input_def cb_input_ok_def Let_def)
next
  case False
  then show ?thesis
    using that [where d = "Some (4 * (ChunkBuffer2_end b + 1))"
                and a = "(ChunkBuffer2_free b - 1) * int block_size"]
    by (auto simp: ChunkBuffer2_update_input_def cb_input_ok_def Let_def)
qed

lemma input_room:
  assumes "cb_holds b q" and "0 \<le> n" and "n \<le> cb_input_avail b"
  shows "cb_input_dest b = Some (4 * (ChunkBuffer2_end b + 1))"
    and "data_blocks n \<le> ChunkBuffer2_free b - 1"
    and "cb_input_avail b = 4 * (ChunkBuffer2_free b - 1)" and "0 < ChunkBuffer2_free b"
proof -
  have io: "cb_input_ok b" using assms(1) by (simp add: cb_holds_iff)
  then have "\<not> cb_size b - ChunkBuffer2_end b - 1 < cb_mtu b" "ChunkBuffer2_free b > 0"
    using assms(2,3) by (auto simp: cb_input_ok_def split: if_splits)
  with io assms(2,3) show "cb_input_dest b = Some (4 * (ChunkBuffer2_end b + 1))"
    "data_blocks n \<le> ChunkBuffer2_free b - 1" "cb_input_avail b = 4 * (ChunkBuffer2_free b - 1)"
    "0 < ChunkBuffer2_free b"
    using data_blocks_le_iff [of n "ChunkBuffer2_free b - 1"]
    by (auto simp: cb_input_ok_def block_size_def)
qed

text \<open>The free part: blocks from the end, none of them used.\<close>

lemma free_region:
  assumes "cb_holds b q"
  shows "0 \<le> ChunkBuffer2_end b" and "ChunkBuffer2_end b + ChunkBuffer2_free b \<le> cb_size b"
    and "cb_wrapped b \<Longrightarrow> ChunkBuffer2_end b + ChunkBuffer2_free b = cb_start b"
    and "\<not> cb_wrapped b \<Longrightarrow> cb_wrap b = cb_size b \<and> ChunkBuffer2_end b + ChunkBuffer2_free b = cb_size b
           \<and> ChunkBuffer2_end b = cb_start b + cb_used b"
    and "0 \<le> ChunkBuffer2_free b"
  using assms
  by (auto simp: cb_holds_iff ChunkBuffer2_assert_buffer_def ChunkBuffer2_end_def ChunkBuffer2_free_def
      cb_wrapped_def split: if_splits)

text \<open>Changing memory in the free part keeps the packets.\<close>

lemma layout_free_write:
  assumes h: "cb_holds b q" and m: "length m = length (cb_buffer b)"
    and low: "same_on (cb_buffer b) m 0 (nat (4 * ChunkBuffer2_end b))"
    and high: "same_on (cb_buffer b) m (nat (4 * (ChunkBuffer2_end b + ChunkBuffer2_free b))) (nat (4 * cb_size b))"
  shows "cb_layout (b\<lparr>cb_buffer := m\<rparr>) q"
proof -
  note f = free_region [OF h]
  have l: "cb_layout b q" and ab: "ChunkBuffer2_assert_buffer b" using h by (auto simp: cb_holds_iff)
  have len: "length (cb_buffer b) = nat (4 * cb_size b)" using l by (simp add: cb_layout_def Let_def)
  let ?lim = "cb_size b - cb_mtu b - 1"
  show ?thesis
  proof (cases "cb_wrapped b")
    case True
    then obtain upper lower where q: "q = upper @ lower"
      and u: "contig (cb_buffer b) ?lim (cb_start b) upper (cb_wrap b)"
      and v: "contig (cb_buffer b) ?lim 0 lower (ChunkBuffer2_end b)"
      using l by (auto simp: cb_layout_def Let_def)
    have "contig m ?lim (cb_start b) upper (cb_wrap b)"
      by (rule contig_cong [OF u same_on_mono [OF high]])
         (use f True ab len in \<open>auto simp: ChunkBuffer2_assert_buffer_def\<close>)
    moreover have "contig m ?lim 0 lower (ChunkBuffer2_end b)"
      by (rule contig_cong [OF v same_on_mono [OF low]])
         (use f True ab len in \<open>auto simp: ChunkBuffer2_assert_buffer_def\<close>)
    ultimately show ?thesis using l q m True
      by (auto simp: cb_layout_def Let_def cb_wrapped_def ChunkBuffer2_end_def)
  next
    case False
    then have c: "contig (cb_buffer b) ?lim (cb_start b) q (ChunkBuffer2_end b)"
      using l by (auto simp: cb_layout_def Let_def)
    have "contig m ?lim (cb_start b) q (ChunkBuffer2_end b)"
      by (rule contig_cong [OF c same_on_mono [OF low]])
         (use f False ab len in \<open>auto simp: ChunkBuffer2_assert_buffer_def\<close>)
    then show ?thesis using l m False
      by (auto simp: cb_layout_def Let_def cb_wrapped_def ChunkBuffer2_end_def)
  qed
qed

text \<open>The new fields after a packet of \<open>n\<close> bytes was submitted.\<close>

definition cb_advanced :: "ChunkBuffer2 \<Rightarrow> bytes \<Rightarrow> int \<Rightarrow> ChunkBuffer2" where
  "cb_advanced b m n =
     (let e = ChunkBuffer2_end b; b' = b\<lparr>cb_buffer := m, cb_used := cb_used b + (1 + data_blocks n)\<rparr>
      in if cb_used b' \<le> cb_wrap b' - cb_start b' \<and> cb_mtu b' > cb_size b' - (e + 1 + data_blocks n) - 1
         then b'\<lparr>cb_wrap := e + 1 + data_blocks n\<rparr> else b')"

lemma advanced_layout:
  assumes h: "cb_holds b q" and fits: "chunk_blocks p \<le> ChunkBuffer2_free b"
    and l: "cb_layout (b\<lparr>cb_buffer := m\<rparr>) q" and p: "chunk_at m (ChunkBuffer2_end b) p"
  shows "ChunkBuffer2_assert_buffer (cb_advanced b m (int (length p)))
       \<and> cb_layout (cb_advanced b m (int (length p))) (q @ [p])"
proof -
  note f = free_region [OF h]
  let ?lim = "cb_size b - cb_mtu b - 1" and ?e = "ChunkBuffer2_end b" and ?c = "chunk_blocks p"
  let ?b = "cb_advanced b m (int (length p))"
  have c: "data_blocks (int (length p)) = ?c - 1" "1 \<le> ?c" by (simp_all add: chunk_blocks_def)
  have ab: "ChunkBuffer2_assert_buffer b" using h by (simp add: cb_holds_iff)
  have lim: "cb_start b \<le> ?lim" "?e \<le> ?lim" "length m = nat (4 * cb_size b)" "4 * cb_size b \<le> INT_MAX"
    using l by (simp_all add: cb_layout_def Let_def)
  show ?thesis
  proof (cases "cb_wrapped b")
    case True
    then obtain upper lower where q: "q = upper @ lower"
      and u: "contig m ?lim (cb_start b) upper (cb_wrap b)" and v: "contig m ?lim 0 lower ?e"
      using l by (auto simp: cb_layout_def Let_def)
    have v': "contig m ?lim 0 (lower @ [p]) (?e + ?c)" using v p lim(2) by (auto simp: contig_append)
    have e: "?e = cb_used b - (cb_wrap b - cb_start b)" using True by (simp add: cb_wrapped_def ChunkBuffer2_end_def)
    have adv: "?b = b\<lparr>cb_buffer := m, cb_used := cb_used b + ?c\<rparr>"
      using True c by (simp add: cb_advanced_def cb_wrapped_def Let_def)
    have wr: "cb_wrapped ?b" "ChunkBuffer2_end ?b = ?e + ?c"
      using True c e by (simp_all add: adv cb_wrapped_def ChunkBuffer2_end_def)
    have "cb_size b - cb_mtu b \<le> cb_wrap b" using l True by (simp add: cb_layout_def Let_def)
    moreover have "\<exists>us ls. q @ [p] = us @ ls \<and> contig m ?lim (cb_start b) us (cb_wrap b)
                     \<and> contig m ?lim 0 ls (?e + ?c)"
      using q u v' by (intro exI [of _ upper] exI [of _ "lower @ [p]"]) simp
    ultimately have "cb_layout ?b (q @ [p])"
      unfolding cb_layout_def Let_def using wr lim f(3) [OF True] fits by (simp add: adv)
    moreover have "ChunkBuffer2_assert_buffer ?b"
      using ab f(3) [OF True] fits e c by (auto simp: adv ChunkBuffer2_assert_buffer_def)
    ultimately show ?thesis by simp
  next
    case False
    have u: "contig m ?lim (cb_start b) q ?e"
      using l False by (simp add: cb_layout_def Let_def)
    have u': "contig m ?lim (cb_start b) (q @ [p]) (?e + ?c)" using u p lim(2) by (auto simp: contig_append)
    note nw = f(4) [OF False]
    show ?thesis
    proof (cases "cb_mtu b > cb_size b - (?e + ?c) - 1")
      case True
      have adv: "?b = b\<lparr>cb_buffer := m, cb_used := cb_used b + ?c, cb_wrap := ?e + ?c\<rparr>"
        using True c nw fits by (simp add: cb_advanced_def Let_def)
      have e: "?e = cb_start b + cb_used b" using nw by simp
      have wr: "cb_wrapped ?b" "ChunkBuffer2_end ?b = 0"
        by (simp_all add: adv e cb_wrapped_def ChunkBuffer2_end_def [of "b\<lparr>cb_buffer := _, cb_used := _, cb_wrap := _\<rparr>"])
      have "\<exists>us ls. q @ [p] = us @ ls \<and> contig m ?lim (cb_start b) us (?e + ?c) \<and> contig m ?lim 0 ls 0"
        using u' by (intro exI [of _ "q @ [p]"] exI [of _ "[]"]) simp
      then have "cb_layout ?b (q @ [p])"
        unfolding cb_layout_def Let_def using wr lim True ab
        by (simp add: adv ChunkBuffer2_assert_buffer_def)
      moreover have "ChunkBuffer2_assert_buffer ?b"
        using ab nw fits c by (auto simp: adv ChunkBuffer2_assert_buffer_def)
      ultimately show ?thesis by simp
    next
      case mtu: False
      have adv: "?b = b\<lparr>cb_buffer := m, cb_used := cb_used b + ?c\<rparr>"
        using mtu c nw by (simp add: cb_advanced_def Let_def)
      have e: "?e = cb_start b + cb_used b" "cb_wrap b = cb_size b" using nw by simp_all
      have wr: "\<not> cb_wrapped ?b" "ChunkBuffer2_end ?b = ?e + ?c"
        using mtu ab e by (simp_all add: adv cb_wrapped_def ChunkBuffer2_assert_buffer_def
          ChunkBuffer2_end_def [of "b\<lparr>cb_buffer := _, cb_used := _\<rparr>"])
      have "cb_layout ?b (q @ [p])"
        unfolding cb_layout_def Let_def using wr u' lim mtu by (simp add: adv)
      moreover have "ChunkBuffer2_assert_buffer ?b"
        using ab nw mtu c by (auto simp: adv ChunkBuffer2_assert_buffer_def)
      ultimately show ?thesis by simp
    qed
  qed
qed

lemma put_stores:
  assumes h: "cb_holds b q" and n: "int (length d) \<le> cb_input_avail b"
  obtains m1 m2 where "store (cb_buffer b) (nat (4 * (ChunkBuffer2_end b + 1))) d = Some m1"
    and "store m1 (nat (4 * ChunkBuffer2_end b)) (mem32 (word_of_int (int (length d)))) = Some m2"
    and "cb_layout (b\<lparr>cb_buffer := m1\<rparr>) q" and "cb_layout (b\<lparr>cb_buffer := m2\<rparr>) q"
    and "chunk_at m2 (ChunkBuffer2_end b) d" and "chunk_blocks d \<le> ChunkBuffer2_free b"
proof -
  note f = free_region [OF h] and r = input_room [OF h _ n]
  let ?e = "ChunkBuffer2_end b" and ?f = "ChunkBuffer2_free b"
  have len: "length (cb_buffer b) = nat (4 * cb_size b)" "4 * cb_size b \<le> INT_MAX"
    using h by (auto simp: cb_holds_iff cb_layout_def Let_def)
  have dl: "4 * (?e + 1) + int (length d) \<le> 4 * (?e + ?f)" using r(3) n by simp
  have "nat (4 * (?e + 1)) + length d = nat (4 * (?e + 1) + int (length d))"
    using f(1) by (simp add: nat_add_distrib)
  then have "nat (4 * (?e + 1)) + length d \<le> length (cb_buffer b)"
    using len dl f(1,2) by simp
  then obtain m1 where m1: "store (cb_buffer b) (nat (4 * (?e + 1))) d = Some m1"
    using store_Some by blast
  note l1 = length_store [OF m1]
  have "nat (4 * ?e) + length (mem32 (word_of_int (int (length d)))) \<le> length m1"
    using len l1 dl f(1,2) by (simp add: length_mem)
  then obtain m2 where m2: "store m1 (nat (4 * ?e)) (mem32 (word_of_int (int (length d)))) = Some m2"
    using store_Some by blast
  note l2 = length_store [OF m2]
  have s1: "same_on (cb_buffer b) m1 0 (nat (4 * ?e))"
    "same_on (cb_buffer b) m1 (nat (4 * (?e + ?f))) (nat (4 * cb_size b))"
    using f dl by (auto intro!: same_on_store [OF m1])
  have s2: "same_on m1 m2 0 (nat (4 * ?e))" "same_on m1 m2 (nat (4 * (?e + ?f))) (nat (4 * cb_size b))"
    using f dl by (auto intro!: same_on_store [OF m2] simp: length_mem)
  have "segment m2 (nat (4 * (?e + 1))) (length d) = segment m1 (nat (4 * (?e + 1))) (length d)"
    by (rule segment_store_after [OF m2]) (use f in \<open>auto simp: length_mem\<close>)
  then have c: "chunk_at m2 ?e d"
    using segment_store_same [OF m2] segment_store_same [OF m1] f len dl
    by (simp add: chunk_at_def length_mem)
  show ?thesis
  proof (rule that [OF m1 m2 _ _ c])
    show "cb_layout (b\<lparr>cb_buffer := m1\<rparr>) q" using layout_free_write [OF h] s1 l1 by simp
    show "cb_layout (b\<lparr>cb_buffer := m2\<rparr>) q"
      using layout_free_write [OF h] same_on_trans [OF s1(1) s2(1)] same_on_trans [OF s1(2) s2(2)] l1 l2 by simp
    show "chunk_blocks d \<le> ?f" using r(2) by (simp add: chunk_blocks_def)
  qed
qed

lemma SubmitPacket_advanced:
  "ChunkBuffer2_SubmitPacket b len = do {
     ASSERT (cb_input_dest b \<noteq> None \<and> len \<ge> 0 \<and> len \<le> cb_input_avail b
             \<and> ChunkBuffer2_assert_buffer b \<and> ChunkBuffer2_assert_io b
             \<and> data_blocks len \<le> cb_size b - ChunkBuffer2_end b - 1
             \<and> (cb_used b < cb_wrap b - cb_start b \<or> data_blocks len \<le> cb_start b - ChunkBuffer2_end b - 1));
     m \<leftarrow> store (cb_buffer b) (nat (4 * ChunkBuffer2_end b)) (mem32 (word_of_int len));
     let b' = cb_advanced b m len;
     ASSERT (ChunkBuffer2_assert_buffer b');
     let b' = ChunkBuffer2_update_input b';
     b' \<leftarrow> (if cb_used b' = 1 + data_blocks len then ChunkBuffer2_update_output b' else Some b');
     ASSERT (ChunkBuffer2_assert_io b');
     Some b' }"
  by (simp only: ChunkBuffer2_SubmitPacket_def cb_advanced_def ASSERT_conj Let_def)

lemma put_ok:
  assumes h: "cb_holds b q" and n: "int (length d) \<le> cb_input_avail b"
  obtains b' where "cb_put b d = Some b'" and "cb_holds b' (q @ [d])"
    and "cb_size b' = cb_size b" and "cb_mtu b' = cb_mtu b"
proof -
  obtain m1 m2 where m1: "store (cb_buffer b) (nat (4 * (ChunkBuffer2_end b + 1))) d = Some m1"
    and m2: "store m1 (nat (4 * ChunkBuffer2_end b)) (mem32 (word_of_int (int (length d)))) = Some m2"
    and l: "cb_layout (b\<lparr>cb_buffer := m1\<rparr>) q" "cb_layout (b\<lparr>cb_buffer := m2\<rparr>) q"
    and c: "chunk_at m2 (ChunkBuffer2_end b) d" and fits: "chunk_blocks d \<le> ChunkBuffer2_free b"
    by (rule put_stores [OF h n])
  note f = free_region [OF h] and r = input_room [OF h _ n]
  let ?b = "cb_advanced b m2 (int (length d))"
  have ab: "ChunkBuffer2_assert_buffer ?b" and lb: "cb_layout ?b (q @ [d])"
    using advanced_layout [OF h fits l(2) c] by auto
  have io1: "ChunkBuffer2_assert_io (b\<lparr>cb_buffer := m1\<rparr>)"
    using h assert_io_iff [OF l(1)] by (simp add: cb_holds_iff)
  obtain di ai where ui: "ChunkBuffer2_update_input ?b = ?b\<lparr>cb_input_dest := di, cb_input_avail := ai\<rparr>"
    and oi: "cb_input_ok (?b\<lparr>cb_input_dest := di, cb_input_avail := ai\<rparr>)" by (rule update_input_ok)
  let ?bi = "?b\<lparr>cb_input_dest := di, cb_input_avail := ai\<rparr>"
  have fields: "cb_used ?b = cb_used b + chunk_blocks d" "cb_start ?b = cb_start b"
    "cb_output_dest ?b = cb_output_dest b" "cb_output_avail ?b = cb_output_avail b"
    "cb_size ?b = cb_size b" "cb_mtu ?b = cb_mtu b"
    by (simp_all add: cb_advanced_def Let_def chunk_blocks_def)
  have keep: "cb_output_ok ?bi (q @ [d])" if "q \<noteq> []"
    using that h fields by (cases q) (auto simp: cb_holds_iff cb_output_ok_def)
  obtain dd aa where uo: "ChunkBuffer2_update_output ?bi = Some (?bi\<lparr>cb_output_dest := dd, cb_output_avail := aa\<rparr>)"
    and oo: "cb_output_ok (?bi\<lparr>cb_output_dest := dd, cb_output_avail := aa\<rparr>) (q @ [d])"
    by (rule update_output_Some [of ?bi "q @ [d]"]) (use ab lb in auto)
  have empty: "cb_used ?b = 1 + data_blocks (int (length d)) \<longleftrightarrow> q = []"
    using layout_empty_iff [of b q] h fields by (auto simp: cb_holds_iff chunk_blocks_def ChunkBuffer2_assert_buffer_def)
  define b' where "b' = (if q = [] then ?bi\<lparr>cb_output_dest := dd, cb_output_avail := aa\<rparr> else ?bi)"
  have holds: "cb_holds b' (q @ [d])" using ab lb oi oo keep by (auto simp: b'_def cb_holds_iff)
  have "data_blocks (int (length d)) \<le> cb_size b - ChunkBuffer2_end b - 1" using r(2) f(2) by simp
  moreover have "cb_used b < cb_wrap b - cb_start b \<or> data_blocks (int (length d)) \<le> cb_start b - ChunkBuffer2_end b - 1"
    using r(2) f(3) by (cases "cb_wrapped b") (auto simp: cb_wrapped_def)
  moreover have "cb_advanced (b\<lparr>cb_buffer := m1\<rparr>) m2 (int (length d)) = ?b" by (simp add: cb_advanced_def Let_def)
  moreover have "ChunkBuffer2_assert_buffer b" "ChunkBuffer2_assert_io b'"
    using h holds by (simp_all add: cb_holds_def)
  ultimately have "ChunkBuffer2_SubmitPacket (b\<lparr>cb_buffer := m1\<rparr>) (int (length d)) = Some b'"
    using r(1) io1 m2 ab ui uo empty n by (simp add: SubmitPacket_advanced b'_def split: if_splits)
  moreover have "cb_write b d = Some (b\<lparr>cb_buffer := m1\<rparr>)" using m1 r(1) by (simp add: cb_write_def)
  ultimately show ?thesis using that [of b'] holds fields by (auto simp: cb_put_def b'_def)
qed

text \<open>The new fields after the first packet, of \<open>n\<close> bytes, was consumed.\<close>

definition cb_dropped :: "ChunkBuffer2 \<Rightarrow> int \<Rightarrow> ChunkBuffer2" where
  "cb_dropped b n =
     (let b' = b\<lparr>cb_start := cb_start b + (1 + data_blocks n), cb_used := cb_used b - (1 + data_blocks n)\<rparr>
      in if cb_start b' = cb_wrap b' then b'\<lparr>cb_start := 0, cb_wrap := cb_size b'\<rparr> else b')"

lemma ConsumePacket_dropped:
  "ChunkBuffer2_ConsumePacket b = do {
     ASSERT (cb_output_dest b \<noteq> None \<and> ChunkBuffer2_assert_buffer b \<and> ChunkBuffer2_assert_io b
             \<and> 1 \<le> cb_wrap b - cb_start b \<and> 1 \<le> cb_used b
             \<and> data_blocks (ChunkBuffer2_len_at b (cb_start b)) \<le> cb_wrap b - cb_start b - 1
             \<and> data_blocks (ChunkBuffer2_len_at b (cb_start b)) \<le> cb_used b - 1);
     let b' = cb_dropped b (ChunkBuffer2_len_at b (cb_start b));
     ASSERT (ChunkBuffer2_assert_buffer b');
     let b' = (if cb_wrapped b then ChunkBuffer2_update_input b' else b');
     b' \<leftarrow> ChunkBuffer2_update_output b';
     ASSERT (ChunkBuffer2_assert_io b');
     Some b' }"
  by (simp only: ChunkBuffer2_ConsumePacket_def cb_dropped_def cb_wrapped_def ASSERT_conj Let_def)

lemma contig_start: "contig m lim i ps j \<Longrightarrow> i < j \<Longrightarrow> i \<le> lim"
  by (cases ps) auto

lemma dropped_layout:
  assumes h: "cb_holds b (p # q)"
  shows "ChunkBuffer2_assert_buffer (cb_dropped b (int (length p)))"
    and "cb_layout (cb_dropped b (int (length p))) q"
    and "ChunkBuffer2_end (cb_dropped b (int (length p))) = ChunkBuffer2_end b"
    and "ChunkBuffer2_free (cb_dropped b (int (length p))) \<ge> ChunkBuffer2_free b"
    and "\<not> cb_wrapped b \<Longrightarrow> ChunkBuffer2_free (cb_dropped b (int (length p))) = ChunkBuffer2_free b"
proof -
  have l: "cb_layout b (p # q)" and ab: "ChunkBuffer2_assert_buffer b" using h by (auto simp: cb_holds_iff)
  note hd = layout_head [OF l ab] and f = free_region [OF h]
  let ?lim = "cb_size b - cb_mtu b - 1" and ?c = "chunk_blocks p" and ?e = "ChunkBuffer2_end b"
  let ?b = "cb_dropped b (int (length p))"
  have c: "1 + data_blocks (int (length p)) = ?c" "1 \<le> ?c" by (simp_all add: chunk_blocks_def)
  have lim: "cb_start b \<le> ?lim" "?e \<le> ?lim" "length (cb_buffer b) = nat (4 * cb_size b)" "4 * cb_size b \<le> INT_MAX"
    using l by (simp_all add: cb_layout_def Let_def)
  note bufdef = ChunkBuffer2_assert_buffer_def [of b] ChunkBuffer2_assert_buffer_def [of ?b]
  have "ChunkBuffer2_assert_buffer ?b \<and> cb_layout ?b q \<and> ChunkBuffer2_end ?b = ?e
        \<and> ChunkBuffer2_free ?b \<ge> ChunkBuffer2_free b
        \<and> (\<not> cb_wrapped b \<longrightarrow> ChunkBuffer2_free ?b = ChunkBuffer2_free b)"
  proof (cases "cb_wrapped b")
    case True
    then obtain upper lower where q: "p # q = upper @ lower"
      and u: "contig (cb_buffer b) ?lim (cb_start b) upper (cb_wrap b)" and v: "contig (cb_buffer b) ?lim 0 lower ?e"
      using l by (auto simp: cb_layout_def Let_def)
    have "upper \<noteq> []" using u ab by (auto simp: ChunkBuffer2_assert_buffer_def)
    then obtain us where us: "upper = p # us" "q = us @ lower" using q by (cases upper) auto
    have u': "contig (cb_buffer b) ?lim (cb_start b + ?c) us (cb_wrap b)" using u us by simp
    have e: "?e = cb_used b - (cb_wrap b - cb_start b)" using True by (simp add: cb_wrapped_def ChunkBuffer2_end_def)
    have fr: "ChunkBuffer2_free b = cb_start b - ?e" using f(3) [OF True] by simp
    show ?thesis
    proof (cases "cb_start b + ?c = cb_wrap b")
      case w: True
      then have "us = []" using contig_le [OF u'] by auto
      have d: "?b = b\<lparr>cb_start := 0, cb_used := cb_used b - ?c, cb_wrap := cb_size b\<rparr>"
        using w by (simp add: cb_dropped_def c Let_def)
      have es: "?e < cb_size b" using lim ab by (simp add: ChunkBuffer2_assert_buffer_def)
      have eb: "ChunkBuffer2_end ?b = ?e" "\<not> cb_wrapped ?b" "ChunkBuffer2_free ?b = cb_size b - ?e"
        using w e es by (simp_all add: d cb_wrapped_def ChunkBuffer2_end_def [of "b\<lparr>cb_start := _, cb_used := _, cb_wrap := _\<rparr>"]
          ChunkBuffer2_free_def [of "b\<lparr>cb_start := _, cb_used := _, cb_wrap := _\<rparr>"])
      have "cb_layout ?b q" unfolding cb_layout_def Let_def
        using eb v lim us \<open>us = []\<close> ab by (simp add: d ChunkBuffer2_assert_buffer_def)
      moreover have "ChunkBuffer2_assert_buffer ?b"
        using ab e w f(1) es by (auto simp: d ChunkBuffer2_assert_buffer_def)
      ultimately show ?thesis using eb fr True ab by (simp add: ChunkBuffer2_assert_buffer_def)
    next
      case w: False
      have d: "?b = b\<lparr>cb_start := cb_start b + ?c, cb_used := cb_used b - ?c\<rparr>"
        using w by (simp add: cb_dropped_def c Let_def)
      have eb: "ChunkBuffer2_end ?b = ?e" "cb_wrapped ?b" "ChunkBuffer2_free ?b = cb_start b + ?c - ?e"
        using True e by (simp_all add: d cb_wrapped_def ChunkBuffer2_end_def [of "b\<lparr>cb_start := _, cb_used := _\<rparr>"]
          ChunkBuffer2_free_def [of "b\<lparr>cb_start := _, cb_used := _\<rparr>"])
      have "cb_start b + ?c \<le> ?lim" using contig_start [OF u'] hd(3) w by simp
      moreover have "cb_size b - cb_mtu b \<le> cb_wrap b" using l True by (simp add: cb_layout_def Let_def)
      ultimately have "cb_layout ?b q" unfolding cb_layout_def Let_def
        using eb v lim us u' by (auto simp: d)
      moreover have "ChunkBuffer2_assert_buffer ?b"
        using ab e w f(1) hd c True by (auto simp: d ChunkBuffer2_assert_buffer_def cb_wrapped_def)
      ultimately show ?thesis using eb fr True c by simp
    qed
  next
    case False
    note nw = f(4) [OF False]
    then have u: "contig (cb_buffer b) ?lim (cb_start b) (p # q) ?e" using l False by (simp add: cb_layout_def Let_def)
    have e: "?e = cb_start b + cb_used b" "?e < cb_size b" "?e + ChunkBuffer2_free b = cb_size b"
      using nw lim ab by (auto simp: ChunkBuffer2_assert_buffer_def)
    have d: "?b = b\<lparr>cb_start := cb_start b + ?c, cb_used := cb_used b - ?c\<rparr>"
      using nw e hd by (simp add: cb_dropped_def c Let_def)
    have eb: "ChunkBuffer2_end ?b = ?e" "\<not> cb_wrapped ?b" "ChunkBuffer2_free ?b = cb_size b - ?e"
      using nw e by (simp_all add: d cb_wrapped_def ChunkBuffer2_end_def [of "b\<lparr>cb_start := _, cb_used := _\<rparr>"]
        ChunkBuffer2_free_def [of "b\<lparr>cb_start := _, cb_used := _\<rparr>"])
    have "cb_layout ?b q" unfolding cb_layout_def Let_def
      using eb lim u e hd by (simp add: d)
    moreover have "ChunkBuffer2_assert_buffer ?b"
      using ab nw e hd c by (auto simp: d ChunkBuffer2_assert_buffer_def)
    ultimately show ?thesis using eb e by simp
  qed
  then show "ChunkBuffer2_assert_buffer ?b" "cb_layout ?b q" "ChunkBuffer2_end ?b = ?e"
    "ChunkBuffer2_free ?b \<ge> ChunkBuffer2_free b"
    "\<not> cb_wrapped b \<Longrightarrow> ChunkBuffer2_free ?b = ChunkBuffer2_free b" by auto
qed

lemma input_ok_avail:
  assumes "cb_input_ok b" and "ChunkBuffer2_end b \<le> cb_size b - cb_mtu b - 1" and "0 \<le> ChunkBuffer2_free b"
  shows "cb_input_avail b = (if ChunkBuffer2_free b > 0 then 4 * (ChunkBuffer2_free b - 1) else -1)"
    and "cb_input_dest b = (if ChunkBuffer2_free b > 0 then Some (4 * (ChunkBuffer2_end b + 1)) else None)"
  using assms by (auto simp: cb_input_ok_def block_size_def)

lemma consume_ok:
  assumes h: "cb_holds b (p # q)"
  obtains b' where "ChunkBuffer2_ConsumePacket b = Some b'" and "cb_holds b' q"
    and "cb_input_avail b \<le> cb_input_avail b'"
    and "cb_input_dest b \<noteq> None \<Longrightarrow> cb_input_dest b' = cb_input_dest b"
    and "cb_size b' = cb_size b" and "cb_mtu b' = cb_mtu b" and "cb_buffer b' = cb_buffer b"
proof -
  have l: "cb_layout b (p # q)" and ab: "ChunkBuffer2_assert_buffer b" and io: "ChunkBuffer2_assert_io b"
    using h by (auto simp: cb_holds_def)
  note hd = layout_head [OF l ab] and f = free_region [OF h]
  let ?b = "cb_dropped b (int (length p))"
  note d = dropped_layout [OF h]
  have len: "ChunkBuffer2_len_at b (cb_start b) = int (length p)" by (rule len_at_chunk [OF hd(1)])
  obtain di ai where ui: "ChunkBuffer2_update_input ?b = ?b\<lparr>cb_input_dest := di, cb_input_avail := ai\<rparr>"
    and oi: "cb_input_ok (?b\<lparr>cb_input_dest := di, cb_input_avail := ai\<rparr>)" by (rule update_input_ok)
  have fields: "cb_size ?b = cb_size b" "cb_mtu ?b = cb_mtu b" "cb_input_dest ?b = cb_input_dest b"
    "cb_input_avail ?b = cb_input_avail b" "cb_buffer ?b = cb_buffer b"
    by (simp_all add: cb_dropped_def Let_def)
  define bi where "bi = (if cb_wrapped b then ?b\<lparr>cb_input_dest := di, cb_input_avail := ai\<rparr> else ?b)"
  have bi: "cb_input_ok bi"
  proof (cases "cb_wrapped b")
    case False
    have "cb_input_ok b" using h by (simp add: cb_holds_iff)
    with False show ?thesis using d(3) d(5) [OF False] fields by (simp add: bi_def cb_input_ok_def)
  qed (simp add: bi_def oi)
  have lb: "cb_layout bi q" "ChunkBuffer2_assert_buffer bi" using d by (simp_all add: bi_def)
  have eb: "ChunkBuffer2_end bi = ChunkBuffer2_end b" "ChunkBuffer2_free bi \<ge> ChunkBuffer2_free b"
    "cb_size bi = cb_size b" "cb_mtu bi = cb_mtu b" "cb_buffer bi = cb_buffer b"
    using d fields by (simp_all add: bi_def)
  obtain dd aa where uo: "ChunkBuffer2_update_output bi = Some (bi\<lparr>cb_output_dest := dd, cb_output_avail := aa\<rparr>)"
    and oo: "cb_output_ok (bi\<lparr>cb_output_dest := dd, cb_output_avail := aa\<rparr>) q"
    by (rule update_output_Some [OF lb])
  let ?b' = "bi\<lparr>cb_output_dest := dd, cb_output_avail := aa\<rparr>"
  have holds: "cb_holds ?b' q" using lb bi oo by (simp add: cb_holds_iff)
  have od: "cb_output_dest b \<noteq> None" "1 \<le> cb_used b" "1 \<le> cb_wrap b - cb_start b"
    using h hd chunk_blocks_pos [of p] by (auto simp: cb_holds_iff cb_output_ok_def)
  have run: "ChunkBuffer2_ConsumePacket b = Some ?b'"
    unfolding ConsumePacket_dropped len
    using od hd io ab uo holds d(1) ui
    by (auto simp: cb_holds_def chunk_blocks_def bi_def Let_def split: if_splits)
  have e: "ChunkBuffer2_end b \<le> cb_size b - cb_mtu b - 1" using l by (simp add: cb_layout_def Let_def)
  note a = input_ok_avail [of b] input_ok_avail [OF bi]
  have "cb_input_avail b \<le> cb_input_avail bi" "cb_input_dest b \<noteq> None \<Longrightarrow> cb_input_dest bi = cb_input_dest b"
    using a h e f(5) eb by (auto simp: cb_holds_iff)
  then show ?thesis using that [of ?b'] run holds eb by simp
qed

lemma init_ok:
  assumes "0 \<le> mtu" and "data_blocks mtu < blocks" and "4 * blocks \<le> INT_MAX" and "length buffer = nat (4 * blocks)"
  obtains b where "ChunkBuffer2_Init buffer blocks mtu = Some b" and "cb_holds b []"
    and "cb_size b = blocks" and "cb_mtu b = data_blocks mtu"
proof -
  let ?b = "\<lparr>cb_buffer = buffer, cb_size = blocks, cb_wrap = blocks, cb_start = 0, cb_used = 0,
     cb_mtu = data_blocks mtu, cb_input_dest = None, cb_input_avail = -1, cb_output_dest = None, cb_output_avail = -1\<rparr>"
  have pos: "0 < blocks" using assms(2) data_blocks_nonneg [of mtu] by linarith
  have ab: "ChunkBuffer2_assert_buffer ?b" using pos by (simp add: ChunkBuffer2_assert_buffer_def)
  have l: "cb_layout ?b []"
    using assms pos by (simp add: cb_layout_def Let_def cb_wrapped_def ChunkBuffer2_end_def)
  obtain di ai where ui: "ChunkBuffer2_update_input ?b = ?b\<lparr>cb_input_dest := di, cb_input_avail := ai\<rparr>"
    and oi: "cb_input_ok (?b\<lparr>cb_input_dest := di, cb_input_avail := ai\<rparr>)" by (rule update_input_ok)
  let ?bi = "?b\<lparr>cb_input_dest := di, cb_input_avail := ai\<rparr>"
  have uo: "ChunkBuffer2_update_output ?bi = Some ?bi" by (simp add: ChunkBuffer2_update_output_def)
  have holds: "cb_holds ?bi []" using l ab oi
    by (simp only: cb_holds_iff io_fields_irrelevant) (simp add: cb_output_ok_def)
  then have "ChunkBuffer2_Init buffer blocks mtu = Some ?bi"
    using assms(1) pos ab ui uo by (simp add: ChunkBuffer2_Init_def cb_holds_def Let_def)
  then show ?thesis using that [of ?bi] holds by simp
qed

lemma output_first: "cb_holds b q \<Longrightarrow> cb_output b = (case q of [] \<Rightarrow> None | p # _ \<Rightarrow> Some p)"
  using layout_head(1)
  by (auto simp: cb_holds_iff cb_output_ok_def cb_output_def chunk_at_def split: list.splits)

subsection \<open>Capacity\<close>

lemma contig_length:
  assumes "contig m lim i ps j" and "\<And>p. p \<in> set ps \<Longrightarrow> chunk_blocks p \<le> k"
  shows "j - i \<le> k * int (length ps)"
  using assms
proof (induction ps arbitrary: i)
  case (Cons p ps)
  have "j - (i + chunk_blocks p) \<le> k * int (length ps)" using Cons by auto
  moreover have "chunk_blocks p \<le> k" using Cons.prems(2) by simp
  ultimately show ?case by (simp add: algebra_simps)
qed simp

text \<open>While the free part is shorter than a chunk of the MTU, many packets are in the buffer.\<close>

lemma free_or_used:
  assumes h: "cb_holds b q" and small: "\<And>p. p \<in> set q \<Longrightarrow> chunk_blocks p \<le> 1 + cb_mtu b"
  shows "cb_mtu b + 1 \<le> ChunkBuffer2_free b
         \<or> cb_size b - cb_mtu b - ChunkBuffer2_free b \<le> (1 + cb_mtu b) * int (length q)"
proof (cases "cb_wrapped b")
  case False
  then show ?thesis using free_region(4) [OF h] h by (auto simp: cb_holds_iff cb_layout_def Let_def)
next
  case True
  let ?lim = "cb_size b - cb_mtu b - 1"
  obtain upper lower where q: "q = upper @ lower"
    and u: "contig (cb_buffer b) ?lim (cb_start b) upper (cb_wrap b)"
    and v: "contig (cb_buffer b) ?lim 0 lower (ChunkBuffer2_end b)" and w: "cb_size b - cb_mtu b \<le> cb_wrap b"
    using h True by (auto simp: cb_holds_iff cb_layout_def Let_def)
  have "cb_wrap b - cb_start b \<le> (1 + cb_mtu b) * int (length upper)"
    by (rule contig_length [OF u]) (use small q in auto)
  moreover have "ChunkBuffer2_end b - 0 \<le> (1 + cb_mtu b) * int (length lower)"
    by (rule contig_length [OF v]) (use small q in auto)
  ultimately have "cb_wrap b - cb_start b + ChunkBuffer2_end b \<le> (1 + cb_mtu b) * int (length q)"
    by (simp add: q algebra_simps)
  then show ?thesis using w free_region(3) [OF h True] by linarith
qed

lemma capacity:
  assumes h: "cb_holds b q" and small: "\<And>p. p \<in> set q \<Longrightarrow> int (length p) \<le> mtu" and m: "cb_mtu b = data_blocks mtu"
    and sz: "cb_size b = ChunkBuffer2_calc_blocks mtu num" and fit: "int (length q) < num" and mtu: "0 \<le> mtu"
  shows "mtu \<le> cb_input_avail b"
proof -
  have pos: "0 < cb_size b" using h by (simp add: cb_holds_iff ChunkBuffer2_assert_buffer_def)
  then have s: "cb_size b = (1 + cb_mtu b) * (num + 1)"
    using sz m by (auto simp: ChunkBuffer2_calc_blocks_def Let_def split: if_splits)
  have c: "chunk_blocks p \<le> 1 + cb_mtu b" if "p \<in> set q" for p
    using small [OF that] by (simp add: chunk_blocks_def m data_blocks_mono)
  have m0: "0 \<le> cb_mtu b" by (simp add: m)
  have "(1 + cb_mtu b) * int (length q) \<le> (1 + cb_mtu b) * (num - 1)"
    using fit m0 by (intro mult_left_mono) auto
  then have "cb_mtu b + 1 \<le> ChunkBuffer2_free b"
    using free_or_used [OF h c] s m0 by (auto simp: algebra_simps)
  moreover have "ChunkBuffer2_end b \<le> cb_size b - cb_mtu b - 1"
    using h by (simp add: cb_holds_iff cb_layout_def Let_def)
  ultimately have "cb_input_avail b = 4 * (ChunkBuffer2_free b - 1)"
    using input_ok_avail(1) [of b] h m0 by (simp add: cb_holds_iff)
  then show ?thesis
    using data_blocks_bound [OF mtu] \<open>cb_mtu b + 1 \<le> ChunkBuffer2_free b\<close> m by simp
qed

subsection \<open>The contract of a packet queue\<close>

text \<open>
  What the users of the buffer rely on: it holds a list of packets, a packet is accepted exactly
  if it fits into the space on offer, the first packet is on offer to the reader, and taking it
  never makes the space smaller.
\<close>

datatype fifo_op = Put bytes | Get

fun fifo_run ::
  "('b \<Rightarrow> bytes \<Rightarrow> 'b option) \<Rightarrow> ('b \<Rightarrow> bytes option) \<Rightarrow> ('b \<Rightarrow> 'b option) \<Rightarrow> 'b \<Rightarrow> fifo_op list \<Rightarrow>
   ('b \<times> bytes list) option" where
  "fifo_run put out get b [] = Some (b, [])"
| "fifo_run put out get b (Put d # ops) = do { b \<leftarrow> put b d; fifo_run put out get b ops }"
| "fifo_run put out get b (Get # ops) = do {
     p \<leftarrow> out b; b \<leftarrow> get b; (b, ps) \<leftarrow> fifo_run put out get b ops; Some (b, p # ps) }"

fun fifo_puts :: "fifo_op list \<Rightarrow> bytes list" where
  "fifo_puts [] = []"
| "fifo_puts (Put d # ops) = d # fifo_puts ops"
| "fifo_puts (Get # ops) = fifo_puts ops"

locale packet_fifo =
  fixes holds :: "'b \<Rightarrow> bytes list \<Rightarrow> bool"
    and avail :: "'b \<Rightarrow> int"
    and put :: "'b \<Rightarrow> bytes \<Rightarrow> 'b option"
    and out :: "'b \<Rightarrow> bytes option"
    and get :: "'b \<Rightarrow> 'b option"
  assumes put_fits: "holds b q \<Longrightarrow> int (length d) \<le> avail b \<Longrightarrow> \<exists>b'. put b d = Some b' \<and> holds b' (q @ [d])"
    and put_only: "put b d = Some b' \<Longrightarrow> int (length d) \<le> avail b"
    and out_first: "holds b q \<Longrightarrow> out b = (case q of [] \<Rightarrow> None | p # _ \<Rightarrow> Some p)"
    and get_rest: "holds b (p # q) \<Longrightarrow> \<exists>b'. get b = Some b' \<and> holds b' q \<and> avail b \<le> avail b'"
    and get_none: "holds b [] \<Longrightarrow> get b = None"
begin

lemma put_holds: "holds b q \<Longrightarrow> put b d = Some b' \<Longrightarrow> holds b' (q @ [d])"
  using put_fits put_only by fastforce

lemma run_order:
  "holds b q \<Longrightarrow> fifo_run put out get b ops = Some (b', ps) \<Longrightarrow>
   \<exists>q'. holds b' q' \<and> q @ fifo_puts ops = ps @ q'"
proof (induction ops arbitrary: b q ps rule: fifo_puts.induct)
  case (2 d ops)
  then obtain b1 where b1: "put b d = Some b1" "fifo_run put out get b1 ops = Some (b', ps)"
    by (auto simp: bind_Some_iff)
  then show ?case using "2.IH" [OF put_holds [OF "2.prems"(1) b1(1)] b1(2)] by simp
next
  case (3 ops)
  from "3.prems" obtain p q1 where q: "q = p # q1" by (cases q) (auto simp: out_first)
  then show ?case using 3 get_rest [of b p q1] by (fastforce simp: bind_Some_iff out_first)
qed simp

end

lemma put_only_avail: "cb_put b d = Some b' \<Longrightarrow> int (length d) \<le> cb_input_avail b"
  by (auto simp: cb_put_def cb_write_def ChunkBuffer2_SubmitPacket_def assert_simps Let_def)

interpretation cbq: packet_fifo cb_holds cb_input_avail cb_put cb_output ChunkBuffer2_ConsumePacket
proof (unfold_locales, goal_cases)
  case (1 b q d)
  then show ?case by (metis put_ok)
next
  case (2 b d b')
  then show ?case by (rule put_only_avail)
next
  case (3 b q)
  then show ?case by (rule output_first)
next
  case (4 b p q)
  then show ?case by (metis consume_ok)
next
  case (5 b)
  then show ?case by (simp add: cb_holds_iff cb_output_ok_def ChunkBuffer2_ConsumePacket_def)
qed

text \<open>
  C10. The chunk buffer is a first-in first-out queue of packets. Start from an initialised buffer
  whose memory is at least one chunk of the MTU; whatever sequence of writes (data put at
  \<open>input_dest\<close> and submitted) and reads (the packet at \<open>output_dest\<close> taken and consumed) is
  carried out, the packets read followed by the packets still held are the packets written, byte
  for byte and in order. In every such state a write succeeds, with all assertions of the code
  met, exactly if the packet is at most \<open>input_avail\<close> long, and a read exactly if a packet is left.
\<close>

theorem chunk_buffer_fifo:
  assumes "0 \<le> mtu" and "data_blocks mtu < blocks" and "4 * blocks \<le> INT_MAX"
    and "length mem = nat (4 * blocks)" and "ChunkBuffer2_Init mem blocks mtu = Some b"
    and "fifo_run cb_put cb_output ChunkBuffer2_ConsumePacket b ops = Some (b', ps)"
  shows "\<exists>held. fifo_puts ops = ps @ held \<and> cb_holds b' held
           \<and> (\<forall>d. (cb_put b' d \<noteq> None) = (int (length d) \<le> cb_input_avail b'))
           \<and> (ChunkBuffer2_ConsumePacket b' \<noteq> None) = (held \<noteq> [])
           \<and> cb_output b' = (case held of [] \<Rightarrow> None | p # _ \<Rightarrow> Some p)"
proof -
  have "cb_holds b []" using init_ok [OF assms(1-4)] assms(5) by (metis option.inject)
  from cbq.run_order [OF this assms(6)] obtain held
    where h: "cb_holds b' held" "fifo_puts ops = ps @ held" by auto
  have "(cb_put b' d \<noteq> None) = (int (length d) \<le> cb_input_avail b')" for d
    using cbq.put_fits [OF h(1)] cbq.put_only [of b' d] by fastforce
  moreover have "(ChunkBuffer2_ConsumePacket b' \<noteq> None) = (held \<noteq> [])"
    using cbq.get_rest [of b'] cbq.get_none [of b'] h(1) by (cases held) auto
  ultimately show ?thesis using h cbq.out_first [OF h(1)] by blast
qed

text \<open>
  C18. The buffer has the capacity it was dimensioned for. If \<open>ChunkBuffer2_calc_blocks\<close> gave the
  number of blocks for \<open>num\<close> packets of up to \<open>mtu\<close> bytes, then as long as fewer than \<open>num\<close> such
  packets are in the buffer, whatever their lengths and wherever in the memory they lie,
  there is room for one more packet of \<open>mtu\<close> bytes.
\<close>

theorem chunk_buffer_capacity:
  assumes "cb_holds b q" and "\<forall>p \<in> set q. int (length p) \<le> mtu" and "cb_mtu b = data_blocks mtu"
    and "cb_size b = ChunkBuffer2_calc_blocks mtu num" and "int (length q) < num" and "0 \<le> mtu"
  shows "mtu \<le> cb_input_avail b"
  using capacity assms by blast

text \<open>
  Witnesses: a buffer of six blocks for packets of up to 4 bytes, as \<open>calc_blocks\<close> dimensions it
  for two packets.
\<close>

definition example_buffer :: ChunkBuffer2 where
  "example_buffer = \<lparr>cb_buffer = replicate 24 0, cb_size = 6, cb_wrap = 6, cb_start = 0, cb_used = 0,
     cb_mtu = 1, cb_input_dest = Some 4, cb_input_avail = 20, cb_output_dest = None, cb_output_avail = -1\<rparr>"

lemma data_blocks_4: "data_blocks 4 = 1"
  by (simp add: data_blocks_def bdivide_up_def block_size_def)

lemma example_init: "ChunkBuffer2_Init (replicate 24 0) 6 4 = Some example_buffer"
  by (simp add: ChunkBuffer2_Init_def example_buffer_def data_blocks_4 ChunkBuffer2_assert_buffer_def
      ChunkBuffer2_update_input_def ChunkBuffer2_update_output_def ChunkBuffer2_assert_io_def
      ChunkBuffer2_end_def ChunkBuffer2_free_def block_size_def Let_def)

lemma example_holds: "cb_holds example_buffer []"
  using init_ok [of 4 6 "replicate 24 0"] example_init by (auto simp: data_blocks_4)

theorem chunk_buffer_capacity_witness: "4 \<le> cb_input_avail example_buffer"
  by (rule chunk_buffer_capacity [OF example_holds, where num = 2])
     (simp_all add: example_buffer_def data_blocks_4 ChunkBuffer2_calc_blocks_def Let_def)

theorem chunk_buffer_fifo_witness:
  "\<exists>b' held. fifo_run cb_put cb_output ChunkBuffer2_ConsumePacket example_buffer [Put [1, 2, 3], Put [4], Get] =
        Some (b', [[1, 2, 3]]) \<and> held = [[4]] \<and> cb_holds b' held"
proof -
  obtain b1 where b1: "cb_put example_buffer [1, 2, 3] = Some b1" "cb_holds b1 [[1, 2, 3]]"
    using cbq.put_fits [OF example_holds, of "[1, 2, 3]"] by (auto simp: example_buffer_def)
  have m1: "4 \<le> cb_input_avail b1"
  proof -
    obtain b' where "cb_put example_buffer [1, 2, 3] = Some b'" "cb_size b' = cb_size example_buffer"
      "cb_mtu b' = cb_mtu example_buffer"
      by (rule put_ok [OF example_holds, of "[1, 2, 3]"]) (auto simp: example_buffer_def)
    then show ?thesis using capacity [OF b1(2), of 4 2] b1(1)
      by (simp add: example_buffer_def data_blocks_4 ChunkBuffer2_calc_blocks_def Let_def)
  qed
  obtain b2 where b2: "cb_put b1 [4] = Some b2" "cb_holds b2 [[1, 2, 3], [4]]"
    using cbq.put_fits [OF b1(2), of "[4]"] m1 by auto
  obtain b3 where b3: "ChunkBuffer2_ConsumePacket b2 = Some b3"
    using cbq.get_rest [OF b2(2)] by auto
  have run: "fifo_run cb_put cb_output ChunkBuffer2_ConsumePacket example_buffer [Put [1, 2, 3], Put [4], Get] =
      Some (b3, [[1, 2, 3]])"
    using b1 b2 b3 cbq.out_first [OF b2(2)] by simp
  show ?thesis
    using chunk_buffer_fifo [OF _ _ _ _ example_init run] run by (auto simp: data_blocks_4)
qed

end
