(* ===== verification/PacketProto.thy ===== *)
theory PacketProto
  imports ByteOrder
begin

section \<open>The packet protocol\<close>

text \<open>
  Packets on a byte stream: \<open>protocol/packetproto.h\<close>, \<open>flow/PacketProtoEncoder.c\<close>,
  \<open>flow/PacketProtoDecoder.c\<close> and \<open>flow/PacketStreamSender.c\<close>. A packet is sent as a 16-bit
  little-endian length followed by the data.

  A handler of a flow component is a function from the state of the component to its new state
  and the calls it makes on its neighbours, in order; \<open>None\<close> is a failed assertion or a memory
  access out of bounds.
\<close>

abbreviation PACKETPROTO_MAXPAYLOAD :: int where "PACKETPROTO_MAXPAYLOAD \<equiv> UINT16_MAX"

definition sizeof_packetproto_header :: nat where "sizeof_packetproto_header = 2"

definition PACKETPROTO_ENCLEN :: "int \<Rightarrow> int" where
  "PACKETPROTO_ENCLEN len = int sizeof_packetproto_header + len"

subsection \<open>PacketProtoEncoder\<close>

text \<open>
  The output packet is the destination \<open>data\<close> the receiver gave. The input writes its packet
  after the place of the header; then the header is filled in.
\<close>

record PacketProtoEncoder =
  enc_output_packet :: "bytes option"

datatype encoder_call = Encoder_Recv nat | Encoder_Done int

definition PacketProtoEncoder_Init :: "int \<Rightarrow> (PacketProtoEncoder \<times> int) option" where
  "PacketProtoEncoder_Init input_mtu = do {
     ASSERT (input_mtu \<le> PACKETPROTO_MAXPAYLOAD);
     Some (\<lparr>enc_output_packet = None\<rparr>, PACKETPROTO_ENCLEN input_mtu) }"

definition encoder_output_handler_recv ::
  "PacketProtoEncoder \<Rightarrow> bytes \<Rightarrow> (PacketProtoEncoder \<times> encoder_call list) option" where
  "encoder_output_handler_recv enc data = do {
     ASSERT (enc_output_packet enc = None);
     Some (enc\<lparr>enc_output_packet := Some data\<rparr>, [Encoder_Recv sizeof_packetproto_header]) }"

text \<open>The input provider wrote \<open>packet\<close> to its destination inside the output packet.\<close>

definition encoder_input_written :: "PacketProtoEncoder \<Rightarrow> bytes \<Rightarrow> PacketProtoEncoder option" where
  "encoder_input_written enc packet = do {
     out \<leftarrow> enc_output_packet enc;
     out \<leftarrow> store out sizeof_packetproto_header packet;
     Some (enc\<lparr>enc_output_packet := Some out\<rparr>) }"

text \<open>The third component of the result is the memory the finished packet is in.\<close>

definition encoder_input_handler_done ::
  "PacketProtoEncoder \<Rightarrow> int \<Rightarrow> (PacketProtoEncoder \<times> encoder_call list \<times> bytes) option" where
  "encoder_input_handler_done enc in_len = do {
     out \<leftarrow> enc_output_packet enc;
     out \<leftarrow> store out 0 (mem16 (htol16 (word_of_int in_len)));
     Some (enc\<lparr>enc_output_packet := None\<rparr>, [Encoder_Done (PACKETPROTO_ENCLEN in_len)], out) }"

subsection \<open>PacketStreamSender\<close>

record PacketStreamSender =
  pss_in_len :: int
  pss_in :: bytes
  pss_in_used :: int

datatype sender_call = Sender_Send bytes | Sender_Done

definition PacketStreamSender_Init :: "int \<Rightarrow> PacketStreamSender option" where
  "PacketStreamSender_Init mtu = do {
     ASSERT (mtu \<ge> 0);
     Some \<lparr>pss_in_len = -1, pss_in = [], pss_in_used = 0\<rparr> }"

definition send_data :: "PacketStreamSender \<Rightarrow> (PacketStreamSender \<times> sender_call list) option" where
  "send_data s = do {
     ASSERT (pss_in_len s \<ge> 0);
     if pss_in_used s < pss_in_len s then
       Some (s, [Sender_Send (segment (pss_in s) (nat (pss_in_used s)) (nat (pss_in_len s - pss_in_used s)))])
     else Some (s\<lparr>pss_in_len := -1\<rparr>, [Sender_Done]) }"

definition sender_input_handler_send ::
  "PacketStreamSender \<Rightarrow> bytes \<Rightarrow> (PacketStreamSender \<times> sender_call list) option" where
  "sender_input_handler_send s data = do {
     ASSERT (pss_in_len s = -1);
     send_data (s\<lparr>pss_in_len := int (length data), pss_in := data, pss_in_used := 0\<rparr>) }"

definition sender_output_handler_done ::
  "PacketStreamSender \<Rightarrow> int \<Rightarrow> (PacketStreamSender \<times> sender_call list) option" where
  "sender_output_handler_done s data_len = do {
     ASSERT (pss_in_len s \<ge> 0);
     ASSERT (data_len > 0);
     ASSERT (data_len \<le> pss_in_len s - pss_in_used s);
     send_data (s\<lparr>pss_in_used := pss_in_used s + data_len\<rparr>) }"

subsection \<open>PacketProtoDecoder\<close>

text \<open>
  \<open>Decoder_Recv offset len\<close> asks the input for up to \<open>len\<close> bytes at \<open>offset\<close> of the buffer.
\<close>

record PacketProtoDecoder =
  dec_output_mtu :: int
  dec_buf_size :: int
  dec_buf_start :: int
  dec_buf_used :: int
  dec_buf :: bytes

datatype decoder_call = Decoder_Send bytes | Decoder_Recv int int | Decoder_Error

definition decoder_recv :: "PacketProtoDecoder \<Rightarrow> decoder_call" where
  "decoder_recv d = Decoder_Recv (dec_buf_start d + dec_buf_used d)
                                 (dec_buf_size d - (dec_buf_start d + dec_buf_used d))"

definition process_data :: "PacketProtoDecoder \<Rightarrow> (PacketProtoDecoder \<times> decoder_call list) option" where
  "process_data d =
     (let data = nat (dec_buf_start d); left = dec_buf_used d in
      let no_packet = \<lambda>was_error.
        if was_error then
          let d = d\<lparr>dec_buf_start := 0, dec_buf_used := 0\<rparr> in Some (d, [decoder_recv d, Decoder_Error])
        else if dec_buf_start d + dec_buf_used d = dec_buf_size d then do {
          b \<leftarrow> store (dec_buf d) 0 (segment (dec_buf d) (nat (dec_buf_start d)) (nat (dec_buf_used d)));
          let d = d\<lparr>dec_buf := b, dec_buf_start := 0\<rparr>;
          Some (d, [decoder_recv d]) }
        else Some (d, [decoder_recv d])
      in
      if left < int sizeof_packetproto_header then no_packet False
      else
        let header = segment (dec_buf d) data sizeof_packetproto_header;
            data = data + sizeof_packetproto_header;
            left = left - int sizeof_packetproto_header;
            data_len = uint (ltoh16 (badvpn_read_le16 header))
        in
        if data_len > dec_output_mtu d then no_packet True
        else if left < data_len then no_packet False
        else
          Some (d\<lparr>dec_buf_start := dec_buf_start d + (int sizeof_packetproto_header + data_len),
                  dec_buf_used := dec_buf_used d - (int sizeof_packetproto_header + data_len)\<rparr>,
                [Decoder_Send (segment (dec_buf d) data (nat data_len))]))"

text \<open>The input wrote \<open>bs\<close> at the place it was asked to.\<close>

definition decoder_received :: "PacketProtoDecoder \<Rightarrow> bytes \<Rightarrow> PacketProtoDecoder option" where
  "decoder_received d bs = do {
     b \<leftarrow> store (dec_buf d) (nat (dec_buf_start d + dec_buf_used d)) bs;
     Some (d\<lparr>dec_buf := b\<rparr>) }"

definition decoder_input_handler_done ::
  "PacketProtoDecoder \<Rightarrow> int \<Rightarrow> (PacketProtoDecoder \<times> decoder_call list) option" where
  "decoder_input_handler_done d data_len = do {
     ASSERT (data_len > 0);
     ASSERT (data_len \<le> dec_buf_size d - (dec_buf_start d + dec_buf_used d));
     process_data (d\<lparr>dec_buf_used := dec_buf_used d + data_len\<rparr>) }"

definition decoder_output_handler_done ::
  "PacketProtoDecoder \<Rightarrow> (PacketProtoDecoder \<times> decoder_call list) option" where
  "decoder_output_handler_done d = process_data d"

text \<open>\<open>malloc\<close> is the allocator: the memory it returns for a size, or \<open>None\<close>.\<close>

definition PacketProtoDecoder_Init ::
  "(nat \<Rightarrow> bytes option) \<Rightarrow> int \<Rightarrow> (PacketProtoDecoder \<times> decoder_call list) option" where
  "PacketProtoDecoder_Init malloc mtu =
     (let output_mtu = min mtu PACKETPROTO_MAXPAYLOAD; buf_size = PACKETPROTO_ENCLEN output_mtu in do {
      buf \<leftarrow> malloc (nat buf_size);
      Some (\<lparr>dec_output_mtu = output_mtu, dec_buf_size = buf_size, dec_buf_start = 0, dec_buf_used = 0,
             dec_buf = buf\<rparr>, [Decoder_Recv 0 buf_size]) })"

definition PacketProtoDecoder_Reset :: "PacketProtoDecoder \<Rightarrow> PacketProtoDecoder" where
  "PacketProtoDecoder_Reset d = d\<lparr>dec_buf_start := dec_buf_start d + dec_buf_used d, dec_buf_used := 0\<rparr>"

subsection \<open>Frames\<close>

definition frame :: "bytes \<Rightarrow> bytes" where
  "frame p = mem16 (word_of_int (int (length p))) @ p"

datatype deframed = Need | Too_large | Packet bytes bytes

definition deframe :: "int \<Rightarrow> bytes \<Rightarrow> deframed" where
  "deframe mtu b =
     (if length b < 2 then Need
      else let n = uint (badvpn_read_le16 b) in
        if n > mtu then Too_large
        else if int (length b) - 2 < n then Need
        else Packet (take (nat n) (drop 2 b)) (drop (2 + nat n) b))"

lemma read_le16_take: "badvpn_read_le16 (take 2 b) = badvpn_read_le16 b"
  by (cases b rule: badvpn_read_le16.cases) (simp_all add: numeral_2_eq_2)

lemma length_frame [simp]: "length (frame p) = 2 + length p"
  by (simp add: frame_def length_mem)

lemma uint_len: "int (length p) \<le> UINT16_MAX \<Longrightarrow> uint (word_of_int (int (length p)) :: u16) = int (length p)"
  by (simp add: uint_nat unat_of_nat)

lemma deframe_frame:
  assumes "int (length p) \<le> mtu" and "mtu \<le> PACKETPROTO_MAXPAYLOAD"
  shows "deframe mtu (frame p @ r) = Packet p r"
proof -
  have "badvpn_read_le16 (frame p @ r) = word_of_int (int (length p))"
    unfolding frame_def append_assoc by (rule m16.rd_mem)
  moreover have "drop 2 (frame p @ r) = p @ r" by (simp add: frame_def length_mem)
  ultimately show ?thesis using assms uint_len [of p]
    by (simp add: deframe_def Let_def)
qed

lemma deframe_partial:
  assumes "int (length p) \<le> mtu" and "mtu \<le> PACKETPROTO_MAXPAYLOAD" and "k < length (frame p)"
  shows "deframe mtu (take k (frame p)) = Need"
proof (cases "k < 2")
  case True
  then show ?thesis by (simp add: deframe_def)
next
  case False
  have "take 2 (take k (frame p)) = mem16 (word_of_int (int (length p)))"
    using False by (simp add: frame_def length_mem)
  then have r: "badvpn_read_le16 (take k (frame p)) = word_of_int (int (length p))"
    using read_le16_take [of "take k (frame p)"] m16.rd_mem_exact by simp
  have l: "length (take k (frame p)) = k" using assms(3) by simp
  have "uint (badvpn_read_le16 (take k (frame p))) = int (length p)"
    unfolding r by (rule uint_len) (use assms in simp)
  then show ?thesis using False assms l by (simp add: deframe_def Let_def)
qed

text \<open>
  The contract between the two ends of a stream: a decoder that sees the encoding of a packet
  followed by anything gives the packet and the rest, and it waits while the encoding is
  incomplete. Packets can then be recovered from any prefix of a stream of encodings.
\<close>

locale stream_codec =
  fixes ok :: "bytes \<Rightarrow> bool" and enc :: "bytes \<Rightarrow> bytes" and dec :: "bytes \<Rightarrow> deframed"
  assumes dec_enc: "ok p \<Longrightarrow> dec (enc p @ r) = Packet p r"
    and dec_partial: "ok p \<Longrightarrow> k < length (enc p) \<Longrightarrow> dec (take k (enc p)) = Need"
    and enc_nonempty: "ok p \<Longrightarrow> enc p \<noteq> []"
    and dec_empty: "dec [] = Need"
    and dec_complete: "dec b = Packet p r \<Longrightarrow> ok p \<and> b = enc p @ r"
begin

lemma decode_prefix:
  assumes "\<forall>p \<in> set ps. ok p" and "\<forall>p \<in> set qs. ok p"
    and "concat (map enc ps) = concat (map enc qs) @ rest"
  shows "\<exists>ps'. ps = qs @ ps' \<and> rest = concat (map enc ps')"
  using assms
proof (induction qs arbitrary: ps)
  case (Cons q qs)
  have "concat (map enc ps) \<noteq> []" using Cons.prems(2,3) enc_nonempty [of q] by simp
  then obtain p ps1 where ps: "ps = p # ps1" by (cases ps) auto
  have eq: "enc p @ concat (map enc ps1) = enc q @ (concat (map enc qs) @ rest)"
    using Cons.prems(3) unfolding ps by (simp only: list.map concat.simps append_assoc)
  have "Packet p (concat (map enc ps1)) = dec (enc p @ concat (map enc ps1))"
    by (rule dec_enc [symmetric]) (use Cons.prems(1) in \<open>simp add: ps\<close>)
  also have "\<dots> = dec (enc q @ (concat (map enc qs) @ rest))" by (simp only: eq)
  also have "\<dots> = Packet q (concat (map enc qs) @ rest)" by (rule dec_enc) (use Cons.prems(2) in simp)
  finally have "Packet p (concat (map enc ps1)) = Packet q (concat (map enc qs) @ rest)" .
  then have e: "p = q" "concat (map enc ps1) = concat (map enc qs) @ rest" by simp_all
  have "\<exists>ps'. ps1 = qs @ ps' \<and> rest = concat (map enc ps')"
    by (rule Cons.IH [OF _ _ e(2)]) (use Cons.prems(1,2) in \<open>simp_all add: ps\<close>)
  then show ?case by (simp add: ps e(1))
qed simp

lemma waiting_on_prefix:
  assumes "\<forall>p \<in> set ps. ok p" and "concat (map enc ps) = b @ rest" and "dec b \<noteq> Need"
  shows "\<exists>p ps' r. ps = p # ps' \<and> dec b = Packet p r"
proof (cases ps)
  case Nil
  then show ?thesis using assms dec_empty by simp
next
  case (Cons p ps')
  have ok: "ok p" using assms Cons by simp
  have "b @ rest = enc p @ concat (map enc ps')" using assms Cons by simp
  then obtain us where us: "b = enc p @ us \<or> (b @ us = enc p)"
    unfolding append_eq_append_conv2 by blast
  show ?thesis
  proof (cases "length b < length (enc p)")
    case True
    then have "b @ us = enc p" using us by auto
    then have "take (length b) (enc p) = take (length b) (b @ us)" by (simp only:)
    then have "take (length b) (enc p) = b" by simp
    then show ?thesis using dec_partial [OF ok True] assms(3) by simp
  next
    case False
    have "\<exists>r. b = enc p @ r"
    proof (cases "b @ us = enc p")
      case True
      then have "length (enc p) = length b + length us" by (metis length_append)
      then have "us = []" using False by simp
      then show ?thesis using True by auto
    qed (use us in auto)
    then show ?thesis using dec_enc [OF ok] Cons by auto
  qed
qed

end

lemma deframe_complete:
  assumes "deframe mtu b = Packet p r"
  shows "int (length p) \<le> mtu \<and> b = frame p @ r"
proof -
  have l: "\<not> length b < 2" using assms by (auto simp: deframe_def)
  then obtain x y c where b: "b = x # y # c"
    by (cases b rule: badvpn_read_le16.cases) auto
  let ?n = "uint (badvpn_read_le16 [x, y])"
  have n: "badvpn_read_le16 b = badvpn_read_le16 [x, y]" by (simp add: b)
  have p: "?n \<le> mtu" "?n \<le> int (length c)" "p = take (nat ?n) c" "r = drop (nat ?n) c"
    using assms unfolding deframe_def Let_def n by (auto simp: b split: if_splits simp del: badvpn_read_le16.simps)
  have "nat ?n \<le> length c" using p(2) by (simp only: nat_le_iff)
  then have lp: "int (length p) = ?n" by (simp add: p(3) min_absorb2 del: badvpn_read_le16.simps)
  have "word_of_int (int (length p)) = badvpn_read_le16 [x, y]" unfolding lp by (rule word_of_int_uint)
  then have "mem16 (word_of_int (int (length p))) = [x, y]" by (simp only: mem16_read)
  then have "frame p @ r = b" unfolding frame_def by (simp add: b p)
  then show ?thesis using p(1) lp by simp
qed

interpretation pp: stream_codec "\<lambda>p. int (length p) \<le> min mtu PACKETPROTO_MAXPAYLOAD" frame
  "deframe (min mtu PACKETPROTO_MAXPAYLOAD)" for mtu
proof (unfold_locales, goal_cases)
  case (1 p r)
  then show ?case by (intro deframe_frame) simp_all
next
  case (2 p k)
  then show ?case by (intro deframe_partial) simp_all
next
  case (3 p)
  then show ?case by (auto simp: frame_def mem16_def)
next
  case 4
  then show ?case by (simp add: deframe_def)
next
  case (5 b p r)
  then show ?case using deframe_complete by blast
qed

subsection \<open>The decoder\<close>

definition dec_pending :: "PacketProtoDecoder \<Rightarrow> bytes" where
  "dec_pending d = segment (dec_buf d) (nat (dec_buf_start d)) (nat (dec_buf_used d))"

definition dec_ok :: "PacketProtoDecoder \<Rightarrow> bool" where
  "dec_ok d \<longleftrightarrow> 0 \<le> dec_output_mtu d \<and> dec_output_mtu d \<le> PACKETPROTO_MAXPAYLOAD
     \<and> dec_buf_size d = PACKETPROTO_ENCLEN (dec_output_mtu d) \<and> length (dec_buf d) = nat (dec_buf_size d)
     \<and> 0 \<le> dec_buf_start d \<and> 0 \<le> dec_buf_used d \<and> dec_buf_start d + dec_buf_used d \<le> dec_buf_size d"

lemma length_pending: "dec_ok d \<Longrightarrow> int (length (dec_pending d)) = dec_buf_used d"
  by (simp add: dec_ok_def dec_pending_def nat_add_distrib [symmetric] nat_mono)

lemma need_wraps:
  assumes ok: "dec_ok d" and need: "deframe (dec_output_mtu d) (dec_pending d) = Need"
    and "dec_buf_start d = 0"
  shows "dec_buf_used d < dec_buf_size d"
proof (rule ccontr)
  assume "\<not> ?thesis"
  then have u: "int (length (dec_pending d)) = 2 + dec_output_mtu d"
    using ok length_pending [OF ok] by (simp add: dec_ok_def PACKETPROTO_ENCLEN_def sizeof_packetproto_header_def)
  then show False using need ok by (auto simp: deframe_def Let_def dec_ok_def split: if_splits)
qed

lemma header_read:
  assumes "2 \<le> dec_buf_used d"
  shows "badvpn_read_le16 (segment (dec_buf d) (nat (dec_buf_start d)) 2) = badvpn_read_le16 (dec_pending d)"
proof -
  have "min 2 (nat (dec_buf_used d)) = 2" using assms by (simp add: min_absorb1 le_nat_iff)
  then show ?thesis using read_le16_take [of "dec_pending d"] by (simp add: dec_pending_def take_segment)
qed

lemma process_data_waits:
  assumes ok: "dec_ok d" and need: "deframe (dec_output_mtu d) (dec_pending d) = Need"
  obtains d' where "process_data d = Some (d', [decoder_recv d'])" and "dec_ok d'"
    and "dec_pending d' = dec_pending d" and "dec_buf_start d' + dec_buf_used d' < dec_buf_size d'"
    and "dec_output_mtu d' = dec_output_mtu d"
proof -
  let ?seg = "segment (dec_buf d) (nat (dec_buf_start d)) (nat (dec_buf_used d))"
  have lp: "int (length (dec_pending d)) = dec_buf_used d" by (rule length_pending [OF ok])
  note hdr = header_read [of d]
  have run: "process_data d =
      (if dec_buf_start d + dec_buf_used d = dec_buf_size d then
         store (dec_buf d) 0 ?seg \<bind> (\<lambda>b. let d = d\<lparr>dec_buf := b, dec_buf_start := 0\<rparr> in Some (d, [decoder_recv d]))
       else Some (d, [decoder_recv d]))"
    using need lp hdr
    by (auto simp: process_data_def Let_def deframe_def sizeof_packetproto_header_def byte_id split: if_splits)
  show ?thesis
  proof (cases "dec_buf_start d + dec_buf_used d = dec_buf_size d")
    case False
    then show ?thesis using that [of d] run ok by (simp add: dec_ok_def)
  next
    case True
    have len: "length ?seg = nat (dec_buf_used d)" using lp by (simp add: dec_pending_def)
    have "0 + length ?seg \<le> length (dec_buf d)"
      unfolding len using ok by (simp add: dec_ok_def nat_mono)
    then obtain b where b: "store (dec_buf d) 0 ?seg = Some b" using store_Some by blast
    let ?d = "d\<lparr>dec_buf := b, dec_buf_start := 0\<rparr>"
    have ok': "dec_ok ?d" using ok length_store [OF b] by (auto simp: dec_ok_def)
    have p: "dec_pending ?d = dec_pending d"
      using segment_store_same [OF b] len by (simp add: dec_pending_def)
    have "dec_buf_used ?d < dec_buf_size ?d"
      by (rule need_wraps [OF ok']) (use need p in simp_all)
    then show ?thesis using that [of ?d] run True b ok' p by (simp add: Let_def)
  qed
qed

lemma process_data_packet:
  assumes ok: "dec_ok d" and pkt: "deframe (dec_output_mtu d) (dec_pending d) = Packet p r"
  obtains d' where "process_data d = Some (d', [Decoder_Send p])" and "dec_ok d'" and "dec_pending d' = r"
    and "dec_output_mtu d' = dec_output_mtu d"
proof -
  let ?n = "uint (badvpn_read_le16 (dec_pending d))"
  have lp: "int (length (dec_pending d)) = dec_buf_used d" by (rule length_pending [OF ok])
  have c: "2 \<le> dec_buf_used d" "?n \<le> dec_output_mtu d" "?n \<le> dec_buf_used d - 2"
    "p = take (nat ?n) (drop 2 (dec_pending d))" "r = drop (2 + nat ?n) (dec_pending d)"
    using pkt lp by (auto simp: deframe_def Let_def split: if_splits)
  note hdr = header_read [OF c(1)]
  let ?d = "d\<lparr>dec_buf_start := dec_buf_start d + (2 + ?n), dec_buf_used := dec_buf_used d - (2 + ?n)\<rparr>"
  have s: "0 \<le> dec_buf_start d" using ok by (simp add: dec_ok_def)
  have p: "p = segment (dec_buf d) (nat (dec_buf_start d) + 2) (nat ?n)"
  proof -
    have "nat ?n \<le> nat (dec_buf_used d) - 2" using c(1,3) by linarith
    then show ?thesis unfolding c(4)
      by (simp add: dec_pending_def drop_segment take_segment min_absorb1 add.commute)
  qed
  have "process_data d = Some (?d, [Decoder_Send p])"
    using c hdr p by (simp add: process_data_def Let_def sizeof_packetproto_header_def byte_id)
  moreover have "dec_ok ?d" using ok c by (auto simp: dec_ok_def)
  moreover have "dec_pending ?d = r"
    using c(1,3) s unfolding c(5) dec_pending_def drop_segment
    by (simp add: nat_add_distrib nat_diff_distrib add.assoc)
  ultimately show ?thesis using that [of ?d] by simp
qed

lemma process_data_error:
  assumes ok: "dec_ok d" and err: "deframe (dec_output_mtu d) (dec_pending d) = Too_large"
  obtains d' where "process_data d = Some (d', [decoder_recv d', Decoder_Error])" and "dec_ok d'"
    and "dec_pending d' = []" and "dec_buf_start d' + dec_buf_used d' < dec_buf_size d'"
    and "dec_output_mtu d' = dec_output_mtu d"
proof -
  let ?n = "uint (badvpn_read_le16 (dec_pending d))"
  have lp: "int (length (dec_pending d)) = dec_buf_used d" by (rule length_pending [OF ok])
  have c: "2 \<le> dec_buf_used d" "?n > dec_output_mtu d"
    using err lp by (auto simp: deframe_def Let_def split: if_splits)
  note hdr = header_read [OF c(1)]
  let ?d = "d\<lparr>dec_buf_start := 0, dec_buf_used := 0\<rparr>"
  have "process_data d = Some (?d, [decoder_recv ?d, Decoder_Error])"
    using c hdr by (simp add: process_data_def Let_def sizeof_packetproto_header_def byte_id)
  then show ?thesis using that [of ?d] ok
    by (simp add: dec_ok_def dec_pending_def PACKETPROTO_ENCLEN_def sizeof_packetproto_header_def)
qed

text \<open>
  The decoder between its neighbours: the stream input delivers at least one byte and at most as
  many as were asked for, and the packet output reports a packet done. A label carries the bytes
  that came in and the calls the handler made. \<open>waiting\<close> says which of the two the decoder waits
  for.
\<close>

datatype waiting = For_input | For_output

datatype decoder_label = Decoder_In bytes "decoder_call list" | Decoder_Out_done "decoder_call list"

fun decoder_waits :: "decoder_call list \<Rightarrow> waiting" where
  "decoder_waits (Decoder_Send _ # _) = For_output"
| "decoder_waits _ = For_input"

inductive decoder_step ::
  "PacketProtoDecoder \<times> waiting \<Rightarrow> decoder_label \<Rightarrow> PacketProtoDecoder \<times> waiting \<Rightarrow> bool" where
  "decoder_recv d = Decoder_Recv off len \<Longrightarrow> bs \<noteq> [] \<Longrightarrow> int (length bs) \<le> len \<Longrightarrow>
     decoder_received d bs = Some d1 \<Longrightarrow>
     decoder_input_handler_done d1 (int (length bs)) = Some (d', calls) \<Longrightarrow>
     decoder_step (d, For_input) (Decoder_In bs calls) (d', decoder_waits calls)"
| "decoder_output_handler_done d = Some (d', calls) \<Longrightarrow>
     decoder_step (d, For_output) (Decoder_Out_done calls) (d', decoder_waits calls)"

inductive_cases decoder_stepE: "decoder_step s l s'"

fun sent_packets :: "decoder_call list \<Rightarrow> bytes list" where
  "sent_packets [] = []"
| "sent_packets (Decoder_Send p # cs) = p # sent_packets cs"
| "sent_packets (_ # cs) = sent_packets cs"

fun label_calls :: "decoder_label \<Rightarrow> decoder_call list" where
  "label_calls (Decoder_In bs calls) = calls"
| "label_calls (Decoder_Out_done calls) = calls"

fun label_bytes :: "decoder_label \<Rightarrow> bytes" where
  "label_bytes (Decoder_In bs calls) = bs"
| "label_bytes (Decoder_Out_done calls) = []"

definition decoded :: "decoder_label list \<Rightarrow> bytes list" where
  "decoded ls = concat (map (sent_packets \<circ> label_calls) ls)"

definition fed :: "decoder_label list \<Rightarrow> bytes" where
  "fed ls = concat (map label_bytes ls)"

definition failed :: "decoder_label list \<Rightarrow> bool" where
  "failed ls \<longleftrightarrow> (\<exists>l \<in> set ls. Decoder_Error \<in> set (label_calls l))"

lemma decoded_snoc [simp]: "decoded (ls @ [l]) = decoded ls @ sent_packets (label_calls l)"
  by (simp add: decoded_def)

lemma fed_snoc [simp]: "fed (ls @ [l]) = fed ls @ label_bytes l"
  by (simp add: fed_def)

lemma failed_snoc [simp]: "failed (ls @ [l]) \<longleftrightarrow> failed ls \<or> Decoder_Error \<in> set (label_calls l)"
  by (auto simp: failed_def)

lemma fed_Nil [simp]: "fed [] = []" "decoded [] = []" "\<not> failed []"
  by (simp_all add: fed_def decoded_def failed_def)

text \<open>The invariant between the handlers.\<close>

definition decoder_idle :: "PacketProtoDecoder \<times> waiting \<Rightarrow> bool" where
  "decoder_idle = (\<lambda>(d, w). dec_ok d \<and>
     (w = For_input \<longrightarrow> dec_buf_start d + dec_buf_used d < dec_buf_size d
        \<and> deframe (dec_output_mtu d) (dec_pending d) = Need))"

lemma received_pending:
  assumes ok: "dec_ok d" and n: "int (length bs) \<le> dec_buf_size d - (dec_buf_start d + dec_buf_used d)"
  obtains d1 where "decoder_received d bs = Some d1"
    and "dec_ok (d1\<lparr>dec_buf_used := dec_buf_used d1 + int (length bs)\<rparr>)"
    and "dec_pending (d1\<lparr>dec_buf_used := dec_buf_used d1 + int (length bs)\<rparr>) = dec_pending d @ bs"
    and "dec_output_mtu d1 = dec_output_mtu d" "dec_buf_size d1 = dec_buf_size d"
    and "dec_buf_start d1 = dec_buf_start d" "dec_buf_used d1 = dec_buf_used d"
proof -
  let ?i = "nat (dec_buf_start d + dec_buf_used d)"
  have i: "0 \<le> dec_buf_start d" "0 \<le> dec_buf_used d" "length (dec_buf d) = nat (dec_buf_size d)"
    using ok by (auto simp: dec_ok_def)
  have "?i + length bs \<le> length (dec_buf d)" using n i by linarith
  then obtain b where b: "store (dec_buf d) ?i bs = Some b" using store_Some by blast
  let ?d = "d\<lparr>dec_buf := b\<rparr>"
  have "segment b (nat (dec_buf_start d)) (nat (dec_buf_used d)) = dec_pending d"
    unfolding dec_pending_def using i by (intro segment_store_before [OF b]) (simp add: nat_add_distrib)
  moreover have "segment b ?i (length bs) = bs" by (rule segment_store_same [OF b])
  moreover have "nat (dec_buf_used d + int (length bs)) = nat (dec_buf_used d) + length bs"
    "?i = nat (dec_buf_start d) + nat (dec_buf_used d)" using i by (auto simp: nat_add_distrib)
  ultimately have "dec_pending (?d\<lparr>dec_buf_used := dec_buf_used d + int (length bs)\<rparr>) = dec_pending d @ bs"
    by (simp add: dec_pending_def segment_append)
  moreover have "dec_ok (?d\<lparr>dec_buf_used := dec_buf_used d + int (length bs)\<rparr>)"
    using ok n length_store [OF b] by (simp add: dec_ok_def)
  ultimately show ?thesis using that [of ?d] b by (simp add: decoder_received_def)
qed

text \<open>What a handler does, by what the bytes in the buffer are.\<close>

lemma process_data_result:
  assumes ok: "dec_ok d"
  obtains d' calls where "process_data d = Some (d', calls)"
    and "decoder_idle (d', decoder_waits calls)" and "dec_output_mtu d' = dec_output_mtu d"
    and "Decoder_Error \<notin> set calls \<Longrightarrow> dec_pending d = concat (map frame (sent_packets calls)) @ dec_pending d'"
    and "Decoder_Error \<in> set calls \<longleftrightarrow> deframe (dec_output_mtu d) (dec_pending d) = Too_large"
    and "\<forall>p \<in> set (sent_packets calls). int (length p) \<le> dec_output_mtu d"
proof (cases "deframe (dec_output_mtu d) (dec_pending d)")
  case Need
  obtain d' where d: "process_data d = Some (d', [decoder_recv d'])" "dec_ok d'"
    "dec_pending d' = dec_pending d" "dec_buf_start d' + dec_buf_used d' < dec_buf_size d'"
    "dec_output_mtu d' = dec_output_mtu d" by (rule process_data_waits [OF ok Need])
  show ?thesis
    by (rule that [OF d(1)]) (use d Need in \<open>simp_all add: decoder_idle_def decoder_recv_def\<close>)
next
  case Too_large
  obtain d' where d: "process_data d = Some (d', [decoder_recv d', Decoder_Error])" "dec_ok d'"
    "dec_pending d' = []" "dec_buf_start d' + dec_buf_used d' < dec_buf_size d'"
    "dec_output_mtu d' = dec_output_mtu d" by (rule process_data_error [OF ok Too_large])
  have "deframe (dec_output_mtu d') [] = Need" by (simp add: deframe_def)
  then show ?thesis
    by (intro that [OF d(1)]) (use d Too_large in \<open>simp_all add: decoder_idle_def decoder_recv_def\<close>)
next
  case (Packet p r)
  obtain d' where d: "process_data d = Some (d', [Decoder_Send p])" "dec_ok d'" "dec_pending d' = r"
    "dec_output_mtu d' = dec_output_mtu d" by (rule process_data_packet [OF ok Packet])
  show ?thesis
    by (rule that [OF d(1)]) (use d Packet deframe_complete [OF Packet] in \<open>simp_all add: decoder_idle_def\<close>)
qed

lemma decoder_step_effect:
  assumes "decoder_step s l s'" and "decoder_idle s"
  shows "decoder_idle s'" and "dec_output_mtu (fst s') = dec_output_mtu (fst s)"
    and "Decoder_Error \<notin> set (label_calls l) \<Longrightarrow>
           dec_pending (fst s) @ label_bytes l =
           concat (map frame (sent_packets (label_calls l))) @ dec_pending (fst s')"
    and "Decoder_Error \<in> set (label_calls l) \<Longrightarrow>
           deframe (dec_output_mtu (fst s)) (dec_pending (fst s) @ label_bytes l) = Too_large"
    and "\<forall>p \<in> set (sent_packets (label_calls l)). int (length p) \<le> dec_output_mtu (fst s)"
  using assms
proof (atomize(full), induction rule: decoder_step.induct)
  case (1 d off len bs d1 d' calls)
  have n: "dec_ok d" "int (length bs) \<le> dec_buf_size d - (dec_buf_start d + dec_buf_used d)"
    using 1 by (auto simp: decoder_idle_def decoder_recv_def)
  obtain d2 where d2: "decoder_received d bs = Some d2"
    "dec_ok (d2\<lparr>dec_buf_used := dec_buf_used d2 + int (length bs)\<rparr>)"
    "dec_pending (d2\<lparr>dec_buf_used := dec_buf_used d2 + int (length bs)\<rparr>) = dec_pending d @ bs"
    "dec_output_mtu d2 = dec_output_mtu d" by (rule received_pending [OF n])
  have e: "d2 = d1" using d2 1 by simp
  have run: "process_data (d1\<lparr>dec_buf_used := dec_buf_used d1 + int (length bs)\<rparr>) = Some (d', calls)"
    using 1 by (simp add: decoder_input_handler_done_def assert_simps)
  show ?case
    by (rule process_data_result [OF d2(2)]) (use run d2 in \<open>simp add: e\<close>)
next
  case (2 d d' calls)
  then have ok: "dec_ok d" and run: "process_data d = Some (d', calls)"
    by (auto simp: decoder_idle_def decoder_output_handler_done_def)
  show ?case by (rule process_data_result [OF ok]) (use run in simp)
qed

lemma decoder_trace:
  assumes "steps decoder_step s ls s'" and "decoder_idle s" and "dec_pending (fst s) = []"
  shows "decoder_idle s' \<and> dec_output_mtu (fst s') = dec_output_mtu (fst s)
         \<and> (\<forall>p \<in> set (decoded ls). int (length p) \<le> dec_output_mtu (fst s))
         \<and> (\<not> failed ls \<longrightarrow> fed ls = concat (map frame (decoded ls)) @ dec_pending (fst s'))"
  using assms
proof (induction rule: steps.induct)
  case (steps_snoc s ls s1 l s2)
  note e = decoder_step_effect [OF steps_snoc.hyps(2)]
  have i: "decoder_idle s1" "dec_output_mtu (fst s1) = dec_output_mtu (fst s)" using steps_snoc by auto
  show ?case using steps_snoc e [OF i(1)] i(2) by auto
qed simp

lemma decoder_Init_idle:
  assumes "PacketProtoDecoder_Init malloc mtu = Some (d, calls)" and "0 \<le> mtu"
    and "\<forall>n b. malloc n = Some b \<longrightarrow> length b = n"
  shows "decoder_idle (d, For_input)" and "dec_pending d = []"
    and "dec_output_mtu d = min mtu PACKETPROTO_MAXPAYLOAD"
proof -
  let ?m = "min mtu PACKETPROTO_MAXPAYLOAD"
  have m: "0 \<le> ?m" "?m \<le> PACKETPROTO_MAXPAYLOAD" using assms(2) by simp_all
  obtain buf where b: "malloc (nat (PACKETPROTO_ENCLEN ?m)) = Some buf"
    and d: "d = \<lparr>dec_output_mtu = ?m, dec_buf_size = PACKETPROTO_ENCLEN ?m, dec_buf_start = 0, dec_buf_used = 0,
                 dec_buf = buf\<rparr>"
    using assms(1) unfolding PacketProtoDecoder_Init_def Let_def bind_Some_iff by blast
  have "length buf = nat (PACKETPROTO_ENCLEN ?m)" using assms(3) b by blast
  with m have ok: "dec_ok d" by (simp add: d dec_ok_def PACKETPROTO_ENCLEN_def)
  show p: "dec_pending d = []" by (simp add: d dec_pending_def)
  show "dec_output_mtu d = ?m" by (simp add: d)
  have "deframe (dec_output_mtu d) [] = Need" by (simp add: deframe_def)
  then show "decoder_idle (d, For_input)"
    using ok p m by (simp add: decoder_idle_def d PACKETPROTO_ENCLEN_def sizeof_packetproto_header_def)
qed

lemma decoder_no_error:
  assumes "steps decoder_step s ls s'" and "decoder_idle s" and "dec_pending (fst s) = []"
    and "dec_output_mtu (fst s) = min mtu PACKETPROTO_MAXPAYLOAD"
    and "fed ls @ future = concat (map frame ps)"
    and "\<forall>p \<in> set ps. int (length p) \<le> min mtu PACKETPROTO_MAXPAYLOAD"
  shows "\<not> failed ls"
  using assms
proof (induction arbitrary: future rule: steps.induct)
  case (steps_snoc s ls s1 l s2)
  have nf: "\<not> failed ls" using steps_snoc.IH [of "label_bytes l @ future"] steps_snoc.prems by simp
  note t = decoder_trace [OF steps_snoc.hyps(1) steps_snoc.prems(1,2)]
  have f: "fed ls = concat (map frame (decoded ls)) @ dec_pending (fst s1)" using t nf by blast
  have "concat (map frame ps) = concat (map frame (decoded ls)) @ (dec_pending (fst s1) @ label_bytes l @ future)"
    using steps_snoc.prems(4) f by simp
  from pp.decode_prefix [OF steps_snoc.prems(5) _ this]
  obtain qs where qs: "ps = decoded ls @ qs" "dec_pending (fst s1) @ label_bytes l @ future = concat (map frame qs)"
    using t steps_snoc.prems(3) by auto
  have "Decoder_Error \<notin> set (label_calls l)"
  proof
    assume "Decoder_Error \<in> set (label_calls l)"
    then have "deframe (min mtu PACKETPROTO_MAXPAYLOAD) (dec_pending (fst s1) @ label_bytes l) = Too_large"
      using decoder_step_effect(4) [OF steps_snoc.hyps(2)] t steps_snoc.prems(3) by simp
    moreover have "\<forall>p \<in> set qs. int (length p) \<le> min mtu PACKETPROTO_MAXPAYLOAD"
      using steps_snoc.prems(5) qs(1) by simp
    ultimately show False
      using pp.waiting_on_prefix [of qs mtu "dec_pending (fst s1) @ label_bytes l" future] qs(2) by auto
  qed
  with nf show ?case by simp
qed simp

subsection \<open>The encoder\<close>

lemma encoder_writes_frame:
  assumes "enc_output_packet e = None" and "int (length p) \<le> PACKETPROTO_MAXPAYLOAD"
    and "PACKETPROTO_ENCLEN (int (length p)) \<le> int (length data)"
  obtains e1 e2 e3 out where "encoder_output_handler_recv e data = Some (e1, [Encoder_Recv 2])"
    and "encoder_input_written e1 p = Some e2"
    and "encoder_input_handler_done e2 (int (length p)) = Some (e3, [Encoder_Done (int (length (frame p)))], out)"
    and "take (length (frame p)) out = frame p" and "enc_output_packet e3 = None" and "length out = length data"
proof -
  have l: "2 + length p \<le> length data"
    using assms(3) by (simp add: PACKETPROTO_ENCLEN_def sizeof_packetproto_header_def)
  then obtain m1 where m1: "store data 2 p = Some m1" using store_Some by blast
  note l1 = length_store [OF m1]
  let ?h = "mem16 (word_of_int (int (length p)))"
  have "0 + length ?h \<le> length m1" using l l1 by (simp add: length_mem)
  then obtain m2 where m2: "store m1 0 ?h = Some m2" using store_Some by blast
  have "segment m2 0 2 = ?h" using segment_store_same [OF m2] by (simp add: length_mem)
  moreover have "segment m2 2 (length p) = p"
    using segment_store_after [OF m2, of 2 "length p"] segment_store_same [OF m1] by (simp add: length_mem)
  ultimately have "segment m2 0 (2 + length p) = frame p"
    using segment_append [of m2 0 2 "length p"] by (simp only: frame_def add_0)
  then have f: "take (2 + length p) m2 = frame p" by (simp add: segment_def)
  have "encoder_output_handler_recv e data = Some (e\<lparr>enc_output_packet := Some data\<rparr>, [Encoder_Recv 2])"
    using assms(1) by (simp add: encoder_output_handler_recv_def sizeof_packetproto_header_def)
  moreover have "encoder_input_written (e\<lparr>enc_output_packet := Some data\<rparr>) p = Some (e\<lparr>enc_output_packet := Some m1\<rparr>)"
    using m1 by (simp add: encoder_input_written_def sizeof_packetproto_header_def)
  moreover have "encoder_input_handler_done (e\<lparr>enc_output_packet := Some m1\<rparr>) (int (length p)) =
      Some (e\<lparr>enc_output_packet := None\<rparr>, [Encoder_Done (int (length (frame p)))], m2)"
    using m2 by (simp add: encoder_input_handler_done_def byte_id PACKETPROTO_ENCLEN_def
        sizeof_packetproto_header_def)
  ultimately show ?thesis using that f l1 length_store [OF m2] by simp
qed

subsection \<open>The stream sender\<close>

text \<open>
  The sender between its neighbours: a packet comes in when the last one was reported done, and
  the stream output takes some of the bytes it was given. A label carries the packet or the bytes taken, and
  the calls made.
\<close>

datatype sender_label = Sender_Packet bytes "sender_call list" | Sender_Took bytes "sender_call list"

inductive sender_step ::
  "PacketStreamSender \<times> sender_call list \<Rightarrow> sender_label \<Rightarrow> PacketStreamSender \<times> sender_call list \<Rightarrow> bool" where
  "(\<forall>out. last_call \<noteq> [Sender_Send out]) \<Longrightarrow> sender_input_handler_send s data = Some (s', calls) \<Longrightarrow>
     sender_step (s, last_call) (Sender_Packet data calls) (s', calls)"
| "0 < n \<Longrightarrow> n \<le> length out \<Longrightarrow> sender_output_handler_done s (int n) = Some (s', calls) \<Longrightarrow>
     sender_step (s, [Sender_Send out]) (Sender_Took (take n out) calls) (s', calls)"

fun sender_packet :: "sender_label \<Rightarrow> bytes list" where
  "sender_packet (Sender_Packet p _) = [p]"
| "sender_packet (Sender_Took _ _) = []"

fun sender_bytes :: "sender_label \<Rightarrow> bytes" where
  "sender_bytes (Sender_Packet _ _) = []"
| "sender_bytes (Sender_Took bs _) = bs"

fun sender_done :: "sender_label \<Rightarrow> nat" where
  "sender_done (Sender_Packet _ cs) = (if Sender_Done \<in> set cs then 1 else 0)"
| "sender_done (Sender_Took _ cs) = (if Sender_Done \<in> set cs then 1 else 0)"

definition pss_rest :: "PacketStreamSender \<Rightarrow> bytes" where
  "pss_rest s = (if pss_in_len s = -1 then [] else drop (nat (pss_in_used s)) (pss_in s))"

text \<open>The invariant: what is on offer to the output is what is left of the packet.\<close>

definition sender_ok :: "PacketStreamSender \<times> sender_call list \<Rightarrow> bool" where
  "sender_ok = (\<lambda>(s, calls).
     (if pss_in_len s = -1 then calls = [] \<or> calls = [Sender_Done]
      else pss_in_len s = int (length (pss_in s)) \<and> 0 \<le> pss_in_used s \<and> pss_in_used s < pss_in_len s
           \<and> calls = [Sender_Send (pss_rest s)]))"

lemma send_data_ok:
  assumes "pss_in_len s = int (length (pss_in s))" and "0 \<le> pss_in_used s" and "pss_in_used s \<le> pss_in_len s"
  obtains s' calls where "send_data s = Some (s', calls)" and "sender_ok (s', calls)"
    and "pss_rest s' = drop (nat (pss_in_used s)) (pss_in s)"
    and "Sender_Done \<in> set calls \<longleftrightarrow> pss_rest s' = []" and "calls \<noteq> []"
proof (cases "pss_in_used s < pss_in_len s")
  case True
  have "segment (pss_in s) (nat (pss_in_used s)) (nat (pss_in_len s - pss_in_used s)) = drop (nat (pss_in_used s)) (pss_in s)"
    using assms by (simp add: segment_def nat_diff_distrib)
  moreover have "drop (nat (pss_in_used s)) (pss_in s) \<noteq> []" using True assms by simp
  ultimately show ?thesis using True assms
    by (intro that [of s "[Sender_Send (drop (nat (pss_in_used s)) (pss_in s))]"])
       (simp_all add: send_data_def sender_ok_def pss_rest_def)
next
  case False
  then show ?thesis using assms
    by (intro that [of "s\<lparr>pss_in_len := -1\<rparr>" "[Sender_Done]"])
       (simp_all add: send_data_def sender_ok_def pss_rest_def)
qed

lemma sender_step_effect:
  assumes "sender_step st l st'" and "sender_ok st"
  shows "sender_ok st' \<and> pss_rest (fst st) @ concat (sender_packet l) = sender_bytes l @ pss_rest (fst st')
         \<and> length (sender_packet l) + of_bool (pss_rest (fst st) \<noteq> []) = sender_done l + of_bool (pss_rest (fst st') \<noteq> [])"
  using assms
proof (induction rule: sender_step.induct)
  case (1 last_call s data s' calls)
  then have idle: "pss_in_len s = -1" by (auto simp: sender_ok_def split: if_splits)
  let ?s = "s\<lparr>pss_in_len := int (length data), pss_in := data, pss_in_used := 0\<rparr>"
  have run: "send_data ?s = Some (s', calls)" using 1 idle by (simp add: sender_input_handler_send_def)
  obtain s1 c1 where r: "send_data ?s = Some (s1, c1)" "sender_ok (s1, c1)" "pss_rest s1 = data"
    "Sender_Done \<in> set c1 \<longleftrightarrow> pss_rest s1 = []" by (rule send_data_ok [of ?s]) auto
  then show ?case using run idle by (auto simp: pss_rest_def)
next
  case (2 n out s s' calls)
  then have b: "pss_in_len s = int (length (pss_in s))" "0 \<le> pss_in_used s" "pss_in_used s < pss_in_len s"
    "out = pss_rest s" by (auto simp: sender_ok_def split: if_splits)
  have rest: "pss_rest s = drop (nat (pss_in_used s)) (pss_in s)" using b by (simp add: pss_rest_def)
  let ?s = "s\<lparr>pss_in_used := pss_in_used s + int n\<rparr>"
  have n: "pss_in_used s + int n \<le> pss_in_len s" using 2(2) b rest by simp
  have run: "send_data ?s = Some (s', calls)" using 2(3) by (simp add: sender_output_handler_done_def assert_simps)
  obtain s1 c1 where r: "send_data ?s = Some (s1, c1)" "sender_ok (s1, c1)"
    "pss_rest s1 = drop (nat (pss_in_used ?s)) (pss_in ?s)" "Sender_Done \<in> set c1 \<longleftrightarrow> pss_rest s1 = []"
    by (rule send_data_ok [of ?s]) (use b n in auto)
  have d: "pss_rest s1 = drop n out" using r(3) b rest by (simp add: nat_add_distrib add.commute)
  have "out \<noteq> []" using 2 by auto
  then show ?case using run r d b(4) by auto
qed

definition sender_packets :: "sender_label list \<Rightarrow> bytes list" where
  "sender_packets ls = concat (map sender_packet ls)"

definition sender_written :: "sender_label list \<Rightarrow> bytes" where
  "sender_written ls = concat (map sender_bytes ls)"

lemma sender_trace:
  assumes "steps sender_step st ls st'" and "sender_ok st" and "pss_rest (fst st) = []"
  shows "sender_ok st' \<and> concat (sender_packets ls) = sender_written ls @ pss_rest (fst st')
         \<and> length (sender_packets ls) = sum_list (map sender_done ls) + of_bool (pss_rest (fst st') \<noteq> [])"
  using assms
proof (induction rule: steps.induct)
  case (steps_snoc st ls st1 l st2)
  then show ?case using sender_step_effect [OF steps_snoc.hyps(2)]
    by (auto simp: sender_packets_def sender_written_def) 
qed (simp add: sender_packets_def sender_written_def)

subsection \<open>What the protocol guarantees\<close>

text \<open>
  The stream sender sends every packet completely and in order. Whatever numbers of bytes the
  stream output takes at a time, the bytes taken so far followed by the rest of the packet in
  progress are the packets that came in, one after the other; a packet is reported done exactly
  when its last byte was taken (and an empty packet at once), and while a packet is in progress
  exactly its remaining bytes are on offer.
\<close>

theorem stream_sender_complete:
  assumes "PacketStreamSender_Init mtu = Some s" and "steps sender_step (s, []) ls (s', calls)"
  shows "concat (sender_packets ls) = sender_written ls @ pss_rest s'
         \<and> length (sender_packets ls) = sum_list (map sender_done ls) + of_bool (pss_rest s' \<noteq> [])
         \<and> (pss_rest s' \<noteq> [] \<longrightarrow> calls = [Sender_Send (pss_rest s')])"
proof -
  have s: "sender_ok (s, [])" "pss_rest s = []"
    using assms(1) by (auto simp: PacketStreamSender_Init_def assert_simps sender_ok_def pss_rest_def)
  show ?thesis using sender_trace [OF assms(2) s(1)] s(2)
    by (auto simp: sender_ok_def pss_rest_def split: if_splits)
qed

text \<open>
  The decoder recovers the packets. Let the bytes that arrived so far be a beginning of the
  frames of the packets \<open>ps\<close>, none larger than the decoder accepts. In whatever pieces they
  arrived and whenever the output took the packets, the decoder reported no error, the packets it
  sent to its output are a beginning of \<open>ps\<close>, and when it waits for input it has sent every
  packet that has arrived completely.
\<close>

theorem decoder_recovers_packets:
  assumes "PacketProtoDecoder_Init malloc mtu = Some (d, calls)" and "0 \<le> mtu"
    and "\<forall>n b. malloc n = Some b \<longrightarrow> length b = n"
    and "steps decoder_step (d, For_input) ls (d', w)"
    and "fed ls @ future = concat (map frame ps)"
    and "\<forall>p \<in> set ps. int (length p) \<le> min mtu PACKETPROTO_MAXPAYLOAD"
  shows "\<not> failed ls
         \<and> (\<exists>qs. ps = decoded ls @ qs
              \<and> (w = For_input \<and> qs \<noteq> [] \<longrightarrow>
                   length (fed ls) < length (concat (map frame (decoded ls))) + length (frame (hd qs))))"
proof -
  let ?m = "min mtu PACKETPROTO_MAXPAYLOAD"
  note d = decoder_Init_idle [OF assms(1-3)]
  have nf: "\<not> failed ls" by (rule decoder_no_error [OF assms(4) d(1) _ _ assms(5,6)]) (use d in simp_all)
  note t = decoder_trace [OF assms(4) d(1), unfolded fst_conv, OF d(2)]
  have i: "decoder_idle (d', w)" "dec_output_mtu d' = ?m" using t d(3) by simp_all
  have f: "fed ls = concat (map frame (decoded ls)) @ dec_pending d'" using t nf by blast
  have ok: "\<forall>p \<in> set (decoded ls). int (length p) \<le> ?m" using t d(3) by metis
  obtain qs where qs: "ps = decoded ls @ qs" "dec_pending d' @ future = concat (map frame qs)"
    using pp.decode_prefix [OF assms(6) ok, of "dec_pending d' @ future"] assms(5) f by auto
  have "length (dec_pending d') < length (frame (hd qs))" if w: "w = For_input" "qs \<noteq> []"
  proof (rule ccontr)
    assume n: "\<not> ?thesis"
    obtain q qs' where q: "qs = q # qs'" using w by (cases qs) auto
    have "dec_pending d' @ future = frame q @ concat (map frame qs')" using qs(2) q by simp
    then obtain us where us: "dec_pending d' = frame q @ us \<or> dec_pending d' @ us = frame q"
      unfolding append_eq_append_conv2 by blast
    have "\<exists>r. dec_pending d' = frame q @ r"
    proof (cases "dec_pending d' @ us = frame q")
      case True
      then have "length (frame q) = length (dec_pending d') + length us" by (metis length_append)
      then have "us = []" using n q by simp
      then show ?thesis using True by auto
    qed (use us in auto)
    then obtain r where r: "dec_pending d' = frame q @ r" by blast
    have "deframe ?m (dec_pending d') = Packet q r"
      unfolding r by (rule pp.dec_enc) (use assms(6) qs(1) q in simp)
    moreover have "deframe ?m (dec_pending d') = Need" using i w by (simp add: decoder_idle_def)
    ultimately show False by simp
  qed
  then show ?thesis using nf qs(1) f by auto
qed


text \<open>
  C1. The packet protocol end to end. A sender transmits the frames of the packets \<open>ps\<close>, and a
  decoder at the other end has received some beginning of the bytes the sender's output took, in
  any pieces. Then the decoder reported no error and what it delivered is a beginning of \<open>ps\<close>; if
  everything arrived, the sender has nothing left, and the decoder waits for input, it has delivered \<open>ps\<close>.
\<close>

theorem packet_protocol_end_to_end:
  assumes "PacketStreamSender_Init smtu = Some s" and "steps sender_step (s, []) sl (s', calls)"
    and "sender_packets sl = map frame ps"
    and "PacketProtoDecoder_Init malloc mtu = Some (d, dcalls)" and "0 \<le> mtu"
    and "\<forall>n b. malloc n = Some b \<longrightarrow> length b = n"
    and "steps decoder_step (d, For_input) dl (d', w)" and "sender_written sl = fed dl @ transit"
    and "\<forall>p \<in> set ps. int (length p) \<le> min mtu PACKETPROTO_MAXPAYLOAD"
  shows "\<not> failed dl \<and> (\<exists>qs. ps = decoded dl @ qs)
         \<and> (transit = [] \<and> pss_rest s' = [] \<and> w = For_input \<longrightarrow> decoded dl = ps)"
proof -
  have s: "sender_ok (s, [])" "pss_rest s = []"
    using assms(1) by (auto simp: PacketStreamSender_Init_def assert_simps sender_ok_def pss_rest_def)
  have all: "concat (map frame ps) = fed dl @ (transit @ pss_rest s')"
    using sender_trace [OF assms(2) s(1)] s(2) assms(3,8) by simp
  note d = decoder_Init_idle [OF assms(4-6)]
  have nf: "\<not> failed dl"
    by (rule decoder_no_error [OF assms(7) d(1) _ _ all [symmetric] assms(9)]) (use d in simp_all)
  note t = decoder_trace [OF assms(7) d(1), unfolded fst_conv, OF d(2)]
  have i: "decoder_idle (d', w)" "dec_output_mtu d' = min mtu PACKETPROTO_MAXPAYLOAD" using t d(3) by simp_all
  have f: "fed dl = concat (map frame (decoded dl)) @ dec_pending d'"
    and ok: "\<forall>p \<in> set (decoded dl). int (length p) \<le> min mtu PACKETPROTO_MAXPAYLOAD"
    using t nf d(3) by (blast, metis)
  obtain qs where qs: "ps = decoded dl @ qs" "dec_pending d' @ (transit @ pss_rest s') = concat (map frame qs)"
    using pp.decode_prefix [OF assms(9) ok, of "dec_pending d' @ (transit @ pss_rest s')"] all f by auto
  have "qs = []" if w: "transit = []" "pss_rest s' = []" "w = For_input"
  proof (cases qs)
    case (Cons q qs')
    have "deframe (min mtu PACKETPROTO_MAXPAYLOAD) (dec_pending d') = Packet q (concat (map frame qs'))"
      using pp.dec_enc [of q mtu "concat (map frame qs')"] qs w assms(9) Cons by simp
    moreover have "deframe (min mtu PACKETPROTO_MAXPAYLOAD) (dec_pending d') = Need"
      using i w by (simp add: decoder_idle_def)
    ultimately show ?thesis by simp
  qed
  then show ?thesis using nf qs(1) by auto
qed

text \<open>
  Witnesses. The packet \<open>[7]\<close> is sent in two pieces to a decoder for packets of one byte, which
  receives it in two other pieces.
\<close>

definition example_malloc :: "nat \<Rightarrow> bytes option" where
  "example_malloc n = Some (replicate n 0)"

definition example_decoder :: "bytes \<Rightarrow> int \<Rightarrow> int \<Rightarrow> PacketProtoDecoder" where
  "example_decoder buf start used =
     \<lparr>dec_output_mtu = 1, dec_buf_size = 3, dec_buf_start = start, dec_buf_used = used, dec_buf = buf\<rparr>"

definition example_decoder_labels :: "decoder_label list" where
  "example_decoder_labels =
     [Decoder_In [1] [Decoder_Recv 1 2], Decoder_In [0, 7] [Decoder_Send [7]], Decoder_Out_done [Decoder_Recv 0 3]]"

definition example_sender_labels :: "sender_label list" where
  "example_sender_labels =
     [Sender_Packet [1, 0, 7] [Sender_Send [1, 0, 7]], Sender_Took [1, 0] [Sender_Send [7]], Sender_Took [7] [Sender_Done]]"

lemma frame_example: "frame [7] = [1, 0, 7]"
  by (simp add: frame_def mem16_def)

lemma example_decoder_Init:
  "PacketProtoDecoder_Init example_malloc 1 = Some (example_decoder [0, 0, 0] 0 0, [Decoder_Recv 0 3])"
  by (simp add: PacketProtoDecoder_Init_def example_malloc_def example_decoder_def PACKETPROTO_ENCLEN_def
      sizeof_packetproto_header_def Let_def numeral_3_eq_3)

lemma example_decoder_steps:
  "steps decoder_step (example_decoder [0, 0, 0] 0 0, For_input) example_decoder_labels
     (example_decoder [1, 0, 7] 0 0, For_input)"
proof -
  note defs = example_decoder_def decoder_recv_def decoder_received_def decoder_input_handler_done_def
    decoder_output_handler_done_def process_data_def store_def segment_def sizeof_packetproto_header_def byte_id
  have 1: "decoder_step (example_decoder [0, 0, 0] 0 0, For_input) (Decoder_In [1] [Decoder_Recv 1 2])
             (example_decoder [1, 0, 0] 0 1, decoder_waits [Decoder_Recv 1 2])"
    by (rule decoder_step.intros(1) [where ?d1.0 = "example_decoder [1, 0, 0] 0 0" and off = 0 and len = 3])
       (simp_all add: defs)
  have 2: "decoder_step (example_decoder [1, 0, 0] 0 1, For_input) (Decoder_In [0, 7] [Decoder_Send [7]])
             (example_decoder [1, 0, 7] 3 0, decoder_waits [Decoder_Send [7]])"
    by (rule decoder_step.intros(1) [where ?d1.0 = "example_decoder [1, 0, 7] 0 1" and off = 1 and len = 2])
       (simp_all add: defs)
  have 3: "decoder_step (example_decoder [1, 0, 7] 3 0, For_output) (Decoder_Out_done [Decoder_Recv 0 3])
             (example_decoder [1, 0, 7] 0 0, decoder_waits [Decoder_Recv 0 3])"
    by (rule decoder_step.intros(2)) (simp add: defs)
  note c = steps_Cons [where step = decoder_step]
  show ?thesis unfolding example_decoder_labels_def
    by (rule c [OF 1 [simplified] c [OF 2 [simplified] c [OF 3 [simplified] steps_Nil]]])
qed

lemma example_sender_steps:
  "steps sender_step (\<lparr>pss_in_len = -1, pss_in = [], pss_in_used = 0\<rparr>, []) example_sender_labels
     (\<lparr>pss_in_len = -1, pss_in = [1, 0, 7], pss_in_used = 3\<rparr>, [Sender_Done])"
proof -
  note defs = sender_input_handler_send_def sender_output_handler_done_def send_data_def segment_def
  let ?s = "\<lambda>n. \<lparr>pss_in_len = 3, pss_in = [1, 0, 7], pss_in_used = n\<rparr>"
  have 1: "sender_step (\<lparr>pss_in_len = -1, pss_in = [], pss_in_used = 0\<rparr>, [])
      (Sender_Packet [1, 0, 7] [Sender_Send [1, 0, 7]]) (?s 0, [Sender_Send [1, 0, 7]])"
    by (rule sender_step.intros(1)) (simp_all add: defs)
  have 2: "sender_step (?s 0, [Sender_Send [1, 0, 7]]) (Sender_Took (take 2 [1, 0, 7]) [Sender_Send [7]])
      (?s 2, [Sender_Send [7]])"
    by (rule sender_step.intros(2)) (simp_all add: defs)
  have 3: "sender_step (?s 2, [Sender_Send [7]]) (Sender_Took (take 1 [7]) [Sender_Done])
      (\<lparr>pss_in_len = -1, pss_in = [1, 0, 7], pss_in_used = 3\<rparr>, [Sender_Done])"
    by (rule sender_step.intros(2)) (simp_all add: defs)
  note c = steps_Cons [where step = sender_step]
  show ?thesis unfolding example_sender_labels_def
    by (rule c [OF 1 c [OF 2 [simplified] c [OF 3 [simplified] steps_Nil]]])
qed

lemma example_sender_Init: "PacketStreamSender_Init 10 = Some \<lparr>pss_in_len = -1, pss_in = [], pss_in_used = 0\<rparr>"
  by (simp add: PacketStreamSender_Init_def)

theorem stream_sender_complete_witness:
  "sender_written example_sender_labels = [1, 0, 7] \<and> sum_list (map sender_done example_sender_labels) = 1"
  using stream_sender_complete [OF example_sender_Init example_sender_steps]
  by (simp add: pss_rest_def example_sender_labels_def sender_packets_def)

theorem decoder_recovers_packets_witness: "\<not> failed example_decoder_labels \<and> decoded example_decoder_labels = [[7]]"
  using decoder_recovers_packets [OF example_decoder_Init _ _ example_decoder_steps, of "[]" "[[7]]"]
  by (simp add: example_malloc_def frame_example example_decoder_labels_def fed_def decoded_def)


theorem packet_protocol_end_to_end_witness:
  "\<not> failed example_decoder_labels \<and> decoded example_decoder_labels = [[7]]"
  using packet_protocol_end_to_end [OF example_sender_Init example_sender_steps _ example_decoder_Init _ _
      example_decoder_steps, of "[[7]]" "[]"]
  by (simp add: example_malloc_def frame_example pss_rest_def sender_packets_def sender_written_def fed_def
      example_sender_labels_def example_decoder_labels_def)

end
