(* ===== verification/PacketFlow.thy ===== *)
theory PacketFlow
  imports PacketProto ChunkBuffer
begin

section \<open>Buffers and connectors of the packet flow\<close>

text \<open>
  \<open>flow/BufferWriter.c\<close>, \<open>flow/PacketBuffer.c\<close>, \<open>flow/SinglePacketBuffer.c\<close>,
  \<open>flow/PacketProtoFlow.c\<close>, \<open>flow/PacketPassConnector.c\<close> and
  \<open>flowextra/PacketPassInactivityMonitor.c\<close>. Handlers return the calls they make on their
  neighbours, as in \<open>PacketProto\<close>. A function that may both fail an assertion and report failure
  to its caller returns a nested option: the outer one is the assertion, the inner one the result.
\<close>

subsection \<open>BufferWriter\<close>

record BufferWriter =
  bw_out_have :: bool
  bw_d_mtu :: int
  bw_d_writing :: bool

datatype bw_call = Bw_Done int

definition BufferWriter_Init :: "int \<Rightarrow> BufferWriter option" where
  "BufferWriter_Init mtu = do {
     ASSERT (mtu \<ge> 0);
     Some \<lparr>bw_out_have = False, bw_d_mtu = mtu, bw_d_writing = False\<rparr> }"

definition bw_output_handler_recv :: "BufferWriter \<Rightarrow> BufferWriter option" where
  "bw_output_handler_recv o' = do {
     ASSERT (\<not> bw_out_have o');
     Some (o'\<lparr>bw_out_have := True\<rparr>) }"

definition BufferWriter_StartPacket :: "BufferWriter \<Rightarrow> (bool \<times> BufferWriter) option" where
  "BufferWriter_StartPacket o' = do {
     ASSERT (\<not> bw_d_writing o');
     if \<not> bw_out_have o' then Some (False, o')
     else Some (True, o'\<lparr>bw_d_writing := True\<rparr>) }"

definition BufferWriter_EndPacket :: "BufferWriter \<Rightarrow> int \<Rightarrow> (BufferWriter \<times> bw_call list) option" where
  "BufferWriter_EndPacket o' len = do {
     ASSERT (len \<ge> 0);
     ASSERT (len \<le> bw_d_mtu o');
     ASSERT (bw_out_have o');
     ASSERT (bw_d_writing o');
     Some (o'\<lparr>bw_out_have := False, bw_d_writing := False\<rparr>, [Bw_Done len]) }"

subsection \<open>PacketBuffer\<close>

record PacketBuffer =
  pb_input_mtu :: int
  pb_buf :: ChunkBuffer2

datatype pb_call = Pb_Recv | Pb_Send bytes

definition pb_send :: "ChunkBuffer2 \<Rightarrow> pb_call list option" where
  "pb_send b = do { p \<leftarrow> cb_output b; Some [Pb_Send p] }"

text \<open>The input wrote \<open>data\<close> to the destination it was given.\<close>

definition pb_input_written :: "PacketBuffer \<Rightarrow> bytes \<Rightarrow> PacketBuffer option" where
  "pb_input_written pb data = do { b \<leftarrow> cb_write (pb_buf pb) data; Some (pb\<lparr>pb_buf := b\<rparr>) }"

definition pb_input_handler_done :: "PacketBuffer \<Rightarrow> int \<Rightarrow> (PacketBuffer \<times> pb_call list) option" where
  "pb_input_handler_done pb in_len = do {
     ASSERT (in_len \<ge> 0);
     ASSERT (in_len \<le> pb_input_mtu pb);
     let was_empty = (cb_output_avail (pb_buf pb) < 0);
     b \<leftarrow> ChunkBuffer2_SubmitPacket (pb_buf pb) in_len;
     let recv = (if cb_input_avail b \<ge> pb_input_mtu pb then [Pb_Recv] else []);
     send \<leftarrow> (if was_empty then pb_send b else Some []);
     Some (pb\<lparr>pb_buf := b\<rparr>, recv @ send) }"

definition pb_output_handler_done :: "PacketBuffer \<Rightarrow> (PacketBuffer \<times> pb_call list) option" where
  "pb_output_handler_done pb = do {
     let was_full = (cb_input_avail (pb_buf pb) < pb_input_mtu pb);
     b \<leftarrow> ChunkBuffer2_ConsumePacket (pb_buf pb);
     let recv = (if was_full \<and> cb_input_avail b \<ge> pb_input_mtu pb then [Pb_Recv] else []);
     send \<leftarrow> (if cb_output_avail b \<ge> 0 then pb_send b else Some []);
     Some (pb\<lparr>pb_buf := b\<rparr>, recv @ send) }"

text \<open>\<open>malloc\<close> gives the memory for the blocks.\<close>

definition PacketBuffer_Init ::
  "(nat \<Rightarrow> bytes option) \<Rightarrow> int \<Rightarrow> int \<Rightarrow> int \<Rightarrow> (PacketBuffer \<times> pb_call list) option option" where
  "PacketBuffer_Init malloc input_mtu output_mtu num_packets = do {
     ASSERT (output_mtu \<ge> input_mtu);
     ASSERT (num_packets > 0);
     let num_blocks = ChunkBuffer2_calc_blocks input_mtu num_packets;
     if num_blocks < 0 then Some None
     else case malloc (nat (4 * num_blocks)) of
            None \<Rightarrow> Some None
          | Some buf_data \<Rightarrow> do {
              b \<leftarrow> ChunkBuffer2_Init buf_data num_blocks input_mtu;
              Some (Some (\<lparr>pb_input_mtu = input_mtu, pb_buf = b\<rparr>, [Pb_Recv])) } }"

subsection \<open>SinglePacketBuffer\<close>

record SinglePacketBuffer =
  spb_buf :: bytes

datatype spb_call = Spb_Recv | Spb_Send bytes

definition spb_input_handler_done :: "SinglePacketBuffer \<Rightarrow> int \<Rightarrow> SinglePacketBuffer \<times> spb_call list" where
  "spb_input_handler_done o' in_len = (o', [Spb_Send (take (nat in_len) (spb_buf o'))])"

definition spb_output_handler_done :: "SinglePacketBuffer \<Rightarrow> SinglePacketBuffer \<times> spb_call list" where
  "spb_output_handler_done o' = (o', [Spb_Recv])"

definition SinglePacketBuffer_Init ::
  "(nat \<Rightarrow> bytes option) \<Rightarrow> int \<Rightarrow> int \<Rightarrow> (SinglePacketBuffer \<times> spb_call list) option option" where
  "SinglePacketBuffer_Init malloc input_mtu output_mtu = do {
     ASSERT (output_mtu \<ge> input_mtu);
     case malloc (nat input_mtu) of
       None \<Rightarrow> Some None
     | Some buf \<Rightarrow> Some (Some (\<lparr>spb_buf = buf\<rparr>, [Spb_Recv])) }"

subsection \<open>PacketProtoFlow\<close>

record PacketProtoFlow =
  ppf_ainput :: BufferWriter
  ppf_encoder :: PacketProtoEncoder
  ppf_buffer :: PacketBuffer

definition PacketProtoFlow_Init ::
  "(nat \<Rightarrow> bytes option) \<Rightarrow> int \<Rightarrow> int \<Rightarrow> int \<Rightarrow> (PacketProtoFlow \<times> pb_call list) option option" where
  "PacketProtoFlow_Init malloc input_mtu num_packets output_mtu = do {
     ASSERT (input_mtu \<ge> 0);
     ASSERT (input_mtu \<le> PACKETPROTO_MAXPAYLOAD);
     ASSERT (num_packets > 0);
     ASSERT (output_mtu \<ge> PACKETPROTO_ENCLEN input_mtu);
     ainput \<leftarrow> BufferWriter_Init input_mtu;
     (encoder, encoder_mtu) \<leftarrow> PacketProtoEncoder_Init input_mtu;
     r \<leftarrow> PacketBuffer_Init malloc encoder_mtu output_mtu num_packets;
     Some (case r of
             None \<Rightarrow> None
           | Some (buffer, calls) \<Rightarrow>
               Some (\<lparr>ppf_ainput = ainput, ppf_encoder = encoder, ppf_buffer = buffer\<rparr>, calls)) }"

subsection \<open>PacketPassConnector\<close>

text \<open>The output interface is known here by its MTU; \<open>None\<close> is no output.\<close>

record PacketPassConnector =
  con_input_mtu :: int
  con_in_len :: int
  con_in :: bytes
  con_output :: "int option"

datatype con_call = Con_Send bytes | Con_Done

definition PacketPassConnector_Init :: "int \<Rightarrow> PacketPassConnector option" where
  "PacketPassConnector_Init mtu = do {
     ASSERT (mtu \<ge> 0);
     Some \<lparr>con_input_mtu = mtu, con_in_len = -1, con_in = [], con_output = None\<rparr> }"

definition con_input_handler_send ::
  "PacketPassConnector \<Rightarrow> bytes \<Rightarrow> (PacketPassConnector \<times> con_call list) option" where
  "con_input_handler_send c data = do {
     ASSERT (int (length data) \<le> con_input_mtu c);
     ASSERT (con_in_len c = -1);
     let c = c\<lparr>con_in_len := int (length data), con_in := data\<rparr>;
     Some (c, if con_output c \<noteq> None then [Con_Send (con_in c)] else []) }"

definition con_output_handler_done :: "PacketPassConnector \<Rightarrow> (PacketPassConnector \<times> con_call list) option" where
  "con_output_handler_done c = do {
     ASSERT (con_in_len c \<ge> 0);
     ASSERT (con_output c \<noteq> None);
     Some (c\<lparr>con_in_len := -1\<rparr>, [Con_Done]) }"

definition PacketPassConnector_ConnectOutput ::
  "PacketPassConnector \<Rightarrow> int \<Rightarrow> (PacketPassConnector \<times> con_call list) option" where
  "PacketPassConnector_ConnectOutput c output_mtu = do {
     ASSERT (con_output c = None);
     ASSERT (output_mtu \<ge> con_input_mtu c);
     let c = c\<lparr>con_output := Some output_mtu\<rparr>;
     Some (c, if con_in_len c \<ge> 0 then [Con_Send (con_in c)] else []) }"

definition PacketPassConnector_DisconnectOutput :: "PacketPassConnector \<Rightarrow> PacketPassConnector option" where
  "PacketPassConnector_DisconnectOutput c = do {
     ASSERT (con_output c \<noteq> None);
     Some (c\<lparr>con_output := None\<rparr>) }"

subsection \<open>PacketPassInactivityMonitor\<close>

text \<open>\<open>im_timer\<close> is the time after which the timer fires, if it is set.\<close>

record 'h PacketPassInactivityMonitor =
  im_handler :: "'h option"
  im_interval :: nat
  im_timer :: "nat option"

datatype 'h im_call = Im_Send bytes | Im_RequestCancel | Im_Done | Im_Handler 'h

definition PacketPassInactivityMonitor_Init :: "nat \<Rightarrow> 'h option \<Rightarrow> 'h PacketPassInactivityMonitor" where
  "PacketPassInactivityMonitor_Init interval h =
     \<lparr>im_handler = h, im_interval = interval, im_timer = Some interval\<rparr>"

definition im_input_handler_send ::
  "'h PacketPassInactivityMonitor \<Rightarrow> bytes \<Rightarrow> 'h PacketPassInactivityMonitor \<times> 'h im_call list" where
  "im_input_handler_send m data = (m\<lparr>im_timer := None\<rparr>, [Im_Send data])"

definition im_input_handler_requestcancel ::
  "'h PacketPassInactivityMonitor \<Rightarrow> 'h PacketPassInactivityMonitor \<times> 'h im_call list" where
  "im_input_handler_requestcancel m = (m, [Im_RequestCancel])"

definition im_output_handler_done ::
  "'h PacketPassInactivityMonitor \<Rightarrow> 'h PacketPassInactivityMonitor \<times> 'h im_call list" where
  "im_output_handler_done m = (m\<lparr>im_timer := Some (im_interval m)\<rparr>, [Im_Done])"

definition im_timer_handler ::
  "'h PacketPassInactivityMonitor \<Rightarrow> 'h PacketPassInactivityMonitor \<times> 'h im_call list" where
  "im_timer_handler m =
     (m\<lparr>im_timer := Some (im_interval m)\<rparr>, case im_handler m of None \<Rightarrow> [] | Some h \<Rightarrow> [Im_Handler h])"

definition PacketPassInactivityMonitor_SetHandler ::
  "'h PacketPassInactivityMonitor \<Rightarrow> 'h option \<Rightarrow> 'h PacketPassInactivityMonitor" where
  "PacketPassInactivityMonitor_SetHandler m h = m\<lparr>im_handler := h\<rparr>"

definition PacketPassInactivityMonitor_Force ::
  "'h PacketPassInactivityMonitor \<Rightarrow> 'h PacketPassInactivityMonitor" where
  "PacketPassInactivityMonitor_Force m = m\<lparr>im_timer := Some 0\<rparr>"

subsection \<open>The packet buffer between its neighbours\<close>

text \<open>
  A state is the buffer, whether a receive operation is in progress on the input, and the packet
  that is being sent on the output. A call that starts an operation while the interface is busy is
  a failed assertion of the interface.
\<close>

type_synonym pb_state = "PacketBuffer \<times> bool \<times> bytes option"

fun pb_apply :: "pb_call list \<Rightarrow> bool \<times> bytes option \<Rightarrow> (bool \<times> bytes option) option" where
  "pb_apply [] rs = Some rs"
| "pb_apply (Pb_Recv # cs) (r, s) = do { ASSERT (\<not> r); pb_apply cs (True, s) }"
| "pb_apply (Pb_Send p # cs) (r, s) = do { ASSERT (s = None); pb_apply cs (r, Some p) }"

text \<open>The input finished the operation with the packet \<open>d\<close>; the output finished its packet.\<close>

fun pb_input :: "pb_state \<Rightarrow> bytes \<Rightarrow> pb_state option" where
  "pb_input (pb, r, s) d = do {
     ASSERT r;
     pb \<leftarrow> pb_input_written pb d;
     (pb, calls) \<leftarrow> pb_input_handler_done pb (int (length d));
     (r, s) \<leftarrow> pb_apply calls (False, s);
     Some (pb, r, s) }"

fun pb_output :: "pb_state \<Rightarrow> pb_state option" where
  "pb_output (pb, r, s) = do {
     ASSERT (s \<noteq> None);
     (pb, calls) \<leftarrow> pb_output_handler_done pb;
     (r, s) \<leftarrow> pb_apply calls (r, None);
     Some (pb, r, s) }"

definition pb_first :: "bytes list \<Rightarrow> bytes option" where
  "pb_first q = (case q of [] \<Rightarrow> None | p # _ \<Rightarrow> Some p)"

definition pb_inv :: "pb_state \<Rightarrow> bytes list \<Rightarrow> bool" where
  "pb_inv = (\<lambda>(pb, r, s) q. cb_holds (pb_buf pb) q \<and> 0 \<le> pb_input_mtu pb
     \<and> cb_mtu (pb_buf pb) = data_blocks (pb_input_mtu pb)
     \<and> (\<forall>p \<in> set q. int (length p) \<le> pb_input_mtu pb)
     \<and> r = (pb_input_mtu pb \<le> cb_input_avail (pb_buf pb)) \<and> s = pb_first q)"

lemma output_avail_empty: "cb_holds b q \<Longrightarrow> cb_output_avail b < 0 \<longleftrightarrow> q = []"
  by (cases q) (auto simp: cb_holds_iff cb_output_ok_def)

lemma output_avail_nonempty: "cb_holds b q \<Longrightarrow> cb_output_avail b \<ge> 0 \<longleftrightarrow> q \<noteq> []"
  using output_avail_empty [of b q] by auto

lemma pb_send_first: "cb_holds b (p # q) \<Longrightarrow> pb_send b = Some [Pb_Send p]"
  by (simp add: pb_send_def output_first)

lemma put_write_submit:
  assumes "cb_put b d = Some b'"
  obtains b1 where "cb_write b d = Some b1" and "ChunkBuffer2_SubmitPacket b1 (int (length d)) = Some b'"
    and "cb_output_avail b1 = cb_output_avail b"
  using assms by (auto simp: cb_put_def cb_write_def bind_Some_iff)

lemma pb_input_ok:
  assumes inv: "pb_inv (pb, True, s) q" and d: "int (length d) \<le> pb_input_mtu pb"
  obtains pb' r' s' where "pb_input (pb, True, s) d = Some (pb', r', s')" and "pb_inv (pb', r', s') (q @ [d])"
    and "pb_input_mtu pb' = pb_input_mtu pb" and "cb_size (pb_buf pb') = cb_size (pb_buf pb)"
proof -
  let ?mtu = "pb_input_mtu pb"
  have h: "cb_holds (pb_buf pb) q" and a: "?mtu \<le> cb_input_avail (pb_buf pb)" and s: "s = pb_first q"
    using inv by (auto simp: pb_inv_def)
  obtain b' where b': "cb_put (pb_buf pb) d = Some b'" "cb_holds b' (q @ [d])"
    "cb_size b' = cb_size (pb_buf pb)" "cb_mtu b' = cb_mtu (pb_buf pb)"
    by (rule put_ok [OF h]) (use a d in auto)
  obtain b1 where b1: "cb_write (pb_buf pb) d = Some b1" "ChunkBuffer2_SubmitPacket b1 (int (length d)) = Some b'"
    "cb_output_avail b1 = cb_output_avail (pb_buf pb)" by (rule put_write_submit [OF b'(1)])
  let ?pb = "pb\<lparr>pb_buf := b'\<rparr>" and ?r = "?mtu \<le> cb_input_avail b'"
  have e: "cb_output_avail (pb_buf pb) < 0 \<longleftrightarrow> q = []" by (rule output_avail_empty [OF h])
  have "pb_input (pb, True, s) d = Some (?pb, ?r, pb_first (q @ [d]))"
    using b1 d e s pb_send_first [of b' d "[]"] b'(2)
    by (cases q) (auto simp: pb_input_written_def pb_input_handler_done_def pb_first_def Let_def)
  moreover have "pb_inv (?pb, ?r, pb_first (q @ [d])) (q @ [d])"
    using inv b' d by (auto simp: pb_inv_def)
  ultimately show ?thesis using that b'(3) by simp
qed

lemma pb_output_ok:
  assumes inv: "pb_inv (pb, r, s) (p # q)"
  obtains pb' r' s' where "pb_output (pb, r, s) = Some (pb', r', s')" and "pb_inv (pb', r', s') q"
    and "pb_input_mtu pb' = pb_input_mtu pb" and "cb_size (pb_buf pb') = cb_size (pb_buf pb)" and "r \<longrightarrow> r'"
proof -
  let ?mtu = "pb_input_mtu pb"
  have h: "cb_holds (pb_buf pb) (p # q)" and r: "r = (?mtu \<le> cb_input_avail (pb_buf pb))" and s: "s = Some p"
    using inv by (auto simp: pb_inv_def pb_first_def)
  obtain b' where b': "ChunkBuffer2_ConsumePacket (pb_buf pb) = Some b'" "cb_holds b' q"
    "cb_input_avail (pb_buf pb) \<le> cb_input_avail b'" "cb_size b' = cb_size (pb_buf pb)" "cb_mtu b' = cb_mtu (pb_buf pb)"
    by (rule consume_ok [OF h])
  let ?pb = "pb\<lparr>pb_buf := b'\<rparr>" and ?r = "?mtu \<le> cb_input_avail b'"
  have e: "cb_output_avail b' \<ge> 0 \<longleftrightarrow> q \<noteq> []" by (rule output_avail_nonempty [OF b'(2)])
  have "pb_output (pb, r, s) = Some (?pb, ?r, pb_first q)"
    using b' e r s pb_send_first [of b'] by (cases q) (auto simp: pb_output_handler_done_def pb_first_def Let_def)
  moreover have "pb_inv (?pb, ?r, pb_first q) q" using inv b' by (auto simp: pb_inv_def)
  moreover have "r \<longrightarrow> ?r" using r b'(3) by simp
  ultimately show ?thesis using that b'(4) by simp
qed

datatype pb_label = Pb_in bytes | Pb_out bytes

inductive pb_step :: "pb_state \<Rightarrow> pb_label \<Rightarrow> pb_state \<Rightarrow> bool" where
  "int (length d) \<le> pb_input_mtu (fst st) \<Longrightarrow> pb_input st d = Some st' \<Longrightarrow> pb_step st (Pb_in d) st'"
| "snd (snd st) = Some p \<Longrightarrow> pb_output st = Some st' \<Longrightarrow> pb_step st (Pb_out p) st'"

inductive_simps pb_step_simps: "pb_step st (Pb_in d) st'" "pb_step st (Pb_out p) st'"

fun pb_ins :: "pb_label list \<Rightarrow> bytes list" where
  "pb_ins [] = []"
| "pb_ins (Pb_in d # ls) = d # pb_ins ls"
| "pb_ins (Pb_out _ # ls) = pb_ins ls"

fun pb_outs :: "pb_label list \<Rightarrow> bytes list" where
  "pb_outs [] = []"
| "pb_outs (Pb_in _ # ls) = pb_outs ls"
| "pb_outs (Pb_out p # ls) = p # pb_outs ls"

lemma pb_ins_append [simp]: "pb_ins (xs @ ys) = pb_ins xs @ pb_ins ys"
  by (induction xs rule: pb_ins.induct) auto

lemma pb_outs_append [simp]: "pb_outs (xs @ ys) = pb_outs xs @ pb_outs ys"
  by (induction xs rule: pb_outs.induct) auto

lemma pb_step_inv:
  assumes "pb_inv st q" and "pb_step st l st'"
  shows "\<exists>q'. pb_inv st' q' \<and> q @ pb_ins [l] = pb_outs [l] @ q'
           \<and> pb_input_mtu (fst st') = pb_input_mtu (fst st) \<and> cb_size (pb_buf (fst st')) = cb_size (pb_buf (fst st))"
proof -
  obtain pb r s where st: "st = (pb, r, s)" by (cases st)
  show ?thesis
  proof (cases l)
    case (Pb_in d)
    with assms(2) have d: "int (length d) \<le> pb_input_mtu pb" "pb_input (pb, r, s) d = Some st'"
      by (simp_all add: st pb_step_simps del: pb_input.simps)
    then have "r" by (auto simp: ASSERT_bind split: if_splits)
    then obtain pb' r' s' where o: "pb_input (pb, True, s) d = Some (pb', r', s')" "pb_inv (pb', r', s') (q @ [d])"
      "pb_input_mtu pb' = pb_input_mtu pb" "cb_size (pb_buf pb') = cb_size (pb_buf pb)"
      using pb_input_ok [of pb s q d] assms(1) d(1) by (auto simp: st)
    then show ?thesis using d(2) \<open>r\<close> Pb_in by (auto simp: st simp del: pb_input.simps)
  next
    case (Pb_out p)
    with assms(2) have d: "s = Some p" "pb_output (pb, r, s) = Some st'" by (auto simp: st pb_step_simps simp del: pb_output.simps)
    then obtain q1 where q: "q = p # q1" using assms(1) by (cases q) (auto simp: st pb_inv_def pb_first_def)
    obtain pb' r' s' where o: "pb_output (pb, r, s) = Some (pb', r', s')" "pb_inv (pb', r', s') q1"
      "pb_input_mtu pb' = pb_input_mtu pb" "cb_size (pb_buf pb') = cb_size (pb_buf pb)"
      by (rule pb_output_ok [OF assms(1) [unfolded st q]])
    then show ?thesis using d(2) q Pb_out by (auto simp: st simp del: pb_output.simps)
  qed
qed

lemma pb_trace:
  assumes "steps pb_step st ls st'" and "pb_inv st []"
  shows "\<exists>q. pb_inv st' q \<and> pb_ins ls = pb_outs ls @ q
           \<and> pb_input_mtu (fst st') = pb_input_mtu (fst st) \<and> cb_size (pb_buf (fst st')) = cb_size (pb_buf (fst st))"
  using assms
proof (induction rule: steps.induct)
  case (steps_snoc st ls st1 l st2)
  then obtain q where q: "pb_inv st1 q" "pb_ins ls = pb_outs ls @ q" "pb_input_mtu (fst st1) = pb_input_mtu (fst st)"
    "cb_size (pb_buf (fst st1)) = cb_size (pb_buf (fst st))" by auto
  from pb_step_inv [OF q(1) steps_snoc.hyps(2)] q(2-) show ?case by auto
qed auto

lemma calc_blocks_value:
  assumes "0 \<le> ChunkBuffer2_calc_blocks mtu num" and "0 < num"
  shows "ChunkBuffer2_calc_blocks mtu num = (1 + data_blocks mtu) * (num + 1)"
    and "data_blocks mtu < ChunkBuffer2_calc_blocks mtu num"
proof -
  show e: "ChunkBuffer2_calc_blocks mtu num = (1 + data_blocks mtu) * (num + 1)"
    using assms by (auto simp: ChunkBuffer2_calc_blocks_def Let_def split: if_splits)
  have "(1 + data_blocks mtu) * 1 \<le> (1 + data_blocks mtu) * (num + 1)"
    using assms(2) data_blocks_nonneg [of mtu] by (intro mult_left_mono) auto
  then show "data_blocks mtu < ChunkBuffer2_calc_blocks mtu num" unfolding e by simp
qed

text \<open>
  The memory the allocator returns has the size that was asked for, and the number of blocks is
  small enough for the byte counts of the chunk buffer, which are of type \<open>int\<close>.
\<close>

definition allocates :: "(nat \<Rightarrow> bytes option) \<Rightarrow> bool" where
  "allocates malloc \<longleftrightarrow> (\<forall>n b. malloc n = Some b \<longrightarrow> length b = n)"

lemma PacketBuffer_Init_inv:
  assumes "PacketBuffer_Init malloc input_mtu output_mtu num = Some (Some (pb, calls))" and "allocates malloc"
    and "0 \<le> input_mtu" and "4 * ChunkBuffer2_calc_blocks input_mtu num \<le> INT_MAX"
  shows "pb_inv (pb, True, None) []" and "calls = [Pb_Recv]" and "pb_input_mtu pb = input_mtu"
    and "cb_size (pb_buf pb) = ChunkBuffer2_calc_blocks input_mtu num" and "0 < num"
proof -
  let ?n = "ChunkBuffer2_calc_blocks input_mtu num"
  have num: "0 < num" "0 \<le> ?n" using assms(1) by (auto simp: PacketBuffer_Init_def assert_simps Let_def split: if_splits)
  obtain m b where m: "malloc (nat (4 * ?n)) = Some m" "ChunkBuffer2_Init m ?n input_mtu = Some b"
    and pb: "pb = \<lparr>pb_input_mtu = input_mtu, pb_buf = b\<rparr>" "calls = [Pb_Recv]"
    using assms(1) num by (auto simp: PacketBuffer_Init_def assert_simps Let_def split: option.splits if_splits)
  have len: "length m = nat (4 * ?n)" using m(1) assms(2) by (simp add: allocates_def)
  obtain b' where b': "ChunkBuffer2_Init m ?n input_mtu = Some b'" "cb_holds b' []" "cb_size b' = ?n"
    "cb_mtu b' = data_blocks input_mtu"
    by (rule init_ok [OF assms(3) calc_blocks_value(2) [OF num(2,1)] assms(4) len])
  then have b: "b' = b" using m by simp
  have "input_mtu \<le> cb_input_avail b"
    using capacity [of b "[]" input_mtu num] b' num assms(3) by (simp add: b)
  then show "pb_inv (pb, True, None) []" "calls = [Pb_Recv]" "pb_input_mtu pb = input_mtu"
    "cb_size (pb_buf pb) = ?n" "0 < num"
    using b' assms(3) num by (auto simp: pb b pb_inv_def pb_first_def)
qed

lemma pb_room:
  assumes "pb_inv (pb, r, s) q" and "cb_size (pb_buf pb) = ChunkBuffer2_calc_blocks (pb_input_mtu pb) num"
    and "int (length q) < num"
  shows r
  using assms capacity [of "pb_buf pb" q "pb_input_mtu pb" num] by (auto simp: pb_inv_def)

text \<open>
  The packet buffer is a queue that keeps its promises. From an initialised buffer for
  \<open>num_packets\<close> packets, whatever packets come in and whenever the output reports one done: the
  packets sent and those still held are the packets received, in order; the first one held is
  the one being sent; the buffer is receiving whenever it holds fewer than \<open>num_packets\<close>; and both
  of its handlers run without failing an assertion, their own or that of an interface.
\<close>

theorem packet_buffer_correct:
  assumes "PacketBuffer_Init malloc input_mtu output_mtu num = Some (Some (pb, calls))" and "allocates malloc"
    and "0 \<le> input_mtu" and "4 * ChunkBuffer2_calc_blocks input_mtu num \<le> INT_MAX"
    and "steps pb_step (pb, True, None) ls (pb', r, s)"
  shows "\<exists>held. pb_ins ls = pb_outs ls @ held \<and> s = pb_first held \<and> (int (length held) < num \<longrightarrow> r)
           \<and> (\<forall>d. r \<and> int (length d) \<le> input_mtu \<longrightarrow> pb_input (pb', r, s) d \<noteq> None)
           \<and> (held \<noteq> [] \<longrightarrow> pb_output (pb', r, s) \<noteq> None)"
proof -
  note i = PacketBuffer_Init_inv [OF assms(1-4)]
  obtain q where q: "pb_inv (pb', r, s) q" "pb_ins ls = pb_outs ls @ q"
    "pb_input_mtu pb' = input_mtu" "cb_size (pb_buf pb') = ChunkBuffer2_calc_blocks input_mtu num"
    using pb_trace [OF assms(5) i(1)] i by auto
  have "pb_input (pb', r, s) d \<noteq> None" if "r" "int (length d) \<le> input_mtu" for d
    using pb_input_ok [of pb' s q d] q that by (metis (full_types) option.simps(3))
  moreover have "pb_output (pb', r, s) \<noteq> None" if "q \<noteq> []"
    using pb_output_ok [of pb' r s] q(1) that by (metis (full_types) list.exhaust option.simps(3))
  moreover have "s = pb_first q" using q(1) by (simp add: pb_inv_def)
  ultimately show ?thesis using q pb_room [OF q(1)] by auto
qed

lemma example_calc: "ChunkBuffer2_calc_blocks 4 2 = 6"
  by (simp add: ChunkBuffer2_calc_blocks_def data_blocks_4 Let_def)

lemma allocates_example: "allocates example_malloc"
  by (simp add: allocates_def example_malloc_def)

lemma example_pb_Init:
  "PacketBuffer_Init example_malloc 4 4 2 = Some (Some (\<lparr>pb_input_mtu = 4, pb_buf = example_buffer\<rparr>, [Pb_Recv]))"
  using example_init by (simp add: PacketBuffer_Init_def example_calc example_malloc_def)

lemma example_pb_inv: "pb_inv (\<lparr>pb_input_mtu = 4, pb_buf = example_buffer\<rparr>, True, None) []"
  by (rule PacketBuffer_Init_inv [OF example_pb_Init allocates_example]) (simp_all add: example_calc)

theorem packet_buffer_correct_witness:
  "\<exists>pb r s. steps pb_step (\<lparr>pb_input_mtu = 4, pb_buf = example_buffer\<rparr>, True, None) [Pb_in [1, 2, 3]] (pb, r, s)
     \<and> s = Some [1, 2, 3] \<and> r \<and> pb_output (pb, r, s) \<noteq> None"
proof -
  obtain pb r s where o: "pb_input (\<lparr>pb_input_mtu = 4, pb_buf = example_buffer\<rparr>, True, None) [1, 2, 3] = Some (pb, r, s)"
    by (rule pb_input_ok [OF example_pb_inv, of "[1, 2, 3]"]) auto
  then have "pb_step (\<lparr>pb_input_mtu = 4, pb_buf = example_buffer\<rparr>, True, None) (Pb_in [1, 2, 3]) (pb, r, s)"
    by (intro pb_step.intros) simp_all
  then have st: "steps pb_step (\<lparr>pb_input_mtu = 4, pb_buf = example_buffer\<rparr>, True, None) [Pb_in [1, 2, 3]] (pb, r, s)"
    using steps_Cons [where step = pb_step, OF _ steps_Nil] by blast
  have "s = Some [1, 2, 3] \<and> r \<and> pb_output (pb, r, s) \<noteq> None"
    using packet_buffer_correct [OF example_pb_Init allocates_example _ _ st]
    by (auto simp: example_calc pb_first_def simp del: pb_output.simps)
  then show ?thesis using st by blast
qed

subsection \<open>The packet protocol flow\<close>

text \<open>
  A \<open>PacketProtoFlow\<close> is a writer, an encoder and a packet buffer in series. Between two events
  all jobs have run: the buffer is receiving if and only if the encoder has an output packet and
  the writer has a place to write to. The destination the buffer gives to the encoder is the
  memory at \<open>input_dest\<close>.
\<close>

type_synonym ppf_state = "PacketProtoFlow \<times> bytes option"

definition pb_dest :: "PacketBuffer \<Rightarrow> bytes option" where
  "pb_dest pb = do {
     d \<leftarrow> cb_input_dest (pb_buf pb);
     Some (segment (cb_buffer (pb_buf pb)) (nat d) (nat (pb_input_mtu pb))) }"

definition ppf_receive :: "PacketProtoFlow \<Rightarrow> PacketProtoFlow option" where
  "ppf_receive f = do {
     dest \<leftarrow> pb_dest (ppf_buffer f);
     (encoder, _) \<leftarrow> encoder_output_handler_recv (ppf_encoder f) dest;
     ainput \<leftarrow> bw_output_handler_recv (ppf_ainput f);
     Some (f\<lparr>ppf_encoder := encoder, ppf_ainput := ainput\<rparr>) }"

text \<open>A packet is written: the result is whether it was accepted.\<close>

definition ppf_write :: "ppf_state \<Rightarrow> bytes \<Rightarrow> (bool \<times> ppf_state) option" where
  "ppf_write = (\<lambda>(f, s) p. do {
     (accepted, w) \<leftarrow> BufferWriter_StartPacket (ppf_ainput f);
     if \<not> accepted then Some (False, f, s)
     else do {
       e \<leftarrow> encoder_input_written (ppf_encoder f) p;
       (w, _) \<leftarrow> BufferWriter_EndPacket w (int (length p));
       (e, _, out) \<leftarrow> encoder_input_handler_done e (int (length p));
       (pb, r, s) \<leftarrow> pb_input (ppf_buffer f, True, s) (take (2 + length p) out);
       let f = f\<lparr>ppf_ainput := w, ppf_encoder := e, ppf_buffer := pb\<rparr>;
       f \<leftarrow> (if r then ppf_receive f else Some f);
       Some (True, f, s) } })"

definition ppf_done :: "ppf_state \<Rightarrow> ppf_state option" where
  "ppf_done = (\<lambda>(f, s). do {
     let receiving = bw_out_have (ppf_ainput f);
     (pb, r, s) \<leftarrow> pb_output (ppf_buffer f, receiving, s);
     let f = f\<lparr>ppf_buffer := pb\<rparr>;
     f \<leftarrow> (if r \<and> \<not> receiving then ppf_receive f else Some f);
     Some (f, s) })"

definition ppf_inv :: "int \<Rightarrow> ppf_state \<Rightarrow> bytes list \<Rightarrow> bool" where
  "ppf_inv mtu = (\<lambda>(f, s) q.
     pb_inv (ppf_buffer f, bw_out_have (ppf_ainput f), s) (map frame q)
     \<and> pb_input_mtu (ppf_buffer f) = PACKETPROTO_ENCLEN mtu \<and> bw_d_mtu (ppf_ainput f) = mtu
     \<and> 0 \<le> mtu \<and> mtu \<le> PACKETPROTO_MAXPAYLOAD \<and> \<not> bw_d_writing (ppf_ainput f)
     \<and> (\<forall>p \<in> set q. int (length p) \<le> mtu)
     \<and> (case enc_output_packet (ppf_encoder f) of
          None \<Rightarrow> \<not> bw_out_have (ppf_ainput f)
        | Some dest \<Rightarrow> bw_out_have (ppf_ainput f) \<and> int (length dest) = PACKETPROTO_ENCLEN mtu))"

lemma pb_dest_ok:
  assumes "pb_inv (pb, True, s) q"
  obtains dest where "pb_dest pb = Some dest" and "int (length dest) = pb_input_mtu pb"
proof -
  let ?b = "pb_buf pb" and ?m = "pb_input_mtu pb"
  have h: "cb_holds ?b q" and m: "0 \<le> ?m" "?m \<le> cb_input_avail ?b" using assms by (auto simp: pb_inv_def)
  note r = input_room [OF h m] and f = free_region [OF h]
  have len: "length (cb_buffer ?b) = nat (4 * cb_size ?b)" using h by (simp add: cb_holds_iff cb_layout_def Let_def)
  have e: "0 \<le> 4 * (ChunkBuffer2_end ?b + 1)" using f(1) by simp
  have "4 * (ChunkBuffer2_end ?b + 1) + ?m \<le> 4 * cb_size ?b" using r(3) m f(2) by simp
  then have "nat (4 * (ChunkBuffer2_end ?b + 1)) + nat ?m \<le> length (cb_buffer ?b)"
    using len m(1) e by (simp add: nat_add_distrib [symmetric] nat_mono)
  then have "length (segment (cb_buffer ?b) (nat (4 * (ChunkBuffer2_end ?b + 1))) (nat ?m)) = nat ?m"
    by (rule length_segment)
  then show ?thesis using that r(1) m(1) by (simp add: pb_dest_def)
qed

lemma ppf_receive_ok:
  assumes "pb_inv (ppf_buffer f, True, s) (map frame q)" and "enc_output_packet (ppf_encoder f) = None"
    and "\<not> bw_out_have (ppf_ainput f)" and "pb_input_mtu (ppf_buffer f) = PACKETPROTO_ENCLEN mtu"
    and "bw_d_mtu (ppf_ainput f) = mtu" and "0 \<le> mtu" and "mtu \<le> PACKETPROTO_MAXPAYLOAD"
    and "\<not> bw_d_writing (ppf_ainput f)" and "\<forall>p \<in> set q. int (length p) \<le> mtu"
  obtains f' where "ppf_receive f = Some f'" and "ppf_inv mtu (f', s) q" and "ppf_buffer f' = ppf_buffer f"
proof -
  obtain dest where d: "pb_dest (ppf_buffer f) = Some dest" "int (length dest) = pb_input_mtu (ppf_buffer f)"
    by (rule pb_dest_ok [OF assms(1)])
  let ?f = "f\<lparr>ppf_encoder := (ppf_encoder f)\<lparr>enc_output_packet := Some dest\<rparr>,
              ppf_ainput := (ppf_ainput f)\<lparr>bw_out_have := True\<rparr>\<rparr>"
  have "ppf_receive f = Some ?f"
    using d(1) assms(2,3) by (simp add: ppf_receive_def encoder_output_handler_recv_def bw_output_handler_recv_def)
  moreover have "ppf_inv mtu (?f, s) q" using assms d by (simp add: ppf_inv_def)
  ultimately show ?thesis using that by simp
qed

lemma encoder_done_frame:
  assumes "enc_output_packet e = Some dest" and "int (length dest) = PACKETPROTO_ENCLEN mtu"
    and "int (length p) \<le> mtu" and "mtu \<le> PACKETPROTO_MAXPAYLOAD"
  obtains e2 out where "encoder_input_written e p = Some e2"
    and "encoder_input_handler_done e2 (int (length p)) = Some (e\<lparr>enc_output_packet := None\<rparr>, [Encoder_Done (int (length (frame p)))], out)"
    and "take (2 + length p) out = frame p"
proof -
  let ?e = "e\<lparr>enc_output_packet := None\<rparr>"
  obtain e1 e2 e3 out where w: "encoder_output_handler_recv ?e dest = Some (e1, [Encoder_Recv 2])"
    "encoder_input_written e1 p = Some e2"
    "encoder_input_handler_done e2 (int (length p)) = Some (e3, [Encoder_Done (int (length (frame p)))], out)"
    "take (length (frame p)) out = frame p" "enc_output_packet e3 = None"
    by (rule encoder_writes_frame [of ?e p dest]) (use assms in \<open>simp_all add: PACKETPROTO_ENCLEN_def\<close>)
  have e1: "e1 = e" using w(1) assms(1) by (cases e) (auto simp: encoder_output_handler_recv_def)
  have e3: "e3 = ?e" using w(5) by simp
  show ?thesis using that [of e2 out] w by (simp add: e1 e3)
qed

lemma ppf_write_ok:
  assumes inv: "ppf_inv mtu (f, s) q" and p: "int (length p) \<le> mtu"
  obtains f' s' where "ppf_write (f, s) p = Some (bw_out_have (ppf_ainput f), f', s')"
    and "ppf_inv mtu (f', s') (if bw_out_have (ppf_ainput f) then q @ [p] else q)"
    and "cb_size (pb_buf (ppf_buffer f')) = cb_size (pb_buf (ppf_buffer f))"
proof (cases "bw_out_have (ppf_ainput f)")
  case False
  then show ?thesis using that [of f s] inv
    by (simp add: ppf_write_def BufferWriter_StartPacket_def ppf_inv_def)
next
  case True
  let ?w = "(ppf_ainput f)\<lparr>bw_out_have := False, bw_d_writing := False\<rparr>"
  let ?e = "(ppf_encoder f)\<lparr>enc_output_packet := None\<rparr>"
  have m: "0 \<le> mtu" "mtu \<le> PACKETPROTO_MAXPAYLOAD" "pb_input_mtu (ppf_buffer f) = PACKETPROTO_ENCLEN mtu"
    "bw_d_mtu (ppf_ainput f) = mtu" "\<not> bw_d_writing (ppf_ainput f)" "\<forall>p \<in> set q. int (length p) \<le> mtu"
    and pbi: "pb_inv (ppf_buffer f, True, s) (map frame q)" using inv True by (auto simp: ppf_inv_def)
  obtain dest where d: "enc_output_packet (ppf_encoder f) = Some dest" "int (length dest) = PACKETPROTO_ENCLEN mtu"
    using inv True by (auto simp: ppf_inv_def split: option.splits)
  obtain e2 out where e: "encoder_input_written (ppf_encoder f) p = Some e2"
    "encoder_input_handler_done e2 (int (length p)) = Some (?e, [Encoder_Done (int (length (frame p)))], out)"
    "take (2 + length p) out = frame p" by (rule encoder_done_frame [OF d p m(2)])
  obtain pb r s1 where o: "pb_input (ppf_buffer f, True, s) (frame p) = Some (pb, r, s1)"
    "pb_inv (pb, r, s1) (map frame q @ [frame p])" "pb_input_mtu pb = pb_input_mtu (ppf_buffer f)"
    "cb_size (pb_buf pb) = cb_size (pb_buf (ppf_buffer f))"
    by (rule pb_input_ok [OF pbi, of "frame p"])
       (use p m in \<open>auto simp: PACKETPROTO_ENCLEN_def sizeof_packetproto_header_def\<close>)
  let ?f = "f\<lparr>ppf_ainput := ?w, ppf_encoder := ?e, ppf_buffer := pb\<rparr>"
  have run: "ppf_write (f, s) p = (if r then ppf_receive ?f else Some ?f) \<bind> (\<lambda>f. Some (True, f, s1))"
    using True m p e o(1)
    by (simp add: ppf_write_def BufferWriter_StartPacket_def BufferWriter_EndPacket_def del: pb_input.simps)
  show ?thesis
  proof (cases r)
    case rT: True
    obtain f' where f': "ppf_receive ?f = Some f'" "ppf_inv mtu (f', s1) (q @ [p])" "ppf_buffer f' = pb"
      by (rule ppf_receive_ok [of ?f s1 "q @ [p]" mtu]) (use o m p rT in auto)
    then show ?thesis using that [of f' s1] run rT True o(4) by simp
  next
    case False
    have "ppf_inv mtu (?f, s1) (q @ [p])" using o m p False by (auto simp: ppf_inv_def)
    then show ?thesis using that [of ?f s1] run False True o(4) by simp
  qed
qed

lemma ppf_done_ok:
  assumes inv: "ppf_inv mtu (f, s) (p # q)"
  obtains f' s' where "ppf_done (f, s) = Some (f', s')" and "ppf_inv mtu (f', s') q"
    and "cb_size (pb_buf (ppf_buffer f')) = cb_size (pb_buf (ppf_buffer f))"
proof -
  let ?h = "bw_out_have (ppf_ainput f)"
  have m: "0 \<le> mtu" "mtu \<le> PACKETPROTO_MAXPAYLOAD" "pb_input_mtu (ppf_buffer f) = PACKETPROTO_ENCLEN mtu"
    "bw_d_mtu (ppf_ainput f) = mtu" "\<not> bw_d_writing (ppf_ainput f)" "\<forall>p \<in> set q. int (length p) \<le> mtu"
    and pbi: "pb_inv (ppf_buffer f, ?h, s) (frame p # map frame q)" using inv by (auto simp: ppf_inv_def)
  obtain pb r s1 where o: "pb_output (ppf_buffer f, ?h, s) = Some (pb, r, s1)" "pb_inv (pb, r, s1) (map frame q)"
    "pb_input_mtu pb = pb_input_mtu (ppf_buffer f)" "cb_size (pb_buf pb) = cb_size (pb_buf (ppf_buffer f))"
    "?h \<longrightarrow> r" by (rule pb_output_ok [OF pbi])
  let ?f = "f\<lparr>ppf_buffer := pb\<rparr>"
  have run: "ppf_done (f, s) = (if r \<and> \<not> ?h then ppf_receive ?f else Some ?f) \<bind> (\<lambda>f. Some (f, s1))"
    using o(1) by (simp add: ppf_done_def Let_def del: pb_output.simps)
  show ?thesis
  proof (cases "r \<and> \<not> ?h")
    case True
    obtain f' where f': "ppf_receive ?f = Some f'" "ppf_inv mtu (f', s1) q" "ppf_buffer f' = pb"
      by (rule ppf_receive_ok [of ?f s1 q mtu]) (use o m True inv in \<open>auto simp: ppf_inv_def split: option.splits\<close>)
    then show ?thesis using that [of f' s1] run True o(4) by simp
  next
    case False
    then have "r = ?h" using o(5) by auto
    then have "ppf_inv mtu (?f, s1) q" using o m inv by (auto simp: ppf_inv_def split: option.splits)
    then show ?thesis using that [of ?f s1] run False o(4) by simp
  qed
qed

datatype ppf_label = Ppf_write bytes bool | Ppf_sent bytes

inductive ppf_step :: "ppf_state \<Rightarrow> ppf_label \<Rightarrow> ppf_state \<Rightarrow> bool" where
  "int (length p) \<le> bw_d_mtu (ppf_ainput (fst st)) \<Longrightarrow> ppf_write st p = Some (accepted, st') \<Longrightarrow>
     ppf_step st (Ppf_write p accepted) st'"
| "snd st = Some d \<Longrightarrow> ppf_done st = Some st' \<Longrightarrow> ppf_step st (Ppf_sent d) st'"

inductive_simps ppf_step_simps: "ppf_step st (Ppf_write p b) st'" "ppf_step st (Ppf_sent d) st'"

fun ppf_accepted :: "ppf_label list \<Rightarrow> bytes list" where
  "ppf_accepted [] = []"
| "ppf_accepted (Ppf_write p b # ls) = (if b then p # ppf_accepted ls else ppf_accepted ls)"
| "ppf_accepted (Ppf_sent _ # ls) = ppf_accepted ls"

fun ppf_sent :: "ppf_label list \<Rightarrow> bytes list" where
  "ppf_sent [] = []"
| "ppf_sent (Ppf_write _ _ # ls) = ppf_sent ls"
| "ppf_sent (Ppf_sent d # ls) = d # ppf_sent ls"

lemma ppf_accepted_append [simp]: "ppf_accepted (xs @ ys) = ppf_accepted xs @ ppf_accepted ys"
  by (induction xs rule: ppf_accepted.induct) auto

lemma ppf_sent_append [simp]: "ppf_sent (xs @ ys) = ppf_sent xs @ ppf_sent ys"
  by (induction xs rule: ppf_sent.induct) auto

lemma ppf_step_inv:
  assumes "ppf_inv mtu st q" and "ppf_step st l st'"
  shows "\<exists>q'. ppf_inv mtu st' q' \<and> map frame (q @ ppf_accepted [l]) = ppf_sent [l] @ map frame q'
           \<and> cb_size (pb_buf (ppf_buffer (fst st'))) = cb_size (pb_buf (ppf_buffer (fst st)))"
proof -
  obtain f s where st: "st = (f, s)" by (cases st)
  show ?thesis
  proof (cases l)
    case (Ppf_write p b)
    have d: "int (length p) \<le> mtu" "ppf_write (f, s) p = Some (b, st')"
      using assms by (auto simp: st Ppf_write ppf_step_simps ppf_inv_def)
    obtain f' s' where o: "ppf_write (f, s) p = Some (bw_out_have (ppf_ainput f), f', s')"
      "ppf_inv mtu (f', s') (if bw_out_have (ppf_ainput f) then q @ [p] else q)"
      "cb_size (pb_buf (ppf_buffer f')) = cb_size (pb_buf (ppf_buffer f))"
      by (rule ppf_write_ok [OF assms(1) [unfolded st] d(1)])
    then show ?thesis using d(2) by (auto simp: st Ppf_write split: if_splits)
  next
    case (Ppf_sent d)
    have d: "s = Some d" "ppf_done (f, s) = Some st'" using assms(2) by (auto simp: st Ppf_sent ppf_step_simps)
    obtain p q1 where q: "q = p # q1" "d = frame p"
      using assms(1) d(1) by (cases q) (auto simp: st ppf_inv_def pb_inv_def pb_first_def)
    obtain f' s' where o: "ppf_done (f, s) = Some (f', s')" "ppf_inv mtu (f', s') q1"
      "cb_size (pb_buf (ppf_buffer f')) = cb_size (pb_buf (ppf_buffer f))"
      by (rule ppf_done_ok [OF assms(1) [unfolded st q(1)]])
    then show ?thesis using d(2) q by (auto simp: st Ppf_sent)
  qed
qed

lemma ppf_trace:
  assumes "steps ppf_step st ls st'" and "ppf_inv mtu st []"
  shows "\<exists>q. ppf_inv mtu st' q \<and> map frame (ppf_accepted ls) = ppf_sent ls @ map frame q
           \<and> cb_size (pb_buf (ppf_buffer (fst st'))) = cb_size (pb_buf (ppf_buffer (fst st)))"
  using assms
proof (induction rule: steps.induct)
  case (steps_snoc st ls st1 l st2)
  then obtain q where q: "ppf_inv mtu st1 q" "map frame (ppf_accepted ls) = ppf_sent ls @ map frame q"
    "cb_size (pb_buf (ppf_buffer (fst st1))) = cb_size (pb_buf (ppf_buffer (fst st)))" by auto
  from ppf_step_inv [OF q(1) steps_snoc.hyps(2)] q(2-) show ?case by auto
qed auto

text \<open>The flow as it is after \<open>PacketProtoFlow_Init\<close> and the run of the receive job it set.\<close>

lemma PacketProtoFlow_Init_inv:
  assumes "PacketProtoFlow_Init malloc mtu num output_mtu = Some (Some (f, calls))" and "allocates malloc"
    and "4 * ChunkBuffer2_calc_blocks (PACKETPROTO_ENCLEN mtu) num \<le> INT_MAX" and "ppf_receive f = Some f'"
  shows "ppf_inv mtu (f', None) []"
    and "cb_size (pb_buf (ppf_buffer f')) = ChunkBuffer2_calc_blocks (PACKETPROTO_ENCLEN mtu) num"
proof -
  let ?emtu = "PACKETPROTO_ENCLEN mtu"
  have m: "0 \<le> mtu" "mtu \<le> PACKETPROTO_MAXPAYLOAD"
    using assms(1) by (auto simp: PacketProtoFlow_Init_def assert_simps)
  obtain pb where pb: "PacketBuffer_Init malloc ?emtu output_mtu num = Some (Some (pb, calls))"
    and f: "f = \<lparr>ppf_ainput = \<lparr>bw_out_have = False, bw_d_mtu = mtu, bw_d_writing = False\<rparr>,
                ppf_encoder = \<lparr>enc_output_packet = None\<rparr>, ppf_buffer = pb\<rparr>"
    using assms(1)
    by (auto simp: PacketProtoFlow_Init_def BufferWriter_Init_def PacketProtoEncoder_Init_def assert_simps
        split: option.splits)
  have e: "0 \<le> ?emtu" using m by (simp add: PACKETPROTO_ENCLEN_def)
  note i = PacketBuffer_Init_inv [OF pb assms(2) e assms(3)]
  obtain f1 where f1: "ppf_receive f = Some f1" "ppf_inv mtu (f1, None) []" "ppf_buffer f1 = ppf_buffer f"
    by (rule ppf_receive_ok [of f None "[]" mtu]) (use i m in \<open>auto simp: f\<close>)
  then show "ppf_inv mtu (f', None) []" "cb_size (pb_buf (ppf_buffer f')) = ChunkBuffer2_calc_blocks ?emtu num"
    using assms(4) i(4) by (auto simp: f)
qed

text \<open>
  C19. A packet protocol flow sends the frames of the packets written to it. From an initialised
  flow, whatever packets are written and whenever the output reports a packet done, the output
  sends the frames of exactly the accepted packets, in order, and the flow holds the rest; a
  packet is refused only while at least \<open>num_packets\<close> packets are held; and writing a packet within
  the MTU never fails an assertion.
\<close>

theorem packet_flow_frames:
  assumes "PacketProtoFlow_Init malloc mtu num output_mtu = Some (Some (f, calls))" and "allocates malloc"
    and "4 * ChunkBuffer2_calc_blocks (PACKETPROTO_ENCLEN mtu) num \<le> INT_MAX" and "ppf_receive f = Some f0"
    and "steps ppf_step (f0, None) ls (f', s)"
  shows "\<exists>held. map frame (ppf_accepted ls) = ppf_sent ls @ map frame held \<and> s = pb_first (map frame held)
           \<and> (\<forall>p. int (length p) \<le> mtu \<longrightarrow>
                (\<exists>accepted st. ppf_write (f', s) p = Some (accepted, st)
                   \<and> (int (length held) < num \<longrightarrow> accepted)))"
proof -
  note i = PacketProtoFlow_Init_inv [OF assms(1-4)]
  obtain q where q: "ppf_inv mtu (f', s) q" "map frame (ppf_accepted ls) = ppf_sent ls @ map frame q"
    "cb_size (pb_buf (ppf_buffer f')) = ChunkBuffer2_calc_blocks (PACKETPROTO_ENCLEN mtu) num"
    using ppf_trace [OF assms(5) i(1)] i(2) by auto
  have pbi: "pb_inv (ppf_buffer f', bw_out_have (ppf_ainput f'), s) (map frame q)"
    "pb_input_mtu (ppf_buffer f') = PACKETPROTO_ENCLEN mtu" using q(1) by (auto simp: ppf_inv_def)
  have room: "bw_out_have (ppf_ainput f')" if "int (length q) < num"
    using pb_room [OF pbi(1), of num] pbi(2) q(3) that by simp
  have "\<exists>accepted st. ppf_write (f', s) p = Some (accepted, st) \<and> (int (length q) < num \<longrightarrow> accepted)"
    if p: "int (length p) \<le> mtu" for p
    by (rule ppf_write_ok [OF q(1) p]) (use room in blast)
  moreover have "s = pb_first (map frame q)" using pbi(1) by (simp add: pb_inv_def)
  ultimately show ?thesis using q(2) by blast
qed

text \<open>Witness: a flow for two packets of up to two bytes.\<close>

definition example_flow :: PacketProtoFlow where
  "example_flow = \<lparr>ppf_ainput = \<lparr>bw_out_have = False, bw_d_mtu = 2, bw_d_writing = False\<rparr>,
     ppf_encoder = \<lparr>enc_output_packet = None\<rparr>, ppf_buffer = \<lparr>pb_input_mtu = 4, pb_buf = example_buffer\<rparr>\<rparr>"

lemma example_flow_Init: "PacketProtoFlow_Init example_malloc 2 2 4 = Some (Some (example_flow, [Pb_Recv]))"
  using example_pb_Init
  by (simp add: PacketProtoFlow_Init_def BufferWriter_Init_def PacketProtoEncoder_Init_def example_flow_def
      PACKETPROTO_ENCLEN_def sizeof_packetproto_header_def)

lemma example_enclen: "PACKETPROTO_ENCLEN 2 = 4"
  by (simp add: PACKETPROTO_ENCLEN_def sizeof_packetproto_header_def)

theorem packet_flow_frames_witness:
  "\<exists>f0 f s. ppf_receive example_flow = Some f0 \<and> steps ppf_step (f0, None) [Ppf_write [8] True] (f, s)
     \<and> s = Some (frame [8])"
proof -
  obtain f0 where f0: "ppf_receive example_flow = Some f0"
    by (simp add: ppf_receive_def pb_dest_def encoder_output_handler_recv_def bw_output_handler_recv_def
        example_flow_def example_buffer_def)
  note i = PacketProtoFlow_Init_inv [OF example_flow_Init allocates_example _ f0, unfolded example_enclen example_calc]
  have have0: "bw_out_have (ppf_ainput f0)"
    using f0 by (auto simp: ppf_receive_def bw_output_handler_recv_def bind_Some_iff)
  have inv: "ppf_inv 2 (f0, None) []" using i(1) by simp
  obtain f s where w: "ppf_write (f0, None) [8] = Some (True, f, s)"
    by (rule ppf_write_ok [OF inv, of "[8]"]) (use have0 in auto)
  have "bw_d_mtu (ppf_ainput f0) = 2" using inv by (simp add: ppf_inv_def)
  then have "ppf_step (f0, None) (Ppf_write [8] True) (f, s)" using w by (simp add: ppf_step_simps)
  then have st: "steps ppf_step (f0, None) [Ppf_write [8] True] (f, s)"
    using steps_Cons [where step = ppf_step, OF _ steps_Nil] by blast
  have "s = Some (frame [8])"
    using packet_flow_frames [OF example_flow_Init allocates_example _ f0 st]
    by (auto simp: example_enclen example_calc pb_first_def)
  then show ?thesis using f0 st by blast
qed

subsection \<open>The connector\<close>

datatype con_label = Con_in bytes "con_call list" | Con_out_done "con_call list" | Con_connect "con_call list" | Con_disconnect

inductive con_step :: "PacketPassConnector \<Rightarrow> con_label \<Rightarrow> PacketPassConnector \<Rightarrow> bool" where
  "con_input_handler_send c d = Some (c', calls) \<Longrightarrow> con_step c (Con_in d calls) c'"
| "con_output_handler_done c = Some (c', calls) \<Longrightarrow> con_step c (Con_out_done calls) c'"
| "PacketPassConnector_ConnectOutput c mtu = Some (c', calls) \<Longrightarrow> con_step c (Con_connect calls) c'"
| "PacketPassConnector_DisconnectOutput c = Some c' \<Longrightarrow> con_step c Con_disconnect c'"

inductive_cases con_stepE: "con_step c l c'"

fun con_ins :: "con_label \<Rightarrow> bytes list" where
  "con_ins (Con_in d _) = [d]"
| "con_ins _ = []"

fun con_dones :: "con_label \<Rightarrow> nat" where
  "con_dones (Con_out_done _) = 1"
| "con_dones _ = 0"

text \<open>The packet the current output was last given; \<open>None\<close> after it was reported done or the output went.\<close>

fun con_sending :: "bytes option \<Rightarrow> con_label \<Rightarrow> bytes option" where
  "con_sending s (Con_in d calls) = (if Con_Send d \<in> set calls then Some d else s)"
| "con_sending s (Con_out_done calls) = None"
| "con_sending s (Con_connect calls) = (case calls of [Con_Send d] \<Rightarrow> Some d | _ \<Rightarrow> s)"
| "con_sending s Con_disconnect = None"

lemmas con_defs = con_input_handler_send_def con_output_handler_done_def
  PacketPassConnector_ConnectOutput_def PacketPassConnector_DisconnectOutput_def

definition con_inv :: "PacketPassConnector \<Rightarrow> con_label list \<Rightarrow> bool" where
  "con_inv c ls \<longleftrightarrow>
     (con_in_len c = -1 \<or> con_in_len c = int (length (con_in c)))
     \<and> length (concat (map con_ins ls)) = sum_list (map con_dones ls) + of_bool (con_in_len c \<noteq> -1)
     \<and> (con_in_len c \<noteq> -1 \<longrightarrow> concat (map con_ins ls) \<noteq> [] \<and> con_in c = last (concat (map con_ins ls)))
     \<and> foldl con_sending None ls = (if con_in_len c \<noteq> -1 \<and> con_output c \<noteq> None then Some (con_in c) else None)"

lemma con_inv_step: "con_inv c ls \<Longrightarrow> con_step c l c' \<Longrightarrow> con_inv c' (ls @ [l])"
  by (erule con_stepE) (auto simp: con_inv_def con_defs assert_simps Let_def split: if_splits)

text \<open>
  The connector loses no packet when its output changes. After any sequence of packets coming
  in, packets reported done by the output, and outputs being connected and disconnected: every
  packet that came in was reported done, except the last one while it is in progress; and the
  packet in progress is being sent on the current output whenever there is one, so that a packet
  that was not done when the output was disconnected is sent again on the next output.
\<close>

theorem connector_keeps_packet:
  assumes "PacketPassConnector_Init mtu = Some c" and "steps con_step c ls c'"
  shows "length (concat (map con_ins ls)) = sum_list (map con_dones ls) + of_bool (con_in_len c' \<noteq> -1)
         \<and> foldl con_sending None ls =
             (if con_in_len c' \<noteq> -1 \<and> con_output c' \<noteq> None then Some (last (concat (map con_ins ls))) else None)"
proof -
  have "con_inv c []" using assms(1) by (auto simp: PacketPassConnector_Init_def assert_simps con_inv_def)
  with assms(2) have "con_inv c' ls"
    by (induction rule: steps.induct) (auto intro: con_inv_step)
  then show ?thesis by (auto simp: con_inv_def)
qed

theorem connector_keeps_packet_witness:
  "foldl con_sending None
     [Con_connect [], Con_in [5] [Con_Send [5]], Con_disconnect, Con_connect [Con_Send [5]]] = Some [5]"
proof -
  let ?c = "\<lambda>n d out. \<lparr>con_input_mtu = 9, con_in_len = n, con_in = d, con_output = out\<rparr>"
  have 1: "con_step (?c (-1) [] None) (Con_connect []) (?c (-1) [] (Some 9))"
    by (rule con_step.intros(3) [of _ 9]) (simp add: con_defs)
  have 2: "con_step (?c (-1) [] (Some 9)) (Con_in [5] [Con_Send [5]]) (?c 1 [5] (Some 9))"
    by (rule con_step.intros(1)) (simp add: con_defs)
  have 3: "con_step (?c 1 [5] (Some 9)) Con_disconnect (?c 1 [5] None)"
    by (rule con_step.intros(4)) (simp add: con_defs)
  have 4: "con_step (?c 1 [5] None) (Con_connect [Con_Send [5]]) (?c 1 [5] (Some 9))"
    by (rule con_step.intros(3) [of _ 9]) (simp add: con_defs)
  note c = steps_Cons [where step = con_step]
  have "steps con_step (?c (-1) [] None)
      [Con_connect [], Con_in [5] [Con_Send [5]], Con_disconnect, Con_connect [Con_Send [5]]] (?c 1 [5] (Some 9))"
    by (rule c [OF 1 c [OF 2 c [OF 3 c [OF 4 steps_Nil]]]])
  from connector_keeps_packet [OF _ this, of 9] show ?thesis
    by (simp add: PacketPassConnector_Init_def)
qed

end
