(* ===== verification/BAVL.thy ===== *)
theory BAVL
  imports ByteOrder
begin

section \<open>AVL trees\<close>

text \<open>
  \<open>structure/BAVL.h\<close>: binary search trees with a balance factor in every node, which is the height
  of the right subtree minus the height of the left one. The nodes are part of the caller's
  objects; the value of a node is found at a fixed offset (\<open>key\<close> below) and compared with the
  caller's comparator (\<open>cmp\<close>).

  A node has a pointer to its parent. A node of a tree is therefore the subtree below it together
  with the path to the root: for every node above it, on which side the path leaves it (\<open>True\<close> is
  \<open>link[1]\<close>), its object, its balance factor and its other subtree. The operations move along the path as the code
  follows the \<open>parent\<close> pointers. The build does not define \<open>BAVL_COUNT\<close>.
\<close>

datatype 'a bavl = Leaf | Node "'a bavl" 'a int "'a bavl"

type_synonym 'a crumb = "bool \<times> 'a \<times> int \<times> 'a bavl"
type_synonym 'a path = "'a crumb list"

fun bavl_link :: "bool \<Rightarrow> 'a bavl \<Rightarrow> 'a bavl" where
  "bavl_link side (Node l v b r) = (if side then r else l)"
| "bavl_link side Leaf = Leaf"

fun bavl_set_link :: "bool \<Rightarrow> 'a bavl \<Rightarrow> 'a bavl \<Rightarrow> 'a bavl" where
  "bavl_set_link side t (Node l v b r) = (if side then Node l v b t else Node t v b r)"
| "bavl_set_link side t Leaf = Leaf"

fun bavl_balance :: "'a bavl \<Rightarrow> int" where
  "bavl_balance (Node l v b r) = b"
| "bavl_balance Leaf = 0"

fun bavl_set_balance :: "int \<Rightarrow> 'a bavl \<Rightarrow> 'a bavl" where
  "bavl_set_balance b' (Node l v b r) = Node l v b' r"
| "bavl_set_balance b' Leaf = Leaf"

fun plug1 :: "'a crumb \<Rightarrow> 'a bavl \<Rightarrow> 'a bavl" where
  "plug1 (side, v, b, other) t = (if side then Node other v b t else Node t v b other)"

text \<open>The whole tree, seen from a node.\<close>

fun plug :: "'a bavl \<Rightarrow> 'a path \<Rightarrow> 'a bavl" where
  "plug t [] = t"
| "plug t (c # cs) = plug (plug1 c t) cs"

definition BAVL_OPTNEG :: "int \<Rightarrow> bool \<Rightarrow> int" where
  "BAVL_OPTNEG a neg = (if neg then - a else a)"

definition BAVL_compare_values :: "('k \<Rightarrow> 'k \<Rightarrow> int) \<Rightarrow> 'k \<Rightarrow> 'k \<Rightarrow> int option" where
  "BAVL_compare_values cmp v1 v2 = do {
     let res = cmp v1 v2;
     ASSERT (res = -1 \<or> res = 0 \<or> res = 1);
     Some res }"

subsection \<open>Rotation and rebalancing\<close>

definition BAVL_rotate :: "'a bavl \<Rightarrow> bool \<Rightarrow> 'a bavl option" where
  "BAVL_rotate r dir =
     (case bavl_link (\<not> dir) r of
        Leaf \<Rightarrow> None
      | nr \<Rightarrow>
          let r = bavl_set_link (\<not> dir) (bavl_link dir nr) r
          in Some (bavl_set_link dir r nr))"

text \<open>
  The transformation of a node whose balance factor is 2 or -2: the new subtree, and the change of
  \<open>delta\<close>.
\<close>

definition BAVL_transform :: "'a bavl \<Rightarrow> int \<Rightarrow> ('a bavl \<times> int) option" where
  "BAVL_transform node delta =
     (let bside = (bavl_balance node = 2);
          bsidef = (if bside then 1 else -1)
      in do {
        let child = bavl_link bside node;
        ASSERT (child \<noteq> Leaf);
        let c = bavl_balance child * bsidef;
        if c = 1 then do {
          t \<leftarrow> BAVL_rotate node (\<not> bside);
          let t = bavl_set_link (\<not> bside) (bavl_set_balance 0 (bavl_link (\<not> bside) t)) t;
          Some (bavl_set_balance 0 t, delta - 1) }
        else if c = 0 then do {
          t \<leftarrow> BAVL_rotate node (\<not> bside);
          let t = bavl_set_link (\<not> bside) (bavl_set_balance (1 * bsidef) (bavl_link (\<not> bside) t)) t;
          Some (bavl_set_balance (-1 * bsidef) t, delta) }
        else if c = -1 then do {
          let gchild = bavl_link (\<not> bside) child;
          ASSERT (gchild \<noteq> Leaf);
          child \<leftarrow> BAVL_rotate child bside;
          t \<leftarrow> BAVL_rotate (bavl_set_link bside child node) (\<not> bside);
          let node_balance = - max 0 (bavl_balance gchild * bsidef) * bsidef;
          let child_balance = max 0 (- bavl_balance gchild * bsidef) * bsidef;
          let t = bavl_set_link (\<not> bside) (bavl_set_balance node_balance (bavl_link (\<not> bside) t)) t;
          let t = bavl_set_link bside (bavl_set_balance child_balance (bavl_link bside t)) t;
          Some (bavl_set_balance 0 t, delta - 1) }
        else None })"

fun BAVL_rebalance :: "'a bavl \<Rightarrow> 'a path \<Rightarrow> bool \<Rightarrow> int \<Rightarrow> 'a bavl option" where
  "BAVL_rebalance node path side deltac = do {
     ASSERT (deltac \<ge> -1 \<and> deltac \<le> 1);
     ASSERT (bavl_balance node \<ge> -1 \<and> bavl_balance node \<le> 1);
     if deltac = 0 then Some (plug node path)
     else do {
       let delta = max deltac (BAVL_OPTNEG (bavl_balance node) side)
                   - max 0 (BAVL_OPTNEG (bavl_balance node) side);
       ASSERT (delta \<ge> -1 \<and> delta \<le> 1);
       let node = bavl_set_balance (bavl_balance node - BAVL_OPTNEG deltac side) node;
       (node, delta) \<leftarrow> (if bavl_balance node = 2 \<or> bavl_balance node = -2
                         then BAVL_transform node delta else Some (node, delta));
       ASSERT (delta \<ge> -1 \<and> delta \<le> 1);
       case path of
         [] \<Rightarrow> Some node
       | c # cs \<Rightarrow> BAVL_rebalance (plug1 c node) cs (fst c) delta } }"

declare BAVL_rebalance.simps [simp del]

subsection \<open>Insertion\<close>

text \<open>
  The search for the place of a new node ends at an equal node (\<open>Inl\<close>) or at the node below
  which it is to be linked, and on which side.
\<close>

fun BAVL_Insert_find ::
  "('a \<Rightarrow> 'k) \<Rightarrow> ('k \<Rightarrow> 'k \<Rightarrow> int) \<Rightarrow> 'k \<Rightarrow> 'a bavl \<Rightarrow> 'a path \<Rightarrow> ('a + 'a bavl \<times> 'a path \<times> bool) option" where
  "BAVL_Insert_find key cmp x (Node l v b r) path = do {
     comp \<leftarrow> BAVL_compare_values cmp x (key v);
     if comp = 0 then Some (Inl v)
     else if comp = 1 then
       (case r of Leaf \<Rightarrow> Some (Inr (Node l v b r, path, True))
        | Node _ _ _ _ \<Rightarrow> BAVL_Insert_find key cmp x r ((True, v, b, l) # path))
     else
       (case l of Leaf \<Rightarrow> Some (Inr (Node l v b r, path, False))
        | Node _ _ _ _ \<Rightarrow> BAVL_Insert_find key cmp x l ((False, v, b, r) # path)) }"
| "BAVL_Insert_find key cmp x Leaf path = None"

text \<open>The result: whether the node was inserted, the new root, and \<open>ref\<close>.\<close>

definition BAVL_Insert ::
  "('a \<Rightarrow> 'k) \<Rightarrow> ('k \<Rightarrow> 'k \<Rightarrow> int) \<Rightarrow> 'a bavl \<Rightarrow> 'a \<Rightarrow> (bool \<times> 'a bavl \<times> 'a option) option" where
  "BAVL_Insert key cmp root node =
     (if root = Leaf then Some (True, Node Leaf node 0 Leaf, None)
      else do {
        r \<leftarrow> BAVL_Insert_find key cmp (key node) root [];
        case r of
          Inl c \<Rightarrow> Some (False, root, Some c)
        | Inr (c, path, side) \<Rightarrow> do {
            root \<leftarrow> BAVL_rebalance (bavl_set_link side (Node Leaf node 0 Leaf) c) path side 1;
            Some (True, root, case c of Leaf \<Rightarrow> None | Node _ v _ _ \<Rightarrow> Some v) } })"

subsection \<open>Removal\<close>

text \<open>
  The largest node of a subtree: its left subtree, object and balance factor, and the path to it.
\<close>

fun BAVL_subtree_max :: "'a bavl \<Rightarrow> 'a path \<Rightarrow> ('a bavl \<times> 'a \<times> int \<times> 'a path) option" where
  "BAVL_subtree_max (Node l v b r) path =
     (case r of Leaf \<Rightarrow> Some (l, v, b, path)
      | Node _ _ _ _ \<Rightarrow> BAVL_subtree_max r ((True, v, b, l) # path))"
| "BAVL_subtree_max Leaf path = None"

text \<open>
  Swapping the node with the largest one of its left subtree puts the object of the latter in the
  place of the node, with the node's balance factor and links; the node is then removed at the
  place of the largest one, where it has at most a left child.
\<close>

definition BAVL_replace_rebalance :: "'a bavl \<Rightarrow> 'a path \<Rightarrow> 'a bavl option" where
  "BAVL_replace_rebalance child path =
     (case path of
        c # cs \<Rightarrow> BAVL_rebalance (plug1 c child) cs (fst c) (-1)
      | [] \<Rightarrow> Some child)"

fun BAVL_Remove :: "'a bavl \<Rightarrow> 'a path \<Rightarrow> 'a bavl option" where
  "BAVL_Remove (Node l v b r) path =
     (if l \<noteq> Leaf \<and> r \<noteq> Leaf then do {
        (child, max, _, max_path) \<leftarrow> BAVL_subtree_max l [];
        BAVL_replace_rebalance child (max_path @ (False, max, b, r) # path) }
      else BAVL_replace_rebalance (if l \<noteq> Leaf then l else r) path)"
| "BAVL_Remove Leaf path = None"

subsection \<open>Queries\<close>

text \<open>
  The queries do not change the tree; the assertion on the comparator's result, which
  \<open>BAVL_compare_values\<close> has, is left to the contract of the comparator here.
\<close>

definition BAVL_IsEmpty :: "'a bavl \<Rightarrow> bool" where
  "BAVL_IsEmpty root = (root = Leaf)"

fun BAVL_Lookup :: "('a \<Rightarrow> 'k) \<Rightarrow> ('k \<Rightarrow> 'k \<Rightarrow> int) \<Rightarrow> 'a bavl \<Rightarrow> 'k \<Rightarrow> 'a option" where
  "BAVL_Lookup key cmp Leaf x = None"
| "BAVL_Lookup key cmp (Node l v b r) x =
     (let comp = cmp x (key v) in
      if comp = 0 then Some v
      else if comp = 1 then (if r = Leaf then Some v else BAVL_Lookup key cmp r x)
      else (if l = Leaf then Some v else BAVL_Lookup key cmp l x))"

fun BAVL_LookupExact :: "('a \<Rightarrow> 'k) \<Rightarrow> ('k \<Rightarrow> 'k \<Rightarrow> int) \<Rightarrow> 'a bavl \<Rightarrow> 'k \<Rightarrow> 'a option" where
  "BAVL_LookupExact key cmp Leaf x = None"
| "BAVL_LookupExact key cmp (Node l v b r) x =
     (let comp = cmp x (key v) in
      if comp = 0 then Some v
      else if comp = 1 then BAVL_LookupExact key cmp r x
      else BAVL_LookupExact key cmp l x)"

fun BAVL_GetFirst :: "'a bavl \<Rightarrow> 'a option" where
  "BAVL_GetFirst Leaf = None"
| "BAVL_GetFirst (Node l v b r) = (if l = Leaf then Some v else BAVL_GetFirst l)"

fun BAVL_GetLast :: "'a bavl \<Rightarrow> 'a option" where
  "BAVL_GetLast Leaf = None"
| "BAVL_GetLast (Node l v b r) = (if r = Leaf then Some v else BAVL_GetLast r)"

fun climb :: "bool \<Rightarrow> 'a path \<Rightarrow> 'a option" where
  "climb side [] = None"
| "climb side ((s, v, b, other) # cs) = (if s = side then climb side cs else Some v)"

fun BAVL_GetNext :: "'a bavl \<Rightarrow> 'a path \<Rightarrow> 'a option" where
  "BAVL_GetNext (Node l v b r) path = (if r \<noteq> Leaf then BAVL_GetFirst r else climb True path)"
| "BAVL_GetNext Leaf path = None"

fun BAVL_GetPrev :: "'a bavl \<Rightarrow> 'a path \<Rightarrow> 'a option" where
  "BAVL_GetPrev (Node l v b r) path = (if l \<noteq> Leaf then BAVL_GetLast l else climb False path)"
| "BAVL_GetPrev Leaf path = None"

text \<open>The place of the node with a given value, for callers that hold a pointer to it.\<close>

fun bavl_locate :: "('a \<Rightarrow> 'k) \<Rightarrow> ('k \<Rightarrow> 'k \<Rightarrow> int) \<Rightarrow> 'k \<Rightarrow> 'a bavl \<Rightarrow> 'a path \<Rightarrow> ('a bavl \<times> 'a path) option" where
  "bavl_locate key cmp x Leaf path = None"
| "bavl_locate key cmp x (Node l v b r) path =
     (let comp = cmp x (key v) in
      if comp = 0 then Some (Node l v b r, path)
      else if comp = 1 then bavl_locate key cmp x r ((True, v, b, l) # path)
      else bavl_locate key cmp x l ((False, v, b, r) # path))"

subsection \<open>Balance\<close>

fun height :: "'a bavl \<Rightarrow> int" where
  "height Leaf = 0"
| "height (Node l v b r) = 1 + max (height l) (height r)"

fun avl :: "'a bavl \<Rightarrow> bool" where
  "avl Leaf = True"
| "avl (Node l v b r) \<longleftrightarrow> avl l \<and> avl r \<and> b = height r - height l \<and> -1 \<le> b \<and> b \<le> 1"

fun inorder :: "'a bavl \<Rightarrow> 'a list" where
  "inorder Leaf = []"
| "inorder (Node l v b r) = inorder l @ v # inorder r"

fun path_before :: "'a path \<Rightarrow> 'a list" where
  "path_before [] = []"
| "path_before ((side, v, b, other) # cs) = path_before cs @ (if side then inorder other @ [v] else [])"

fun path_after :: "'a path \<Rightarrow> 'a list" where
  "path_after [] = []"
| "path_after ((side, v, b, other) # cs) = (if side then [] else v # inorder other) @ path_after cs"

text \<open>The path fits a subtree of height \<open>h\<close>.\<close>

fun avl_path :: "'a path \<Rightarrow> int \<Rightarrow> bool" where
  "avl_path [] h = True"
| "avl_path ((side, v, b, other) # cs) h \<longleftrightarrow>
     avl other \<and> b = (if side then h - height other else height other - h) \<and> -1 \<le> b \<and> b \<le> 1
     \<and> avl_path cs (1 + max h (height other))"

lemma height_nonneg [simp]: "0 \<le> height t"
  by (induction t) auto

lemma height_pos_iff: "0 < height t \<longleftrightarrow> t \<noteq> Leaf"
  by (cases t) (use height_nonneg in \<open>auto simp: add_pos_nonneg le_max_iff_disj\<close>)

lemma inorder_plug: "inorder (plug t path) = path_before path @ inorder t @ path_after path"
  by (induction path arbitrary: t) auto

lemma plug_append: "plug t (p @ q) = plug (plug t p) q"
  by (induction p arbitrary: t) auto

lemma avl_plug: "avl t \<Longrightarrow> avl_path path (height t) \<Longrightarrow> avl (plug t path)"
proof (induction path arbitrary: t)
  case (Cons c cs)
  obtain side v b other where c: "c = (side, v, b, other)" by (cases c)
  show ?case unfolding plug.simps using Cons by (intro Cons.IH) (auto simp: c max.commute)
qed simp

lemma avl_path_plug: "avl (plug t path) \<Longrightarrow> avl t \<and> avl_path path (height t)"
proof (induction path arbitrary: t)
  case (Cons c cs)
  obtain side v b other where c: "c = (side, v, b, other)" by (cases c)
  have "avl (plug1 c t) \<and> avl_path cs (height (plug1 c t))" using Cons by simp
  then show ?case by (auto simp: c max.commute split: if_splits)
qed simp

lemma transform_right:
  assumes "avl l" and "avl r" and "height r = height l + 2"
  obtains t d where "BAVL_transform (Node l v 2 r) delta = Some (t, delta + d)" and "avl t"
    and "inorder t = inorder (Node l v 2 r)" and "height t = height (Node l v 2 r) + d" and "d = 0 \<or> d = -1"
proof -
  have "0 < height r" using assms(3) height_nonneg [of l] by linarith
  then have "r \<noteq> Leaf" by (simp add: height_pos_iff)
  then obtain rl rv rb rr where r: "r = Node rl rv rb rr" by (cases r) auto
  have rb: "rb = height rr - height rl" "-1 \<le> rb" "rb \<le> 1" "avl rl" "avl rr" using assms(2) r by auto
  have mx: "max (height rl) (height rr) = height l + 1" using assms(3) r by simp
  consider "rb = 1" | "rb = 0" | "rb = -1" using rb by linarith
  then show ?thesis
  proof cases
    case 1
    then show ?thesis using rb mx assms
      by (intro that [of "Node (Node l v 0 rl) rv 0 rr" "-1"])
         (auto simp: BAVL_transform_def BAVL_rotate_def r Let_def)
  next
    case 2
    then show ?thesis using rb mx assms
      by (intro that [of "Node (Node l v 1 rl) rv (-1) rr" 0])
         (auto simp: BAVL_transform_def BAVL_rotate_def r Let_def)
  next
    case 3
    have "0 < height rl" using 3 rb height_nonneg [of rr] by linarith
    then have "rl \<noteq> Leaf" by (simp add: height_pos_iff)
    then obtain a gv gb b where g: "rl = Node a gv gb b" by (cases rl) auto
    have gb: "gb = height b - height a" "-1 \<le> gb" "gb \<le> 1" "avl a" "avl b" using rb g by auto
    have hh: "height rr = height l" "max (height a) (height b) = height l" using 3 rb mx g by auto
    show ?thesis using rb mx assms gb 3 hh
      by (intro that [of "Node (Node l v (- max 0 gb) a) gv 0 (Node b rv (max 0 (- gb)) rr)" "-1"])
         (auto simp: BAVL_transform_def BAVL_rotate_def r g Let_def max_def)
  qed
qed

lemma transform_left:
  assumes "avl l" and "avl r" and "height l = height r + 2"
  obtains t d where "BAVL_transform (Node l v (-2) r) delta = Some (t, delta + d)" and "avl t"
    and "inorder t = inorder (Node l v (-2) r)" and "height t = height (Node l v (-2) r) + d" and "d = 0 \<or> d = -1"
proof -
  have "0 < height l" using assms(3) height_nonneg [of r] by linarith
  then have "l \<noteq> Leaf" by (simp add: height_pos_iff)
  then obtain ll lv lb lr where l: "l = Node ll lv lb lr" by (cases l) auto
  have lb: "lb = height lr - height ll" "-1 \<le> lb" "lb \<le> 1" "avl ll" "avl lr" using assms(1) l by auto
  have mx: "max (height ll) (height lr) = height r + 1" using assms(3) l by simp
  consider "lb = -1" | "lb = 0" | "lb = 1" using lb by linarith
  then show ?thesis
  proof cases
    case 1
    then show ?thesis using lb mx assms
      by (intro that [of "Node ll lv 0 (Node lr v 0 r)" "-1"])
         (auto simp: BAVL_transform_def BAVL_rotate_def l Let_def)
  next
    case 2
    then show ?thesis using lb mx assms
      by (intro that [of "Node ll lv 1 (Node lr v (-1) r)" 0])
         (auto simp: BAVL_transform_def BAVL_rotate_def l Let_def)
  next
    case 3
    have "0 < height lr" using 3 lb height_nonneg [of ll] by linarith
    then have "lr \<noteq> Leaf" by (simp add: height_pos_iff)
    then obtain a gv gb b where g: "lr = Node a gv gb b" by (cases lr) auto
    have gb: "gb = height b - height a" "-1 \<le> gb" "gb \<le> 1" "avl a" "avl b" using lb g by auto
    have hh: "height ll = height r" "max (height a) (height b) = height r" using 3 lb mx g by auto
    show ?thesis using lb mx assms gb 3 hh
      by (intro that [of "Node (Node ll lv (- max 0 gb) a) gv 0 (Node b v (max 0 (- gb)) r)" "-1"])
         (auto simp: BAVL_transform_def BAVL_rotate_def l g Let_def max_def split: if_splits)
  qed
qed

text \<open>
  One level of rebalancing, at a node one of whose subtrees has just changed its height by
  \<open>deltac\<close>; the balance factor \<open>b\<close> of the node is still that for the old height.
\<close>

definition BAVL_level :: "'a bavl \<Rightarrow> bool \<Rightarrow> int \<Rightarrow> ('a bavl \<times> int) option" where
  "BAVL_level node side deltac =
     (let delta = max deltac (BAVL_OPTNEG (bavl_balance node) side) - max 0 (BAVL_OPTNEG (bavl_balance node) side);
          node = bavl_set_balance (bavl_balance node - BAVL_OPTNEG deltac side) node
      in do {
        ASSERT (delta \<ge> -1 \<and> delta \<le> 1);
        if bavl_balance node = 2 \<or> bavl_balance node = -2 then BAVL_transform node delta else Some (node, delta) })"

lemma level_ok:
  assumes ch: "avl child" and oth: "avl other" and dc: "deltac = -1 \<or> deltac = 1"
    and b: "b = (if side then height child - deltac - height other else height other - (height child - deltac))"
    and bb: "-1 \<le> b" "b \<le> 1"
  obtains t d where "BAVL_level (plug1 (side, v, b, other) child) side deltac = Some (t, d)" and "avl t"
    and "inorder t = inorder (plug1 (side, v, b, other) child)"
    and "height t = 1 + max (height child - deltac) (height other) + d" and "-1 \<le> d" and "d \<le> 1"
proof -
  let ?l = "if side then other else child" and ?r = "if side then child else other"
  let ?nb = "b - BAVL_OPTNEG deltac side"
  let ?delta = "max deltac (BAVL_OPTNEG b side) - max 0 (BAVL_OPTNEG b side)"
  have av: "avl ?l" "avl ?r" using ch oth by auto
  have nb: "?nb = height ?r - height ?l" using b by (auto simp: BAVL_OPTNEG_def)
  have dl: "-1 \<le> ?delta" "?delta \<le> 1" using dc bb by (auto simp: BAVL_OPTNEG_def)
  have ht: "1 + max (height ?l) (height ?r) = 1 + max (height child - deltac) (height other) + ?delta"
    using b dc by (auto simp: BAVL_OPTNEG_def max_def)
  have ino: "inorder (plug1 (side, v, b, other) child) = inorder ?l @ v # inorder ?r" by simp
  have run: "BAVL_level (plug1 (side, v, b, other) child) side deltac =
      (if ?nb = 2 \<or> ?nb = -2 then BAVL_transform (Node ?l v ?nb ?r) ?delta else Some (Node ?l v ?nb ?r, ?delta))"
    using dl by (cases side) (simp_all add: BAVL_level_def Let_def)
  have grow: "?delta = (if deltac = 1 then 1 else 0)" if "?nb = 2 \<or> ?nb = -2"
    using that dc bb by (auto simp: BAVL_OPTNEG_def split: if_splits)
  have "BAVL_OPTNEG deltac side = 1 \<or> BAVL_OPTNEG deltac side = -1" using dc by (auto simp: BAVL_OPTNEG_def)
  then consider "?nb = 2" | "?nb = -2" | "-1 \<le> ?nb" "?nb \<le> 1" using bb by linarith
  then show ?thesis
  proof cases
    case 1
    have h: "height ?r = height ?l + 2" using 1 nb by linarith
    obtain t d where t: "BAVL_transform (Node ?l v 2 ?r) ?delta = Some (t, ?delta + d)" "avl t"
      "inorder t = inorder (Node ?l v 2 ?r)" "height t = height (Node ?l v 2 ?r) + d" "d = 0 \<or> d = -1"
      by (rule transform_right [OF av h])
    have r: "BAVL_level (plug1 (side, v, b, other) child) side deltac = Some (t, ?delta + d)"
      using run 1 t(1) by (simp only: if_True disj_not1 simp_thms)
    show ?thesis by (rule that [OF r t(2)]) (use t ht ino grow 1 in auto)
  next
    case 2
    have h: "height ?l = height ?r + 2" using 2 nb by linarith
    obtain t d where t: "BAVL_transform (Node ?l v (-2) ?r) ?delta = Some (t, ?delta + d)" "avl t"
      "inorder t = inorder (Node ?l v (-2) ?r)" "height t = height (Node ?l v (-2) ?r) + d" "d = 0 \<or> d = -1"
      by (rule transform_left [OF av h])
    have r: "BAVL_level (plug1 (side, v, b, other) child) side deltac = Some (t, ?delta + d)"
      using run 2 t(1) by (simp only: if_True disj_not1 simp_thms)
    show ?thesis by (rule that [OF r t(2)]) (use t ht ino grow 2 in auto)
  next
    case 3
    have r: "BAVL_level (plug1 (side, v, b, other) child) side deltac = Some (Node ?l v ?nb ?r, ?delta)"
      using run 3 by simp
    show ?thesis by (rule that [OF r]) (use 3 nb av ht ino dl in simp_all)
  qed
qed

lemma rebalance_level:
  "BAVL_rebalance node path side deltac = do {
     ASSERT (deltac \<ge> -1 \<and> deltac \<le> 1);
     ASSERT (bavl_balance node \<ge> -1 \<and> bavl_balance node \<le> 1);
     if deltac = 0 then Some (plug node path)
     else do {
       (node, delta) \<leftarrow> BAVL_level node side deltac;
       ASSERT (delta \<ge> -1 \<and> delta \<le> 1);
       case path of [] \<Rightarrow> Some node | c # cs \<Rightarrow> BAVL_rebalance (plug1 c node) cs (fst c) delta } }"
  by (subst BAVL_rebalance.simps) (simp add: BAVL_level_def Let_def ASSERT_bind)

lemma rebalance_ok:
  assumes "avl child" and "avl other" and "-1 \<le> deltac" and "deltac \<le> 1"
    and "b = (if side then height child - deltac - height other else height other - (height child - deltac))"
    and "-1 \<le> b" and "b \<le> 1" and "avl_path path (1 + max (height child - deltac) (height other))"
  shows "\<exists>t. BAVL_rebalance (plug1 (side, v, b, other) child) path side deltac = Some t \<and> avl t
           \<and> inorder t = inorder (plug (plug1 (side, v, b, other) child) path)"
  using assms
proof (induction path arbitrary: child side v b other deltac)
  case (Nil child side v b other deltac)
  have bal: "bavl_balance (plug1 (side, v, b, other) child) = b" by simp
  show ?case
  proof (cases "deltac = 0")
    case True
    then show ?thesis using Nil bal by (auto simp: rebalance_level)
  next
    case False
    then have dc: "deltac = -1 \<or> deltac = 1" using Nil by linarith
    obtain t d where t: "BAVL_level (plug1 (side, v, b, other) child) side deltac = Some (t, d)" "avl t"
      "inorder t = inorder (plug1 (side, v, b, other) child)" "-1 \<le> d" "d \<le> 1"
      by (rule level_ok [OF Nil(1,2) dc Nil(5-7)])
    then show ?thesis using False Nil bal by (simp add: rebalance_level)
  qed
next
  case (Cons c cs child side v b other deltac)
  obtain side' v' b' other' where c: "c = (side', v', b', other')" by (cases c)
  have bal: "bavl_balance (plug1 (side, v, b, other) child) = b" by simp
  show ?case
  proof (cases "deltac = 0")
    case True
    have a: "avl (plug1 (side, v, b, other) child)"
      "height (plug1 (side, v, b, other) child) = 1 + max (height child) (height other)"
      using Cons.prems True by auto
    then have "avl (plug (plug1 (side, v, b, other) child) (c # cs))"
      using Cons.prems True by (intro avl_plug) simp_all
    then show ?thesis using Cons.prems bal True by (simp add: rebalance_level)
  next
    case False
    then have dc: "deltac = -1 \<or> deltac = 1" using Cons.prems by linarith
    obtain t d where t: "BAVL_level (plug1 (side, v, b, other) child) side deltac = Some (t, d)" "avl t"
      "inorder t = inorder (plug1 (side, v, b, other) child)"
      "height t = 1 + max (height child - deltac) (height other) + d" "-1 \<le> d" "d \<le> 1"
      by (rule level_ok [OF Cons.prems(1,2) dc Cons.prems(5-7)])
    have "\<exists>u. BAVL_rebalance (plug1 (side', v', b', other') t) cs side' d = Some u \<and> avl u
            \<and> inorder u = inorder (plug (plug1 (side', v', b', other') t) cs)"
      by (rule Cons.IH) (use Cons.prems t in \<open>auto simp: c\<close>)
    then obtain u where u: "BAVL_rebalance (plug1 c t) cs (fst c) d = Some u" "avl u"
      "inorder u = inorder (plug (plug1 c t) cs)" by (auto simp: c simp del: plug1.simps)
    have "BAVL_rebalance (plug1 (side, v, b, other) child) (c # cs) side deltac = Some u"
      by (subst rebalance_level) (use False Cons.prems(3,4,6,7) bal t(1,5,6) u(1) in \<open>simp del: plug1.simps\<close>)
    moreover have "inorder u = inorder (plug (plug1 (side, v, b, other) child) (c # cs))"
      using u(3) t(3) by (simp add: inorder_plug c)
    ultimately show ?thesis using u(2) by blast
  qed
qed

lemma replace_rebalance_ok:
  assumes "avl child" and "avl_path path (1 + height child)"
  shows "\<exists>t. BAVL_replace_rebalance child path = Some t \<and> avl t
           \<and> inorder t = path_before path @ inorder child @ path_after path"
proof (cases path)
  case Nil
  then show ?thesis using assms by (simp add: BAVL_replace_rebalance_def)
next
  case (Cons c cs)
  obtain side v b other where c: "c = (side, v, b, other)" by (cases c)
  have "\<exists>t. BAVL_rebalance (plug1 (side, v, b, other) child) cs side (-1) = Some t \<and> avl t
          \<and> inorder t = inorder (plug (plug1 (side, v, b, other) child) cs)"
    by (rule rebalance_ok) (use assms in \<open>auto simp: Cons c add.commute\<close>)
  then show ?thesis by (auto simp: BAVL_replace_rebalance_def Cons c inorder_plug)
qed

lemma subtree_max_ok:
  assumes "t \<noteq> Leaf"
  shows "\<exists>child v b q. BAVL_subtree_max t path = Some (child, v, b, q @ path)
           \<and> plug (Node child v b Leaf) q = t \<and> path_after q = []"
  using assms
proof (induction t arbitrary: path)
  case (Node l v b r)
  show ?case
  proof (cases r)
    case Leaf
    then show ?thesis by auto
  next
    case (Node rl rv rb rr)
    obtain child w c q where m: "BAVL_subtree_max r ((True, v, b, l) # path) = Some (child, w, c, q @ (True, v, b, l) # path)"
      "plug (Node child w c Leaf) q = r" "path_after q = []"
      using Node.IH(2) [of "(True, v, b, l) # path"] Node by auto
    have "path_after (q @ [(True, v, b, l)]) = []" using m(3) by (induction q rule: path_after.induct) auto
    then show ?thesis using m Node by (intro exI [of _ child] exI [of _ w] exI [of _ c] exI [of _ "q @ [(True, v, b, l)]"])
        (simp add: plug_append)
  qed
qed simp

lemma path_append [simp]:
  "path_before (p @ q) = path_before q @ path_before p" "path_after (p @ q) = path_after p @ path_after q"
  by (induction p rule: path_before.induct) auto

lemma avl_path_append:
  "avl_path (p @ q) h \<longleftrightarrow> avl_path p h \<and> avl_path q (height (plug t p))" if "height t = h" "avl t" for t :: "'a bavl"
  using that
proof (induction p arbitrary: h t)
  case (Cons c cs)
  obtain side v b other where c: "c = (side, v, b, other)" by (cases c)
  show ?case
  proof (cases "avl_path (c # cs) h \<or> avl_path (c # cs @ q) h")
    case True
    then have "avl (plug1 c t)" "height (plug1 c t) = 1 + max h (height other)"
      using Cons.prems by (auto simp: c max.commute)
    then show ?thesis using Cons.IH [of "plug1 c t" "1 + max h (height other)"] by (auto simp: c)
  qed (auto simp: c)
qed simp

text \<open>
  Removing a node keeps the tree balanced and removes exactly that node from the sequence of
  objects.
\<close>

lemma Remove_ok:
  assumes "avl (plug (Node l v b r) path)"
  shows "\<exists>t. BAVL_Remove (Node l v b r) path = Some t \<and> avl t
           \<and> inorder t = path_before path @ inorder l @ inorder r @ path_after path"
proof -
  have n: "avl (Node l v b r)" and p: "avl_path path (height (Node l v b r))" using avl_path_plug [OF assms] by auto
  show ?thesis
  proof (cases "l \<noteq> Leaf \<and> r \<noteq> Leaf")
    case False
    let ?c = "if l \<noteq> Leaf then l else r"
    have "avl ?c" "height (Node l v b r) = 1 + height ?c" using n False by auto
    then have "\<exists>t. BAVL_replace_rebalance ?c path = Some t \<and> avl t
        \<and> inorder t = path_before path @ inorder ?c @ path_after path"
      using p by (intro replace_rebalance_ok) simp_all
    then show ?thesis using False by auto
  next
    case True
    obtain child m mb q where m: "BAVL_subtree_max l [] = Some (child, m, mb, q)"
      "plug (Node child m mb Leaf) q = l" "path_after q = []"
      using subtree_max_ok [of l "[]"] True by auto
    have al: "avl (Node child m mb Leaf)" "avl_path q (height (Node child m mb Leaf))"
      using avl_path_plug [of "Node child m mb Leaf" q] m(2) n by auto
    let ?path = "q @ (False, m, b, r) # path"
    have "avl_path ((False, m, b, r) # path) (height l)" using n p by auto
    then have "avl_path ?path (height (Node child m mb Leaf))"
      using avl_path_append [of "Node child m mb Leaf" _ q "(False, m, b, r) # path"] al m(2) by auto
    then have "avl_path ?path (1 + height child)" by simp
    from replace_rebalance_ok [OF _ this] al obtain t where
      t: "BAVL_replace_rebalance child ?path = Some t" "avl t"
      "inorder t = path_before ?path @ inorder child @ path_after ?path" by auto
    have "inorder l = path_before q @ inorder child @ [m]" using inorder_plug [of "Node child m mb Leaf" q] m by simp
    then show ?thesis using t m True by simp
  qed
qed

end
