(* ===== verification/BAVL_Map.thy ===== *)
theory BAVL_Map
  imports BAVL
begin

section \<open>AVL trees as tables\<close>

text \<open>
  The trees of \<open>structure/BAVL.h\<close> are used as tables: an object is found by its value. This theory
  states that contract as a locale, proves it for every comparator, and names the form in which
  the callers use insertion and removal.
\<close>

definition bst :: "('a \<Rightarrow> 'k) \<Rightarrow> ('k \<Rightarrow> 'k \<Rightarrow> int) \<Rightarrow> ('k \<Rightarrow> bool) \<Rightarrow> 'a list \<Rightarrow> bool" where
  "bst key cmp ok xs \<longleftrightarrow> sorted_wrt (\<lambda>a b. cmp (key a) (key b) = -1) xs \<and> (\<forall>a\<in>set xs. ok (key a))"

definition bavl_ok :: "('a \<Rightarrow> 'k) \<Rightarrow> ('k \<Rightarrow> 'k \<Rightarrow> int) \<Rightarrow> ('k \<Rightarrow> bool) \<Rightarrow> 'a bavl \<Rightarrow> bool" where
  "bavl_ok key cmp ok t \<longleftrightarrow> avl t \<and> bst key cmp ok (inorder t)"

text \<open>
  \<open>ASSERT_EXECUTE(BAVL_Insert(tree, node, NULL))\<close>, and \<open>BAVL_Remove\<close> of the node with the
  value \<open>x\<close>.
\<close>

definition bavl_add :: "('a \<Rightarrow> 'k) \<Rightarrow> ('k \<Rightarrow> 'k \<Rightarrow> int) \<Rightarrow> 'a bavl \<Rightarrow> 'a \<Rightarrow> 'a bavl option" where
  "bavl_add key cmp t a = do {
     (inserted, t', ref) \<leftarrow> BAVL_Insert key cmp t a;
     ASSERT inserted;
     Some t' }"

definition bavl_del :: "('a \<Rightarrow> 'k) \<Rightarrow> ('k \<Rightarrow> 'k \<Rightarrow> int) \<Rightarrow> 'a bavl \<Rightarrow> 'k \<Rightarrow> 'a bavl option" where
  "bavl_del key cmp t x = do {
     (node, path) \<leftarrow> bavl_locate key cmp x t [];
     BAVL_Remove node path }"

lemma option_eqI: "(\<And>a. x = Some a \<longleftrightarrow> y = Some a) \<Longrightarrow> x = y"
  by (cases x; cases y) auto

lemma bst_append:
  "bst key cmp ok (xs @ ys) \<longleftrightarrow> bst key cmp ok xs \<and> bst key cmp ok ys
     \<and> (\<forall>a\<in>set xs. \<forall>b\<in>set ys. cmp (key a) (key b) = -1)"
  by (auto simp: bst_def sorted_wrt_append)

lemma bst_Cons:
  "bst key cmp ok (x # ys) \<longleftrightarrow> ok (key x) \<and> bst key cmp ok ys \<and> (\<forall>b\<in>set ys. cmp (key x) (key b) = -1)"
  by (auto simp: bst_def)

lemma bst_Nil [simp]: "bst key cmp ok []"
  by (simp add: bst_def)

lemma bst_NodeD:
  assumes "bst key cmp ok (inorder (Node l v b r))"
  shows "bst key cmp ok (inorder l)" and "bst key cmp ok (inorder r)" and "ok (key v)"
    and "\<And>a. a \<in> set (inorder l) \<Longrightarrow> cmp (key a) (key v) = -1"
    and "\<And>a. a \<in> set (inorder r) \<Longrightarrow> cmp (key v) (key a) = -1"
  using assms by (simp_all add: bst_append bst_Cons)

context comparator
begin

lemma LookupExact_sound:
  "bst key cmp ok (inorder t) \<Longrightarrow> ok x \<Longrightarrow> BAVL_LookupExact key cmp t x = Some a \<Longrightarrow> a \<in> set (inorder t) \<and> key a = x"
proof (induction t)
  case (Node l v b r)
  note bst = bst_NodeD [OF Node.prems(1)]
  consider "cmp x (key v) = 0" | "cmp x (key v) = 1" | "cmp x (key v) \<noteq> 0" "cmp x (key v) \<noteq> 1" by blast
  then show ?case
  proof cases
    case 1
    then show ?thesis using Node.prems(2,3) cmp_eq [of x "key v"] bst(3) by simp
  next
    case 2
    then show ?thesis using Node.IH(2) [OF bst(2) Node.prems(2)] Node.prems(3) by simp
  next
    case 3
    then show ?thesis using Node.IH(1) [OF bst(1) Node.prems(2)] Node.prems(3) by simp
  qed
qed simp

lemma LookupExact_complete:
  "bst key cmp ok (inorder t) \<Longrightarrow> a \<in> set (inorder t) \<Longrightarrow> BAVL_LookupExact key cmp t (key a) = Some a"
proof (induction t)
  case (Node l v b r)
  note bst = bst_NodeD [OF Node.prems(1)]
  have ok: "ok (key v)" "ok (key a)" using Node.prems by (auto simp: bst_def)
  consider "a \<in> set (inorder l)" | "a = v" | "a \<in> set (inorder r)" using Node.prems by auto
  then show ?case
  proof cases
    case 1
    then have "cmp (key a) (key v) = -1" using 1 bst(4) by blast
    then show ?thesis using Node.IH(1) [OF bst(1) 1] by simp
  next
    case 2
    then show ?thesis using ok cmp_self by simp
  next
    case 3
    then have "cmp (key v) (key a) = -1" using 3 bst(5) by blast
    then have "cmp (key a) (key v) = 1" using cmp_gt ok by simp
    then show ?thesis using Node.IH(2) [OF bst(2) 3] by simp
  qed
qed simp

lemma LookupExact_iff:
  assumes "bst key cmp ok (inorder t)" and "ok x"
  shows "BAVL_LookupExact key cmp t x = Some a \<longleftrightarrow> a \<in> set (inorder t) \<and> key a = x"
  using LookupExact_sound [OF assms, of a] LookupExact_complete [OF assms(1), of a] by auto

lemma LookupExact_None_iff:
  assumes "bst key cmp ok (inorder t)" and "ok x"
  shows "BAVL_LookupExact key cmp t x = None \<longleftrightarrow> (\<forall>a\<in>set (inorder t). key a \<noteq> x)"
  by (cases "BAVL_LookupExact key cmp t x") (use LookupExact_iff [OF assms] in \<open>auto\<close>)

lemma locate_ok:
  assumes "BAVL_LookupExact key cmp t x = Some a"
  shows "\<exists>l b r q. bavl_locate key cmp x t path = Some (Node l a b r, q @ path) \<and> plug (Node l a b r) q = t"
  using assms
proof (induction t arbitrary: path)
  case (Node l v b r)
  consider "cmp x (key v) = 0" | "cmp x (key v) = 1" | "cmp x (key v) \<noteq> 0" "cmp x (key v) \<noteq> 1" by blast
  then show ?case
  proof cases
    case 1
    then have "bavl_locate key cmp x (Node l v b r) path = Some (Node l a b r, [] @ path)"
      "plug (Node l a b r) [] = Node l v b r" using Node.prems by simp_all
    then show ?thesis by blast
  next
    case 2
    let ?c = "(True, v, b, l)"
    have "BAVL_LookupExact key cmp r x = Some a" using Node.prems 2 by simp
    from Node.IH(2) [OF this, of "?c # path"] obtain l' b' r' q where
      q: "bavl_locate key cmp x r (?c # path) = Some (Node l' a b' r', q @ ?c # path)" and p: "plug (Node l' a b' r') q = r"
      by (elim exE conjE)
    have "bavl_locate key cmp x (Node l v b r) path = Some (Node l' a b' r', (q @ [?c]) @ path)"
      using 2 q by simp
    moreover have "plug (Node l' a b' r') (q @ [?c]) = Node l v b r"
      by (simp add: plug_append p)
    ultimately show ?thesis by blast
  next
    case 3
    let ?c = "(False, v, b, r)"
    have "BAVL_LookupExact key cmp l x = Some a" using Node.prems 3 by simp
    from Node.IH(1) [OF this, of "?c # path"] obtain l' b' r' q where
      q: "bavl_locate key cmp x l (?c # path) = Some (Node l' a b' r', q @ ?c # path)" and p: "plug (Node l' a b' r') q = l"
      by (elim exE conjE)
    have "bavl_locate key cmp x (Node l v b r) path = Some (Node l' a b' r', (q @ [?c]) @ path)"
      using 3 q by simp
    moreover have "plug (Node l' a b' r') (q @ [?c]) = Node l v b r"
      by (simp add: plug_append p)
    ultimately show ?thesis by blast
  qed
qed simp

lemma bst_remove: "bst key cmp ok (xs @ a # ys) \<Longrightarrow> bst key cmp ok (xs @ ys)"
  by (simp add: bst_append bst_Cons)

lemma bst_distinct_key:
  assumes "bst key cmp ok (xs @ a # ys)" and "b \<in> set xs \<union> set ys"
  shows "key b \<noteq> key a"
proof
  assume e: "key b = key a"
  have "cmp (key b) (key a) = -1 \<or> cmp (key a) (key b) = -1" "ok (key a)"
    using assms by (auto simp: bst_append bst_Cons)
  then show False using e cmp_self [of "key a"] by simp
qed

lemma del_ok:
  assumes t: "bavl_ok key cmp ok t" and x: "ok x" and a: "BAVL_LookupExact key cmp t x = Some a"
  obtains xs ys t' where "bavl_del key cmp t x = Some t'" and "bavl_ok key cmp ok t'"
    and "inorder t = xs @ a # ys" and "inorder t' = xs @ ys"
proof -
  obtain l b r q where q: "bavl_locate key cmp x t [] = Some (Node l a b r, q)" "plug (Node l a b r) q = t"
    using locate_ok [OF a, of "[]"] by auto
  obtain t' where t': "BAVL_Remove (Node l a b r) q = Some t'" "avl t'"
    "inorder t' = path_before q @ inorder l @ inorder r @ path_after q"
    using Remove_ok [of l a b r q] t q(2) by (auto simp: bavl_ok_def)
  have i: "inorder t = (path_before q @ inorder l) @ a # (inorder r @ path_after q)"
    using inorder_plug [of "Node l a b r" q] q(2) by simp
  have "bst key cmp ok (inorder t')"
    using t bst_remove [of key "path_before q @ inorder l" a "inorder r @ path_after q"] i t'(3)
    by (simp add: bavl_ok_def)
  then show ?thesis using that [OF _ _ i, of t'] t' q(1) by (simp add: bavl_del_def bavl_ok_def)
qed

text \<open>The search of an insertion ends at the place where the value belongs.\<close>

definition gap_for :: "('a \<Rightarrow> 'k) \<Rightarrow> 'k \<Rightarrow> 'a path \<Rightarrow> bool" where
  "gap_for key x p \<longleftrightarrow> (\<forall>a\<in>set (path_before p). cmp (key a) x = -1) \<and> (\<forall>a\<in>set (path_after p). cmp x (key a) = -1)"

lemma gap_for_extend:
  assumes "bst key cmp ok (inorder (Node l v b r))" and "ok x" and "gap_for key x p"
    and "if side then cmp x (key v) = 1 else cmp x (key v) = -1"
  shows "gap_for key x (p @ [(side, v, b, if side then l else r)])"
proof -
  note bst = bst_NodeD [OF assms(1)]
  have "cmp (key a) x = -1" if "side" "a \<in> set (inorder l)" for a
    using cmp_trans [of "key a" "key v" x] bst that assms(2,4) cmp_gt [of x "key v"] by (simp add: bst_def)
  moreover have "cmp x (key a) = -1" if "\<not> side" "a \<in> set (inorder r)" for a
    using cmp_trans [of x "key v" "key a"] bst that assms(2,4) by (simp add: bst_def)
  ultimately show ?thesis using assms(2-4) bst(3) cmp_gt [of x "key v"] by (auto simp: gap_for_def)
qed

lemma find_ok:
  assumes "t \<noteq> Leaf" and "bst key cmp ok (inorder t)" and "ok x"
  shows "(\<exists>v. BAVL_Insert_find key cmp x t path = Some (Inl v) \<and> BAVL_LookupExact key cmp t x = Some v)
    \<or> (\<exists>side v b other q. BAVL_Insert_find key cmp x t path = Some (Inr (plug1 (side, v, b, other) Leaf, q @ path, side))
         \<and> plug Leaf ((side, v, b, other) # q) = t \<and> gap_for key x ((side, v, b, other) # q)
         \<and> BAVL_LookupExact key cmp t x = None)" (is "?E t path \<or> ?G t path")
  using assms(1,2)
proof (induction t arbitrary: path)
  case (Node l v b r)
  note bst = bst_NodeD [OF Node.prems(2)]
  consider (eq) "cmp x (key v) = 0" | (go) side where "if side then cmp x (key v) = 1 else cmp x (key v) = -1"
    using cmp_range [OF assms(3) bst(3)] by (metis insertE singletonD)
  then show ?case
  proof cases
    case eq
    then show ?thesis by (simp add: BAVL_compare_values_def)
  next
    case go
    let ?c = "(side, v, b, if side then l else r)" and ?t = "if side then r else l"
    have find: "BAVL_Insert_find key cmp x (Node l v b r) path =
       (if ?t = Leaf then Some (Inr (plug1 ?c Leaf, path, side)) else BAVL_Insert_find key cmp x ?t (?c # path))"
      using go by (auto simp: BAVL_compare_values_def split: bavl.splits if_splits)
    have look: "BAVL_LookupExact key cmp (Node l v b r) x = BAVL_LookupExact key cmp ?t x" using go by (auto split: if_splits)
    show ?thesis
    proof (cases "?t = Leaf")
      case True
      have "gap_for key x ([] @ [?c])" by (rule gap_for_extend [OF Node.prems(2) assms(3) _ go]) (simp add: gap_for_def)
      moreover have "plug Leaf [?c] = Node l v b r" using True by (auto split: if_splits)
      ultimately have "?G (Node l v b r) path" unfolding find look using True
        by (intro exI [of _ side] exI [of _ v] exI [of _ b] exI [of _ "if side then l else r"] exI [of _ "[]"]) simp
      then show ?thesis ..
    next
      case False
      have "?E ?t (?c # path) \<or> ?G ?t (?c # path)" using Node.IH [of "?c # path"] False bst(1,2) by (cases side) simp_all
      then show ?thesis
      proof
        assume "?G ?t (?c # path)"
        then obtain s w d other q where g: "BAVL_Insert_find key cmp x ?t (?c # path) = Some (Inr (plug1 (s, w, d, other) Leaf, q @ ?c # path, s))"
          "plug Leaf ((s, w, d, other) # q) = ?t" "gap_for key x ((s, w, d, other) # q)" "BAVL_LookupExact key cmp ?t x = None"
          by (elim exE conjE)
        have "plug Leaf ((s, w, d, other) # (q @ [?c])) = plug1 ?c (plug Leaf ((s, w, d, other) # q))"
          by (simp only: append_Cons [symmetric] plug_append plug.simps)
        also have "\<dots> = Node l v b r" unfolding g(2) by simp
        finally have p: "plug Leaf ((s, w, d, other) # (q @ [?c])) = Node l v b r" .
        have gap: "gap_for key x ((s, w, d, other) # (q @ [?c]))"
          using gap_for_extend [OF Node.prems(2) assms(3) g(3) go] by simp
        have "BAVL_Insert_find key cmp x (Node l v b r) path = Some (Inr (plug1 (s, w, d, other) Leaf, (q @ [?c]) @ path, s))"
          unfolding find using False g(1) by simp
        then show ?thesis using p gap g(4) look by (intro disjI2 exI conjI) auto
      qed (use find look False in simp)
    qed
  qed
qed simp

lemma Insert_dup:
  assumes "bavl_ok key cmp ok t" and "ok (key y)" and "BAVL_LookupExact key cmp t (key y) = Some a"
  shows "BAVL_Insert key cmp t y = Some (False, t, Some a)"
proof -
  have "t \<noteq> Leaf" using assms(3) by auto
  then show ?thesis using find_ok [of t key "key y" "[]"] assms by (auto simp: BAVL_Insert_def bavl_ok_def)
qed

lemma bst_insert:
  assumes "bst key cmp ok (path_before p @ path_after p)" and "gap_for key (key y) p" and "ok (key y)"
  shows "bst key cmp ok (path_before p @ y # path_after p)"
  using assms by (auto simp: bst_append bst_Cons gap_for_def)

lemma Insert_new:
  assumes t: "bavl_ok key cmp ok t" and y: "ok (key y)" and no: "BAVL_LookupExact key cmp t (key y) = None"
  shows "\<exists>t' ref xs ys. BAVL_Insert key cmp t y = Some (True, t', ref) \<and> bavl_ok key cmp ok t'
           \<and> inorder t = xs @ ys \<and> inorder t' = xs @ y # ys"
proof (cases "t = Leaf")
  case True
  then show ?thesis using y by (auto simp: BAVL_Insert_def bavl_ok_def bst_def)
next
  case False
  obtain side v b other q where g: "BAVL_Insert_find key cmp (key y) t [] = Some (Inr (plug1 (side, v, b, other) Leaf, q, side))"
    "plug Leaf ((side, v, b, other) # q) = t" "gap_for key (key y) ((side, v, b, other) # q)"
    using find_ok [of t key "key y" "[]"] False t y no by (auto simp: bavl_ok_def)
  let ?p = "(side, v, b, other) # q" and ?new = "Node Leaf y 0 Leaf"
  have ap: "avl_path ?p 0" using avl_path_plug [of Leaf ?p] g(2) t by (simp add: bavl_ok_def)
  have "\<exists>t'. BAVL_rebalance (plug1 (side, v, b, other) ?new) q side 1 = Some t' \<and> avl t'
          \<and> inorder t' = inorder (plug (plug1 (side, v, b, other) ?new) q)"
    by (rule rebalance_ok) (use ap in auto)
  then obtain t' where t': "BAVL_rebalance (plug1 (side, v, b, other) ?new) q side 1 = Some t'" "avl t'"
    "inorder t' = inorder (plug ?new ?p)" by auto
  have i: "inorder t = path_before ?p @ path_after ?p" using inorder_plug [of Leaf ?p] g(2) by simp
  have i': "inorder t' = path_before ?p @ y # path_after ?p" unfolding t'(3) inorder_plug by simp
  have set: "bavl_set_link side ?new (plug1 (side, v, b, other) Leaf) = plug1 (side, v, b, other) ?new" by simp
  have "bavl_ok key cmp ok t'"
    using bst_insert [of key ?p y] t g(3) y t'(2) unfolding bavl_ok_def i i' by blast
  moreover have "\<exists>ref. BAVL_Insert key cmp t y = Some (True, t', ref)"
    using False unfolding BAVL_Insert_def g(1) by (simp add: set t'(1) del: plug1.simps)
  ultimately show ?thesis using i i' by blast
qed

end

subsection \<open>The contract of a table\<close>

text \<open>
  What the modules that keep their objects in a tree rely on. \<open>find\<close> is total; \<open>add\<close> fails its
  assertion for a value that is already there, \<open>del\<close> is only called for an object of the table.
\<close>

locale keyed_table =
  fixes valid :: "'t \<Rightarrow> bool" and okk :: "'k \<Rightarrow> bool" and key :: "'a \<Rightarrow> 'k"
    and find :: "'t \<Rightarrow> 'k \<Rightarrow> 'a option" and add :: "'t \<Rightarrow> 'a \<Rightarrow> 't option" and del :: "'t \<Rightarrow> 'k \<Rightarrow> 't option"
    and elems :: "'t \<Rightarrow> 'a list"
  assumes find_iff: "valid t \<Longrightarrow> okk k \<Longrightarrow> find t k = Some a \<longleftrightarrow> a \<in> set (elems t) \<and> key a = k"
    and distinct_keys: "valid t \<Longrightarrow> distinct (map key (elems t))"
    and okk_elems: "valid t \<Longrightarrow> a \<in> set (elems t) \<Longrightarrow> okk (key a)"
    and add_new: "valid t \<Longrightarrow> okk (key a) \<Longrightarrow> find t (key a) = None \<Longrightarrow>
      \<exists>t' xs ys. add t a = Some t' \<and> valid t' \<and> elems t = xs @ ys \<and> elems t' = xs @ a # ys"
    and add_dup: "valid t \<Longrightarrow> okk (key a) \<Longrightarrow> find t (key a) = Some b \<Longrightarrow> add t a = None"
    and del_present: "valid t \<Longrightarrow> okk k \<Longrightarrow> find t k = Some a \<Longrightarrow>
      \<exists>t' xs ys. del t k = Some t' \<and> valid t' \<and> elems t = xs @ a # ys \<and> elems t' = xs @ ys"
begin

lemma find_None_iff:
  assumes "valid t" and "okk k"
  shows "find t k = None \<longleftrightarrow> (\<forall>a\<in>set (elems t). key a \<noteq> k)"
  using find_iff [OF assms] by (cases "find t k") auto

lemma find_of_elem: "valid t \<Longrightarrow> a \<in> set (elems t) \<Longrightarrow> find t (key a) = Some a"
  by (simp add: find_iff okk_elems)

lemma add_find:
  assumes "valid t" and "okk (key a)" and "find t (key a) = None"
  obtains t' where "add t a = Some t'" and "valid t'" and "\<forall>k. okk k \<longrightarrow> find t' k = ((find t)(key a \<mapsto> a)) k"
    and "set (elems t') = insert a (set (elems t))" and "length (elems t') = Suc (length (elems t))"
proof -
  obtain t' xs ys where t': "add t a = Some t'" "valid t'" "elems t = xs @ ys" "elems t' = xs @ a # ys"
    using add_new [OF assms] by blast
  have s: "set (elems t') = insert a (set (elems t))" using t' by auto
  have "find t' k = ((find t)(key a \<mapsto> a)) k" if "okk k" for k
  proof (cases "find t' k")
    case None
    then show ?thesis using find_None_iff [OF t'(2) that] find_None_iff [OF assms(1) that] s by auto
  next
    case (Some b)
    then show ?thesis using find_iff [OF t'(2) that, of b] find_iff [OF assms(1) that, of b] s
        find_None_iff [OF assms(1,2)] assms(3) by auto
  qed
  then have "\<forall>k. okk k \<longrightarrow> find t' k = ((find t)(key a \<mapsto> a)) k" by blast
  then show ?thesis using that [OF t'(1,2) _ s] t'(3,4) by simp
qed

lemma del_find:
  assumes "valid t" and "okk x" and "find t x = Some a"
  obtains t' where "del t x = Some t'" and "valid t'" and "\<forall>k. okk k \<longrightarrow> find t' k = ((find t)(x := None)) k"
    and "set (elems t') = set (elems t) - {a}" and "Suc (length (elems t')) = length (elems t)"
proof -
  obtain t' xs ys where t': "del t x = Some t'" "valid t'" "elems t = xs @ a # ys" "elems t' = xs @ ys"
    using del_present [OF assms] by blast
  have k: "key a = x" using find_iff assms by blast
  have d: "\<forall>b\<in>set (xs @ ys). key b \<noteq> key a" using distinct_keys [OF assms(1)] t'(3) by auto (metis image_eqI)+
  then have s: "set (elems t') = set (elems t) - {a}" using t' by auto
  have "find t' k = ((find t)(x := None)) k" if "okk k" for k
  proof (cases "find t' k")
    case None
    then show ?thesis using find_None_iff [OF t'(2) that] find_None_iff [OF assms(1) that] s k by auto
  next
    case (Some b)
    then show ?thesis using find_iff [OF t'(2) that, of b] find_iff [OF assms(1) that, of b] s k d t'(4) by auto
  qed
  then have "\<forall>k. okk k \<longrightarrow> find t' k = ((find t)(x := None)) k" by blast
  then show ?thesis using that [OF t'(1,2) _ s] t'(3,4) by simp
qed

end

text \<open>Every comparator makes a tree such a table.\<close>

context comparator
begin

lemma bst_distinct: "bst key cmp ok xs \<Longrightarrow> distinct (map key xs)"
proof (induction xs)
  case (Cons a xs)
  have "key a \<noteq> key b" if "b \<in> set xs" for b
    using bst_distinct_key [of key "[]" a xs b] Cons.prems that by auto
  then show ?case using Cons by (auto simp: bst_Cons)
qed simp

end

sublocale comparator \<subseteq> bavl: keyed_table "bavl_ok key cmp ok" ok key
    "BAVL_LookupExact key cmp" "bavl_add key cmp" "bavl_del key cmp" inorder
  for key :: "'b \<Rightarrow> 'k"
proof (unfold_locales, goal_cases)
  case (1 t k a)
  then show ?case by (simp add: LookupExact_iff bavl_ok_def)
next
  case (2 t)
  then show ?case by (simp add: bst_distinct bavl_ok_def)
next
  case (3 t a)
  then show ?case by (simp add: bst_def bavl_ok_def)
next
  case (4 t a)
  obtain t' ref xs ys where "BAVL_Insert key cmp t a = Some (True, t', ref)" "bavl_ok key cmp ok t'"
    "inorder t = xs @ ys" "inorder t' = xs @ a # ys" using Insert_new [OF 4] by blast
  then show ?case by (auto simp: bavl_add_def)
next
  case (5 t a b)
  then show ?case by (simp add: bavl_add_def Insert_dup)
next
  case (6 t k a)
  show ?case by (rule del_ok [OF 6]) blast
qed

context comparator
begin

lemmas bavl_find_iff = bavl.find_iff
lemmas bavl_find_None_iff = bavl.find_None_iff
lemmas bavl_find_of_elem = bavl.find_of_elem
lemmas bavl_add_find = bavl.add_find
lemmas bavl_del_find = bavl.del_find

end

subsection \<open>Correctness of the operations\<close>

text \<open>
  C23. \<open>BAVL_Insert\<close>, for every comparator that is a total order: it fails no assertion and leaves
  a balanced search tree. It inserts the node exactly when no object has its value; then the tree
  finds the new object and what it found before. Otherwise the tree is unchanged and \<open>ref\<close> is
  the object with that value.
\<close>

theorem BAVL_Insert_correct:
  assumes "comparator cmp ok" and "bavl_ok key cmp ok t" and "ok (key a)"
  shows "\<exists>inserted t' ref. BAVL_Insert key cmp t a = Some (inserted, t', ref) \<and> bavl_ok key cmp ok t'
    \<and> (inserted \<longleftrightarrow> BAVL_LookupExact key cmp t (key a) = None)
    \<and> (\<not> inserted \<longrightarrow> t' = t \<and> ref = BAVL_LookupExact key cmp t (key a))
    \<and> (inserted \<longrightarrow> (\<forall>k. ok k \<longrightarrow> BAVL_LookupExact key cmp t' k = ((BAVL_LookupExact key cmp t)(key a \<mapsto> a)) k))"
proof (cases "BAVL_LookupExact key cmp t (key a)")
  case None
  obtain t' where t': "bavl_add key cmp t a = Some t'" "bavl_ok key cmp ok t'"
    "\<forall>k. ok k \<longrightarrow> BAVL_LookupExact key cmp t' k = ((BAVL_LookupExact key cmp t)(key a \<mapsto> a)) k"
    "set (inorder t') = insert a (set (inorder t))" "length (inorder t') = Suc (length (inorder t))"
    by (rule comparator.bavl_add_find [OF assms None])
  obtain ref where "BAVL_Insert key cmp t a = Some (True, t', ref)"
    using t'(1) by (auto simp: bavl_add_def assert_simps split: if_splits)
  then show ?thesis using None t'(2,3) by auto
next
  case (Some b)
  then show ?thesis using comparator.Insert_dup [OF assms Some] assms(2) by auto
qed

definition example_tree :: "nat bavl" where
  "example_tree = Node (Node Leaf 1 0 Leaf) 3 1 (Node (Node Leaf 5 0 Leaf) 7 0 (Node Leaf 9 0 Leaf))"

lemma example_tree_ok: "bavl_ok (\<lambda>x. x) B_COMPARE (\<lambda>_. True) example_tree"
  by (simp add: bavl_ok_def bst_def example_tree_def B_COMPARE_def)

theorem BAVL_Insert_correct_witness:
  "\<exists>t'. BAVL_Insert (\<lambda>x. x) B_COMPARE example_tree 8 = Some (True, t', Some 9)
     \<and> bavl_ok (\<lambda>x. x) B_COMPARE (\<lambda>_. True) t' \<and> BAVL_LookupExact (\<lambda>x. x) B_COMPARE t' 8 = Some 8"
proof -
  have "BAVL_Insert (\<lambda>x. x) B_COMPARE example_tree 8 = Some (True,
      Node (Node (Node Leaf 1 0 Leaf) 3 0 (Node Leaf 5 0 Leaf)) 7 0 (Node (Node Leaf 8 0 Leaf) 9 (-1) Leaf), Some 9)"
    by code_simp
  then show ?thesis
    using BAVL_Insert_correct [OF b_compare.comparator_axioms example_tree_ok, of 8] by auto
qed

text \<open>
  C24. \<open>BAVL_Remove\<close> of any node of a balanced search tree: it fails no assertion, leaves a balanced
  search tree, and the tree then finds every object but the removed one.
\<close>

theorem BAVL_Remove_correct:
  assumes "comparator cmp ok" and "bavl_ok key cmp ok (plug (Node l v b r) path)"
  shows "\<exists>t'. BAVL_Remove (Node l v b r) path = Some t' \<and> bavl_ok key cmp ok t'
    \<and> (\<forall>k. ok k \<longrightarrow> BAVL_LookupExact key cmp t' k = ((BAVL_LookupExact key cmp (plug (Node l v b r) path))(key v := None)) k)"
proof -
  let ?t = "plug (Node l v b r) path"
  obtain t' where t': "BAVL_Remove (Node l v b r) path = Some t'" "avl t'"
    "inorder t' = path_before path @ inorder l @ inorder r @ path_after path"
    using Remove_ok [of l v b r path] assms(2) by (auto simp: bavl_ok_def)
  have i: "inorder ?t = (path_before path @ inorder l) @ v # (inorder r @ path_after path)" by (simp add: inorder_plug)
  have bst: "bst key cmp ok ((path_before path @ inorder l) @ v # (inorder r @ path_after path))"
    using assms(2) i by (simp add: bavl_ok_def)
  have ok: "bavl_ok key cmp ok t'"
    using comparator.bst_remove [OF assms(1) bst] t'(2,3) by (simp add: bavl_ok_def)
  have ne: "\<forall>a\<in>set (inorder t'). key a \<noteq> key v"
    using comparator.bst_distinct_key [OF assms(1) bst] t'(3) by auto
  have "BAVL_LookupExact key cmp t' k = ((BAVL_LookupExact key cmp ?t)(key v := None)) k" if k: "ok k" for k
  proof (rule option_eqI)
    fix a
    show "BAVL_LookupExact key cmp t' k = Some a \<longleftrightarrow> ((BAVL_LookupExact key cmp ?t)(key v := None)) k = Some a"
      using ne comparator.bavl_find_iff [OF assms(1) ok k, of a] comparator.bavl_find_iff [OF assms(1,2) k, of a]
      by (auto simp: i t'(3))
  qed
  then show ?thesis using t'(1) ok by blast
qed

theorem BAVL_Remove_correct_witness:
  "\<exists>t'. BAVL_Remove example_tree [] = Some t' \<and> bavl_ok (\<lambda>x. x) B_COMPARE (\<lambda>_. True) t'
     \<and> BAVL_LookupExact (\<lambda>x. x) B_COMPARE t' 3 = None \<and> BAVL_LookupExact (\<lambda>x. x) B_COMPARE t' 9 = Some 9"
  using BAVL_Remove_correct [OF b_compare.comparator_axioms, of "\<lambda>x. x" "Node Leaf 1 0 Leaf" "3::nat" 1
      "Node (Node Leaf 5 0 Leaf) 7 0 (Node Leaf 9 0 Leaf)" "[]"] example_tree_ok
  by (auto simp: example_tree_def B_COMPARE_def)

text \<open>
  The traversal: the first and the last object, and the objects next to a node, are those of the
  sorted sequence.
\<close>

definition first_of :: "'a list \<Rightarrow> 'a option" where
  "first_of xs = (case xs of [] \<Rightarrow> None | x # _ \<Rightarrow> Some x)"

lemma first_of_simps [simp]:
  "first_of [] = None" "first_of (x # xs) = Some x"
  "first_of (xs @ ys) = (if xs = [] then first_of ys else first_of xs)"
  by (auto simp: first_of_def split: list.splits)

lemma inorder_Nil_iff [simp]: "inorder t = [] \<longleftrightarrow> t = Leaf"
  by (cases t) auto

lemma GetFirst_first: "BAVL_GetFirst t = first_of (inorder t)"
  by (induction t) auto

lemma GetLast_last: "BAVL_GetLast t = first_of (rev (inorder t))"
  by (induction t) auto

lemma climb_first: "climb True path = first_of (path_after path)" "climb False path = first_of (rev (path_before path))"
  by (induction path rule: path_after.induct) auto

text \<open>
  Iterating over a tree: \<open>BAVL_GetFirst\<close> and \<open>BAVL_GetLast\<close> return the ends of the sorted
  sequence of objects, and \<open>BAVL_GetNext\<close> and \<open>BAVL_GetPrev\<close>, from any node, the neighbours of its
  object in that sequence, or none at the ends.
\<close>

theorem BAVL_iteration:
  "inorder (plug (Node l v b r) path) = (path_before path @ inorder l) @ v # (inorder r @ path_after path)
   \<and> BAVL_GetNext (Node l v b r) path = first_of (inorder r @ path_after path)
   \<and> BAVL_GetPrev (Node l v b r) path = first_of (rev (path_before path @ inorder l))
   \<and> BAVL_GetFirst t = first_of (inorder t) \<and> BAVL_GetLast t = first_of (rev (inorder t))"
  by (simp add: inorder_plug climb_first GetFirst_first GetLast_last)

text \<open>
  \<open>BAVL_Verify\<close>: the check of the balance factors and of the order between every node and its
  children; \<open>None\<close> where an assertion fails, otherwise the height.
\<close>

fun BAVL_assert_recurser :: "('a \<Rightarrow> 'k) \<Rightarrow> ('k \<Rightarrow> 'k \<Rightarrow> int) \<Rightarrow> 'a bavl \<Rightarrow> int option" where
  "BAVL_assert_recurser key cmp Leaf = Some 0"
| "BAVL_assert_recurser key cmp (Node l v b r) = do {
     ASSERT (b \<ge> -1);
     ASSERT (b \<le> 1);
     height_left \<leftarrow> (case l of Leaf \<Rightarrow> Some 0
       | Node _ lv _ _ \<Rightarrow> do { ASSERT (cmp (key lv) (key v) = -1); BAVL_assert_recurser key cmp l });
     height_right \<leftarrow> (case r of Leaf \<Rightarrow> Some 0
       | Node _ rv _ _ \<Rightarrow> do { ASSERT (cmp (key rv) (key v) = 1); BAVL_assert_recurser key cmp r });
     ASSERT (b = height_right - height_left);
     Some (max height_left height_right + 1) }"

lemma bavl_ok_Verify:
  assumes "comparator cmp ok" and "bavl_ok key cmp ok t"
  shows "BAVL_assert_recurser key cmp t = Some (height t)"
  using assms(2)
proof (induction t)
  case (Node l v b r)
  have avl: "avl (Node l v b r)" and bst: "bst key cmp ok (inorder (Node l v b r))" using Node.prems by (simp_all add: bavl_ok_def)
  note o = bst_NodeD [OF bst]
  have l: "BAVL_assert_recurser key cmp l = Some (height l)" and r: "BAVL_assert_recurser key cmp r = Some (height r)"
    using Node.IH avl o(1,2) by (simp_all add: bavl_ok_def)
  have "cmp (key w) (key v) = 1" if "w \<in> set (inorder r)" for w
    using o(5) [OF that] comparator.cmp_gt [OF assms(1), of "key w" "key v"] o(2,3) that by (simp add: bst_def)
  then show ?case using avl l r o(4) by (cases l; cases r) (simp_all add: ASSERT_def add.commute)
qed simp

text \<open>The number of comparisons of a lookup is at most the height of the tree.\<close>

lemma avl_size_height: "avl t \<Longrightarrow> 2 ^ (nat (height t) div 2) \<le> length (inorder t) + 1"
proof (induction t)
  case (Node l v b r)
  have nn: "0 \<le> height l" "0 \<le> height r" by simp_all
  have h: "\<bar>height l - height r\<bar> \<le> 1" using Node.prems by auto
  let ?m = "min (nat (height l)) (nat (height r))"
  have "nat (height (Node l v b r)) \<le> ?m + 2" using h nn by (simp add: min_def max_def) linarith
  then have "nat (height (Node l v b r)) div 2 \<le> Suc (?m div 2)" by (metis add_2_eq_Suc' div2_Suc_Suc div_le_mono)
  then have "(2::nat) ^ (nat (height (Node l v b r)) div 2) \<le> 2 ^ Suc (?m div 2)" by (rule power_increasing) simp
  also have "\<dots> \<le> 2 ^ (nat (height l) div 2) + 2 ^ (nat (height r) div 2)"
  proof -
    have "(2::nat) ^ (?m div 2) \<le> 2 ^ (nat (height l) div 2)" "(2::nat) ^ (?m div 2) \<le> 2 ^ (nat (height r) div 2)"
      by (intro power_increasing div_le_mono; simp)+
    then show ?thesis unfolding power_Suc by linarith
  qed
  also have "\<dots> \<le> (length (inorder l) + 1) + (length (inorder r) + 1)"
    using Node.IH Node.prems by (intro add_mono) auto
  finally show ?case by simp
qed simp

text \<open>
  A tree built by the operations passes \<open>BAVL_Verify\<close>, and its height, which bounds the length
  of every search, is logarithmic in the number of objects: a tree of height \<open>h\<close> holds at least
  \<open>2 ^ (h div 2) - 1\<close> of them.
\<close>

theorem BAVL_height_bound:
  assumes "comparator cmp ok" and "bavl_ok key cmp ok t"
  shows "\<exists>h. BAVL_assert_recurser key cmp t = Some h \<and> 0 \<le> h \<and> 2 ^ (nat h div 2) \<le> length (inorder t) + 1"
  using bavl_ok_Verify [OF assms] avl_size_height [of t] assms(2) by (simp add: bavl_ok_def)

theorem BAVL_height_bound_witness:
  "BAVL_assert_recurser (\<lambda>x. x) B_COMPARE example_tree = Some 3 \<and> 2 ^ (nat 3 div 2) \<le> length (inorder example_tree) + 1"
proof -
  have "BAVL_assert_recurser (\<lambda>x. x) B_COMPARE example_tree = Some 3" by code_simp
  then show ?thesis using BAVL_height_bound [OF b_compare.comparator_axioms example_tree_ok] by auto
qed

end
