(* ===== verification/IpUdp.thy ===== *)
theory IpUdp
  imports ByteOrder
begin

section \<open>IPv4, IPv6 and UDP headers\<close>

text \<open>
  The headers \<open>misc/ipv4_proto.h\<close>, \<open>misc/ipv6_proto.h\<close> and \<open>misc/udp_proto.h\<close>: the packed
  structures with their memory images, the checks of a received packet and the checksums.
  A check that returns 0 is \<open>None\<close>; one that returns 1 yields what it stores through its output
  pointers.
\<close>

subsection \<open>The structures and their images\<close>

record ipv4_header =
  ip4_version4_ihl4 :: byte
  ip4_ds :: byte
  ip4_total_length :: u16
  ip4_identification :: u16
  ip4_flags3_fragmentoffset13 :: u16
  ip4_ttl :: byte
  ip4_protocol :: byte
  ip4_checksum :: u16
  ip4_source_address :: u32
  ip4_destination_address :: u32

definition ipv4_header_mem :: "ipv4_header \<Rightarrow> bytes" where
  "ipv4_header_mem h =
     ip4_version4_ihl4 h # ip4_ds h # mem16 (ip4_total_length h) @ mem16 (ip4_identification h)
     @ mem16 (ip4_flags3_fragmentoffset13 h) @ ip4_ttl h # ip4_protocol h # mem16 (ip4_checksum h)
     @ mem32 (ip4_source_address h) @ mem32 (ip4_destination_address h)"

definition ipv4_header_of :: "bytes \<Rightarrow> ipv4_header" where
  "ipv4_header_of d = \<lparr>
     ip4_version4_ihl4 = d ! 0, ip4_ds = d ! 1, ip4_total_length = badvpn_read_le16 (drop 2 d),
     ip4_identification = badvpn_read_le16 (drop 4 d),
     ip4_flags3_fragmentoffset13 = badvpn_read_le16 (drop 6 d),
     ip4_ttl = d ! 8, ip4_protocol = d ! 9, ip4_checksum = badvpn_read_le16 (drop 10 d),
     ip4_source_address = badvpn_read_le32 (drop 12 d),
     ip4_destination_address = badvpn_read_le32 (drop 16 d)\<rparr>"

record ipv6_header =
  ip6_version4_tc4 :: byte
  ip6_tc4_fl4 :: byte
  ip6_fl :: u16
  ip6_payload_length :: u16
  ip6_next_header :: byte
  ip6_hop_limit :: byte
  ip6_source_address :: bytes
  ip6_destination_address :: bytes

definition ipv6_header_mem :: "ipv6_header \<Rightarrow> bytes" where
  "ipv6_header_mem h =
     ip6_version4_tc4 h # ip6_tc4_fl4 h # mem16 (ip6_fl h) @ mem16 (ip6_payload_length h)
     @ ip6_next_header h # ip6_hop_limit h # ip6_source_address h @ ip6_destination_address h"

definition ipv6_header_of :: "bytes \<Rightarrow> ipv6_header" where
  "ipv6_header_of d = \<lparr>
     ip6_version4_tc4 = d ! 0, ip6_tc4_fl4 = d ! 1, ip6_fl = badvpn_read_le16 (drop 2 d),
     ip6_payload_length = badvpn_read_le16 (drop 4 d), ip6_next_header = d ! 6, ip6_hop_limit = d ! 7,
     ip6_source_address = segment d 8 16, ip6_destination_address = segment d 24 16\<rparr>"

record udp_header =
  udp_source_port :: u16
  udp_dest_port :: u16
  udp_length :: u16
  udp_csum :: u16

definition udp_header_mem :: "udp_header \<Rightarrow> bytes" where
  "udp_header_mem h = mem16 (udp_source_port h) @ mem16 (udp_dest_port h) @ mem16 (udp_length h) @ mem16 (udp_csum h)"

definition udp_header_of :: "bytes \<Rightarrow> udp_header" where
  "udp_header_of d = \<lparr>
     udp_source_port = badvpn_read_le16 d, udp_dest_port = badvpn_read_le16 (drop 2 d),
     udp_length = badvpn_read_le16 (drop 4 d), udp_csum = badvpn_read_le16 (drop 6 d)\<rparr>"

abbreviation (input) sizeof_ipv4_header :: nat where "sizeof_ipv4_header \<equiv> 20"
abbreviation (input) sizeof_ipv6_header :: nat where "sizeof_ipv6_header \<equiv> 40"
abbreviation (input) sizeof_udp_header :: nat where "sizeof_udp_header \<equiv> 8"

subsection \<open>Checksums\<close>

definition IPV4_PROTOCOL_UDP :: nat where "IPV4_PROTOCOL_UDP = 17"
definition IPV6_NEXT_UDP :: nat where "IPV6_NEXT_UDP = 17"

definition IPV4_GET_VERSION :: "ipv4_header \<Rightarrow> nat" where
  "IPV4_GET_VERSION h = unat (drop_bit 4 (ip4_version4_ihl4 h AND 0xF0))"

definition IPV4_GET_IHL :: "ipv4_header \<Rightarrow> nat" where
  "IPV4_GET_IHL h = unat (ip4_version4_ihl4 h AND 0x0F)"

definition IPV4_MAKE_VERSION_IHL :: "nat \<Rightarrow> byte" where
  "IPV4_MAKE_VERSION_IHL sz = of_nat (sz div 4 + 64)"

text \<open>The loop that adds up the 16-bit words, in a 32-bit accumulator.\<close>

fun sum_be16 :: "u32 \<Rightarrow> bytes \<Rightarrow> u32" where
  "sum_be16 t (a # b # r) = sum_be16 (t + ucast (badvpn_read_be16 [a, b])) r"
| "sum_be16 t _ = t"

text \<open>The loop \<open>while (t >> 16) t = (t & 0xFFFF) + (t >> 16);\<close>\<close>

lemma fold_decreases:
  assumes "drop_bit 16 t \<noteq> (0 :: u32)"
  shows "unat ((t AND 0xFFFF) + drop_bit 16 t) = unat t mod 65536 + unat t div 65536"
    and "unat ((t AND 0xFFFF) + drop_bit 16 t) < unat t"
proof -
  have "(0xFFFF :: u32) = mask 16" by (simp add: mask_eq_exp_minus_1)
  then have m: "unat (t AND 0xFFFF) = unat t mod 65536"
    by (simp only: flip: take_bit_eq_mask) (simp add: take_bit_eq_mod unat_mod)
  have d: "unat (drop_bit 16 t) = unat t div 65536" by (simp add: drop_bit_eq_div unat_div)
  have "unat t < 2 ^ 32" by (rule order_less_le_trans [OF unsigned_less]) simp
  then have lt: "unat t div 65536 < 65536" by (simp add: less_mult_imp_div_less)
  then show eq: "unat ((t AND 0xFFFF) + drop_bit 16 t) = unat t mod 65536 + unat t div 65536"
    by (simp add: unat_word_ariths m d)
  have "unat (drop_bit 16 t) \<noteq> 0" using assms by (simp add: unat_eq_0)
  then have "0 < unat t div 65536" using d by simp
  then show "unat ((t AND 0xFFFF) + drop_bit 16 t) < unat t"
    unfolding eq using div_mult_mod_eq [of "unat t" 65536] by linarith
qed

function checksum_fold :: "u32 \<Rightarrow> u32" where
  "checksum_fold t = (if drop_bit 16 t \<noteq> 0 then checksum_fold ((t AND 0xFFFF) + drop_bit 16 t) else t)"
  by pat_completeness auto
termination
  by (relation "measure unat", simp, simp only: in_measure, rule fold_decreases(2))

declare checksum_fold.simps [simp del]

definition ipv4_checksum :: "ipv4_header \<Rightarrow> bytes \<Rightarrow> u16 option" where
  "ipv4_checksum header extra = do {
     ASSERT (even (length extra));
     let t = sum_be16 0 (ipv4_header_mem header);
     let t = sum_be16 t extra;
     let t = checksum_fold t;
     Some (hton16 (ucast (NOT t))) }"

definition udp_checksum_summer :: "bytes \<Rightarrow> u32 option" where
  "udp_checksum_summer data = do {
     ASSERT (even (length data));
     Some (sum_be16 0 data) }"

text \<open>
  The parts that the two UDP checksums have in common: adding the payload, whose last byte is
  padded if its length is odd; and adding the header and the payload, folding and complementing.
\<close>

definition udp_payload_sum :: "u32 \<Rightarrow> bytes \<Rightarrow> u32 option" where
  "udp_payload_sum t payload =
     (if even (length payload) then do {
        s \<leftarrow> udp_checksum_summer payload;
        Some (t + s) }
      else do {
        s \<leftarrow> udp_checksum_summer (butlast payload);
        let t = t + s;
        let x = hton16 (push_bit 8 (ucast (last payload)));
        s \<leftarrow> udp_checksum_summer (mem16 x);
        Some (t + s) })"

definition udp_checksum_tail :: "u32 \<Rightarrow> udp_header \<Rightarrow> bytes \<Rightarrow> u16 option" where
  "udp_checksum_tail t header payload = do {
     s \<leftarrow> udp_checksum_summer (udp_header_mem header);
     t \<leftarrow> udp_payload_sum (t + s) payload;
     let t = checksum_fold t;
     let t = NOT t;
     let t = (if t = 0 then 0xFFFF else t);
     Some (hton16 (ucast t)) }"

definition udp_checksum :: "udp_header \<Rightarrow> bytes \<Rightarrow> u32 \<Rightarrow> u32 \<Rightarrow> u16 option" where
  "udp_checksum header payload source_addr dest_addr = do {
     s1 \<leftarrow> udp_checksum_summer (mem32 source_addr);
     s2 \<leftarrow> udp_checksum_summer (mem32 dest_addr);
     s3 \<leftarrow> udp_checksum_summer (mem16 (hton16 (of_nat IPV4_PROTOCOL_UDP)));
     s4 \<leftarrow> udp_checksum_summer (mem16 (hton16 (of_nat (sizeof_udp_header + length payload))));
     udp_checksum_tail (s1 + s2 + s3 + s4) header payload }"

definition udp_ip6_checksum :: "udp_header \<Rightarrow> bytes \<Rightarrow> bytes \<Rightarrow> bytes \<Rightarrow> u16 option" where
  "udp_ip6_checksum header payload source_addr dest_addr = do {
     s1 \<leftarrow> udp_checksum_summer source_addr;
     s2 \<leftarrow> udp_checksum_summer dest_addr;
     s3 \<leftarrow> udp_checksum_summer (mem32 (hton32 (of_nat (sizeof_udp_header + length payload))));
     s4 \<leftarrow> udp_checksum_summer (mem32 (hton32 (of_nat IPV6_NEXT_UDP)));
     udp_checksum_tail (s1 + s2 + s3 + s4) header payload }"

subsection \<open>Checks of received packets\<close>

definition ipv4_check :: "bytes \<Rightarrow> (ipv4_header \<times> bytes) option option" where
  "ipv4_check data =
     (if length data < sizeof_ipv4_header then Some None
      else let out_header = ipv4_header_of data in
      if IPV4_GET_VERSION out_header \<noteq> 4 then Some None
      else let header_len = IPV4_GET_IHL out_header * 4 in
      if header_len < sizeof_ipv4_header then Some None
      else if header_len > length data then Some None
      else let total_length = unat (ntoh16 (ip4_total_length out_header)) in
      if total_length < header_len then Some None
      else if total_length > length data then Some None
      else do {
        let checksum_in_packet = ip4_checksum out_header;
        checksum_computed \<leftarrow> ipv4_checksum (out_header\<lparr>ip4_checksum := hton16 0\<rparr>)
          (segment data sizeof_ipv4_header (header_len - sizeof_ipv4_header));
        if checksum_in_packet \<noteq> checksum_computed then Some None
        else Some (Some (out_header, segment data header_len (total_length - header_len))) })"

definition ipv6_check :: "bytes \<Rightarrow> (ipv6_header \<times> bytes) option" where
  "ipv6_check data =
     (if length data < sizeof_ipv6_header then None
      else let out_header = ipv6_header_of data in
      if drop_bit 4 (ntoh8 (ip6_version4_tc4 out_header)) \<noteq> 6 then None
      else let payload_length = unat (ntoh16 (ip6_payload_length out_header)) in
      if payload_length > length data - sizeof_ipv6_header then None
      else Some (out_header, segment data sizeof_ipv6_header payload_length))"

definition udp_check :: "bytes \<Rightarrow> (udp_header \<times> bytes) option" where
  "udp_check data =
     (if length data < sizeof_udp_header then None
      else let out_header = udp_header_of data;
               data = drop sizeof_udp_header data;
               len = unat (ntoh16 (udp_length out_header)) in
      if len < sizeof_udp_header then None
      else if len > sizeof_udp_header + length data then None
      else Some (out_header, take (len - sizeof_udp_header) data))"

subsection \<open>Images of the structures\<close>

lemma length_header_mem [mem_simps]:
  "length (ipv4_header_mem h) = 20" "length (udp_header_mem u) = 8"
  "length (ipv6_header_mem g) = 8 + length (ip6_source_address g) + length (ip6_destination_address g)"
  by (simp_all add: ipv4_header_mem_def udp_header_mem_def ipv6_header_mem_def mem_simps)

lemma ipv4_header_of_mem: "ipv4_header_of (ipv4_header_mem h @ r) = h"
proof -
  have "drop n (xs @ ys) = drop (n - length xs) ys" if "length xs \<le> n" for n and xs ys :: bytes
    using that by simp
  then show ?thesis
    by (cases h) (simp add: ipv4_header_of_def ipv4_header_mem_def drop_Cons' nth_append nth_Cons' mem_simps m16.rd_mem m32.rd_mem)
qed

lemma udp_header_of_mem: "udp_header_of (udp_header_mem h @ r) = h"
  by (cases h) (simp add: udp_header_of_def udp_header_mem_def mem_simps m16.rd_mem)

lemma ipv6_header_of_mem:
  "length (ip6_source_address h) = 16 \<Longrightarrow> length (ip6_destination_address h) = 16 \<Longrightarrow>
     ipv6_header_of (ipv6_header_mem h @ r) = h"
  by (cases h) (simp add: ipv6_header_of_def ipv6_header_mem_def drop_Cons' nth_append nth_Cons' segment_def mem_simps m16.rd_mem)

lemma mem_rd_prefix:
  "2 \<le> length d \<Longrightarrow> mem16 (badvpn_read_le16 d) = take 2 d"
  "4 \<le> length d \<Longrightarrow> mem32 (badvpn_read_le32 d) = take 4 d"
proof -
  show "mem16 (badvpn_read_le16 d) = take 2 d" if "2 \<le> length d"
    using m16.rd_mem [of "badvpn_read_le16 (take 2 d)" "drop 2 d"] that by (simp add: m16.mem_rd del: badvpn_read_le16.simps)
  show "mem32 (badvpn_read_le32 d) = take 4 d" if "4 \<le> length d"
    using m32.rd_mem [of "badvpn_read_le32 (take 4 d)" "drop 4 d"] that by (simp add: m32.mem_rd del: badvpn_read_le32.simps)
qed

lemma take_2_nth: "k + 1 < length d \<Longrightarrow> take 2 (drop k d) = [d ! k, d ! (k + 1)]"
  by (simp add: numeral_2_eq_2 take_Suc_conv_app_nth)

lemma ipv4_header_mem_of:
  assumes "20 \<le> length d"
  shows "ipv4_header_mem (ipv4_header_of d) = take 20 d"
proof -
  have "take 20 d = [d ! 0, d ! 1] @ take 2 (drop 2 d) @ take 2 (drop 4 d) @ take 2 (drop 6 d) @ [d ! 8, d ! 9]
      @ take 2 (drop 10 d) @ take 4 (drop 12 d) @ take 4 (drop 16 d)"
    using take_add [of 2 18 d] take_add [of 2 16 "drop 2 d"] take_add [of 2 14 "drop 4 d"] take_add [of 2 12 "drop 6 d"]
      take_add [of 2 10 "drop 8 d"] take_add [of 2 8 "drop 10 d"] take_add [of 4 4 "drop 12 d"]
      take_2_nth [of 0 d] take_2_nth [of 8 d] assms by simp
  then show ?thesis using assms by (simp add: ipv4_header_mem_def ipv4_header_of_def mem_rd_prefix)
qed

lemma udp_header_mem_of:
  assumes "8 \<le> length d"
  shows "udp_header_mem (udp_header_of d) = take 8 d"
proof -
  have "take 8 d = take 2 d @ take 2 (drop 2 d) @ take 2 (drop 4 d) @ take 2 (drop 6 d)"
    using take_add [of 2 6 d] take_add [of 2 4 "drop 2 d"] take_add [of 2 2 "drop 4 d"] by simp
  then show ?thesis using assms by (simp add: udp_header_mem_def udp_header_of_def mem_rd_prefix)
qed

subsection \<open>The checksum as arithmetic modulo 65535\<close>

text \<open>
  The reference: the sum of the 16-bit words of a block in network byte order, a last single byte
  being the upper half of a word. RFC 1071 defines the checksum by this sum modulo 65535.
\<close>

fun words_sum :: "bytes \<Rightarrow> nat" where
  "words_sum (a # b # r) = 256 * unat a + unat b + words_sum r"
| "words_sum [a] = 256 * unat a"
| "words_sum [] = 0"

lemma unat_read_be16: "unat (badvpn_read_be16 [a, b]) = 256 * unat a + unat b"
proof -
  have "push_bit 8 (ucast a :: u16) OR ucast b = push_bit 8 (ucast a) + ucast b"
    by (rule disjunctive_add_eq_or [symmetric]) (rule bit_eqI, auto simp: bit_simps dest: bit_imp_le_length)
  moreover have "unat (push_bit 8 (ucast a) :: u16) = 256 * unat a"
    using unsigned_less [of a, where ?'a = nat] by (simp add: push_bit_eq_mult unat_word_ariths unsigned_ucast_eq take_bit_nat_eq_self)
  ultimately show ?thesis
    using unsigned_less [of a, where ?'a = nat] unsigned_less [of b, where ?'a = nat]
    by (simp add: unat_word_ariths unsigned_ucast_eq take_bit_nat_eq_self)
qed

lemma words_sum_append: "even (length x) \<Longrightarrow> words_sum (x @ y) = words_sum x + words_sum y"
  by (induction x rule: words_sum.induct) auto

lemma words_sum_bound: "words_sum d \<le> 65535 * ((length d + 1) div 2)"
proof (induction d rule: words_sum.induct)
  case (1 a b r)
  have "unat a < 256" "unat b < 256" using unsigned_less [of a, where ?'a = nat] unsigned_less [of b, where ?'a = nat] by simp_all
  then show ?case using 1 by simp
next
  case (2 a)
  have "unat a < 256" using unsigned_less [of a, where ?'a = nat] by simp
  then show ?case by simp
qed simp

lemma words_sum_mem16: "words_sum (mem16 (hton16 x)) = unat x"
  using unat_read_be16 [of "mem16 (hton16 x) ! 0" "mem16 (hton16 x) ! 1"] read_be16_mem [of x "[]"]
  by (simp add: mem16_def del: badvpn_read_be16.simps)

lemma sum_be16_words:
  "even (length d) \<Longrightarrow> unat t + words_sum d < 2 ^ 32 \<Longrightarrow> unat (sum_be16 t d) = unat t + words_sum d"
proof (induction t d rule: sum_be16.induct)
  case (1 t a b r)
  have "unat (ucast (badvpn_read_be16 [a, b]) :: u32) = 256 * unat a + unat b"
    using unsigned_less [of "badvpn_read_be16 [a, b]", where ?'a = nat]
    by (simp only: unsigned_ucast_eq unat_read_be16 [symmetric]) (simp add: take_bit_nat_eq_self)
  then have "unat (t + ucast (badvpn_read_be16 [a, b])) = unat t + (256 * unat a + unat b)"
    using 1(3) by (simp add: unat_word_ariths del: badvpn_read_be16.simps)
  then show ?case using 1 by (simp del: badvpn_read_be16.simps)
qed auto

lemma fold_spec:
  "unat (checksum_fold t) < 65536 \<and> unat (checksum_fold t) mod 65535 = unat t mod 65535 \<and> (checksum_fold t = 0 \<longleftrightarrow> t = 0)"
proof (induction t rule: checksum_fold.induct)
  case (1 t)
  show ?case
  proof (cases "drop_bit 16 t = 0")
    case True
    then have "unat t div 65536 = 0" by (simp add: drop_bit_eq_div unat_div flip: unat_eq_0)
    then show ?thesis using True by (simp add: checksum_fold.simps [of t])
  next
    case False
    let ?t = "(t AND 0xFFFF) + drop_bit 16 t"
    have u: "unat ?t = unat t mod 65536 + unat t div 65536" by (rule fold_decreases(1) [OF False])
    have "unat t = (unat t mod 65536 + unat t div 65536) + 65535 * (unat t div 65536)" by simp
    then have "unat t mod 65535 = unat ?t mod 65535" unfolding u by (metis mod_mult_self2)
    moreover have "unat ?t \<noteq> 0" using u False by (simp add: drop_bit_eq_div unat_div flip: unat_eq_0)
    moreover have "t \<noteq> 0" using False by auto
    ultimately show ?thesis using 1 [OF False] False by (simp add: checksum_fold.simps [of t] unat_eq_0)
  qed
qed

lemma words_sum_mem16': "words_sum (mem16 x) = unat (ntoh16 x)"
  using words_sum_mem16 [of "ntoh16 x"] by simp

text \<open>The complement of a folded sum, as a checksum field.\<close>

definition checksum_field :: "u16 \<Rightarrow> nat \<Rightarrow> bool" where
  "checksum_field c s \<longleftrightarrow> (unat (ntoh16 c) + s) mod 65535 = 0 \<and> unat (ntoh16 c) \<noteq> 65535"

lemma checksum_field_unique: "checksum_field c s \<Longrightarrow> checksum_field c' s \<Longrightarrow> c = c'"
proof -
  assume a: "checksum_field c s" "checksum_field c' s"
  have "unat (ntoh16 c) < 65535" "unat (ntoh16 c') < 65535"
    using a unsigned_less [of "ntoh16 c", where ?'a = nat] unsigned_less [of "ntoh16 c'", where ?'a = nat]
    by (auto simp: checksum_field_def)
  moreover have d: "65535 dvd unat (ntoh16 c) + s" "65535 dvd unat (ntoh16 c') + s"
    using a by (auto simp: checksum_field_def mod_0_imp_dvd)
  have "65535 dvd unat (ntoh16 c) - unat (ntoh16 c')" "65535 dvd unat (ntoh16 c') - unat (ntoh16 c)"
    using dvd_diff_nat [OF d] dvd_diff_nat [OF d(2,1)] by simp_all
  ultimately have "unat (ntoh16 c) = unat (ntoh16 c')" by (auto dest!: dvd_imp_le)
  then have "ntoh16 c = ntoh16 c'" by (simp add: word_unat_eq_iff)
  then show "c = c'" by (simp add: ntoh16_def m16.swap_inj)
qed

lemma complement_field:
  assumes "0 < unat t"
  shows "checksum_field (hton16 (ucast (NOT (checksum_fold t)))) (unat t)"
proof -
  let ?f = "checksum_fold t"
  have f: "unat ?f < 65536" "unat ?f mod 65535 = unat t mod 65535" "unat ?f \<noteq> 0"
    using fold_spec [of t] assms by (auto simp: unat_eq_0)
  have "unat (ucast (NOT ?f) :: u16) = 65535 - unat ?f"
  proof -
    have "(ucast (NOT ?f) :: u16) = NOT (ucast ?f)" by (rule bit_word_eqI) (simp add: bit_simps)
    also have "\<dots> = 65535 - ucast ?f" by (simp add: not_eq_complement)
    finally have "(ucast (NOT ?f) :: u16) = 65535 - ucast ?f" .
    moreover have "unat (ucast ?f :: u16) = unat ?f" using f(1) by (simp add: unsigned_ucast_eq take_bit_nat_eq_self)
    ultimately show ?thesis using f(1) by (simp add: unat_sub word_le_nat_alt)
  qed
  moreover have "(65535 - unat ?f + unat t) mod 65535 = (65535 - unat ?f + unat ?f) mod 65535"
    using f(2) by (metis mod_add_right_eq)
  ultimately show ?thesis using f by (simp add: checksum_field_def)
qed

lemma words_sum_ipv4_header:
  "words_sum (ipv4_header_mem (h\<lparr>ip4_checksum := c\<rparr>)) = words_sum (ipv4_header_mem (h\<lparr>ip4_checksum := hton16 0\<rparr>)) + unat (ntoh16 c)"
  by (simp add: ipv4_header_mem_def words_sum_append mem_simps words_sum_mem16')

lemma words_sum_udp_header:
  "words_sum (udp_header_mem (h\<lparr>udp_csum := c\<rparr>)) = words_sum (udp_header_mem (h\<lparr>udp_csum := hton16 0\<rparr>)) + unat (ntoh16 c)"
  by (simp add: udp_header_mem_def words_sum_append mem_simps words_sum_mem16')

lemma ipv4_checksum_field:
  assumes "even (length extra)" and "length extra < 65536" and "ip4_version4_ihl4 h \<noteq> 0"
  obtains c where "ipv4_checksum h extra = Some c" and "checksum_field c (words_sum (ipv4_header_mem h) + words_sum extra)"
proof -
  let ?h = "ipv4_header_mem h"
  have b: "words_sum ?h + words_sum extra < 2 ^ 32"
    using words_sum_bound [of ?h] words_sum_bound [of extra] assms(2) by (simp add: mem_simps)
  have t1: "unat (sum_be16 0 ?h) = words_sum ?h" using sum_be16_words [of ?h 0] b by (simp add: mem_simps)
  have t: "unat (sum_be16 (sum_be16 0 ?h) extra) = words_sum ?h + words_sum extra"
    using sum_be16_words [OF assms(1), of "sum_be16 0 ?h"] t1 b by simp
  have "0 < words_sum ?h" using assms(3) by (simp add: ipv4_header_mem_def unat_gt_0)
  then show ?thesis using that [OF _ complement_field [of "sum_be16 (sum_be16 0 ?h) extra", unfolded t]] assms(1)
    by (simp add: ipv4_checksum_def)
qed

lemma ipv4_checksum_rfc1071_aux:
  assumes "even (length extra)" and "length extra < 65536" and "ip4_version4_ihl4 h \<noteq> 0"
  shows "\<exists>c. ipv4_checksum (h\<lparr>ip4_checksum := hton16 0\<rparr>) extra = Some c
    \<and> (c = ip4_checksum h \<longleftrightarrow> words_sum (ipv4_header_mem h @ extra) mod 65535 = 0 \<and> ntoh16 (ip4_checksum h) \<noteq> 0xFFFF)"
proof -
  let ?h = "h\<lparr>ip4_checksum := hton16 0\<rparr>" and ?s = "words_sum (ipv4_header_mem (h\<lparr>ip4_checksum := hton16 0\<rparr>)) + words_sum extra"
  obtain c where c: "ipv4_checksum ?h extra = Some c" "checksum_field c ?s"
    using ipv4_checksum_field [OF assms(1,2), of ?h] assms(3) by auto
  have "words_sum (ipv4_header_mem h @ extra) = unat (ntoh16 (ip4_checksum h)) + ?s"
    using words_sum_ipv4_header [of "ip4_checksum h" h] by (simp add: words_sum_append mem_simps)
  moreover have "ntoh16 (ip4_checksum h) \<noteq> 0xFFFF \<longleftrightarrow> unat (ntoh16 (ip4_checksum h)) \<noteq> 65535"
    by (simp add: word_unat_eq_iff)
  ultimately have "words_sum (ipv4_header_mem h @ extra) mod 65535 = 0 \<and> ntoh16 (ip4_checksum h) \<noteq> 0xFFFF
      \<longleftrightarrow> checksum_field (ip4_checksum h) ?s" by (simp add: checksum_field_def)
  also have "\<dots> \<longleftrightarrow> c = ip4_checksum h" using c(2) checksum_field_unique by blast
  finally show ?thesis using c(1) by simp
qed

text \<open>
  C30. The IPv4 header checksum is the one of RFC 1071. A packet's checksum field equals the value
  that \<open>ipv4_checksum\<close> computes over the header, with that field zero, and the options, exactly when
  all words of header and options add up to a multiple of 65535; of the two representations
  of zero, \<open>0xFFFF\<close> is never accepted. The folding loop terminates.
\<close>

theorem ipv4_checksum_rfc1071:
  assumes "even (length extra)" and "length extra < 65536" and "ip4_version4_ihl4 h \<noteq> 0"
  shows "ipv4_checksum (h\<lparr>ip4_checksum := hton16 0\<rparr>) extra = Some (ip4_checksum h)
    \<longleftrightarrow> words_sum (ipv4_header_mem h @ extra) mod 65535 = 0 \<and> ntoh16 (ip4_checksum h) \<noteq> 0xFFFF"
  using ipv4_checksum_rfc1071_aux [OF assms] by auto

definition example_ipv4 :: ipv4_header where
  "example_ipv4 = \<lparr>ip4_version4_ihl4 = 0x45, ip4_ds = 0, ip4_total_length = hton16 0x73, ip4_identification = 0,
     ip4_flags3_fragmentoffset13 = hton16 0x4000, ip4_ttl = 64, ip4_protocol = 17, ip4_checksum = hton16 0xB861,
     ip4_source_address = hton32 0xC0A80001, ip4_destination_address = hton32 0xC0A800C7\<rparr>"

theorem ipv4_checksum_rfc1071_witness:
  "ipv4_checksum (example_ipv4\<lparr>ip4_checksum := hton16 0\<rparr>) [] = Some (hton16 0xB861)"
proof -
  have "words_sum (ipv4_header_mem example_ipv4 @ []) mod 65535 = 0 \<and> ntoh16 (ip4_checksum example_ipv4) \<noteq> 0xFFFF"
    by (simp add: example_ipv4_def ipv4_header_mem_def m16.mem_swap m32.mem_swap) (simp add: mem16_def mem32_def)
  then show ?thesis using ipv4_checksum_rfc1071 [of "[]" example_ipv4] by (simp add: example_ipv4_def)
qed

lemma IPV4_GET_IHL_bound: "IPV4_GET_IHL h < 16"
proof -
  have "(0x0F :: byte) = mask 4" by (simp add: mask_eq_exp_minus_1)
  then have "IPV4_GET_IHL h = unat (ip4_version4_ihl4 h) mod 16"
    unfolding IPV4_GET_IHL_def by (simp only: flip: take_bit_eq_mask) (simp add: take_bit_eq_mod unat_mod)
  then show ?thesis by simp
qed

lemma ipv4_check_result:
  "\<exists>r. ipv4_check data = Some r \<and> (r = Some (h, payload) \<longleftrightarrow>
     20 \<le> length data \<and> h = ipv4_header_of data \<and> IPV4_GET_VERSION h = 4
     \<and> 20 \<le> IPV4_GET_IHL h * 4 \<and> IPV4_GET_IHL h * 4 \<le> unat (ntoh16 (ip4_total_length h))
     \<and> unat (ntoh16 (ip4_total_length h)) \<le> length data
     \<and> words_sum (take (IPV4_GET_IHL h * 4) data) mod 65535 = 0 \<and> ntoh16 (ip4_checksum h) \<noteq> 0xFFFF
     \<and> payload = segment data (IPV4_GET_IHL h * 4) (unat (ntoh16 (ip4_total_length h)) - IPV4_GET_IHL h * 4))"
proof -
  let ?h = "ipv4_header_of data"
  let ?hl = "IPV4_GET_IHL ?h * 4" and ?tl = "unat (ntoh16 (ip4_total_length ?h))"
  show ?thesis
  proof (cases "20 \<le> length data \<and> IPV4_GET_VERSION ?h = 4 \<and> 20 \<le> ?hl \<and> ?hl \<le> ?tl \<and> ?tl \<le> length data")
    case False
    then show ?thesis by (auto simp: ipv4_check_def Let_def not_le)
  next
    case True
    let ?extra = "segment data 20 (?hl - 20)"
    have v: "ip4_version4_ihl4 ?h \<noteq> 0" using True by (auto simp: IPV4_GET_VERSION_def)
    have e: "even (length ?extra)" "length ?extra < 65536" using True IPV4_GET_IHL_bound [of ?h] by simp_all
    have "take ?hl data = ipv4_header_mem ?h @ ?extra"
      using take_add [of 20 "?hl - 20" data] True by (simp add: ipv4_header_mem_of segment_def)
    with ipv4_checksum_rfc1071_aux [OF e v]
    obtain c where c: "ipv4_checksum (?h\<lparr>ip4_checksum := hton16 0\<rparr>) ?extra = Some c"
      "c = ip4_checksum ?h \<longleftrightarrow> words_sum (take ?hl data) mod 65535 = 0 \<and> ntoh16 (ip4_checksum ?h) \<noteq> 0xFFFF" by auto
    then show ?thesis using True by (auto simp: ipv4_check_def Let_def)
  qed
qed

text \<open>
  C31. \<open>ipv4_check\<close> fails no assertion on any data, and accepts it exactly when the header is
  complete and of version 4, the header length (at least 20) and the total length lie within the
  data in this order, and the words of header and options add up to a multiple of 65535 with a
  checksum field other than \<open>0xFFFF\<close>. The payload it returns is the part of the data between the
  header and the total length.
\<close>

theorem ipv4_check_exact:
  "\<exists>r. ipv4_check data = Some r \<and> (r = Some (h, payload) \<longleftrightarrow>
     20 \<le> length data \<and> h = ipv4_header_of data \<and> IPV4_GET_VERSION h = 4
     \<and> 20 \<le> IPV4_GET_IHL h * 4 \<and> IPV4_GET_IHL h * 4 \<le> unat (ntoh16 (ip4_total_length h))
     \<and> unat (ntoh16 (ip4_total_length h)) \<le> length data
     \<and> words_sum (take (IPV4_GET_IHL h * 4) data) mod 65535 = 0 \<and> ntoh16 (ip4_checksum h) \<noteq> 0xFFFF
     \<and> payload = segment data (IPV4_GET_IHL h * 4) (unat (ntoh16 (ip4_total_length h)) - IPV4_GET_IHL h * 4))"
  by (rule ipv4_check_result)

subsection \<open>The UDP checksum\<close>

lemma summer_words:
  "even (length d) \<Longrightarrow> length d < 65536 \<Longrightarrow> \<exists>s. udp_checksum_summer d = Some s \<and> unat s = words_sum d"
  using sum_be16_words [of d 0] words_sum_bound [of d] by (simp add: udp_checksum_summer_def)

lemma words_sum_last_byte:
  assumes "odd (length p)"
  shows "words_sum p = words_sum (butlast p) + words_sum (mem16 (hton16 (push_bit 8 (ucast (last p)))))"
proof -
  have p: "p = butlast p @ [last p]" using assms by (cases p rule: rev_cases) auto
  have "unat (last p) < 256" using unsigned_less [of "last p", where ?'a = nat] by simp
  then have "unat (push_bit 8 (ucast (last p)) :: u16) = 256 * unat (last p)"
    by (simp add: push_bit_eq_mult unat_word_ariths unsigned_ucast_eq take_bit_nat_eq_self)
  moreover have "words_sum p = words_sum (butlast p) + 256 * unat (last p)"
    using words_sum_append [of "butlast p" "[last p]"] assms by (subst p) simp
  ultimately show ?thesis by (simp add: words_sum_mem16)
qed

lemma not_complement_zero: "unat t < 65536 \<Longrightarrow> NOT t \<noteq> (0 :: u32)"
proof
  assume a: "unat t < 65536" and "NOT t = 0"
  then have "t = -1" by (metis bit.compl_zero bit.double_compl)
  then show False using a by (simp add: unsigned_minus_1_eq_mask mask_eq_exp_minus_1)
qed

lemma payload_sum:
  assumes "length payload < 65536" and "unat t + words_sum payload < 2 ^ 32"
  obtains u where "udp_payload_sum t payload = Some u" and "unat u = unat t + words_sum payload"
proof (cases "even (length payload)")
  case True
  then obtain s where "udp_checksum_summer payload = Some s" "unat s = words_sum payload"
    using summer_words assms(1) by blast
  then show ?thesis using True assms(2) that by (simp add: udp_payload_sum_def unat_word_ariths)
next
  case False
  have "length (butlast payload) < 65536" using assms(1) by simp
  then obtain s where s: "udp_checksum_summer (butlast payload) = Some s" "unat s = words_sum (butlast payload)"
    using summer_words [of "butlast payload"] False by auto
  let ?x = "mem16 (hton16 (push_bit 8 (ucast (last payload))))"
  obtain s' where "udp_checksum_summer ?x = Some s'" "unat s' = words_sum ?x"
    using summer_words [of ?x] by (auto simp: mem_simps)
  then show ?thesis using False s assms(2) words_sum_last_byte [OF False] that
    by (simp add: udp_payload_sum_def unat_word_ariths)
qed

lemma checksum_tail_field:
  assumes "length payload < 65536" and "0 < unat t" and "unat t \<le> 65535 * 20"
  obtains c where "udp_checksum_tail t h payload = Some c"
    and "checksum_field c (unat t + words_sum (udp_header_mem h) + words_sum payload)"
proof -
  obtain s where s: "udp_checksum_summer (udp_header_mem h) = Some s" "unat s = words_sum (udp_header_mem h)"
    using summer_words [of "udp_header_mem h"] by (auto simp: mem_simps)
  have b: "unat t + words_sum (udp_header_mem h) + words_sum payload < 2 ^ 32"
    using words_sum_bound [of "udp_header_mem h"] words_sum_bound [of payload] assms by (simp add: mem_simps)
  then have ts: "unat (t + s) = unat t + words_sum (udp_header_mem h)" using s(2) by (simp add: unat_word_ariths)
  obtain u where u: "udp_payload_sum (t + s) payload = Some u" "unat u = unat (t + s) + words_sum payload"
    using payload_sum [OF assms(1), of "t + s"] b ts by auto
  have "udp_checksum_tail t h payload = Some (hton16 (ucast (NOT (checksum_fold u))))"
    using u(1) not_complement_zero [of "checksum_fold u"] fold_spec [of u] by (simp add: udp_checksum_tail_def s(1))
  then show ?thesis using that complement_field [of u] u(2) ts assms(2) by simp
qed

text \<open>The pseudo headers of RFC 768 and RFC 8200, in network byte order.\<close>

definition udp_pseudo :: "u32 \<Rightarrow> u32 \<Rightarrow> nat \<Rightarrow> bytes" where
  "udp_pseudo src dst len = mem32 src @ mem32 dst @ mem16 (hton16 17) @ mem16 (hton16 (of_nat len))"

definition udp6_pseudo :: "bytes \<Rightarrow> bytes \<Rightarrow> nat \<Rightarrow> bytes" where
  "udp6_pseudo src dst len = src @ dst @ mem32 (hton32 (of_nat len)) @ mem32 (hton32 17)"

lemma udp_checksum_field:
  assumes "length payload \<le> 65527"
  obtains c where "udp_checksum h payload src dst = Some c"
    and "checksum_field c (words_sum (udp_pseudo src dst (8 + length payload)) + words_sum (udp_header_mem h) + words_sum payload)"
proof -
  let ?p = "mem16 (hton16 (of_nat IPV4_PROTOCOL_UDP))" and ?l = "mem16 (hton16 (of_nat (8 + length payload)))"
  obtain s1 s2 s3 s4 where s: "udp_checksum_summer (mem32 src) = Some s1" "unat s1 = words_sum (mem32 src)"
    "udp_checksum_summer (mem32 dst) = Some s2" "unat s2 = words_sum (mem32 dst)"
    "udp_checksum_summer ?p = Some s3" "unat s3 = words_sum ?p" "udp_checksum_summer ?l = Some s4" "unat s4 = words_sum ?l"
    using summer_words [of "mem32 src"] summer_words [of "mem32 dst"] summer_words [of ?p] summer_words [of ?l]
    by (auto simp: mem_simps)
  let ?t = "s1 + s2 + s3 + s4"
  have w: "words_sum (udp_pseudo src dst (8 + length payload)) = words_sum (mem32 src) + words_sum (mem32 dst) + words_sum ?p + words_sum ?l"
    by (simp add: udp_pseudo_def words_sum_append mem_simps IPV4_PROTOCOL_UDP_def)
  have b: "words_sum (udp_pseudo src dst (8 + length payload)) \<le> 65535 * 6"
    using words_sum_bound [of "udp_pseudo src dst (8 + length payload)"] by (simp add: udp_pseudo_def mem_simps)
  have t: "unat ?t = words_sum (udp_pseudo src dst (8 + length payload))"
    unfolding w using b s w by (simp add: unat_word_ariths)
  have "0 < unat ?t" unfolding t w by (simp add: words_sum_mem16 IPV4_PROTOCOL_UDP_def)
  then obtain c where "udp_checksum_tail ?t h payload = Some c"
    "checksum_field c (unat ?t + words_sum (udp_header_mem h) + words_sum payload)"
    using checksum_tail_field [of payload ?t h] assms b t by auto
  then show ?thesis using that s t by (simp add: udp_checksum_def)
qed

lemma udp_ip6_checksum_field:
  assumes "length payload \<le> 65527" and "length src = 16" and "length dst = 16"
  obtains c where "udp_ip6_checksum h payload src dst = Some c"
    and "checksum_field c (words_sum (udp6_pseudo src dst (8 + length payload)) + words_sum (udp_header_mem h) + words_sum payload)"
proof -
  let ?p = "mem32 (hton32 (of_nat IPV6_NEXT_UDP))" and ?l = "mem32 (hton32 (of_nat (8 + length payload)))"
  obtain s1 s2 s3 s4 where s: "udp_checksum_summer src = Some s1" "unat s1 = words_sum src"
    "udp_checksum_summer dst = Some s2" "unat s2 = words_sum dst"
    "udp_checksum_summer ?l = Some s3" "unat s3 = words_sum ?l" "udp_checksum_summer ?p = Some s4" "unat s4 = words_sum ?p"
    using summer_words [of src] summer_words [of dst] summer_words [of ?p] summer_words [of ?l] assms
    by (auto simp: mem_simps)
  let ?t = "s1 + s2 + s3 + s4"
  have w: "words_sum (udp6_pseudo src dst (8 + length payload)) = words_sum src + words_sum dst + words_sum ?l + words_sum ?p"
    using assms by (simp add: udp6_pseudo_def words_sum_append mem_simps IPV6_NEXT_UDP_def)
  have b: "words_sum (udp6_pseudo src dst (8 + length payload)) \<le> 65535 * 20"
    using words_sum_bound [of "udp6_pseudo src dst (8 + length payload)"] assms by (simp add: udp6_pseudo_def mem_simps)
  have t: "unat ?t = words_sum (udp6_pseudo src dst (8 + length payload))"
    unfolding w using b s w by (simp add: unat_word_ariths)
  have "words_sum ?p = 17" by (simp add: IPV6_NEXT_UDP_def m32.mem_swap) (simp add: mem32_def)
  then have "0 < unat ?t" unfolding t w by simp
  then obtain c where "udp_checksum_tail ?t h payload = Some c"
    "checksum_field c (unat ?t + words_sum (udp_header_mem h) + words_sum payload)"
    using checksum_tail_field [of payload ?t h] assms b t by auto
  then show ?thesis using that s t by (simp add: udp_ip6_checksum_def)
qed

lemma field_zero_iff: "checksum_field c s \<Longrightarrow> c = 0 \<longleftrightarrow> s mod 65535 = 0"
proof
  assume c: "checksum_field c s"
  have z: "ntoh16 0 = 0" by code_simp
  show "s mod 65535 = 0" if "c = 0" using c that z by (simp add: checksum_field_def)
  show "c = 0" if "s mod 65535 = 0"
    using checksum_field_unique [OF c, of 0] that z by (simp add: checksum_field_def)
qed

lemma datagram_sum:
  assumes "even (length pseudo)"
  shows "words_sum (pseudo @ udp_header_mem (h\<lparr>udp_csum := c\<rparr>) @ payload)
    = unat (ntoh16 c) + (words_sum pseudo + words_sum (udp_header_mem (h\<lparr>udp_csum := hton16 0\<rparr>)) + words_sum payload)"
  using assms words_sum_udp_header [of c h] by (simp add: words_sum_append mem_simps)

lemma length_pseudo [mem_simps]:
  "length (udp_pseudo src dst len) = 12" "length (udp6_pseudo src6 dst6 len) = length src6 + length dst6 + 8"
  by (simp_all add: udp_pseudo_def udp6_pseudo_def mem_simps)

text \<open>
  C32. The UDP checksum over IPv4 and over IPv6. For every header and every payload that fits a
  datagram, the checksum is computed without failing an assertion, and with it in the header the
  words of pseudo header, header and payload add up to a multiple of 65535, which is what a
  receiver checks. The checksum is never \<open>0xFFFF\<close>: where the sum without it is a multiple of
  65535 it is 0, the value that RFC 768 reserves for \<open>no checksum\<close>.
\<close>

theorem udp_checksum_valid:
  assumes "length payload \<le> 65527" and "length src6 = 16" and "length dst6 = 16"
  shows "(\<exists>c. udp_checksum (h\<lparr>udp_csum := hton16 0\<rparr>) payload src dst = Some c
      \<and> words_sum (udp_pseudo src dst (8 + length payload) @ udp_header_mem (h\<lparr>udp_csum := c\<rparr>) @ payload) mod 65535 = 0
      \<and> ntoh16 c \<noteq> 0xFFFF \<and> (c = 0 \<longleftrightarrow> words_sum (udp_pseudo src dst (8 + length payload)
            @ udp_header_mem (h\<lparr>udp_csum := hton16 0\<rparr>) @ payload) mod 65535 = 0))
    \<and> (\<exists>c. udp_ip6_checksum (h\<lparr>udp_csum := hton16 0\<rparr>) payload src6 dst6 = Some c
      \<and> words_sum (udp6_pseudo src6 dst6 (8 + length payload) @ udp_header_mem (h\<lparr>udp_csum := c\<rparr>) @ payload) mod 65535 = 0
      \<and> ntoh16 c \<noteq> 0xFFFF \<and> (c = 0 \<longleftrightarrow> words_sum (udp6_pseudo src6 dst6 (8 + length payload)
            @ udp_header_mem (h\<lparr>udp_csum := hton16 0\<rparr>) @ payload) mod 65535 = 0))"
proof -
  let ?h = "h\<lparr>udp_csum := hton16 0\<rparr>"
  have ff: "ntoh16 c \<noteq> 0xFFFF \<longleftrightarrow> unat (ntoh16 c) \<noteq> 65535" for c by (simp add: word_unat_eq_iff)
  have use: "words_sum (pseudo @ udp_header_mem (h\<lparr>udp_csum := c\<rparr>) @ payload) mod 65535 = 0 \<and> ntoh16 c \<noteq> 0xFFFF
      \<and> (c = 0 \<longleftrightarrow> words_sum (pseudo @ udp_header_mem ?h @ payload) mod 65535 = 0)"
    if "checksum_field c (words_sum pseudo + words_sum (udp_header_mem ?h) + words_sum payload)" "even (length pseudo)"
    for pseudo c
    unfolding ff using that field_zero_iff [OF that(1)] datagram_sum [OF that(2), of c] datagram_sum [OF that(2), of "hton16 0"]
    by (simp add: checksum_field_def)
  obtain c4 where c4: "udp_checksum ?h payload src dst = Some c4"
    "checksum_field c4 (words_sum (udp_pseudo src dst (8 + length payload)) + words_sum (udp_header_mem ?h) + words_sum payload)"
    by (rule udp_checksum_field [OF assms(1)])
  obtain c6 where c6: "udp_ip6_checksum ?h payload src6 dst6 = Some c6"
    "checksum_field c6 (words_sum (udp6_pseudo src6 dst6 (8 + length payload)) + words_sum (udp_header_mem ?h) + words_sum payload)"
    by (rule udp_ip6_checksum_field [OF assms])
  show ?thesis using c4(1) c6(1) use [OF c4(2)] use [OF c6(2)] assms(2,3) by (simp add: mem_simps)
qed

definition example_udp :: udp_header where
  "example_udp = \<lparr>udp_source_port = hton16 1, udp_dest_port = hton16 2, udp_length = hton16 10, udp_csum = hton16 0\<rparr>"

theorem udp_checksum_valid_witness:
  "udp_checksum (example_udp\<lparr>udp_csum := hton16 0\<rparr>) [0xFF, 0xD7] (hton32 0) (hton32 0) = Some 0"
proof -
  have "words_sum (udp_pseudo (hton32 0) (hton32 0) (8 + length [0xFF, 0xD7 :: byte])
      @ udp_header_mem (example_udp\<lparr>udp_csum := hton16 0\<rparr>) @ [0xFF, 0xD7]) mod 65535 = 0"
    by (simp add: udp_pseudo_def udp_header_mem_def example_udp_def m16.mem_swap m32.mem_swap)
       (simp add: mem16_def mem32_def)
  then show ?thesis
    using udp_checksum_valid [of "[0xFF, 0xD7]" "replicate 16 0" "replicate 16 0" example_udp "hton32 0" "hton32 0"] by auto
qed

text \<open>
  What the checks make of well-formed input: the header and the payload that were stored, without
  the data that follows the datagram.
\<close>

lemma udp_check_image:
  assumes "unat (ntoh16 (udp_length h)) = 8 + length payload"
  shows "udp_check (udp_header_mem h @ payload @ stray) = Some (h, payload)"
  using assms by (simp add: udp_check_def udp_header_of_mem mem_simps Let_def)

lemma udp_check_exact:
  "udp_check d = Some (h, payload) \<longleftrightarrow> 8 \<le> length d \<and> h = udp_header_of d
     \<and> 8 \<le> unat (ntoh16 (udp_length h)) \<and> unat (ntoh16 (udp_length h)) \<le> length d
     \<and> payload = segment d 8 (unat (ntoh16 (udp_length h)) - 8)"
  by (auto simp: udp_check_def Let_def segment_def)

lemma ipv6_check_image:
  assumes "drop_bit 4 (ip6_version4_tc4 h) = 6" and "length (ip6_source_address h) = 16" and "length (ip6_destination_address h) = 16"
    and "unat (ntoh16 (ip6_payload_length h)) = length payload"
  shows "ipv6_check (ipv6_header_mem h @ payload @ stray) = Some (h, payload)"
  using assms by (simp add: ipv6_check_def ipv6_header_of_mem mem_simps Let_def byte_id segment_def)

lemma ipv4_check_image:
  assumes "ip4_version4_ihl4 h = IPV4_MAKE_VERSION_IHL 20" and "unat (ntoh16 (ip4_total_length h)) = 20 + length payload"
    and "ipv4_checksum (h\<lparr>ip4_checksum := hton16 0\<rparr>) [] = Some (ip4_checksum h)"
  shows "ipv4_check (ipv4_header_mem h @ payload @ stray) = Some (Some (h, payload))"
proof -
  have "IPV4_GET_VERSION h = 4" "IPV4_GET_IHL h = 5"
    by (simp_all add: IPV4_GET_VERSION_def IPV4_GET_IHL_def assms(1) IPV4_MAKE_VERSION_IHL_def)
  then show ?thesis using assms(2,3)
    by (simp add: ipv4_check_def ipv4_header_of_mem mem_simps Let_def segment_def)
qed

end
