(* ===== verification/Addr.thy ===== *)
theory Addr
  imports ByteOrder "HOL-Library.List_Lexorder"
begin

section \<open>Addresses\<close>

text \<open>
  \<open>system/BAddr.h\<close>: IP addresses and socket addresses, their order, and their text form. The tagged
  unions are datatypes, so that the assertions on the tag hold by construction. IP addresses and
  ports are in network byte order, as in the code. \<open>getaddrinfo\<close> is a parameter of the functions
  that call it: it gets the address family (\<open>True\<close> for IPv6), whether only numeric addresses are
  allowed, and the text, and returns the bytes of the first address.
\<close>

datatype BIPAddr = BIPAddr_None | BIPAddr_IPv4 u32 | BIPAddr_IPv6 bytes

datatype BAddr =
    BAddr_None
  | BAddr_IPv4 u32 u16
  | BAddr_IPv6 bytes u16
  | BAddr_Packet u16 int int int bytes

abbreviation (input) BADDR_MAX_ADDR_LEN :: nat where "BADDR_MAX_ADDR_LEN \<equiv> 128"

subsection \<open>IP addresses\<close>

definition BIPAddr_InitInvalid :: BIPAddr where "BIPAddr_InitInvalid = BIPAddr_None"
definition BIPAddr_InitIPv4 :: "u32 \<Rightarrow> BIPAddr" where "BIPAddr_InitIPv4 ip = BIPAddr_IPv4 ip"
definition BIPAddr_InitIPv6 :: "bytes \<Rightarrow> BIPAddr" where "BIPAddr_InitIPv6 ip = BIPAddr_IPv6 (take 16 ip)"

definition BIPAddr_IsInvalid :: "BIPAddr \<Rightarrow> bool" where
  "BIPAddr_IsInvalid addr = (addr = BIPAddr_None)"

type_synonym resolver = "bool \<Rightarrow> bool \<Rightarrow> string \<Rightarrow> bytes option"

definition BIPAddr_Resolve :: "resolver \<Rightarrow> string \<Rightarrow> bool \<Rightarrow> BIPAddr option" where
  "BIPAddr_Resolve getaddrinfo str noresolve =
     (let ipv6 = (length str \<ge> 1 \<and> str ! 0 = CHR ''['' \<and> str ! (length str - 1) = CHR '']'');
          addr_str = (if ipv6 then take (length str - 2) (drop 1 str) else str)
      in if length addr_str > BADDR_MAX_ADDR_LEN then None
         else map_option (\<lambda>b. if ipv6 then BIPAddr_IPv6 (take 16 b) else BIPAddr_IPv4 (badvpn_read_le32 b))
                (getaddrinfo ipv6 noresolve addr_str))"

fun BIPAddr_Compare :: "BIPAddr \<Rightarrow> BIPAddr \<Rightarrow> bool" where
  "BIPAddr_Compare (BIPAddr_IPv4 a) (BIPAddr_IPv4 b) = (a = b)"
| "BIPAddr_Compare (BIPAddr_IPv6 a) (BIPAddr_IPv6 b) = (a = b)"
| "BIPAddr_Compare _ _ = False"

subsection \<open>Socket addresses\<close>

definition BAddr_MakeNone :: BAddr where "BAddr_MakeNone = BAddr_None"
definition BAddr_MakeIPv4 :: "u32 \<Rightarrow> u16 \<Rightarrow> BAddr" where "BAddr_MakeIPv4 ip port = BAddr_IPv4 ip port"
definition BAddr_MakeIPv6 :: "bytes \<Rightarrow> u16 \<Rightarrow> BAddr" where "BAddr_MakeIPv6 ip port = BAddr_IPv6 (take 16 ip) port"

fun BAddr_MakeFromIpaddrAndPort :: "BIPAddr \<Rightarrow> u16 \<Rightarrow> BAddr" where
  "BAddr_MakeFromIpaddrAndPort BIPAddr_None port = BAddr_MakeNone"
| "BAddr_MakeFromIpaddrAndPort (BIPAddr_IPv4 ip) port = BAddr_MakeIPv4 ip port"
| "BAddr_MakeFromIpaddrAndPort (BIPAddr_IPv6 ip) port = BAddr_MakeIPv6 ip port"

fun BAddr_GetPort :: "BAddr \<Rightarrow> u16 option" where
  "BAddr_GetPort (BAddr_IPv4 ip port) = Some port"
| "BAddr_GetPort (BAddr_IPv6 ip port) = Some port"
| "BAddr_GetPort _ = None"

fun BAddr_GetIPAddr :: "BAddr \<Rightarrow> BIPAddr" where
  "BAddr_GetIPAddr (BAddr_IPv4 ip port) = BIPAddr_InitIPv4 ip"
| "BAddr_GetIPAddr (BAddr_IPv6 ip port) = BIPAddr_InitIPv6 ip"
| "BAddr_GetIPAddr _ = BIPAddr_InitInvalid"

fun BAddr_SetPort :: "BAddr \<Rightarrow> u16 \<Rightarrow> BAddr option" where
  "BAddr_SetPort (BAddr_IPv4 ip _) port = Some (BAddr_IPv4 ip port)"
| "BAddr_SetPort (BAddr_IPv6 ip _) port = Some (BAddr_IPv6 ip port)"
| "BAddr_SetPort _ port = None"

definition BAddr_InitPacket :: "u16 \<Rightarrow> int \<Rightarrow> int \<Rightarrow> int \<Rightarrow> bytes \<Rightarrow> BAddr option" where
  "BAddr_InitPacket phys_proto interface_index header_type packet_type phys_addr = do {
     ASSERT (header_type = 1);
     ASSERT (1 \<le> packet_type \<and> packet_type \<le> 5);
     Some (BAddr_Packet phys_proto interface_index header_type packet_type (take 6 phys_addr)) }"

definition BAddr_IsInvalid :: "BAddr \<Rightarrow> bool" where
  "BAddr_IsInvalid addr = (addr = BAddr_None)"

fun BAddr_Compare :: "BAddr \<Rightarrow> BAddr \<Rightarrow> bool" where
  "BAddr_Compare (BAddr_IPv4 ip1 port1) (BAddr_IPv4 ip2 port2) = (ip1 = ip2 \<and> port1 = port2)"
| "BAddr_Compare (BAddr_IPv6 ip1 port1) (BAddr_IPv6 ip2 port2) = (ip1 = ip2 \<and> port1 = port2)"
| "BAddr_Compare _ _ = False"

fun BAddr_type :: "BAddr \<Rightarrow> int" where
  "BAddr_type BAddr_None = 0"
| "BAddr_type (BAddr_IPv4 _ _) = 1"
| "BAddr_type (BAddr_IPv6 _ _) = 2"
| "BAddr_type (BAddr_Packet _ _ _ _ _) = 5"

text \<open>The library's \<open>memcmp\<close>, of which the code uses the sign of the result.\<close>

fun memcmp :: "bytes \<Rightarrow> bytes \<Rightarrow> int" where
  "memcmp (a # x) (b # y) = (if a < b then -1 else if a > b then 1 else memcmp x y)"
| "memcmp _ _ = 0"

definition is_ip_addr :: "BAddr \<Rightarrow> bool" where
  "is_ip_addr a = (BAddr_type a = 1 \<or> BAddr_type a = 2)"

definition BAddr_CompareOrder :: "BAddr \<Rightarrow> BAddr \<Rightarrow> int" where
  "BAddr_CompareOrder addr1 addr2 =
     (let cmp = B_COMPARE (BAddr_type addr1) (BAddr_type addr2) in
      if cmp \<noteq> 0 then cmp
      else case (addr1, addr2) of
        (BAddr_None, _) \<Rightarrow> 0
      | (BAddr_IPv4 ip1 port1, BAddr_IPv4 ip2 port2) \<Rightarrow>
          (let cmp = B_COMPARE (ntoh32 ip1) (ntoh32 ip2) in
           if cmp \<noteq> 0 then cmp else B_COMPARE (ntoh16 port1) (ntoh16 port2))
      | (BAddr_IPv6 ip1 port1, BAddr_IPv6 ip2 port2) \<Rightarrow>
          (let cmp = memcmp ip1 ip2 in
           if cmp \<noteq> 0 then B_COMPARE cmp 0 else B_COMPARE (ntoh16 port1) (ntoh16 port2))
      | _ \<Rightarrow> 0)"

subsection \<open>Text form\<close>

definition digit :: "nat \<Rightarrow> char" where
  "digit d = (if d < 10 then char_of (48 + d) else char_of (87 + d))"

text \<open>The conversions \<open>%u\<close> and \<open>%x\<close> of \<open>sprintf\<close>: the digits of a number to the base 10 or 16.\<close>

fun print_base :: "nat \<Rightarrow> nat \<Rightarrow> string" where
  "print_base b n = (if n < b \<or> b < 2 then [digit n] else print_base b (n div b) @ [digit (n mod b)])"

declare print_base.simps [simp del]

definition print_int :: "int \<Rightarrow> string" where
  "print_int i = (if i < 0 then CHR ''-'' # print_base 10 (nat (- i)) else print_base 10 (nat i))"

definition print_hex2 :: "byte \<Rightarrow> string" where
  "print_hex2 b = (if unat b < 16 then [CHR ''0'', digit (unat b)] else print_base 16 (unat b))"

fun join :: "char \<Rightarrow> string list \<Rightarrow> string" where
  "join c [] = []"
| "join c [s] = s"
| "join c (s # ss) = s @ c # join c ss"

fun words_of :: "bytes \<Rightarrow> u16 list" where
  "words_of (a # b # r) = badvpn_read_be16 [a, b] # words_of r"
| "words_of _ = []"

fun BIPAddr_Print :: "BIPAddr \<Rightarrow> string" where
  "BIPAddr_Print BIPAddr_None = ''(none)''"
| "BIPAddr_Print (BIPAddr_IPv4 ip) = join CHR ''.'' (map (\<lambda>b. print_base 10 (unat b)) (mem32 ip))"
| "BIPAddr_Print (BIPAddr_IPv6 ip) = join CHR '':'' (map (\<lambda>w. print_base 16 (unat w)) (words_of ip))"

text \<open>\<open>strtol(s, &err, 10)\<close>: the number and the text after it. The texts have at most five
  characters, so that the number is in range.\<close>

definition is_space :: "char \<Rightarrow> bool" where
  "is_space c = (of_char c = (32 :: nat) \<or> 9 \<le> (of_char c :: nat) \<and> (of_char c :: nat) \<le> 13)"

definition is_digit :: "char \<Rightarrow> bool" where
  "is_digit c = (48 \<le> (of_char c :: nat) \<and> (of_char c :: nat) \<le> 57)"

fun strtol_digits :: "nat \<Rightarrow> string \<Rightarrow> nat \<times> string" where
  "strtol_digits n (c # s) = (if is_digit c then strtol_digits (10 * n + (of_char c - 48)) s else (n, c # s))"
| "strtol_digits n [] = (n, [])"

definition strtol :: "string \<Rightarrow> int \<times> string" where
  "strtol s =
     (let t = dropWhile is_space s;
          neg = (take 1 t = ''-'');
          u = (if neg \<or> take 1 t = ''+'' then drop 1 t else t)
      in if u = [] \<or> \<not> is_digit (u ! 0) then (0, s)
         else let (n, rest) = strtol_digits 0 u in (if neg then - int n else int n, rest))"

definition parse_port :: "string \<Rightarrow> u16 option" where
  "parse_port port_str =
     (if length port_str \<ge> 6 then None
      else let (conv_res, err) = strtol port_str in
        if port_str = [] \<or> err \<noteq> [] then None
        else if conv_res < 0 \<or> conv_res > UINT16_MAX then None
        else Some (hton16 (of_int conv_res)))"

text \<open>
  The first part of \<open>BAddr_Parse2\<close>: whether the address is an IPv6 address, its text, and the
  text of the port.
\<close>

definition parse_split :: "string \<Rightarrow> (bool \<times> string \<times> string) option" where
  "parse_split str =
     (if str ! 0 = CHR ''['' then
        let i = 1 + length (takeWhile (\<lambda>c. c \<noteq> CHR '']'') (drop 1 str)) in
        if i \<ge> length str then None
        else if i + 1 \<ge> length str \<or> str ! (i + 1) \<noteq> CHR '':'' then None
        else Some (True, take (i - 1) (drop 1 str), drop (i + 2) str)
      else
        let i = length (takeWhile (\<lambda>c. c \<noteq> CHR '':'') str) in
        if i \<ge> length str then None
        else Some (False, take i str, drop (i + 1) str))"

definition BAddr_Parse2 :: "resolver \<Rightarrow> string \<Rightarrow> nat option \<Rightarrow> bool \<Rightarrow> (BAddr \<times> string) option" where
  "BAddr_Parse2 getaddrinfo str name_len noresolve =
     (if length str < 1 \<or> length str > 1000 then None
      else do {
        (ipv6, addr_str, port_str) \<leftarrow> parse_split str;
        if length addr_str \<ge> 128 then None
        else do {
          port \<leftarrow> parse_port port_str;
          b \<leftarrow> getaddrinfo ipv6 noresolve addr_str;
          let addr = (if ipv6 then BAddr_IPv6 (take 16 b) port else BAddr_IPv4 (badvpn_read_le32 b) port);
          case name_len of
            Some n \<Rightarrow> (if length addr_str \<ge> n then None else Some (addr, addr_str))
          | None \<Rightarrow> Some (addr, addr_str) } })"

definition BAddr_Parse :: "resolver \<Rightarrow> string \<Rightarrow> nat option \<Rightarrow> (BAddr \<times> string) option" where
  "BAddr_Parse getaddrinfo str name_len = BAddr_Parse2 getaddrinfo str name_len False"

fun BAddr_Print :: "BAddr \<Rightarrow> string" where
  "BAddr_Print BAddr_None = ''(none)''"
| "BAddr_Print (BAddr_IPv4 ip port) = BIPAddr_Print (BIPAddr_InitIPv4 ip) @ CHR '':'' # print_base 10 (unat (ntoh16 port))"
| "BAddr_Print (BAddr_IPv6 ip port) = BIPAddr_Print (BIPAddr_InitIPv6 ip) @ CHR '':'' # print_base 10 (unat (ntoh16 port))"
| "BAddr_Print (BAddr_Packet phys_proto interface_index header_type packet_type phys_addr) =
     ''proto='' @ print_base 10 (unat phys_proto) @ '',ifindex='' @ print_int interface_index @ '',htype=eth,ptype=''
     @ print_int packet_type @ '',addr='' @ join CHR '':'' (map print_hex2 (take 6 phys_addr))"

subsection \<open>The order\<close>

text \<open>A comparison that reads the order of a linearly ordered image is a comparator.\<close>

lemma comparator_inj:
  fixes f :: "'k \<Rightarrow> 'o::linorder"
  assumes "inj_on f {a. ok a}" and "\<And>a b. ok a \<Longrightarrow> ok b \<Longrightarrow> cmp a b = B_COMPARE (f a) (f b)"
  shows "comparator cmp ok"
proof
  fix a b c
  assume ab: "ok a" "ok b"
  show "cmp a b \<in> {-1, 0, 1}" using assms(2) [OF ab] by (simp add: B_COMPARE_def)
  show "cmp a b = 0 \<longleftrightarrow> a = b" using assms(2) [OF ab] assms(1) ab by (auto simp: B_COMPARE_def inj_on_def)
  show "cmp a b = - cmp b a" using assms(2) [OF ab] assms(2) [OF ab(2,1)] by (auto simp: B_COMPARE_def)
  show "cmp a c = -1" if "ok c" "cmp a b = -1" "cmp b c = -1"
    using that assms(2) [OF ab] assms(2) [OF ab(2) that(1)] assms(2) [OF ab(1) that(1)]
      b_compare.cmp_trans [of "f a" "f b" "f c"] by simp
qed

lemma B_COMPARE_Cons:
  fixes a b :: "'a::linorder"
  shows "B_COMPARE (a # x) (b # y) = (if B_COMPARE a b \<noteq> 0 then B_COMPARE a b else B_COMPARE x y)"
  by (auto simp: B_COMPARE_def)

lemma memcmp_order:
  "length x = length y \<Longrightarrow> B_COMPARE (map unat x @ u) (map unat y @ v) = (if memcmp x y \<noteq> 0 then B_COMPARE (memcmp x y) 0 else B_COMPARE u v)"
proof (induction x y rule: memcmp.induct)
  case (1 a x b y)
  then show ?case by (auto simp: B_COMPARE_def word_less_nat_alt)
qed (auto simp: B_COMPARE_def)

text \<open>The addresses that the order distinguishes: all but those of packet sockets.\<close>

fun addr_ok :: "BAddr \<Rightarrow> bool" where
  "addr_ok (BAddr_Packet _ _ _ _ _) = False"
| "addr_ok (BAddr_IPv6 ip _) = (length ip = 16)"
| "addr_ok _ = True"

fun addr_rank :: "BAddr \<Rightarrow> nat list" where
  "addr_rank BAddr_None = [0]"
| "addr_rank (BAddr_IPv4 ip port) = [1, unat (ntoh32 ip), unat (ntoh16 port)]"
| "addr_rank (BAddr_IPv6 ip port) = 2 # map unat ip @ [unat (ntoh16 port)]"
| "addr_rank (BAddr_Packet _ _ _ _ _) = [5]"

lemma ntoh_inj: "ntoh16 x = ntoh16 y \<longleftrightarrow> x = y" "ntoh32 a = ntoh32 b \<longleftrightarrow> a = b"
  by (simp_all add: ntoh16_def ntoh32_def m16.swap_inj m32.swap_inj)

lemma CompareOrder_rank:
  "addr_ok a \<Longrightarrow> addr_ok b \<Longrightarrow> BAddr_CompareOrder a b = B_COMPARE (addr_rank a) (addr_rank b)"
  by (cases a; cases b)
     (auto simp: BAddr_CompareOrder_def B_COMPARE_Cons memcmp_order Let_def,
      auto simp: B_COMPARE_def word_less_nat_alt word_unat_eq_iff)

lemma addr_rank_inj: "inj_on addr_rank {a. addr_ok a}"
proof (rule inj_onI)
  fix a b assume "a \<in> {a. addr_ok a}" "b \<in> {a. addr_ok a}" "addr_rank a = addr_rank b"
  moreover have "inj (unat :: byte \<Rightarrow> nat)" by (rule injI) (simp add: word_unat_eq_iff)
  ultimately show "a = b"
    by (cases a; cases b) (auto simp: ntoh_inj inj_map_eq_map word_unat_eq_iff [symmetric])
qed

interpretation baddr: comparator BAddr_CompareOrder addr_ok
  by (rule comparator_inj [OF addr_rank_inj CompareOrder_rank])

text \<open>
  C33. \<open>BAddr_CompareOrder\<close> is a total order on the addresses that are kept in trees (all but packet
  addresses), as the trees require: its result is -1, 0 or 1, it is 0 exactly for equal addresses,
  which for IP addresses is what \<open>BAddr_Compare\<close> decides, exchanging the addresses negates it, and it
  is transitive.
\<close>

theorem BAddr_CompareOrder_total:
  assumes "addr_ok a" and "addr_ok b" and "addr_ok c"
  shows "BAddr_CompareOrder a b \<in> {-1, 0, 1} \<and> (BAddr_CompareOrder a b = 0 \<longleftrightarrow> a = b)
    \<and> BAddr_CompareOrder a b = - BAddr_CompareOrder b a
    \<and> (BAddr_CompareOrder a b = -1 \<and> BAddr_CompareOrder b c = -1 \<longrightarrow> BAddr_CompareOrder a c = -1)
    \<and> (a \<noteq> BAddr_None \<longrightarrow> (BAddr_Compare a b \<longleftrightarrow> BAddr_CompareOrder a b = 0))"
proof (intro conjI impI)
  show "BAddr_CompareOrder a b \<in> {-1, 0, 1}" by (rule baddr.cmp_range [OF assms(1,2)])
  show eq: "BAddr_CompareOrder a b = 0 \<longleftrightarrow> a = b" by (rule baddr.cmp_eq [OF assms(1,2)])
  show "BAddr_CompareOrder a b = - BAddr_CompareOrder b a" by (rule baddr.cmp_anti [OF assms(1,2)])
  show "BAddr_CompareOrder a c = -1" if "BAddr_CompareOrder a b = -1 \<and> BAddr_CompareOrder b c = -1"
    using that baddr.cmp_trans [OF assms] by blast
  show "BAddr_Compare a b \<longleftrightarrow> BAddr_CompareOrder a b = 0" if "a \<noteq> BAddr_None"
    unfolding eq using that assms(1) by (cases a; cases b) auto
qed

theorem BAddr_CompareOrder_total_witness:
  "BAddr_CompareOrder (BAddr_IPv4 (hton32 1) (hton16 5)) (BAddr_IPv6 (replicate 16 0) (hton16 2)) = -1"
  using BAddr_CompareOrder_total [of "BAddr_IPv4 (hton32 1) (hton16 5)" "BAddr_IPv6 (replicate 16 0) (hton16 2)" BAddr_None]
  by (simp add: BAddr_CompareOrder_def B_COMPARE_def)

subsection \<open>Printing and parsing\<close>

lemma digit_10: "d < 10 \<Longrightarrow> of_char (digit d) = 48 + d"
  by (simp add: digit_def of_char_of)

lemma is_digit_digit: "d < 10 \<Longrightarrow> is_digit (digit d)"
  by (simp add: is_digit_def digit_10)

lemma print_nonempty: "print_base b n \<noteq> []"
  by (subst print_base.simps) simp

lemma print_digits: "list_all is_digit (print_base 10 n)"
proof (induction "10::nat" n rule: print_base.induct)
  case (1 n)
  show ?case using 1 by (subst print_base.simps) (simp add: is_digit_digit)
qed

lemma strtol_digits_append:
  "list_all is_digit s \<Longrightarrow> strtol_digits m (s @ t) = strtol_digits (fst (strtol_digits m s)) t"
  by (induction s arbitrary: m) auto

lemma strtol_digits_print: "strtol_digits 0 (print_base 10 n) = (n, [])"
proof (induction "10::nat" n rule: print_base.induct)
  case (1 n)
  show ?case
  proof (cases "n < 10")
    case True
    then show ?thesis by (subst print_base.simps) (simp add: is_digit_digit digit_10)
  next
    case False
    then have "strtol_digits 0 (print_base 10 (n div 10) @ [digit (n mod 10)]) = (n, [])"
      using 1 strtol_digits_append [OF print_digits] by (simp add: is_digit_digit digit_10)
    then show ?thesis using False by (subst print_base.simps) simp
  qed
qed

lemma not_space_sign: "is_digit c \<Longrightarrow> \<not> is_space c \<and> c \<noteq> CHR ''-'' \<and> c \<noteq> CHR ''+''"
  by (auto simp: is_digit_def is_space_def)

lemma strtol_print: "strtol (print_base 10 n) = (int n, [])"
proof -
  obtain c s where p: "print_base 10 n = c # s" using print_nonempty [of 10 n] by (cases "print_base 10 n") auto
  have "is_digit c" using print_digits [of n] p by simp
  then show ?thesis using not_space_sign [of c] strtol_digits_print [of n] by (simp add: strtol_def p)
qed

lemma print_length: "n < 10 ^ k \<Longrightarrow> 0 < k \<Longrightarrow> length (print_base 10 n) \<le> k"
proof (induction k arbitrary: n)
  case (Suc k)
  show ?case
  proof (cases "n < 10")
    case False
    have "k \<noteq> 0" using False Suc.prems by (cases k) auto
    moreover have "n div 10 < 10 ^ k" using Suc.prems by (simp add: less_mult_imp_div_less mult.commute)
    ultimately have "length (print_base 10 (n div 10)) \<le> k" using Suc.IH by simp
    then show ?thesis using False by (subst print_base.simps) simp
  qed (subst print_base.simps, simp)
qed simp

lemma parse_port_print: "parse_port (print_base 10 (unat (ntoh16 port))) = Some port"
proof -
  have u: "unat (ntoh16 port) < 65536" using unsigned_less [of "ntoh16 port", where ?'a = nat] by simp
  have "length (print_base 10 (unat (ntoh16 port))) \<le> 5" using print_length [of "unat (ntoh16 port)" 5] u by simp
  moreover have "uint (ntoh16 port) < 65536" using unsigned_less [of "ntoh16 port", where ?'a = int] by simp
  ultimately show ?thesis using print_nonempty [of 10 "unat (ntoh16 port)"] by (simp add: parse_port_def strtol_print)
qed

lemma quad_text:
  obtains c s where "BIPAddr_Print (BIPAddr_IPv4 ip) = c # s" and "is_digit c"
    and "list_all (\<lambda>c. is_digit c \<or> c = CHR ''.'') (c # s)" and "length (c # s) \<le> 15"
proof -
  obtain w x y z where m: "mem32 ip = [w, x, y, z]" using mem32_conv by blast
  have d: "list_all (\<lambda>c. is_digit c \<or> c = CHR ''.'') (print_base 10 n)" for n
    using print_digits [of n] by (simp add: list_all_iff)
  have l: "length (print_base 10 (unat b)) \<le> 3" for b :: byte
    using print_length [of "unat b" 3] unsigned_less [of b, where ?'a = nat] by simp
  obtain c s where p: "print_base 10 (unat w) = c # s" using print_nonempty by (metis list.exhaust)
  have "BIPAddr_Print (BIPAddr_IPv4 ip) = c # (s @ CHR ''.'' # print_base 10 (unat x) @ CHR ''.'' # print_base 10 (unat y)
      @ CHR ''.'' # print_base 10 (unat z))" by (simp add: m p)
  moreover have "is_digit c" using print_digits [of "unat w"] p by simp
  ultimately show ?thesis using that d [of "unat w"] d [of "unat x"] d [of "unat y"] d [of "unat z"]
      l [of w] l [of x] l [of y] l [of z] p by simp
qed

text \<open>
  Printing and parsing an IPv4 socket address. Where \<open>getaddrinfo\<close> maps the dotted quad of an
  address to the address, as it is documented to do for numeric addresses, \<open>BAddr_Parse2\<close> accepts
  what \<open>BAddr_Print\<close> prints for the address with any port, and returns the same address and port,
  and the printed IP address as the name.
\<close>

theorem BAddr_parse_print:
  assumes "getaddrinfo False noresolve (BIPAddr_Print (BIPAddr_IPv4 ip)) = Some (mem32 ip)"
    and "case name_len of None \<Rightarrow> True | Some n \<Rightarrow> 15 < n"
  shows "BAddr_Parse2 getaddrinfo (BAddr_Print (BAddr_IPv4 ip port)) name_len noresolve
    = Some (BAddr_IPv4 ip port, BIPAddr_Print (BIPAddr_IPv4 ip))"
proof -
  obtain c s where q: "BIPAddr_Print (BIPAddr_IPv4 ip) = c # s" "is_digit c"
    "list_all (\<lambda>c. is_digit c \<or> c = CHR ''.'') (c # s)" "length (c # s) \<le> 15"
    by (rule quad_text)
  let ?port = "print_base 10 (unat (ntoh16 port))" and ?q = "c # s"
  have t: "takeWhile (\<lambda>c. c \<noteq> CHR '':'') (?q @ CHR '':'' # ?port) = ?q"
    using q(3) by (subst takeWhile_append2) (auto simp: list_all_iff is_digit_def)
  have "c \<noteq> CHR ''[''" using q(2) by (auto simp: is_digit_def)
  then have "parse_split (?q @ CHR '':'' # ?port) = Some (False, ?q, ?port)"
    using t by (simp add: parse_split_def Let_def)
  moreover have "length ?port \<le> 5"
    using print_length [of "unat (ntoh16 port)" 5] unsigned_less [of "ntoh16 port", where ?'a = nat] by simp
  moreover have "badvpn_read_le32 (mem32 ip) = ip" by (rule m32.rd_mem_exact)
  ultimately show ?thesis using assms q(1,4) unfolding BAddr_Print.simps BIPAddr_InitIPv4_def q(1)
    by (simp add: BAddr_Parse2_def parse_port_print Let_def split: option.splits)
qed

theorem BAddr_parse_print_witness:
  "BAddr_Parse2 (\<lambda>_ _ s. if s = ''127.0.0.1'' then Some [127, 0, 0, 1] else None)
     (BAddr_Print (BAddr_IPv4 (badvpn_read_le32 [127, 0, 0, 1]) (hton16 8080))) None True
   = Some (BAddr_IPv4 (badvpn_read_le32 [127, 0, 0, 1]) (hton16 8080), ''127.0.0.1'')"
proof -
  have q: "BIPAddr_Print (BIPAddr_IPv4 (badvpn_read_le32 [127, 0, 0, 1])) = ''127.0.0.1''"
    by (simp only: BIPAddr_Print.simps mem32_read) (simp add: print_base.simps digit_def, code_simp)
  show ?thesis using BAddr_parse_print [of "\<lambda>_ _ s. if s = ''127.0.0.1'' then Some [127, 0, 0, 1] else None" True
      "badvpn_read_le32 [127, 0, 0, 1]" None "hton16 8080"] unfolding q by (simp only: mem32_read) simp
qed

end
