(* ===== verification/FairQueue.thy ===== *)
theory FairQueue
  imports ByteOrder
begin

section \<open>The fair queue\<close>

text \<open>
  \<open>flow/PacketPassFairQueue.c\<close>: several flows share one packet output. Every flow has a virtual time
  that grows with what it sends; of the flows with a waiting packet the one with the smallest time
  sends next.

  A flow is named by its address (\<open>nat\<close>, the \<open>uintptr_t\<close> of the comparison); \<open>fq_flows\<close> maps it to
  its structure. The tree of the queued flows (\<open>structure/SAvl.h\<close>) is its sequence in order: insertion
  at the place of the key, removal, and the first element. A handler returns the new state and the
  calls it makes on the neighbours, in order; \<open>None\<close> is a failed assertion or a pointer to a flow
  that is not there.
\<close>

abbreviation (input) FAIRQUEUE_MAX_TIME :: nat where "FAIRQUEUE_MAX_TIME \<equiv> 18446744073709551615"

record PacketPassFairQueueFlow =
  fl_time :: u64
  fl_is_queued :: bool
  fl_data :: bytes
  fl_handler_busy :: bool

record PacketPassFairQueue =
  fq_mtu :: nat
  fq_use_cancel :: bool
  fq_packet_weight :: nat
  fq_sending_flow :: "nat option"
  fq_sending_len :: nat
  fq_previous_flow :: "nat option"
  fq_queued_tree :: "nat list"
  fq_flows_list :: "nat list"
  fq_flows :: "nat \<Rightarrow> PacketPassFairQueueFlow option"
  fq_freeing :: bool
  fq_schedule_job :: bool

datatype fq_call =
    Output_Send bytes
  | Output_RequestCancel
  | Input_Done nat
  | Call_handler_busy nat

subsection \<open>The tree of the queued flows\<close>

definition compare_flows :: "(nat \<Rightarrow> u64) \<Rightarrow> nat \<Rightarrow> nat \<Rightarrow> int" where
  "compare_flows time f1 f2 = B_COMPARE_COMBINE (B_COMPARE (time f1) (time f2)) (B_COMPARE f1 f2)"

definition time_of :: "(nat \<Rightarrow> PacketPassFairQueueFlow option) \<Rightarrow> nat \<Rightarrow> u64" where
  "time_of flows f = (case flows f of Some fl \<Rightarrow> fl_time fl | None \<Rightarrow> 0)"

fun Tree_Insert :: "(nat \<Rightarrow> u64) \<Rightarrow> nat \<Rightarrow> nat list \<Rightarrow> nat list option" where
  "Tree_Insert time f [] = Some [f]"
| "Tree_Insert time f (g # gs) =
     (let c = compare_flows time f g in
      if c = 0 then None
      else if c = -1 then Some (f # g # gs)
      else map_option (Cons g) (Tree_Insert time f gs))"

definition Tree_GetFirst :: "nat list \<Rightarrow> nat option" where
  "Tree_GetFirst t = (case t of [] \<Rightarrow> None | f # _ \<Rightarrow> Some f)"

subsection \<open>Operations\<close>

definition get_current_time :: "PacketPassFairQueue \<Rightarrow> u64 option" where
  "get_current_time m =
     (case fq_sending_flow m of
        Some f \<Rightarrow> map_option fl_time (fq_flows m f)
      | None \<Rightarrow> do {
          first \<leftarrow> (case Tree_GetFirst (fq_queued_tree m) of
                      None \<Rightarrow> Some None
                    | Some f \<Rightarrow> do {
                        fl \<leftarrow> fq_flows m f;
                        ASSERT (fl_is_queued fl);
                        Some (Some (fl_time fl)) });
          r \<leftarrow> (case fq_previous_flow m of
                  None \<Rightarrow> Some first
                | Some p \<Rightarrow> do {
                    pl \<leftarrow> fq_flows m p;
                    Some (case first of
                            None \<Rightarrow> Some (fl_time pl)
                          | Some time \<Rightarrow> (if fl_time pl < time then Some (fl_time pl) else first)) });
          Some (case r of Some time \<Rightarrow> time | None \<Rightarrow> 0) })"

text \<open>The loop that subtracts the time from all flows.\<close>

fun subtract_flows :: "u64 \<Rightarrow> nat \<Rightarrow> nat list \<Rightarrow> (nat \<Rightarrow> PacketPassFairQueueFlow option) \<Rightarrow> (nat \<Rightarrow> PacketPassFairQueueFlow option) option" where
  "subtract_flows subtract flow [] flows = Some flows"
| "subtract_flows subtract flow (f # fs) flows = do {
     fl \<leftarrow> flows f;
     fl' \<leftarrow> (if subtract > fl_time fl \<and> f \<noteq> flow then do {
               ASSERT (\<not> fl_is_queued fl);
               Some (fl\<lparr>fl_time := 0\<rparr>) }
             else Some (fl\<lparr>fl_time := fl_time fl - subtract\<rparr>));
     subtract_flows subtract flow fs (flows(f \<mapsto> fl')) }"

definition increment_sent_flow :: "nat \<Rightarrow> nat \<Rightarrow> PacketPassFairQueue \<Rightarrow> PacketPassFairQueue option" where
  "increment_sent_flow flow amount m = do {
     fl \<leftarrow> fq_flows m flow;
     ASSERT (amount \<le> FAIRQUEUE_MAX_TIME);
     ASSERT (\<not> fl_is_queued fl);
     ASSERT (fq_sending_flow m = None);
     flows \<leftarrow> (if amount > FAIRQUEUE_MAX_TIME - unat (fl_time fl) then do {
         subtract \<leftarrow> (case Tree_GetFirst (fq_queued_tree m) of
                        None \<Rightarrow> Some (fl_time fl)
                      | Some f \<Rightarrow> do {
                          first \<leftarrow> fq_flows m f;
                          ASSERT (fl_is_queued first);
                          Some (fl_time first) });
         subtract_flows subtract flow (fq_flows_list m) (fq_flows m) }
       else Some (fq_flows m));
     fl \<leftarrow> flows flow;
     Some (m\<lparr>fq_flows := flows(flow \<mapsto> fl\<lparr>fl_time := fl_time fl + of_nat amount\<rparr>)\<rparr>) }"

definition schedule :: "PacketPassFairQueue \<Rightarrow> (PacketPassFairQueue \<times> fq_call list) option" where
  "schedule m = do {
     ASSERT (fq_sending_flow m = None);
     ASSERT (fq_previous_flow m = None);
     ASSERT (\<not> fq_freeing m);
     qflow \<leftarrow> Tree_GetFirst (fq_queued_tree m);
     fl \<leftarrow> fq_flows m qflow;
     ASSERT (fl_is_queued fl);
     Some (m\<lparr>fq_queued_tree := remove1 qflow (fq_queued_tree m),
             fq_flows := (fq_flows m)(qflow \<mapsto> fl\<lparr>fl_is_queued := False\<rparr>),
             fq_sending_flow := Some qflow,
             fq_sending_len := length (fl_data fl)\<rparr>,
           [Output_Send (fl_data fl)]) }"

definition schedule_job_handler :: "PacketPassFairQueue \<Rightarrow> (PacketPassFairQueue \<times> fq_call list) option" where
  "schedule_job_handler m = do {
     ASSERT (fq_sending_flow m = None);
     ASSERT (\<not> fq_freeing m);
     let m = m\<lparr>fq_previous_flow := None\<rparr>;
     if fq_queued_tree m \<noteq> [] then schedule m else Some (m, []) }"

definition fq_input_handler_send :: "nat \<Rightarrow> bytes \<Rightarrow> PacketPassFairQueue \<Rightarrow> (PacketPassFairQueue \<times> fq_call list) option" where
  "fq_input_handler_send flow data m = do {
     fl \<leftarrow> fq_flows m flow;
     ASSERT (fq_sending_flow m \<noteq> Some flow);
     ASSERT (\<not> fl_is_queued fl);
     ASSERT (\<not> fq_freeing m);
     (fl, m) \<leftarrow> (if fq_previous_flow m = Some flow then Some (fl, m\<lparr>fq_previous_flow := None\<rparr>)
                 else do {
                   now \<leftarrow> get_current_time m;
                   Some (fl\<lparr>fl_time := max (fl_time fl) now\<rparr>, m) });
     let fl = fl\<lparr>fl_data := data\<rparr>;
     let m = m\<lparr>fq_flows := (fq_flows m)(flow \<mapsto> fl)\<rparr>;
     tree \<leftarrow> Tree_Insert (time_of (fq_flows m)) flow (fq_queued_tree m);
     let m = m\<lparr>fq_queued_tree := tree, fq_flows := (fq_flows m)(flow \<mapsto> fl\<lparr>fl_is_queued := True\<rparr>)\<rparr>;
     if fq_sending_flow m = None \<and> \<not> fq_schedule_job m then schedule m else Some (m, []) }"

definition fq_output_handler_done :: "PacketPassFairQueue \<Rightarrow> (PacketPassFairQueue \<times> fq_call list) option" where
  "fq_output_handler_done m = do {
     flow \<leftarrow> fq_sending_flow m;
     ASSERT (fq_previous_flow m = None);
     ASSERT (\<not> fq_schedule_job m);
     ASSERT (\<not> fq_freeing m);
     fl \<leftarrow> fq_flows m flow;
     ASSERT (\<not> fl_is_queued fl);
     let m = m\<lparr>fq_sending_flow := None, fq_previous_flow := Some flow\<rparr>;
     m \<leftarrow> increment_sent_flow flow (fq_packet_weight m + fq_sending_len m) m;
     let m = m\<lparr>fq_schedule_job := True\<rparr>;
     fl \<leftarrow> fq_flows m flow;
     if fl_handler_busy fl
     then Some (m\<lparr>fq_flows := (fq_flows m)(flow \<mapsto> fl\<lparr>fl_handler_busy := False\<rparr>)\<rparr>,
                [Input_Done flow, Call_handler_busy flow])
     else Some (m, [Input_Done flow]) }"

definition PacketPassFairQueue_Init :: "nat \<Rightarrow> bool \<Rightarrow> bool \<Rightarrow> nat \<Rightarrow> PacketPassFairQueue option option" where
  "PacketPassFairQueue_Init mtu has_cancel use_cancel packet_weight = do {
     ASSERT (packet_weight > 0);
     ASSERT (use_cancel \<longrightarrow> has_cancel);
     if \<not> (mtu \<le> FAIRQUEUE_MAX_TIME \<and> packet_weight \<le> FAIRQUEUE_MAX_TIME - mtu) then Some None
     else Some (Some \<lparr>fq_mtu = mtu, fq_use_cancel = use_cancel, fq_packet_weight = packet_weight,
       fq_sending_flow = None, fq_sending_len = 0, fq_previous_flow = None, fq_queued_tree = [],
       fq_flows_list = [], fq_flows = Map.empty, fq_freeing = False, fq_schedule_job = False\<rparr>) }"

definition PacketPassFairQueue_Free :: "PacketPassFairQueue \<Rightarrow> unit option" where
  "PacketPassFairQueue_Free m = do {
     ASSERT (fq_flows_list m = []);
     ASSERT (fq_queued_tree m = []);
     ASSERT (fq_previous_flow m = None);
     ASSERT (fq_sending_flow m = None) }"

definition PacketPassFairQueue_PrepareFree :: "PacketPassFairQueue \<Rightarrow> PacketPassFairQueue" where
  "PacketPassFairQueue_PrepareFree m = m\<lparr>fq_freeing := True\<rparr>"

definition PacketPassFairQueue_GetMTU :: "PacketPassFairQueue \<Rightarrow> nat" where
  "PacketPassFairQueue_GetMTU m = fq_mtu m"

definition PacketPassFairQueueFlow_Init :: "nat \<Rightarrow> PacketPassFairQueue \<Rightarrow> PacketPassFairQueue option" where
  "PacketPassFairQueueFlow_Init flow m = do {
     ASSERT (\<not> fq_freeing m);
     Some (m\<lparr>fq_flows := (fq_flows m)(flow \<mapsto>
               \<lparr>fl_time = 0, fl_is_queued = False, fl_data = [], fl_handler_busy = False\<rparr>),
             fq_flows_list := fq_flows_list m @ [flow]\<rparr>) }"

definition PacketPassFairQueueFlow_Free :: "nat \<Rightarrow> PacketPassFairQueue \<Rightarrow> PacketPassFairQueue option" where
  "PacketPassFairQueueFlow_Free flow m = do {
     ASSERT (fq_freeing m \<or> fq_sending_flow m \<noteq> Some flow);
     fl \<leftarrow> fq_flows m flow;
     Some (m\<lparr>fq_sending_flow := (if fq_sending_flow m = Some flow then None else fq_sending_flow m),
             fq_previous_flow := (if fq_previous_flow m = Some flow then None else fq_previous_flow m),
             fq_queued_tree := (if fl_is_queued fl then remove1 flow (fq_queued_tree m) else fq_queued_tree m),
             fq_flows_list := remove1 flow (fq_flows_list m),
             fq_flows := (fq_flows m)(flow := None)\<rparr>) }"

definition PacketPassFairQueueFlow_AssertFree :: "nat \<Rightarrow> PacketPassFairQueue \<Rightarrow> unit option" where
  "PacketPassFairQueueFlow_AssertFree flow m = ASSERT (fq_freeing m \<or> fq_sending_flow m \<noteq> Some flow)"

definition PacketPassFairQueueFlow_IsBusy :: "nat \<Rightarrow> PacketPassFairQueue \<Rightarrow> bool option" where
  "PacketPassFairQueueFlow_IsBusy flow m = do {
     ASSERT (\<not> fq_freeing m);
     Some (fq_sending_flow m = Some flow) }"

definition PacketPassFairQueueFlow_RequestCancel :: "nat \<Rightarrow> PacketPassFairQueue \<Rightarrow> fq_call list option" where
  "PacketPassFairQueueFlow_RequestCancel flow m = do {
     ASSERT (fq_sending_flow m = Some flow);
     ASSERT (fq_use_cancel m);
     ASSERT (\<not> fq_freeing m);
     ASSERT (\<not> fq_schedule_job m);
     Some [Output_RequestCancel] }"

definition PacketPassFairQueueFlow_SetBusyHandler :: "nat \<Rightarrow> PacketPassFairQueue \<Rightarrow> PacketPassFairQueue option" where
  "PacketPassFairQueueFlow_SetBusyHandler flow m = do {
     ASSERT (fq_sending_flow m = Some flow);
     ASSERT (\<not> fq_freeing m);
     fl \<leftarrow> fq_flows m flow;
     Some (m\<lparr>fq_flows := (fq_flows m)(flow \<mapsto> fl\<lparr>fl_handler_busy := True\<rparr>)\<rparr>) }"

subsection \<open>The queue as a system of events\<close>

text \<open>
  What happens to a queue: a flow sends a packet, the output reports a packet done, the schedule job
  runs, flows come and go, a busy handler is set, a cancel is requested, and the queue is prepared for
  freeing. \<open>fq_allowed\<close> is what the neighbours guarantee: the interface of a flow carries one packet at
  a time and not more than the MTU, the output reports done only for a packet that was sent, and
  users keep to the documented preconditions.
\<close>

datatype fq_event =
    FSend nat bytes
  | FDone
  | FJob
  | FInit nat
  | FFree nat
  | FBusy nat
  | FCancel nat
  | FPrepare

fun fq_allowed :: "PacketPassFairQueue \<Rightarrow> fq_event \<Rightarrow> bool" where
  "fq_allowed m (FSend f d) =
     (\<not> fq_freeing m \<and> (case fq_flows m f of Some fl \<Rightarrow> \<not> fl_is_queued fl | None \<Rightarrow> False)
      \<and> fq_sending_flow m \<noteq> Some f \<and> length d \<le> fq_mtu m)"
| "fq_allowed m FDone = (\<not> fq_freeing m \<and> fq_sending_flow m \<noteq> None)"
| "fq_allowed m FJob = (\<not> fq_freeing m \<and> fq_schedule_job m)"
| "fq_allowed m (FInit f) = (\<not> fq_freeing m \<and> fq_flows m f = None)"
| "fq_allowed m (FFree f) = (fq_flows m f \<noteq> None \<and> (fq_freeing m \<or> fq_sending_flow m \<noteq> Some f))"
| "fq_allowed m (FBusy f) = (\<not> fq_freeing m \<and> fq_sending_flow m = Some f)"
| "fq_allowed m (FCancel f) = (\<not> fq_freeing m \<and> fq_sending_flow m = Some f \<and> fq_use_cancel m)"
| "fq_allowed m FPrepare = True"

fun fq_handle :: "PacketPassFairQueue \<Rightarrow> fq_event \<Rightarrow> (PacketPassFairQueue \<times> fq_call list) option" where
  "fq_handle m (FSend f d) = fq_input_handler_send f d m"
| "fq_handle m FDone = fq_output_handler_done m"
| "fq_handle m FJob = schedule_job_handler (m\<lparr>fq_schedule_job := False\<rparr>)"
| "fq_handle m (FInit f) = map_option (\<lambda>m. (m, [])) (PacketPassFairQueueFlow_Init f m)"
| "fq_handle m (FFree f) = map_option (\<lambda>m. (m, [])) (PacketPassFairQueueFlow_Free f m)"
| "fq_handle m (FBusy f) = map_option (\<lambda>m. (m, [])) (PacketPassFairQueueFlow_SetBusyHandler f m)"
| "fq_handle m (FCancel f) = map_option (\<lambda>calls. (m, calls)) (PacketPassFairQueueFlow_RequestCancel f m)"
| "fq_handle m FPrepare = Some (PacketPassFairQueue_PrepareFree m, [])"

subsection \<open>The invariant\<close>

definition before :: "(nat \<Rightarrow> u64) \<Rightarrow> nat \<Rightarrow> nat \<Rightarrow> bool" where
  "before t f g \<longleftrightarrow> t f < t g \<or> (t f = t g \<and> f < g)"

definition queued :: "(nat \<Rightarrow> PacketPassFairQueueFlow option) \<Rightarrow> nat \<Rightarrow> bool" where
  "queued flows f \<longleftrightarrow> (case flows f of Some fl \<Rightarrow> fl_is_queued fl | None \<Rightarrow> False)"

definition idle :: "(nat \<Rightarrow> PacketPassFairQueueFlow option) \<Rightarrow> nat \<Rightarrow> bool" where
  "idle flows f \<longleftrightarrow> (case flows f of Some fl \<Rightarrow> \<not> fl_is_queued fl | None \<Rightarrow> False)"


definition tree_inv :: "PacketPassFairQueue \<Rightarrow> bool" where
  "tree_inv m \<longleftrightarrow> distinct (fq_flows_list m) \<and> set (fq_flows_list m) = dom (fq_flows m)
     \<and> sorted_wrt (before (time_of (fq_flows m))) (fq_queued_tree m)
     \<and> (\<forall>f. f \<in> set (fq_queued_tree m) \<longleftrightarrow> queued (fq_flows m) f)
     \<and> (\<forall>f fl. fq_flows m f = Some fl \<longrightarrow> fl_is_queued fl \<longrightarrow> length (fl_data fl) \<le> fq_mtu m)"

definition sched_inv :: "PacketPassFairQueue \<Rightarrow> bool" where
  "sched_inv m \<longleftrightarrow>
     (\<forall>f. fq_sending_flow m = Some f \<longrightarrow> idle (fq_flows m) f \<and> fq_previous_flow m = None \<and> \<not> fq_schedule_job m
        \<and> (\<forall>g\<in>set (fq_queued_tree m). time_of (fq_flows m) f \<le> time_of (fq_flows m) g))
     \<and> fq_sending_len m \<le> fq_mtu m
     \<and> (\<forall>p. fq_previous_flow m = Some p \<longrightarrow> idle (fq_flows m) p \<and> fq_schedule_job m)
     \<and> (fq_freeing m \<or> fq_sending_flow m \<noteq> None \<or> fq_schedule_job m \<or> fq_queued_tree m = [])
     \<and> 0 < fq_packet_weight m \<and> fq_mtu m + fq_packet_weight m \<le> FAIRQUEUE_MAX_TIME"

definition fq_inv :: "PacketPassFairQueue \<Rightarrow> bool" where
  "fq_inv m \<longleftrightarrow> tree_inv m \<and> sched_inv m"

lemma tree_queued: "tree_inv m \<Longrightarrow> f \<in> set (fq_queued_tree m) \<longleftrightarrow> queued (fq_flows m) f"
  by (simp add: tree_inv_def)

lemma compare_flows_simps:
  "compare_flows t f g = 0 \<longleftrightarrow> f = g" "compare_flows t f g = -1 \<longleftrightarrow> before t f g"
  by (auto simp: compare_flows_def B_COMPARE_COMBINE_def B_COMPARE_def before_def)

lemma before_trans: "before t f g \<Longrightarrow> before t g h \<Longrightarrow> before t f h"
  by (auto simp: before_def)

lemma before_total: "f \<noteq> g \<Longrightarrow> \<not> before t f g \<Longrightarrow> before t g f"
  by (auto simp: before_def)

lemma before_irrefl: "\<not> before t f f"
  by (simp add: before_def)

lemma before_le: "before t f g \<Longrightarrow> t f \<le> t g"
  by (auto simp: before_def)

lemma before_cong: "t f = t' f \<Longrightarrow> t g = t' g \<Longrightarrow> before t f g = before t' f g"
  by (simp add: before_def)

lemma sorted_cong:
  "(\<And>f. f \<in> set xs \<Longrightarrow> t f = t' f) \<Longrightarrow> sorted_wrt (before t) xs = sorted_wrt (before t') xs"
  by (induction xs) (auto simp: before_def)

lemma sorted_distinct: "sorted_wrt (before t) xs \<Longrightarrow> distinct xs"
  by (induction xs) (auto simp: before_irrefl)

lemma Tree_Insert_ok:
  assumes "sorted_wrt (before t) xs" and "f \<notin> set xs"
  shows "\<exists>ys. Tree_Insert t f xs = Some ys \<and> sorted_wrt (before t) ys \<and> set ys = insert f (set xs)"
  using assms
proof (induction xs)
  case (Cons g gs)
  show ?case
  proof (cases "before t f g")
    case True
    then show ?thesis using Cons.prems before_trans by (auto simp: compare_flows_simps)
  next
    case False
    obtain ys where "Tree_Insert t f gs = Some ys" "sorted_wrt (before t) ys" "set ys = insert f (set gs)"
      using Cons by auto
    then show ?thesis using False Cons.prems before_total [of f g t] by (auto simp: compare_flows_simps)
  qed
qed simp

subsection \<open>Virtual time\<close>

definition subtracted :: "u64 \<Rightarrow> nat \<Rightarrow> nat \<Rightarrow> PacketPassFairQueueFlow \<Rightarrow> PacketPassFairQueueFlow" where
  "subtracted s flow f fl = fl\<lparr>fl_time := (if s > fl_time fl \<and> f \<noteq> flow then 0 else fl_time fl - s)\<rparr>"

lemma subtract_flows_ok:
  assumes "distinct fs" and "\<And>f. f \<in> set fs \<Longrightarrow> flows f \<noteq> None"
    and "\<And>f fl. f \<in> set fs \<Longrightarrow> flows f = Some fl \<Longrightarrow> fl_is_queued fl \<Longrightarrow> f \<noteq> flow \<Longrightarrow> s \<le> fl_time fl"
  shows "subtract_flows s flow fs flows
    = Some (\<lambda>f. if f \<in> set fs then map_option (subtracted s flow f) (flows f) else flows f)"
  using assms
proof (induction fs arbitrary: flows)
  case (Cons f fs)
  obtain fl where fl: "flows f = Some fl" using Cons.prems(2) by fastforce
  let ?flows = "flows(f \<mapsto> subtracted s flow f fl)"
  have "subtract_flows s flow (f # fs) flows = subtract_flows s flow fs ?flows"
    using Cons.prems(3) [of f fl] fl by (auto simp: subtracted_def ASSERT_def not_le [symmetric])
  also have "\<dots> = Some (\<lambda>g. if g \<in> set fs then map_option (subtracted s flow g) (?flows g) else ?flows g)"
    using Cons.prems by (intro Cons.IH) (auto split: if_splits)
  also have "(\<lambda>g. if g \<in> set fs then map_option (subtracted s flow g) (?flows g) else ?flows g)
      = (\<lambda>g. if g \<in> set (f # fs) then map_option (subtracted s flow g) (flows g) else flows g)"
    using Cons.prems(1) fl by auto
  finally show ?case .
qed simp

text \<open>The same flows, with the same packets, whatever their times.\<close>

definition same_flows :: "(nat \<Rightarrow> PacketPassFairQueueFlow option) \<Rightarrow> (nat \<Rightarrow> PacketPassFairQueueFlow option) \<Rightarrow> bool" where
  "same_flows flows flows' \<longleftrightarrow> (\<forall>g. map_option (\<lambda>x. (fl_is_queued x, fl_data x)) (flows g) = map_option (\<lambda>x. (fl_is_queued x, fl_data x)) (flows' g))"

lemma same_flows_Some:
  assumes "same_flows flows flows'" and "flows' g = Some y"
  shows "\<exists>x. flows g = Some x \<and> fl_is_queued x = fl_is_queued y \<and> fl_data x = fl_data y"
proof -
  have "map_option (\<lambda>x. (fl_is_queued x, fl_data x)) (flows g) = Some (fl_is_queued y, fl_data y)"
    using assms by (simp add: same_flows_def)
  then show ?thesis by auto
qed

lemma same_flows_sym: "same_flows a b \<Longrightarrow> same_flows b a"
  by (simp add: same_flows_def)

lemma same_flowsD:
  assumes "same_flows flows flows'"
  shows "dom flows = dom flows'" and "queued flows g = queued flows' g" and "idle flows g = idle flows' g"
    and "flows g = Some x \<Longrightarrow> \<exists>y. flows' g = Some y \<and> fl_is_queued x = fl_is_queued y \<and> fl_data x = fl_data y"
proof -
  show "dom flows = dom flows'"
    using same_flows_Some [OF assms] same_flows_Some [OF same_flows_sym [OF assms]] by blast
  show "flows g = Some x \<Longrightarrow> \<exists>y. flows' g = Some y \<and> fl_is_queued x = fl_is_queued y \<and> fl_data x = fl_data y"
    using same_flows_Some [OF same_flows_sym [OF assms], of g x] by auto
  have "map_option (\<lambda>x. (fl_is_queued x, fl_data x)) (flows g) = map_option (\<lambda>x. (fl_is_queued x, fl_data x)) (flows' g)"
    using assms by (simp add: same_flows_def)
  then show "queued flows g = queued flows' g" "idle flows g = idle flows' g"
    by (cases "flows g"; cases "flows' g"; auto simp: queued_def idle_def)+
qed

text \<open>
  The update of the time of the flow that has sent. Some amount \<open>s\<close>, which is 0 unless the time would
  overflow, is subtracted from the times of all queued flows without underflow, so that their
  order stays, and the flow's time is exactly what it was plus the amount minus \<open>s\<close>.
\<close>

lemma increment_sent_flow_ok:
  assumes m: "tree_inv m" "fq_sending_flow m = None" "fq_flows m flow = Some fl" "\<not> fl_is_queued fl"
    and le: "\<forall>g\<in>set (fq_queued_tree m). fl_time fl \<le> time_of (fq_flows m) g"
    and am: "amount \<le> FAIRQUEUE_MAX_TIME"
  obtains flows s where "increment_sent_flow flow amount m = Some (m\<lparr>fq_flows := flows\<rparr>)"
    and "same_flows flows (fq_flows m)"
    and "\<forall>g\<in>set (fq_queued_tree m). s \<le> unat (time_of (fq_flows m) g) \<and> unat (time_of flows g) = unat (time_of (fq_flows m) g) - s"
    and "s \<le> unat (fl_time fl) + amount" and "unat (time_of flows flow) = unat (fl_time fl) + amount - s"
proof (cases "amount > FAIRQUEUE_MAX_TIME - unat (fl_time fl)")
  case False
  have lt: "unat (fl_time fl) < 2 ^ 64" using unsigned_less [of "fl_time fl", where ?'a = nat] by simp
  let ?flows = "(fq_flows m)(flow \<mapsto> fl\<lparr>fl_time := fl_time fl + of_nat amount\<rparr>)"
  have nq: "flow \<notin> set (fq_queued_tree m)" using m by (simp add: tree_inv_def queued_def)
  show ?thesis
  proof (rule that [of ?flows 0])
    show "increment_sent_flow flow amount m = Some (m\<lparr>fq_flows := ?flows\<rparr>)"
      using m am False by (simp add: increment_sent_flow_def)
    show "unat (time_of ?flows flow) = unat (fl_time fl) + amount - 0"
      using False lt am by (simp add: time_of_def unat_word_ariths unat_of_nat)
  qed (use m(3) nq in \<open>auto simp: time_of_def same_flows_def\<close>)
next
  case True
  define s where "s = (case fq_queued_tree m of [] \<Rightarrow> fl_time fl | g # _ \<Rightarrow> time_of (fq_flows m) g)"
  have nq: "flow \<notin> set (fq_queued_tree m)" using m by (simp add: tree_inv_def queued_def)
  have le_s: "fl_time fl \<le> s" using le by (auto simp: s_def split: list.splits)
  have s_le: "\<forall>g\<in>set (fq_queued_tree m). s \<le> time_of (fq_flows m) g"
    using m(1) before_le by (auto simp: s_def tree_inv_def split: list.splits)
  have sub: "(case Tree_GetFirst (fq_queued_tree m) of None \<Rightarrow> Some (fl_time fl)
      | Some f \<Rightarrow> do { first \<leftarrow> fq_flows m f; ASSERT (fl_is_queued first); Some (fl_time first) }) = Some s"
  proof (cases "fq_queued_tree m")
    case (Cons g gs)
    then have "queued (fq_flows m) g" using tree_queued [OF m(1), of g] by simp
    then show ?thesis using Cons by (auto simp: Tree_GetFirst_def s_def queued_def time_of_def split: option.splits)
  qed (simp add: Tree_GetFirst_def s_def)
  have all: "f \<in> set (fq_flows_list m) \<longleftrightarrow> fq_flows m f \<noteq> None" for f using m(1) by (auto simp: tree_inv_def)
  have "subtract_flows s flow (fq_flows_list m) (fq_flows m)
      = Some (\<lambda>f. if f \<in> set (fq_flows_list m) then map_option (subtracted s flow f) (fq_flows m f) else fq_flows m f)"
  proof (rule subtract_flows_ok)
    fix f x assume f: "fq_flows m f = Some x" "fl_is_queued x"
    then have "f \<in> set (fq_queued_tree m)" using m(1) by (simp add: tree_inv_def queued_def)
    then show "s \<le> fl_time x" using s_le f by (auto simp: time_of_def)
  qed (use m(1) all in \<open>auto simp: tree_inv_def\<close>)
  also have "(\<lambda>f. if f \<in> set (fq_flows_list m) then map_option (subtracted s flow f) (fq_flows m f) else fq_flows m f)
      = (\<lambda>f. map_option (subtracted s flow f) (fq_flows m f))" using all by fastforce
  finally have subf: "subtract_flows s flow (fq_flows_list m) (fq_flows m) = Some (\<lambda>f. map_option (subtracted s flow f) (fq_flows m f))" .
  let ?flows = "(\<lambda>f. map_option (subtracted s flow f) (fq_flows m f))(flow \<mapsto> fl\<lparr>fl_time := fl_time fl - s + of_nat amount\<rparr>)"
  show ?thesis
  proof (rule that [of ?flows "unat s"])
    show "increment_sent_flow flow amount m = Some (m\<lparr>fq_flows := ?flows\<rparr>)"
      using m am True sub subf by (simp add: increment_sent_flow_def subtracted_def)
    show "\<forall>g\<in>set (fq_queued_tree m). unat s \<le> unat (time_of (fq_flows m) g)
        \<and> unat (time_of ?flows g) = unat (time_of (fq_flows m) g) - unat s"
    proof
      fix g assume g: "g \<in> set (fq_queued_tree m)"
      then obtain x where x: "fq_flows m g = Some x" using tree_queued [OF m(1), of g] by (auto simp: queued_def split: option.splits)
      have "s \<le> fl_time x" "g \<noteq> flow" using s_le g x nq by (auto simp: time_of_def)
      then show "unat s \<le> unat (time_of (fq_flows m) g) \<and> unat (time_of ?flows g) = unat (time_of (fq_flows m) g) - unat s"
        using x by (simp add: time_of_def subtracted_def unat_sub not_less) (simp add: word_le_nat_alt)
    qed
    have u: "unat (fl_time fl) \<le> unat s" "unat s \<le> FAIRQUEUE_MAX_TIME"
      using le_s unsigned_less [of s, where ?'a = nat] by (simp_all add: word_le_nat_alt)
    then show b: "unat s \<le> unat (fl_time fl) + amount" using True by linarith
    have "fl_time fl - s + of_nat amount = of_nat (unat (fl_time fl) + amount - unat s)" using b by (simp add: of_nat_diff)
    moreover have "unat (fl_time fl) + amount - unat s < 2 ^ 64" using u am by simp
    ultimately show "unat (time_of ?flows flow) = unat (fl_time fl) + amount - unat s"
      by (simp add: time_of_def unat_of_nat)
  qed (use m(3) in \<open>auto simp: subtracted_def same_flows_def option.map_comp comp_def\<close>)
qed

subsection \<open>Every event keeps the invariant\<close>

lemma Init_inv:
  assumes "PacketPassFairQueue_Init mtu has_cancel use_cancel weight = Some (Some m)"
  shows "fq_inv m"
  using assms by (auto simp: PacketPassFairQueue_Init_def fq_inv_def tree_inv_def sched_inv_def queued_def assert_simps split: if_splits)

text \<open>What \<open>schedule\<close> needs and does.\<close>

lemma schedule_ok:
  assumes t: "tree_inv m" and q: "fq_queued_tree m = f # fs" "fq_flows m f = Some fl"
    and n: "fq_sending_flow m = None" "fq_previous_flow m = None" "\<not> fq_freeing m" "\<not> fq_schedule_job m"
    and w: "0 < fq_packet_weight m" "fq_mtu m + fq_packet_weight m \<le> FAIRQUEUE_MAX_TIME"
  shows "\<exists>m'. schedule m = Some (m', [Output_Send (fl_data fl)]) \<and> fq_inv m' \<and> fq_sending_flow m' = Some f
    \<and> fq_flows m' = (fq_flows m)(f \<mapsto> fl\<lparr>fl_is_queued := False\<rparr>)"
proof -
  let ?flows = "(fq_flows m)(f \<mapsto> fl\<lparr>fl_is_queued := False\<rparr>)"
  let ?m = "m\<lparr>fq_queued_tree := fs, fq_flows := ?flows, fq_sending_flow := Some f, fq_sending_len := length (fl_data fl)\<rparr>"
  have ql: "fl_is_queued fl" using tree_queued [OF t, of f] q by (simp add: queued_def)
  have tm: "time_of ?flows = time_of (fq_flows m)" using q(2) by (auto simp: time_of_def)
  have srt: "sorted_wrt (before (time_of (fq_flows m))) (f # fs)" using t q by (simp add: tree_inv_def)
  have ne: "f \<notin> set fs" using sorted_distinct [OF srt] by simp
  have qd: "g \<in> set fs \<longleftrightarrow> queued ?flows g" for g
    using tree_queued [OF t, of g] q(1) ne by (auto simp: queued_def)
  have "tree_inv ?m" using t qd srt q(2) tm by (auto simp: tree_inv_def)
  moreover have "length (fl_data fl) \<le> fq_mtu m" using t q(2) ql by (auto simp: tree_inv_def)
  then have "sched_inv ?m" using n w srt tm before_le by (auto simp: sched_inv_def idle_def)
  moreover have "schedule m = Some (?m, [Output_Send (fl_data fl)])"
    using n q ql by (simp add: schedule_def Tree_GetFirst_def)
  ultimately show ?thesis by (simp add: fq_inv_def)
qed

lemma FJob_inv:
  assumes "fq_inv m" and "fq_allowed m FJob"
  shows "\<exists>m' calls. fq_handle m FJob = Some (m', calls) \<and> fq_inv m'
    \<and> (\<forall>f fs fl. fq_queued_tree m = f # fs \<and> fq_flows m f = Some fl \<longrightarrow>
         calls = [Output_Send (fl_data fl)] \<and> fq_sending_flow m' = Some f \<and> fq_flows m' = (fq_flows m)(f \<mapsto> fl\<lparr>fl_is_queued := False\<rparr>))
    \<and> (fq_queued_tree m = [] \<longrightarrow> calls = [] \<and> fq_flows m' = fq_flows m)"
proof -
  let ?m = "m\<lparr>fq_schedule_job := False, fq_previous_flow := None\<rparr>"
  have t: "tree_inv ?m" using assms by (simp add: fq_inv_def tree_inv_def)
  have n: "fq_sending_flow m = None" "\<not> fq_freeing m" using assms by (auto simp: fq_inv_def sched_inv_def)
  have w: "0 < fq_packet_weight m" "fq_mtu m + fq_packet_weight m \<le> FAIRQUEUE_MAX_TIME" using assms by (auto simp: fq_inv_def sched_inv_def)
  show ?thesis
  proof (cases "fq_queued_tree m")
    case Nil
    have "fq_inv ?m" using t assms Nil by (auto simp: fq_inv_def sched_inv_def)
    then show ?thesis using n Nil by (simp add: schedule_job_handler_def)
  next
    case (Cons f fs)
    then obtain fl where fl: "fq_flows m f = Some fl" using tree_queued [OF t, of f] by (auto simp: queued_def split: option.splits)
    obtain m' where "schedule ?m = Some (m', [Output_Send (fl_data fl)])" "fq_inv m'" "fq_sending_flow m' = Some f"
      "fq_flows m' = (fq_flows m)(f \<mapsto> fl\<lparr>fl_is_queued := False\<rparr>)"
      using schedule_ok [OF t, of f fs fl] n w Cons fl by auto
    then show ?thesis using n Cons fl by (simp add: schedule_job_handler_def)
  qed
qed

lemma get_current_time_ok:
  assumes "fq_inv m"
  shows "\<exists>t. get_current_time m = Some t \<and> (\<forall>h. fq_sending_flow m = Some h \<longrightarrow> t = time_of (fq_flows m) h)"
proof (cases "fq_sending_flow m")
  case (Some h)
  then obtain x where "fq_flows m h = Some x" using assms by (auto simp: fq_inv_def sched_inv_def idle_def split: option.splits)
  then show ?thesis using Some by (simp add: get_current_time_def time_of_def)
next
  case None
  let ?first = "case Tree_GetFirst (fq_queued_tree m) of None \<Rightarrow> Some None
    | Some f \<Rightarrow> do { fl \<leftarrow> fq_flows m f; ASSERT (fl_is_queued fl); Some (Some (fl_time fl)) }"
  have "\<exists>r. ?first = Some r"
  proof (cases "fq_queued_tree m")
    case (Cons g gs)
    then have "queued (fq_flows m) g" using assms tree_queued [of m g] by (simp add: fq_inv_def)
    then show ?thesis using Cons by (auto simp: Tree_GetFirst_def queued_def split: option.splits)
  qed (simp add: Tree_GetFirst_def)
  then obtain r where r: "?first = Some r" ..
  show ?thesis
  proof (cases "fq_previous_flow m")
    case None
    then show ?thesis using r \<open>fq_sending_flow m = None\<close> by (simp add: get_current_time_def)
  next
    case (Some p)
    then obtain x where "fq_flows m p = Some x" using assms by (auto simp: fq_inv_def sched_inv_def idle_def split: option.splits)
    then show ?thesis using r Some \<open>fq_sending_flow m = None\<close> by (simp add: get_current_time_def)
  qed
qed

text \<open>Queueing a flow that is idle.\<close>

lemma enqueue_ok:
  fixes t :: u64
  assumes inv: "fq_inv m" and f: "fq_flows m f = Some fl" "\<not> fl_is_queued fl" "length data \<le> fq_mtu m"
  defines "flows \<equiv> (fq_flows m)(f \<mapsto> fl\<lparr>fl_time := t, fl_data := data\<rparr>)"
  shows "\<exists>tree. Tree_Insert (time_of flows) f (fq_queued_tree m) = Some tree \<and> set tree = insert f (set (fq_queued_tree m))
    \<and> tree_inv (m\<lparr>fq_previous_flow := p, fq_queued_tree := tree, fq_flows := flows(f \<mapsto> fl\<lparr>fl_time := t, fl_data := data, fl_is_queued := True\<rparr>)\<rparr>)"
proof -
  have tr: "tree_inv m" using inv by (simp add: fq_inv_def)
  have nq: "f \<notin> set (fq_queued_tree m)" using tree_queued [OF tr, of f] f by (simp add: queued_def)
  have "sorted_wrt (before (time_of flows)) (fq_queued_tree m)"
    using tr nq by (subst sorted_cong [of _ _ "time_of (fq_flows m)"]) (auto simp: flows_def time_of_def tree_inv_def)
  then obtain tree where tree: "Tree_Insert (time_of flows) f (fq_queued_tree m) = Some tree"
    "sorted_wrt (before (time_of flows)) tree" "set tree = insert f (set (fq_queued_tree m))"
    using Tree_Insert_ok nq by blast
  let ?flows = "flows(f \<mapsto> fl\<lparr>fl_time := t, fl_data := data, fl_is_queued := True\<rparr>)"
  have "time_of ?flows = time_of flows" by (auto simp: time_of_def flows_def)
  moreover have "g \<in> set tree \<longleftrightarrow> queued ?flows g" for g
    using tree_queued [OF tr, of g] tree(3) by (auto simp: queued_def flows_def)
  ultimately show ?thesis using tree tr f by (auto simp: tree_inv_def flows_def)
qed

lemma FSend_inv:
  assumes inv: "fq_inv m" and al: "fq_allowed m (FSend f d)"
  obtains m' calls flows fl t where "fq_handle m (FSend f d) = Some (m', calls)" and "fq_inv m'"
    and "fq_flows m f = Some fl" and "flows = (fq_flows m)(f \<mapsto> fl\<lparr>fl_time := t, fl_data := d, fl_is_queued := True\<rparr>)"
    and "calls = [] \<and> fq_flows m' = flows
       \<or> (\<exists>g gl. flows g = Some gl \<and> fl_is_queued gl \<and> calls = [Output_Send (fl_data gl)] \<and> fq_sending_flow m' = Some g
            \<and> fq_flows m' = flows(g \<mapsto> gl\<lparr>fl_is_queued := False\<rparr>))"
proof -
  obtain fl where fl: "fq_flows m f = Some fl" "\<not> fl_is_queued fl" and d: "length d \<le> fq_mtu m"
    and ns: "fq_sending_flow m \<noteq> Some f" and nf: "\<not> fq_freeing m"
    using al by (auto split: option.splits)
  obtain now where now: "get_current_time m = Some now" "\<And>h. fq_sending_flow m = Some h \<Longrightarrow> now = time_of (fq_flows m) h"
    using get_current_time_ok [OF inv] by blast
  define t where "t = (if fq_previous_flow m = Some f then fl_time fl else max (fl_time fl) now)"
  define p where "p = (if fq_previous_flow m = Some f then None else fq_previous_flow m)"
  let ?flows1 = "(fq_flows m)(f \<mapsto> fl\<lparr>fl_time := t, fl_data := d\<rparr>)"
  let ?flows = "(fq_flows m)(f \<mapsto> fl\<lparr>fl_time := t, fl_data := d, fl_is_queued := True\<rparr>)"
  obtain tree where tree: "Tree_Insert (time_of ?flows1) f (fq_queued_tree m) = Some tree"
    "set tree = insert f (set (fq_queued_tree m))"
    "tree_inv (m\<lparr>fq_previous_flow := p, fq_queued_tree := tree, fq_flows := ?flows\<rparr>)"
    using enqueue_ok [OF inv fl d, of t p] by auto
  let ?m = "m\<lparr>fq_previous_flow := p, fq_queued_tree := tree, fq_flows := ?flows\<rparr>"
  have h: "fq_handle m (FSend f d) = (if fq_sending_flow m = None \<and> \<not> fq_schedule_job m then schedule ?m else Some (?m, []))"
    using fl ns nf now(1) tree(1) by (cases "fq_previous_flow m = Some f") (simp_all add: fq_input_handler_send_def t_def p_def Let_def)
  show ?thesis
  proof (cases "fq_sending_flow m = None \<and> \<not> fq_schedule_job m")
    case False
    have "sched_inv ?m"
      using inv False fl ns now(2) tree(2) by (auto simp: fq_inv_def sched_inv_def idle_def p_def t_def time_of_def split: option.splits)
    then show ?thesis using that [of ?m "[]" fl ?flows t] h False tree(3) fl by (auto simp: fq_inv_def)
  next
    case True
    have pn: "p = None" using inv True by (auto simp: p_def fq_inv_def sched_inv_def)
    have w: "0 < fq_packet_weight m" "fq_mtu m + fq_packet_weight m \<le> FAIRQUEUE_MAX_TIME" using inv by (auto simp: fq_inv_def sched_inv_def)
    obtain g gs where g: "tree = g # gs" using tree(2) by (cases tree) auto
    obtain gl where gl: "?flows g = Some gl" "fl_is_queued gl"
      using tree_queued [OF tree(3), of g] g by (auto simp: queued_def split: option.splits if_splits)
    obtain m' where "schedule ?m = Some (m', [Output_Send (fl_data gl)])" "fq_inv m'" "fq_sending_flow m' = Some g"
      "fq_flows m' = ?flows(g \<mapsto> gl\<lparr>fl_is_queued := False\<rparr>)"
      using schedule_ok [OF tree(3), of g gs gl] True nf pn w g gl by auto
    then show ?thesis using that [of m' "[Output_Send (fl_data gl)]" fl ?flows t] h True gl fl by auto
  qed
qed

lemma sorted_shift:
  assumes "sorted_wrt (before t) xs" and "\<forall>g\<in>set xs. s \<le> unat (t g) \<and> unat (t' g) = unat (t g) - s"
  shows "sorted_wrt (before t') xs"
  using assms(1)
proof (rule sorted_wrt_mono_rel [rotated])
  fix f g assume fg: "f \<in> set xs" "g \<in> set xs" "before t f g"
  have "s \<le> unat (t f)" "s \<le> unat (t g)" "unat (t' f) = unat (t f) - s" "unat (t' g) = unat (t g) - s" using fg assms(2) by auto
  then show "before t' f g" using fg(3) by (auto simp: before_def word_less_nat_alt word_unat_eq_iff)
qed

lemma FDone_inv:
  assumes inv: "fq_inv m" and al: "fq_allowed m FDone"
  shows "\<exists>m' calls f. fq_handle m FDone = Some (m', calls) \<and> fq_inv m' \<and> fq_sending_flow m = Some f
    \<and> (calls = [Input_Done f] \<or> calls = [Input_Done f, Call_handler_busy f]) \<and> fq_schedule_job m'
    \<and> same_flows (fq_flows m') (fq_flows m) \<and> fq_queued_tree m' = fq_queued_tree m
    \<and> (\<exists>s. (\<forall>g\<in>set (fq_queued_tree m). s \<le> unat (time_of (fq_flows m) g)
              \<and> unat (time_of (fq_flows m') g) = unat (time_of (fq_flows m) g) - s)
         \<and> s \<le> unat (time_of (fq_flows m) f) + (fq_packet_weight m + fq_sending_len m)
         \<and> unat (time_of (fq_flows m') f) = unat (time_of (fq_flows m) f) + (fq_packet_weight m + fq_sending_len m) - s)"
proof -
  obtain f where f: "fq_sending_flow m = Some f" and nf: "\<not> fq_freeing m" using al by auto
  obtain fl where fl: "fq_flows m f = Some fl" "\<not> fl_is_queued fl"
    using inv f by (auto simp: fq_inv_def sched_inv_def idle_def split: option.splits)
  have st: "fq_previous_flow m = None" "\<not> fq_schedule_job m" "\<forall>g\<in>set (fq_queued_tree m). fl_time fl \<le> time_of (fq_flows m) g"
    "fq_packet_weight m + fq_sending_len m \<le> FAIRQUEUE_MAX_TIME"
    using inv f fl by (auto simp: fq_inv_def sched_inv_def time_of_def)
  let ?m = "m\<lparr>fq_sending_flow := None, fq_previous_flow := Some f\<rparr>" and ?a = "fq_packet_weight m + fq_sending_len m"
  have ti: "tree_inv ?m" using inv by (simp add: fq_inv_def tree_inv_def)
  have pre: "fq_sending_flow ?m = None" "fq_flows ?m f = Some fl" "\<not> fl_is_queued fl"
    "\<forall>g\<in>set (fq_queued_tree ?m). fl_time fl \<le> time_of (fq_flows ?m) g" "?a \<le> FAIRQUEUE_MAX_TIME"
    using fl st by simp_all
  obtain flows s where i: "increment_sent_flow f ?a ?m = Some (?m\<lparr>fq_flows := flows\<rparr>)" "same_flows flows (fq_flows ?m)"
    "\<forall>g\<in>set (fq_queued_tree ?m). s \<le> unat (time_of (fq_flows ?m) g) \<and> unat (time_of flows g) = unat (time_of (fq_flows ?m) g) - s"
    "s \<le> unat (fl_time fl) + ?a" "unat (time_of flows f) = unat (fl_time fl) + ?a - s"
    by (rule increment_sent_flow_ok [OF ti pre])
  have srt: "sorted_wrt (before (time_of flows)) (fq_queued_tree m)"
    using sorted_shift [OF _ i(3)] ti by (simp add: tree_inv_def)
  obtain x where x: "flows f = Some x" "\<not> fl_is_queued x" using same_flows_Some [OF i(2), of f fl] fl by auto
  define flows' where "flows' = (if fl_handler_busy x then flows(f \<mapsto> x\<lparr>fl_handler_busy := False\<rparr>) else flows)"
  have tm: "time_of flows' = time_of flows" using x by (auto simp: flows'_def time_of_def)
  have sf: "same_flows flows' (fq_flows m)" using i(2) x same_flowsD(4) [OF i(2) x(1)] by (auto simp: flows'_def same_flows_def)
  let ?m' = "?m\<lparr>fq_flows := flows', fq_schedule_job := True\<rparr>"
  have "length (fl_data y) \<le> fq_mtu m" if "flows' g = Some y" "fl_is_queued y" for g y
    using same_flowsD(4) [OF sf that(1)] that(2) ti by (auto simp: tree_inv_def)
  then have "tree_inv ?m'" using ti srt tm same_flowsD(1,2) [OF sf] by (simp add: tree_inv_def)
  moreover have "sched_inv ?m'" using inv fl(2) st same_flowsD [OF sf] f fl by (auto simp: fq_inv_def sched_inv_def idle_def flows'_def x)
  moreover have "fq_handle m FDone = Some (?m', if fl_handler_busy x then [Input_Done f, Call_handler_busy f] else [Input_Done f])"
    using f nf fl st i(1) x by (simp add: fq_output_handler_done_def flows'_def)
  moreover have "\<exists>s. (\<forall>g\<in>set (fq_queued_tree m). s \<le> unat (time_of (fq_flows m) g)
              \<and> unat (time_of flows' g) = unat (time_of (fq_flows m) g) - s)
         \<and> s \<le> unat (time_of (fq_flows m) f) + ?a \<and> unat (time_of flows' f) = unat (time_of (fq_flows m) f) + ?a - s"
    unfolding tm using i(3-5) fl(1) by (intro exI [of _ s]) (simp add: time_of_def)
  ultimately show ?thesis using f sf by (auto simp: fq_inv_def)
qed

lemma FInit_inv:
  assumes "fq_inv m" and "fq_allowed m (FInit f)"
  shows "\<exists>m'. fq_handle m (FInit f) = Some (m', []) \<and> fq_inv m'
    \<and> fq_flows m' = (fq_flows m)(f \<mapsto> \<lparr>fl_time = 0, fl_is_queued = False, fl_data = [], fl_handler_busy = False\<rparr>)"
proof -
  let ?flows = "(fq_flows m)(f \<mapsto> \<lparr>fl_time = 0, fl_is_queued = False, fl_data = [], fl_handler_busy = False\<rparr>)"
  let ?m = "m\<lparr>fq_flows := ?flows, fq_flows_list := fq_flows_list m @ [f]\<rparr>"
  have t: "tree_inv m" and n: "fq_flows m f = None" using assms by (auto simp: fq_inv_def)
  have nq: "f \<notin> set (fq_queued_tree m)" using tree_queued [OF t, of f] n by (simp add: queued_def)
  then have tm: "g \<in> set (fq_queued_tree m) \<Longrightarrow> time_of (fq_flows m) g = time_of ?flows g" for g by (auto simp: time_of_def)
  have srt: "sorted_wrt (before (time_of ?flows)) (fq_queued_tree m)"
    using t sorted_cong [OF tm] by (simp add: tree_inv_def)
  have q: "queued ?flows g = queued (fq_flows m) g" for g using n by (simp add: queued_def)
  have "tree_inv ?m" using t n srt q by (auto simp: tree_inv_def)
  moreover have "sched_inv ?m" using assms n nq by (auto simp: fq_inv_def sched_inv_def idle_def time_of_def split: option.splits)
  ultimately show ?thesis using assms by (simp add: PacketPassFairQueueFlow_Init_def fq_inv_def)
qed

lemma FFree_inv:
  assumes "fq_inv m" and "fq_allowed m (FFree f)"
  shows "\<exists>m'. fq_handle m (FFree f) = Some (m', []) \<and> fq_inv m' \<and> fq_flows m' = (fq_flows m)(f := None)"
proof -
  obtain fl where fl: "fq_flows m f = Some fl" and al: "fq_freeing m \<or> fq_sending_flow m \<noteq> Some f" using assms(2) by auto
  let ?flows = "(fq_flows m)(f := None)"
  define tree where "tree = (if fl_is_queued fl then remove1 f (fq_queued_tree m) else fq_queued_tree m)"
  let ?m = "m\<lparr>fq_sending_flow := (if fq_sending_flow m = Some f then None else fq_sending_flow m),
             fq_previous_flow := (if fq_previous_flow m = Some f then None else fq_previous_flow m),
             fq_queued_tree := tree, fq_flows_list := remove1 f (fq_flows_list m), fq_flows := ?flows\<rparr>"
  have t: "tree_inv m" using assms by (simp add: fq_inv_def)
  have srt: "sorted_wrt (before (time_of (fq_flows m))) (fq_queued_tree m)" using t by (simp add: tree_inv_def)
  have st: "set tree = set (fq_queued_tree m) - {f}"
    using sorted_distinct [OF srt] tree_queued [OF t, of f] fl by (auto simp: tree_def queued_def)
  have q: "g \<in> set tree \<longleftrightarrow> queued ?flows g" for g unfolding st using tree_queued [OF t, of g] by (auto simp: queued_def)
  have "sorted_wrt (before (time_of (fq_flows m))) tree"
    using srt sorted_wrt_filter [OF srt, of "(\<noteq>) f"] sorted_distinct [OF srt] by (auto simp: tree_def distinct_remove1_removeAll removeAll_filter_not_eq)
  then have "sorted_wrt (before (time_of ?flows)) tree"
    by (subst sorted_cong [of _ _ "time_of (fq_flows m)"]) (auto simp: st time_of_def)
  then have "tree_inv ?m" using t q by (auto simp: tree_inv_def set_remove1_eq)
  moreover have "sched_inv ?m"
    using assms st fl al by (auto simp: fq_inv_def sched_inv_def idle_def time_of_def tree_def split: option.splits)
  ultimately show ?thesis using assms fl by (simp add: PacketPassFairQueueFlow_Free_def fq_inv_def tree_def)
qed

lemma FBusy_inv:
  assumes "fq_inv m" and "fq_allowed m (FBusy f)"
  shows "\<exists>m'. fq_handle m (FBusy f) = Some (m', []) \<and> fq_inv m' \<and> same_flows (fq_flows m') (fq_flows m)"
proof -
  obtain fl where fl: "fq_flows m f = Some fl"
    using assms by (auto simp: fq_inv_def sched_inv_def idle_def split: option.splits)
  let ?flows = "(fq_flows m)(f \<mapsto> fl\<lparr>fl_handler_busy := True\<rparr>)"
  have tm: "time_of ?flows = time_of (fq_flows m)" using fl by (auto simp: time_of_def)
  have sf: "same_flows ?flows (fq_flows m)" using fl by (auto simp: same_flows_def)
  have "fq_inv (m\<lparr>fq_flows := ?flows\<rparr>)"
    using assms fl tm same_flowsD [OF sf] by (auto simp: fq_inv_def tree_inv_def sched_inv_def)
  then show ?thesis using assms fl sf by (simp add: PacketPassFairQueueFlow_SetBusyHandler_def)
qed

lemma fq_step_ok:
  assumes "fq_inv m" and "fq_allowed m e"
  shows "\<exists>m' calls. fq_handle m e = Some (m', calls) \<and> fq_inv m'"
proof (cases e)
  case (FSend f d)
  show ?thesis by (rule FSend_inv [OF assms(1) assms(2) [unfolded FSend]]) (use FSend in blast)
next
  case FDone
  then show ?thesis using FDone_inv assms by blast
next
  case FJob
  then show ?thesis using FJob_inv assms by blast
next
  case (FInit f)
  then show ?thesis using FInit_inv assms by blast
next
  case (FFree f)
  then show ?thesis using FFree_inv assms by blast
next
  case (FBusy f)
  then show ?thesis using FBusy_inv assms by blast
next
  case (FCancel f)
  then show ?thesis using assms by (auto simp: PacketPassFairQueueFlow_RequestCancel_def fq_inv_def sched_inv_def)
next
  case FPrepare
  then show ?thesis using assms(1) by (simp add: PacketPassFairQueue_PrepareFree_def fq_inv_def tree_inv_def sched_inv_def)
qed

subsection \<open>Delivery\<close>

text \<open>
  A trace of the queue records each event with the calls it led to and the flow that is being sent
  afterwards. For a flow, \<open>offered\<close> are the packets it passed to the queue, \<open>sent\<close> those that were sent
  to the output while it was the sending flow, and \<open>waiting\<close> the one that is queued.
\<close>

type_synonym fq_label = "fq_event \<times> fq_call list \<times> nat option"

definition fq_step :: "PacketPassFairQueue \<Rightarrow> fq_label \<Rightarrow> PacketPassFairQueue \<Rightarrow> bool" where
  "fq_step m l m' \<longleftrightarrow> (case l of (e, calls, out) \<Rightarrow>
     fq_allowed m e \<and> fq_handle m e = Some (m', calls) \<and> out = fq_sending_flow m')"

fun offered1 :: "nat \<Rightarrow> fq_label \<Rightarrow> bytes list" where
  "offered1 f (FSend g d, _, _) = (if g = f then [d] else [])"
| "offered1 f _ = []"

definition outputs :: "fq_call list \<Rightarrow> bytes list" where
  "outputs calls = concat (map (\<lambda>c. case c of Output_Send d \<Rightarrow> [d] | _ \<Rightarrow> []) calls)"

fun sent1 :: "nat \<Rightarrow> fq_label \<Rightarrow> bytes list" where
  "sent1 f (e, calls, out) = (if out = Some f then outputs calls else [])"

definition offered :: "nat \<Rightarrow> fq_label list \<Rightarrow> bytes list" where
  "offered f ls = concat (map (offered1 f) ls)"

definition sent :: "nat \<Rightarrow> fq_label list \<Rightarrow> bytes list" where
  "sent f ls = concat (map (sent1 f) ls)"

definition waiting :: "nat \<Rightarrow> PacketPassFairQueue \<Rightarrow> bytes list" where
  "waiting f m = (case fq_flows m f of Some fl \<Rightarrow> if fl_is_queued fl then [fl_data fl] else [] | None \<Rightarrow> [])"

lemma waiting_same: "same_flows (fq_flows m') (fq_flows m) \<Longrightarrow> waiting f m' = waiting f m"
  using same_flowsD(4) [of "fq_flows m'" "fq_flows m" f] same_flowsD(1) [of "fq_flows m'" "fq_flows m"]
  by (cases "fq_flows m' f"; cases "fq_flows m f") (auto simp: waiting_def)

lemma outputs_simps [simp]:
  "outputs [] = []" "outputs [Output_Send d] = [d]" "outputs [Input_Done f] = []"
  "outputs [Input_Done f, Call_handler_busy f] = []" "outputs [Output_RequestCancel] = []"
  by (simp_all add: outputs_def)

lemma delivery_step:
  assumes inv: "fq_inv m" and st: "fq_step m (e, calls, out) m'" and nf: "e \<noteq> FFree f"
  shows "waiting f m @ offered1 f (e, calls, out) = sent1 f (e, calls, out) @ waiting f m'"
proof -
  have al: "fq_allowed m e" and h: "fq_handle m e = Some (m', calls)" and out: "out = fq_sending_flow m'"
    using st by (auto simp: fq_step_def)
  show ?thesis
  proof (cases e)
    case (FSend g d)
    obtain m1 calls1 flows fl t where r: "fq_handle m (FSend g d) = Some (m1, calls1)" "fq_inv m1"
      "fq_flows m g = Some fl" "flows = (fq_flows m)(g \<mapsto> fl\<lparr>fl_time := t, fl_data := d, fl_is_queued := True\<rparr>)"
      "calls1 = [] \<and> fq_flows m1 = flows
         \<or> (\<exists>g gl. flows g = Some gl \<and> fl_is_queued gl \<and> calls1 = [Output_Send (fl_data gl)] \<and> fq_sending_flow m1 = Some g
              \<and> fq_flows m1 = flows(g \<mapsto> gl\<lparr>fl_is_queued := False\<rparr>))"
      by (rule FSend_inv [OF inv al [unfolded FSend]])
    have eq: "m1 = m'" "calls1 = calls" using r(1) h FSend by simp_all
    have nq: "\<not> fl_is_queued fl" using al FSend r(3) by simp
    show ?thesis using r(3-5) nq out unfolding eq FSend by (auto simp: waiting_def)
  next
    case FDone
    obtain f1 where r: "calls = [Input_Done f1] \<or> calls = [Input_Done f1, Call_handler_busy f1]" "same_flows (fq_flows m') (fq_flows m)"
      using FDone_inv [OF inv al [unfolded FDone]] h [unfolded FDone] by auto
    show ?thesis using r waiting_same [OF r(2)] FDone by auto
  next
    case FJob
    note r = FJob_inv [OF inv al [unfolded FJob]]
    show ?thesis
    proof (cases "fq_queued_tree m")
      case Nil
      then show ?thesis using r h FJob by (auto simp: waiting_def)
    next
      case (Cons g gs)
      then obtain gl where "fq_flows m g = Some gl" "fl_is_queued gl"
        using inv tree_queued [of m g] by (auto simp: fq_inv_def queued_def split: option.splits)
      then show ?thesis using r h FJob Cons out by (auto simp: waiting_def)
    qed
  next
    case (FInit g)
    then show ?thesis using FInit_inv [OF inv al [unfolded FInit]] h al by (auto simp: waiting_def)
  next
    case (FFree g)
    then show ?thesis using FFree_inv [OF inv al [unfolded FFree]] h nf by (auto simp: waiting_def)
  next
    case (FBusy g)
    then show ?thesis using FBusy_inv [OF inv al [unfolded FBusy]] h waiting_same [of m' m f] by auto
  next
    case (FCancel g)
    then show ?thesis using h al inv by (auto simp: PacketPassFairQueueFlow_RequestCancel_def assert_simps)
  next
    case FPrepare
    then show ?thesis using h by (auto simp: PacketPassFairQueue_PrepareFree_def waiting_def)
  qed
qed

interpretation fq: event_system fq_inv fq_allowed fq_handle fq_step
  by unfold_locales (rule fq_step_ok, assumption+, auto simp: fq_step_def)

lemma reachable_inv:
  assumes "PacketPassFairQueue_Init mtu has_cancel use_cancel weight = Some (Some m0)" and "steps fq_step m0 ls m"
  shows "fq_inv m"
  by (rule fq.reached_inv [OF assms(2) Init_inv [OF assms(1)]])

definition example_fq :: PacketPassFairQueue where
  "example_fq = \<lparr>fq_mtu = 1500, fq_use_cancel = False, fq_packet_weight = 1, fq_sending_flow = None, fq_sending_len = 0,
     fq_previous_flow = None, fq_queued_tree = [], fq_flows_list = [], fq_flows = Map.empty, fq_freeing = False, fq_schedule_job = False\<rparr>"

lemma example_fq_Init: "PacketPassFairQueue_Init 1500 False False 1 = Some (Some example_fq)"
  by (simp add: PacketPassFairQueue_Init_def example_fq_def)

text \<open>Two flows send a packet each; the first is sent at once, the second when the first is done.\<close>

definition example_labels :: "fq_label list" where
  "example_labels = [(FInit 10, [], None), (FInit 20, [], None), (FSend 10 [1], [Output_Send [1]], Some 10),
     (FSend 20 [2, 3], [], Some 10), (FDone, [Input_Done 10], None), (FJob, [Output_Send [2, 3]], Some 20)]"

fun fq_run :: "PacketPassFairQueue \<Rightarrow> fq_event list \<Rightarrow> (fq_label list \<times> PacketPassFairQueue) option" where
  "fq_run m [] = Some ([], m)"
| "fq_run m (e # es) =
     (if fq_allowed m e then do {
        (m', calls) \<leftarrow> fq_handle m e;
        (ls, m'') \<leftarrow> fq_run m' es;
        Some ((e, calls, fq_sending_flow m') # ls, m'') }
      else None)"

lemma fq_run_steps: "fq_run m es = Some (ls, m') \<Longrightarrow> steps fq_step m ls m'"
proof (induction es arbitrary: m ls)
  case (Cons e es)
  then obtain m1 calls ls1 where r: "fq_allowed m e" "fq_handle m e = Some (m1, calls)" "fq_run m1 es = Some (ls1, m')"
    "ls = (e, calls, fq_sending_flow m1) # ls1"
    by (auto simp: bind_Some_iff split: if_splits)
  have "fq_step m (e, calls, fq_sending_flow m1) m1" using r by (simp add: fq_step_def)
  then show ?case unfolding r(4) by (rule steps_Cons [OF _ Cons.IH [OF r(3)]])
qed auto

definition example_end :: PacketPassFairQueue where
  "example_end = snd (the (fq_run example_fq (map fst example_labels)))"

lemmas fq_eval = example_fq_def PacketPassFairQueueFlow_Init_def fq_input_handler_send_def
  schedule_def schedule_job_handler_def fq_output_handler_done_def increment_sent_flow_def get_current_time_def
  Tree_GetFirst_def time_of_def compare_flows_def B_COMPARE_COMBINE_def B_COMPARE_def

lemma example_run: "fq_run example_fq (map fst example_labels) = Some (example_labels, example_end)"
proof -
  have "\<exists>m. fq_run example_fq (map fst example_labels) = Some (example_labels, m)"
    by (simp add: fq_eval example_labels_def)
  then show ?thesis by (auto simp: example_end_def)
qed

lemma delivery_steps:
  "steps fq_step m ls m' \<Longrightarrow> fq_inv m \<Longrightarrow> FFree f \<notin> fst ` set ls \<Longrightarrow> waiting f m @ offered f ls = sent f ls @ waiting f m'"
proof (induction rule: steps.induct)
  case (steps_snoc s ls s' l s'')
  obtain e calls out where l: "l = (e, calls, out)" by (cases l)
  have "waiting f s' @ offered1 f l = sent1 f l @ waiting f s''"
    unfolding l by (rule delivery_step) (use steps_snoc fq.reached_inv l in auto)
  moreover have "waiting f s @ offered f ls = sent f ls @ waiting f s'" using steps_snoc by auto
  ultimately show ?case by (simp add: offered_def sent_def) (metis append.assoc)
qed (simp add: offered_def sent_def)

text \<open>
  C27. Delivery. Whatever the flows and the output do, in any interleaving of packets, completions,
  runs of the schedule job, new and freed flows, the packets of a flow that is not freed reach the
  output unchanged, in order, without loss and without duplication: what it has offered is what has
  been sent for it, followed by the packet that is still waiting, if there is one.
\<close>

theorem fair_queue_delivery:
  assumes "PacketPassFairQueue_Init mtu has_cancel use_cancel weight = Some (Some m0)"
    and "steps fq_step m0 ls m" and "FFree f \<notin> fst ` set ls"
  shows "offered f ls = sent f ls @ waiting f m"
proof -
  have "waiting f m0 = []" using assms(1) by (auto simp: PacketPassFairQueue_Init_def waiting_def assert_simps split: if_splits)
  then show ?thesis using delivery_steps [OF assms(2) Init_inv [OF assms(1)] assms(3)] by simp
qed

theorem fair_queue_delivery_witness:
  "offered 20 example_labels = [[2, 3]] \<and> sent 20 example_labels @ waiting 20 example_end = [[2, 3]]"
  using fair_queue_delivery [OF example_fq_Init fq_run_steps [OF example_run], of 20]
  by (simp add: example_labels_def offered_def)

text \<open>
  C28. Safety and work conservation. In every state the queue can reach, every handler that may be
  called runs without failing an assertion. A waiting packet is never forgotten: either a packet is
  being sent or the schedule job is set, and when the job runs with packets waiting it sends the
  packet of the first flow of the tree. The flow that is being sent has the smallest time of all
  flows that have a packet.
\<close>

theorem fair_queue_safe:
  assumes "PacketPassFairQueue_Init mtu has_cancel use_cancel weight = Some (Some m0)" and "steps fq_step m0 ls m"
  shows "(\<forall>e. fq_allowed m e \<longrightarrow> fq_handle m e \<noteq> None)
    \<and> (\<not> fq_freeing m \<and> waiting f m \<noteq> [] \<longrightarrow> fq_sending_flow m \<noteq> None \<or> fq_schedule_job m)
    \<and> (fq_allowed m FJob \<and> waiting f m \<noteq> [] \<longrightarrow>
        (\<exists>m' g. fq_handle m FJob = Some (m', map Output_Send (waiting g m)) \<and> fq_sending_flow m' = Some g \<and> waiting g m \<noteq> []))
    \<and> (fq_sending_flow m = Some h \<and> waiting f m \<noteq> [] \<longrightarrow> time_of (fq_flows m) h \<le> time_of (fq_flows m) f)"
proof -
  have inv: "fq_inv m" by (rule reachable_inv [OF assms])
  have q: "f \<in> set (fq_queued_tree m)" if "waiting f m \<noteq> []"
    using that inv tree_queued [of m f] by (auto simp: waiting_def queued_def fq_inv_def split: option.splits if_splits)
  have 1: "\<forall>e. fq_allowed m e \<longrightarrow> fq_handle m e \<noteq> None" by (rule fq.never_fails [OF inv])
  have 2: "fq_sending_flow m \<noteq> None \<or> fq_schedule_job m" if "\<not> fq_freeing m" "waiting f m \<noteq> []"
    using that q inv by (auto simp: fq_inv_def sched_inv_def)
  have 3: "\<exists>m' g. fq_handle m FJob = Some (m', map Output_Send (waiting g m)) \<and> fq_sending_flow m' = Some g \<and> waiting g m \<noteq> []"
    if al: "fq_allowed m FJob" and w: "waiting f m \<noteq> []"
  proof -
    obtain g gs where g: "fq_queued_tree m = g # gs" using q [OF w] by (cases "fq_queued_tree m") auto
    then obtain gl where gl: "fq_flows m g = Some gl" "fl_is_queued gl"
      using inv tree_queued [of m g] by (auto simp: fq_inv_def queued_def split: option.splits)
    then have "waiting g m = [fl_data gl]" by (simp add: waiting_def)
    then show ?thesis using FJob_inv [OF inv al] g gl by auto
  qed
  have 4: "time_of (fq_flows m) h \<le> time_of (fq_flows m) f" if "fq_sending_flow m = Some h" "waiting f m \<noteq> []"
    using that q inv by (auto simp: fq_inv_def sched_inv_def)
  show ?thesis using 1 2 3 4 by blast
qed

theorem fair_queue_safe_witness: "fq_handle example_end FDone \<noteq> None"
proof -
  have "fq_allowed example_end FDone" by (simp add: example_end_def example_labels_def fq_eval)
  then show ?thesis using fair_queue_safe [OF example_fq_Init fq_run_steps [OF example_run]] by blast
qed



end
