(* ===== verification/ConnTable.thy ===== *)
theory ConnTable
  imports BAVL_Map Addr
begin

section \<open>Tables of connections\<close>

text \<open>
  Both UDP clients keep their connections in heap objects that are linked into a tree, where they are
  found by their addresses, and into a list in the order of use. A tree holds pointers; the value by
  which a pointer is ordered is read from the object it points to, so that changing an object's
  address while it is in the tree would break the tree. This theory has the address pairs with
  their order and the lemmas on such tables; the clients are in their own theories.
\<close>

record conaddr =
  local_addr :: BAddr
  remote_addr :: BAddr

definition conaddr_comparator :: "conaddr \<Rightarrow> conaddr \<Rightarrow> int" where
  "conaddr_comparator v1 v2 =
     (let r = BAddr_CompareOrder (remote_addr v1) (remote_addr v2) in
      if r \<noteq> 0 then r else BAddr_CompareOrder (local_addr v1) (local_addr v2))"

definition conaddr_ok :: "conaddr \<Rightarrow> bool" where
  "conaddr_ok c \<longleftrightarrow> addr_ok (local_addr c) \<and> addr_ok (remote_addr c)"

lemma conaddr_eq_iff: "c = c' \<longleftrightarrow> local_addr c = local_addr c' \<and> remote_addr c = remote_addr (c' :: conaddr)"
  by (cases c; cases c') auto

interpretation conaddr: comparator conaddr_comparator conaddr_ok
proof (unfold_locales, goal_cases)
  case (1 a b)
  then show ?case using baddr.cmp_range by (auto simp: conaddr_comparator_def conaddr_ok_def Let_def)
next
  case (2 a b)
  then show ?case using baddr.cmp_eq by (auto simp: conaddr_comparator_def conaddr_ok_def conaddr_eq_iff Let_def)
next
  case (3 a b)
  then show ?case
    using baddr.cmp_anti [of "remote_addr a" "remote_addr b"] baddr.cmp_anti [of "local_addr a" "local_addr b"]
    by (auto simp: conaddr_comparator_def conaddr_ok_def Let_def)
next
  case (4 a b c)
  note o = 4(1-3) [unfolded conaddr_ok_def]
  have "remote_addr a = remote_addr b \<or> BAddr_CompareOrder (remote_addr a) (remote_addr b) = -1"
    "remote_addr b = remote_addr c \<or> BAddr_CompareOrder (remote_addr b) (remote_addr c) = -1"
    using 4(4,5) o baddr.cmp_eq by (auto simp: conaddr_comparator_def Let_def split: if_splits)
  then consider "remote_addr a = remote_addr b" "remote_addr b = remote_addr c" | "BAddr_CompareOrder (remote_addr a) (remote_addr c) = -1"
    using o baddr.cmp_trans by metis
  then show ?case
  proof cases
    case 1
    then show ?thesis using 4(4,5) o baddr.cmp_self [of "remote_addr c"] baddr.cmp_trans [of "local_addr a" "local_addr b" "local_addr c"]
      by (simp add: conaddr_comparator_def Let_def)
  qed (simp add: conaddr_comparator_def Let_def)
qed

subsection \<open>Trees of pointers\<close>

definition key_at :: "('c \<Rightarrow> 'k) \<Rightarrow> (nat \<Rightarrow> 'c option) \<Rightarrow> nat \<Rightarrow> 'k" where
  "key_at kf cons p = kf (the (cons p))"

lemma key_at_upd [simp]: "key_at kf (cons(p \<mapsto> c)) q = (if q = p then kf c else key_at kf cons q)"
  by (simp add: key_at_def)

lemma LookupExact_cong:
  "(\<And>p. p \<in> set (inorder t) \<Longrightarrow> key p = key' p) \<Longrightarrow> BAVL_LookupExact key cmp t x = BAVL_LookupExact key' cmp t x"
  by (induction t) (auto simp: Let_def)

lemma bavl_ok_cong:
  assumes "\<And>p. p \<in> set (inorder t) \<Longrightarrow> key p = key' p"
  shows "bavl_ok key cmp ok t = bavl_ok key' cmp ok t"
proof -
  have "sorted_wrt (\<lambda>a b. cmp (key a) (key b) = -1) xs = sorted_wrt (\<lambda>a b. cmp (key' a) (key' b) = -1) xs"
    if "\<And>p. p \<in> set xs \<Longrightarrow> key p = key' p" for xs using that by (induction xs) auto
  from this [of "inorder t"] show ?thesis using assms by (auto simp: bavl_ok_def bst_def)
qed

text \<open>The table: a tree and a list of the same pointers, all of which point to an object.\<close>

definition table_inv :: "('k \<Rightarrow> 'k \<Rightarrow> int) \<Rightarrow> ('k \<Rightarrow> bool) \<Rightarrow> ('c \<Rightarrow> 'k) \<Rightarrow> nat bavl \<Rightarrow> nat list \<Rightarrow> (nat \<Rightarrow> 'c option) \<Rightarrow> bool" where
  "table_inv cmp ok kf tree list cons \<longleftrightarrow>
     bavl_ok (key_at kf cons) cmp ok tree \<and> set (inorder tree) = set list \<and> distinct list \<and> dom cons = set list"

lemma table_inv_dom: "table_inv cmp ok kf tree list cons \<Longrightarrow> p \<in> set list \<longleftrightarrow> cons p \<noteq> None"
  by (auto simp: table_inv_def)

lemma table_inv_touch:
  "table_inv cmp ok kf tree list cons \<Longrightarrow> p \<in> set list \<Longrightarrow> table_inv cmp ok kf tree (remove1 p list @ [p]) cons"
  by (auto simp: table_inv_def)

text \<open>Changing an object without changing its value.\<close>

lemma table_inv_update:
  assumes "table_inv cmp ok kf tree list cons" and "cons p = Some c" and "kf c' = kf c"
  shows "table_inv cmp ok kf tree list (cons(p \<mapsto> c'))"
proof -
  have "bavl_ok (key_at kf (cons(p \<mapsto> c'))) cmp ok tree = bavl_ok (key_at kf cons) cmp ok tree"
    by (rule bavl_ok_cong) (use assms(2,3) in \<open>simp add: key_at_def\<close>)
  then show ?thesis using assms by (auto simp: table_inv_def)
qed

context comparator
begin

lemma table_find:
  assumes "table_inv cmp ok kf tree list cons" and "ok k"
  shows "BAVL_LookupExact (key_at kf cons) cmp tree k = Some p \<longleftrightarrow> (\<exists>c. cons p = Some c \<and> kf c = k)"
proof -
  have ok: "bavl_ok (key_at kf cons) cmp ok tree" using assms(1) by (simp add: table_inv_def)
  have "p \<in> set (inorder tree) \<longleftrightarrow> cons p \<noteq> None" using assms(1) by (auto simp: table_inv_def)
  then show ?thesis using bavl_find_iff [OF ok assms(2), of p] by (auto simp: key_at_def)
qed

lemma table_find_None:
  assumes "table_inv cmp ok kf tree list cons" and "ok k"
  shows "BAVL_LookupExact (key_at kf cons) cmp tree k = None \<longleftrightarrow> (\<forall>p c. cons p = Some c \<longrightarrow> kf c \<noteq> k)"
proof (cases "BAVL_LookupExact (key_at kf cons) cmp tree k")
  case None
  then show ?thesis using table_find [OF assms] by simp
next
  case (Some p)
  then show ?thesis using table_find [OF assms, of p] by auto
qed

lemma table_ok:
  assumes "table_inv cmp ok kf tree list cons" and "cons p = Some c"
  shows "ok (kf c)"
proof -
  have "p \<in> set (inorder tree)" using assms by (auto simp: table_inv_def)
  then have "ok (key_at kf cons p)" using assms(1) by (simp add: table_inv_def bavl_ok_def bst_def)
  then show ?thesis using assms(2) by (simp add: key_at_def)
qed

lemma table_unique:
  assumes "table_inv cmp ok kf tree list cons" and "cons p = Some c" and "cons q = Some c'" and "kf c = kf c'"
  shows "p = q"
  using table_find [OF assms(1) table_ok [OF assms(1,2)]] assms(2-4) by (metis option.inject)

lemma table_add:
  assumes inv: "table_inv cmp ok kf tree list cons" and p: "cons p = None" and ok: "ok (kf c)"
    and new: "BAVL_LookupExact (key_at kf cons) cmp tree (kf c) = None"
  shows "\<exists>tree'. bavl_add (key_at kf (cons(p \<mapsto> c))) cmp tree p = Some tree' \<and> table_inv cmp ok kf tree' (list @ [p]) (cons(p \<mapsto> c))"
proof -
  let ?key = "key_at kf (cons(p \<mapsto> c))"
  have np: "p \<notin> set (inorder tree)" using inv p by (auto simp: table_inv_def)
  have agree: "q \<in> set (inorder tree) \<Longrightarrow> ?key q = key_at kf cons q" for q using np by auto
  have "bavl_ok ?key cmp ok tree = bavl_ok (key_at kf cons) cmp ok tree" by (rule bavl_ok_cong) (rule agree)
  then have b: "bavl_ok ?key cmp ok tree" using inv by (simp add: table_inv_def)
  have "BAVL_LookupExact ?key cmp tree (kf c) = BAVL_LookupExact (key_at kf cons) cmp tree (kf c)"
    by (rule LookupExact_cong) (rule agree)
  then have n: "BAVL_LookupExact ?key cmp tree (?key p) = None" using new by simp
  obtain t' where "bavl_add ?key cmp tree p = Some t'" "bavl_ok ?key cmp ok t'"
    "\<forall>k. ok k \<longrightarrow> BAVL_LookupExact ?key cmp t' k = ((BAVL_LookupExact ?key cmp tree)(?key p \<mapsto> p)) k"
    "set (inorder t') = insert p (set (inorder tree))" "length (inorder t') = Suc (length (inorder tree))"
    by (rule bavl_add_find [OF b _ n]) (simp add: ok)
  then show ?thesis using inv np by (auto simp: table_inv_def)
qed

lemma table_del:
  assumes inv: "table_inv cmp ok kf tree list cons" and p: "cons p = Some c"
  shows "\<exists>tree'. bavl_del (key_at kf cons) cmp tree (kf c) = Some tree' \<and> bavl_ok (key_at kf cons) cmp ok tree'
    \<and> set (inorder tree') = set list - {p} \<and> table_inv cmp ok kf tree' (remove1 p list) (cons(p := None))"
proof -
  have b: "bavl_ok (key_at kf cons) cmp ok tree" using inv by (simp add: table_inv_def)
  have ok: "ok (kf c)" by (rule table_ok [OF inv p])
  have f: "BAVL_LookupExact (key_at kf cons) cmp tree (kf c) = Some p" using table_find [OF inv ok] p by blast
  obtain t' where t': "bavl_del (key_at kf cons) cmp tree (kf c) = Some t'" "bavl_ok (key_at kf cons) cmp ok t'"
    "\<forall>k. ok k \<longrightarrow> BAVL_LookupExact (key_at kf cons) cmp t' k = ((BAVL_LookupExact (key_at kf cons) cmp tree)(kf c := None)) k"
    "set (inorder t') = set (inorder tree) - {p}" "Suc (length (inorder t')) = length (inorder tree)"
    by (rule bavl_del_find [OF b ok f])
  have agree: "q \<in> set (inorder t') \<Longrightarrow> key_at kf (cons(p := None)) q = key_at kf cons q" for q
    using t'(4) by (auto simp: key_at_def)
  have "table_inv cmp ok kf t' (remove1 p list) (cons(p := None))"
    using inv t'(2,4) bavl_ok_cong [OF agree, of t' "\<lambda>q. q"] by (auto simp: table_inv_def)
  then show ?thesis using t' inv by (auto simp: table_inv_def)
qed

text \<open>Giving an object another value: removed under the old one, inserted under the new one.\<close>

lemma table_rekey:
  assumes inv: "table_inv cmp ok kf tree list cons" and p: "cons p = Some c" and ok: "ok (kf c')"
    and new: "BAVL_LookupExact (key_at kf cons) cmp tree (kf c') = None"
  shows "\<exists>tree1 tree2. bavl_del (key_at kf cons) cmp tree (kf c) = Some tree1
    \<and> bavl_add (key_at kf (cons(p \<mapsto> c'))) cmp tree1 p = Some tree2 \<and> table_inv cmp ok kf tree2 list (cons(p \<mapsto> c'))"
proof -
  obtain t1 where t1: "bavl_del (key_at kf cons) cmp tree (kf c) = Some t1" "set (inorder t1) = set list - {p}"
    and i1: "table_inv cmp ok kf t1 (remove1 p list) (cons(p := None))"
    using table_del [OF inv p] by blast
  have "\<forall>q d. cons q = Some d \<longrightarrow> kf d \<noteq> kf c'" using table_find_None [OF inv ok] new by blast
  then have n: "BAVL_LookupExact (key_at kf (cons(p := None))) cmp t1 (kf c') = None"
    unfolding table_find_None [OF i1 ok] by auto
  obtain t2 where t2: "bavl_add (key_at kf ((cons(p := None))(p \<mapsto> c'))) cmp t1 p = Some t2"
    "table_inv cmp ok kf t2 (remove1 p list @ [p]) ((cons(p := None))(p \<mapsto> c'))"
    using table_add [OF i1 _ ok n, of p] by auto
  have "p \<in> set list" using inv p by (auto simp: table_inv_def)
  then have "table_inv cmp ok kf t2 list (cons(p \<mapsto> c'))" using t2(2) inv by (auto simp: table_inv_def)
  then show ?thesis using t1(1) t2(1) by auto
qed

end

end
