(* ===== verification/UdpGw.thy ===== *)
theory UdpGw
  imports ConnTable
begin

section \<open>The UDP gateway client\<close>

text \<open>
  \<open>protocol/udpgw_proto.h\<close> and \<open>udpgw_client/UdpGwClient.c\<close>: UDP packets of many pairs of addresses
  are carried over one stream to a gateway. Each pair has a connection with a 16-bit number
  (\<open>conid\<close>); the connections are kept in a tree by addresses, a tree by number and a list in order
  of use, and the least recently used one is taken over when there are too many.

  A connection is named by its address in memory, \<open>ug_cons\<close> maps it to its structure. The decisions of
  the neighbours are parameters: whether \<open>malloc\<close> returns an object (and which), whether
  \<open>PacketProtoFlow_Init\<close> succeeds, and whether the writer of a connection has room
  (\<open>BufferWriter_StartPacket\<close>). Calls to the neighbours are returned in order.
\<close>

subsection \<open>The protocol\<close>

definition UDPGW_CLIENT_FLAG_KEEPALIVE :: byte where "UDPGW_CLIENT_FLAG_KEEPALIVE = 1"
definition UDPGW_CLIENT_FLAG_REBIND :: byte where "UDPGW_CLIENT_FLAG_REBIND = 2"
definition UDPGW_CLIENT_FLAG_DNS :: byte where "UDPGW_CLIENT_FLAG_DNS = 4"
definition UDPGW_CLIENT_FLAG_IPV6 :: byte where "UDPGW_CLIENT_FLAG_IPV6 = 8"

abbreviation (input) sizeof_udpgw_header :: nat where "sizeof_udpgw_header \<equiv> 3"
abbreviation (input) sizeof_udpgw_addr_ipv4 :: nat where "sizeof_udpgw_addr_ipv4 \<equiv> 6"
abbreviation (input) sizeof_udpgw_addr_ipv6 :: nat where "sizeof_udpgw_addr_ipv6 \<equiv> 18"
abbreviation (input) sizeof_socks_udp_header :: nat where "sizeof_socks_udp_header \<equiv> 4"

definition udpgw_header_mem :: "byte \<Rightarrow> u16 \<Rightarrow> bytes" where
  "udpgw_header_mem flags conid = flags # mem16 conid"

fun udpgw_addr_mem :: "BAddr \<Rightarrow> bytes" where
  "udpgw_addr_mem (BAddr_IPv4 ip port) = mem32 ip @ mem16 port"
| "udpgw_addr_mem (BAddr_IPv6 ip port) = ip @ mem16 port"
| "udpgw_addr_mem _ = []"

definition udpgw_addr_parse :: "bool \<Rightarrow> bytes \<Rightarrow> (BAddr \<times> bytes) option" where
  "udpgw_addr_parse ipv6 data =
     (if ipv6 then
        (if length data < sizeof_udpgw_addr_ipv6 then None
         else Some (BAddr_MakeIPv6 (take 16 data) (badvpn_read_le16 (drop 16 data)), drop sizeof_udpgw_addr_ipv6 data))
      else
        (if length data < sizeof_udpgw_addr_ipv4 then None
         else Some (BAddr_MakeIPv4 (badvpn_read_le32 data) (badvpn_read_le16 (drop 4 data)), drop sizeof_udpgw_addr_ipv4 data)))"

definition udpgw_compute_mtu :: "nat \<Rightarrow> int \<Rightarrow> int" where
  "udpgw_compute_mtu size_max dgram_mtu =
     (let bs = bsize_add size_max (bsize_fromsize sizeof_socks_udp_header)
                 (bsize_add size_max
                    (bsize_max (bsize_fromsize sizeof_udpgw_addr_ipv4) (bsize_fromsize sizeof_udpgw_addr_ipv6))
                    (bsize_fromint size_max dgram_mtu))
      in case bsize_toint bs of None \<Rightarrow> -1 | Some s \<Rightarrow> s)"

subsection \<open>State\<close>

record UdpGwClient_connection =
  c_conaddr :: conaddr
  c_first_flags :: byte
  c_first_data :: bytes
  c_conid :: u16
  c_first_job :: bool

record UdpGwClient =
  ug_udp_mtu :: nat
  ug_max_connections :: nat
  ug_udpgw_mtu :: nat
  ug_pp_mtu :: nat
  ug_tree_by_conaddr :: "nat bavl"
  ug_tree_by_conid :: "nat bavl"
  ug_connections_list :: "nat list"
  ug_num_connections :: nat
  ug_next_conid :: nat
  ug_cons :: "nat \<Rightarrow> UdpGwClient_connection option"
  ug_keepalive_sending :: bool
  ug_have_server :: bool

datatype ug_call =
    Recv_Done
  | Handler_received BAddr BAddr bytes
  | Handler_servererror
  | Con_Send nat bytes
  | Keepalive_Send bytes
  | Flow_Init nat
  | Flow_Free nat
  | Connect_Output
  | Disconnect_Output

subsection \<open>Operations\<close>

definition uint16_comparator :: "u16 \<Rightarrow> u16 \<Rightarrow> int" where
  "uint16_comparator v1 v2 = B_COMPARE v1 v2"

definition find_connection_by_conaddr :: "UdpGwClient \<Rightarrow> conaddr \<Rightarrow> nat option" where
  "find_connection_by_conaddr o' conaddr =
     BAVL_LookupExact (key_at c_conaddr (ug_cons o')) conaddr_comparator (ug_tree_by_conaddr o') conaddr"

definition find_connection_by_conid :: "UdpGwClient \<Rightarrow> u16 \<Rightarrow> nat option" where
  "find_connection_by_conid o' conid =
     BAVL_LookupExact (key_at c_conid (ug_cons o')) uint16_comparator (ug_tree_by_conid o') conid"

text \<open>The loop of \<open>find_unused_conid\<close>; \<open>None\<close> if it does not end.\<close>

partial_function (option) unused_conid_loop :: "(nat \<Rightarrow> bool) \<Rightarrow> nat \<Rightarrow> nat \<Rightarrow> nat option" where
  "unused_conid_loop used max_connections next_conid =
     (if \<not> used next_conid then Some next_conid
      else unused_conid_loop used max_connections
             (if next_conid = max_connections - 1 then 0 else next_conid + 1))"

definition find_unused_conid :: "UdpGwClient \<Rightarrow> (u16 \<times> UdpGwClient) option" where
  "find_unused_conid o' = do {
     ASSERT (ug_num_connections o' < ug_max_connections o');
     c \<leftarrow> unused_conid_loop (\<lambda>c. find_connection_by_conid o' (of_nat c) \<noteq> None) (ug_max_connections o') (ug_next_conid o');
     Some (of_nat c, o'\<lparr>ug_next_conid := c\<rparr>) }"

definition connection_init ::
  "nat option \<Rightarrow> bool \<Rightarrow> UdpGwClient \<Rightarrow> conaddr \<Rightarrow> byte \<Rightarrow> bytes \<Rightarrow> (UdpGwClient \<times> ug_call list) option" where
  "connection_init malloc flow_ok o' conaddr flags data = do {
     ASSERT (ug_num_connections o' < ug_max_connections o');
     ASSERT (find_connection_by_conaddr o' conaddr = None);
     ASSERT (length data \<le> ug_udp_mtu o');
     case malloc of
       None \<Rightarrow> Some (o', [])
     | Some con \<Rightarrow> do {
         (conid, o') \<leftarrow> find_unused_conid o';
         if \<not> flow_ok then Some (o', [Flow_Init con, Flow_Free con])
         else do {
           let cons = (ug_cons o')(con \<mapsto> \<lparr>c_conaddr = conaddr, c_first_flags = flags, c_first_data = data,
                                            c_conid = conid, c_first_job = True\<rparr>);
           tree1 \<leftarrow> bavl_add (key_at c_conaddr cons) conaddr_comparator (ug_tree_by_conaddr o') con;
           tree2 \<leftarrow> bavl_add (key_at c_conid cons) uint16_comparator (ug_tree_by_conid o') con;
           Some (o'\<lparr>ug_cons := cons, ug_tree_by_conaddr := tree1, ug_tree_by_conid := tree2,
                    ug_connections_list := ug_connections_list o' @ [con],
                    ug_num_connections := ug_num_connections o' + 1\<rparr>, [Flow_Init con]) } } }"

definition connection_free :: "nat \<Rightarrow> UdpGwClient \<Rightarrow> (UdpGwClient \<times> ug_call list) option" where
  "connection_free con o' = do {
     c \<leftarrow> ug_cons o' con;
     tree2 \<leftarrow> bavl_del (key_at c_conid (ug_cons o')) uint16_comparator (ug_tree_by_conid o') (c_conid c);
     tree1 \<leftarrow> bavl_del (key_at c_conaddr (ug_cons o')) conaddr_comparator (ug_tree_by_conaddr o') (c_conaddr c);
     Some (o'\<lparr>ug_num_connections := ug_num_connections o' - 1,
              ug_connections_list := remove1 con (ug_connections_list o'),
              ug_tree_by_conid := tree2, ug_tree_by_conaddr := tree1,
              ug_cons := (ug_cons o')(con := None)\<rparr>, [Flow_Free con]) }"

text \<open>\<open>room\<close> is what \<open>BufferWriter_StartPacket\<close> answers; \<open>BufferWriter_EndPacket\<close> asserts the length.\<close>

definition connection_send ::
  "(nat \<Rightarrow> bool) \<Rightarrow> nat \<Rightarrow> byte \<Rightarrow> bytes \<Rightarrow> UdpGwClient \<Rightarrow> ug_call list option" where
  "connection_send room con flags data o' = do {
     c \<leftarrow> ug_cons o' con;
     ASSERT (length data \<le> ug_udp_mtu o');
     if \<not> room con then Some []
     else do {
       let remote = remote_addr (c_conaddr c);
       let flags = (if BAddr_type remote = 2 then flags OR UDPGW_CLIENT_FLAG_IPV6 else flags);
       let out = udpgw_header_mem (ltoh8 flags) (ltoh16 (c_conid c)) @ udpgw_addr_mem remote @ data;
       ASSERT (length out \<le> ug_udpgw_mtu o');
       Some [Con_Send con out] } }"

definition connection_first_job_handler :: "(nat \<Rightarrow> bool) \<Rightarrow> nat \<Rightarrow> UdpGwClient \<Rightarrow> ug_call list option" where
  "connection_first_job_handler room con o' = do {
     c \<leftarrow> ug_cons o' con;
     connection_send room con (UDPGW_CLIENT_FLAG_REBIND OR c_first_flags c) (c_first_data c) o' }"

definition reuse_connection :: "UdpGwClient \<Rightarrow> conaddr \<Rightarrow> (nat \<times> UdpGwClient) option" where
  "reuse_connection o' conaddr = do {
     ASSERT (find_connection_by_conaddr o' conaddr = None);
     ASSERT (ug_num_connections o' > 0);
     con \<leftarrow> first_of (ug_connections_list o');
     c \<leftarrow> ug_cons o' con;
     tree \<leftarrow> bavl_del (key_at c_conaddr (ug_cons o')) conaddr_comparator (ug_tree_by_conaddr o') (c_conaddr c);
     let cons = (ug_cons o')(con \<mapsto> c\<lparr>c_conaddr := conaddr\<rparr>);
     tree \<leftarrow> bavl_add (key_at c_conaddr cons) conaddr_comparator tree con;
     Some (con, o'\<lparr>ug_cons := cons, ug_tree_by_conaddr := tree\<rparr>) }"

definition move_to_front :: "nat \<Rightarrow> UdpGwClient \<Rightarrow> UdpGwClient" where
  "move_to_front con o' = o'\<lparr>ug_connections_list := remove1 con (ug_connections_list o') @ [con]\<rparr>"

definition UdpGwClient_SubmitPacket ::
  "nat option \<Rightarrow> bool \<Rightarrow> (nat \<Rightarrow> bool) \<Rightarrow> UdpGwClient \<Rightarrow> BAddr \<Rightarrow> BAddr \<Rightarrow> bool \<Rightarrow> bytes \<Rightarrow> (UdpGwClient \<times> ug_call list) option" where
  "UdpGwClient_SubmitPacket malloc flow_ok room o' local remote is_dns data = do {
     ASSERT (is_ip_addr local);
     ASSERT (is_ip_addr remote);
     ASSERT (length data \<le> ug_udp_mtu o');
     let conaddr = \<lparr>local_addr = local, remote_addr = remote\<rparr>;
     let con = find_connection_by_conaddr o' conaddr;
     let flags = (if is_dns then UDPGW_CLIENT_FLAG_DNS else 0);
     (con, flags, o') \<leftarrow> (if con = None \<and> ug_num_connections o' = ug_max_connections o' then do {
                            (p, o') \<leftarrow> reuse_connection o' conaddr;
                            Some (Some p, flags OR UDPGW_CLIENT_FLAG_REBIND, o') }
                          else Some (con, flags, o'));
     case con of
       None \<Rightarrow> connection_init malloc flow_ok o' conaddr flags data
     | Some p \<Rightarrow> do {
         let o' = move_to_front p o';
         calls \<leftarrow> connection_send room p flags data o';
         Some (o', calls) } }"

definition recv_interface_handler_send :: "bytes \<Rightarrow> UdpGwClient \<Rightarrow> (UdpGwClient \<times> ug_call list) option" where
  "recv_interface_handler_send data o' = do {
     ASSERT (ug_have_server o');
     ASSERT (length data \<le> ug_udpgw_mtu o');
     if length data < sizeof_udpgw_header then Some (o', [Recv_Done])
     else do {
       let flags = ltoh8 (data ! 0);
       let conid = ltoh16 (badvpn_read_le16 (drop 1 data));
       let data = drop sizeof_udpgw_header data;
       case udpgw_addr_parse (flags AND UDPGW_CLIENT_FLAG_IPV6 \<noteq> 0) data of
         None \<Rightarrow> Some (o', [Recv_Done])
       | Some (remote, data) \<Rightarrow>
           if length data > ug_udp_mtu o' then Some (o', [Recv_Done])
           else (case find_connection_by_conid o' conid of
             None \<Rightarrow> Some (o', [Recv_Done])
           | Some con \<Rightarrow> do {
               c \<leftarrow> ug_cons o' con;
               if BAddr_CompareOrder (remote_addr (c_conaddr c)) remote \<noteq> 0 then Some (o', [Recv_Done])
               else Some (move_to_front con o',
                          [Recv_Done, Handler_received (local_addr (c_conaddr c)) (remote_addr (c_conaddr c)) data]) }) } }"

definition keepalive_packet :: bytes where
  "keepalive_packet = mem16 3 @ udpgw_header_mem UDPGW_CLIENT_FLAG_KEEPALIVE 0"

definition send_monitor_handler :: "UdpGwClient \<Rightarrow> UdpGwClient \<times> ug_call list" where
  "send_monitor_handler o' =
     (if ug_keepalive_sending o' then (o', [])
      else (o'\<lparr>ug_keepalive_sending := True\<rparr>, [Keepalive_Send keepalive_packet]))"

definition keepalive_if_handler_done :: "UdpGwClient \<Rightarrow> UdpGwClient option" where
  "keepalive_if_handler_done o' = do {
     ASSERT (ug_keepalive_sending o');
     Some (o'\<lparr>ug_keepalive_sending := False\<rparr>) }"

definition ug_decoder_handler_error :: "UdpGwClient \<Rightarrow> ug_call list option" where
  "ug_decoder_handler_error o' = do {
     ASSERT (ug_have_server o');
     Some [Handler_servererror] }"

definition UdpGwClient_Init :: "nat \<Rightarrow> nat \<Rightarrow> nat \<Rightarrow> nat \<Rightarrow> bool \<Rightarrow> UdpGwClient option option" where
  "UdpGwClient_Init size_max udp_mtu max_connections send_buffer_size queue_ok = do {
     ASSERT (udpgw_compute_mtu size_max (int udp_mtu) \<ge> 0);
     ASSERT (udpgw_compute_mtu size_max (int udp_mtu) \<le> UINT16_MAX);
     ASSERT (max_connections > 0);
     ASSERT (send_buffer_size > 0);
     if \<not> queue_ok then Some None
     else Some (Some \<lparr>ug_udp_mtu = udp_mtu, ug_max_connections = min max_connections 65536,
       ug_udpgw_mtu = nat (udpgw_compute_mtu size_max (int udp_mtu)),
       ug_pp_mtu = nat (udpgw_compute_mtu size_max (int udp_mtu)) + 2,
       ug_tree_by_conaddr = Leaf, ug_tree_by_conid = Leaf, ug_connections_list = [], ug_num_connections = 0,
       ug_next_conid = 0, ug_cons = Map.empty, ug_keepalive_sending = False, ug_have_server = False\<rparr>) }"

text \<open>The loop of \<open>UdpGwClient_Free\<close>, which frees the first connection of the list until there is none.\<close>

partial_function (option) free_connections :: "UdpGwClient \<Rightarrow> UdpGwClient option" where
  "free_connections o' =
     (case ug_connections_list o' of
        [] \<Rightarrow> Some o'
      | con # _ \<Rightarrow> Option.bind (connection_free con o') (\<lambda>r. free_connections (fst r)))"

definition UdpGwClient_ConnectServer :: "bool \<Rightarrow> UdpGwClient \<Rightarrow> (bool \<times> UdpGwClient \<times> ug_call list) option" where
  "UdpGwClient_ConnectServer decoder_ok o' = do {
     ASSERT (\<not> ug_have_server o');
     if \<not> decoder_ok then Some (False, o', [])
     else Some (True, o'\<lparr>ug_have_server := True\<rparr>, [Connect_Output]) }"

definition UdpGwClient_DisconnectServer :: "UdpGwClient \<Rightarrow> (UdpGwClient \<times> ug_call list) option" where
  "UdpGwClient_DisconnectServer o' = do {
     ASSERT (ug_have_server o');
     Some (o'\<lparr>ug_have_server := False\<rparr>, [Disconnect_Output]) }"

definition UdpGwClient_Free :: "UdpGwClient \<Rightarrow> (UdpGwClient \<times> ug_call list) option" where
  "UdpGwClient_Free o' = do {
     o' \<leftarrow> free_connections o';
     Some (if ug_have_server o' then (o', [Disconnect_Output]) else (o', [])) }"

subsection \<open>Finding a free number\<close>

lemma unused_conid_loop_ends:
  assumes "\<not> used k" and "k < mx" and "c < mx"
  shows "\<exists>r. unused_conid_loop used mx c = Some r \<and> r < mx \<and> \<not> used r"
  using assms(3)
proof (induction "if c \<le> k then k - c else k + mx - c" arbitrary: c rule: less_induct)
  case less
  show ?case
  proof (cases "used c")
    case True
    let ?c = "if c = mx - 1 then 0 else c + 1"
    have ne: "c \<noteq> k" using True assms(1) by auto
    have "?c < mx" using less.prems by auto
    moreover have "(if ?c \<le> k then k - ?c else k + mx - ?c) < (if c \<le> k then k - c else k + mx - c)"
      using ne assms(2) less.prems by auto
    ultimately have "\<exists>r. unused_conid_loop used mx ?c = Some r \<and> r < mx \<and> \<not> used r" using less.hyps by blast
    then show ?thesis using True by (subst unused_conid_loop.simps) simp
  qed (use less.prems in \<open>subst unused_conid_loop.simps, simp\<close>)
qed

interpretation u16cmp: comparator uint16_comparator "\<lambda>_. True"
proof -
  have "uint16_comparator = B_COMPARE" by (intro ext) (simp add: uint16_comparator_def)
  then show "comparator uint16_comparator (\<lambda>_. True)" using b_compare.comparator_axioms by simp
qed

subsection \<open>The invariant\<close>

definition con_ok :: "UdpGwClient \<Rightarrow> UdpGwClient_connection \<Rightarrow> bool" where
  "con_ok o' c \<longleftrightarrow> unat (c_conid c) < ug_max_connections o' \<and> is_ip_addr (local_addr (c_conaddr c))
     \<and> is_ip_addr (remote_addr (c_conaddr c)) \<and> length (c_first_data c) \<le> ug_udp_mtu o'"

definition ug_inv :: "UdpGwClient \<Rightarrow> bool" where
  "ug_inv o' \<longleftrightarrow>
     table_inv conaddr_comparator conaddr_ok c_conaddr (ug_tree_by_conaddr o') (ug_connections_list o') (ug_cons o')
     \<and> table_inv uint16_comparator (\<lambda>_. True) c_conid (ug_tree_by_conid o') (ug_connections_list o') (ug_cons o')
     \<and> ug_num_connections o' = length (ug_connections_list o') \<and> ug_num_connections o' \<le> ug_max_connections o'
     \<and> 0 < ug_max_connections o' \<and> ug_max_connections o' \<le> 65536 \<and> ug_next_conid o' < ug_max_connections o'
     \<and> ug_udpgw_mtu o' = ug_udp_mtu o' + 22 \<and> (\<forall>p c. ug_cons o' p = Some c \<longrightarrow> con_ok o' c)"

lemma ug_invD:
  assumes "ug_inv o'"
  shows "table_inv conaddr_comparator conaddr_ok c_conaddr (ug_tree_by_conaddr o') (ug_connections_list o') (ug_cons o')"
    and "table_inv uint16_comparator (\<lambda>_. True) c_conid (ug_tree_by_conid o') (ug_connections_list o') (ug_cons o')"
    and "ug_num_connections o' = length (ug_connections_list o')"
    and "ug_udpgw_mtu o' = ug_udp_mtu o' + 22"
    and "ug_cons o' p = Some c \<Longrightarrow> con_ok o' c"
  using assms by (simp_all add: ug_inv_def)

lemma find_conaddr:
  assumes "ug_inv o'" and "conaddr_ok a"
  shows "find_connection_by_conaddr o' a = Some p \<longleftrightarrow> (\<exists>c. ug_cons o' p = Some c \<and> c_conaddr c = a)"
    and "find_connection_by_conaddr o' a = None \<longleftrightarrow> (\<forall>p c. ug_cons o' p = Some c \<longrightarrow> c_conaddr c \<noteq> a)"
  unfolding find_connection_by_conaddr_def
  by (rule conaddr.table_find [OF ug_invD(1) [OF assms(1)] assms(2)], rule conaddr.table_find_None [OF ug_invD(1) [OF assms(1)] assms(2)])

lemma find_conid:
  assumes "ug_inv o'"
  shows "find_connection_by_conid o' i = Some p \<longleftrightarrow> (\<exists>c. ug_cons o' p = Some c \<and> c_conid c = i)"
    and "find_connection_by_conid o' i = None \<longleftrightarrow> (\<forall>p c. ug_cons o' p = Some c \<longrightarrow> c_conid c \<noteq> i)"
  unfolding find_connection_by_conid_def
  by (rule u16cmp.table_find [OF ug_invD(2) [OF assms]], simp, rule u16cmp.table_find_None [OF ug_invD(2) [OF assms]], simp)

lemma unused_conid_exists:
  assumes inv: "ug_inv o'" and lt: "ug_num_connections o' < ug_max_connections o'"
  shows "\<exists>k < ug_max_connections o'. find_connection_by_conid o' (of_nat k) = None"
proof -
  let ?S = "(\<lambda>p. unat (c_conid (the (ug_cons o' p)))) ` set (ug_connections_list o')"
  have "card ?S \<le> length (ug_connections_list o')" by (meson card_image_le card_length finite_set le_trans)
  then have "card ?S < card {..<ug_max_connections o'}" using lt ug_invD(3) [OF inv] by simp
  then have "\<not> {..<ug_max_connections o'} \<subseteq> ?S" by (meson card_mono finite_imageI finite_set leD)
  then obtain k where k: "k < ug_max_connections o'" "k \<notin> ?S" by auto
  have "c_conid c \<noteq> of_nat k" if c: "ug_cons o' p = Some c" for p c
  proof
    assume "c_conid c = of_nat k"
    moreover have "k < 65536" using k(1) inv by (simp add: ug_inv_def)
    ultimately have "unat (c_conid c) = k" by (simp add: unat_of_nat)
    moreover have "p \<in> set (ug_connections_list o')" using table_inv_dom [OF ug_invD(1) [OF inv], of p] c by simp
    ultimately show False using k(2) c by (metis (no_types, lifting) imageI option.sel)
  qed
  then show ?thesis using k(1) find_conid(2) [OF inv, of "of_nat k"] by blast
qed

lemma find_unused_conid_ok:
  assumes inv: "ug_inv o'" and lt: "ug_num_connections o' < ug_max_connections o'"
  shows "\<exists>c. find_unused_conid o' = Some (of_nat c, o'\<lparr>ug_next_conid := c\<rparr>) \<and> c < ug_max_connections o'
    \<and> find_connection_by_conid o' (of_nat c) = None \<and> ug_inv (o'\<lparr>ug_next_conid := c\<rparr>)"
proof -
  let ?used = "\<lambda>c. find_connection_by_conid o' (of_nat c) \<noteq> None"
  obtain k where k: "k < ug_max_connections o'" "find_connection_by_conid o' (of_nat k) = None"
    using unused_conid_exists [OF assms] by blast
  have nk: "\<not> ?used k" using k(2) by simp
  have "ug_next_conid o' < ug_max_connections o'" using inv by (simp add: ug_inv_def)
  from unused_conid_loop_ends [of ?used, OF nk k(1) this]
  obtain r where r: "unused_conid_loop ?used (ug_max_connections o') (ug_next_conid o') = Some r"
    "r < ug_max_connections o'" "find_connection_by_conid o' (of_nat r) = None" by auto
  have "ug_inv (o'\<lparr>ug_next_conid := r\<rparr>)" using inv r(2) by (simp add: ug_inv_def con_ok_def)
  then show ?thesis using lt r by (intro exI [of _ r]) (simp add: find_unused_conid_def)
qed

subsection \<open>Every operation keeps the invariant\<close>

lemma is_ip_conaddr_ok:
  assumes "is_ip_addr l" and "is_ip_addr r" and "addr_ok l" and "addr_ok r"
  shows "conaddr_ok \<lparr>local_addr = l, remote_addr = r\<rparr>"
  using assms by (simp add: conaddr_ok_def)

lemma move_to_front_inv:
  assumes "ug_inv o'" and "ug_cons o' p = Some c"
  shows "ug_inv (move_to_front p o')"
proof -
  have p: "p \<in> set (ug_connections_list o')" using table_inv_dom [OF ug_invD(1) [OF assms(1)], of p] assms(2) by simp
  have "length (remove1 p (ug_connections_list o') @ [p]) = length (ug_connections_list o')"
    using length_pos_if_in_set [OF p] p by (simp add: length_remove1)
  then show ?thesis using assms(1) table_inv_touch [OF ug_invD(1) [OF assms(1)] p] table_inv_touch [OF ug_invD(2) [OF assms(1)] p]
    by (auto simp: ug_inv_def move_to_front_def con_ok_def)
qed

lemma length_addr_mem:
  "is_ip_addr a \<Longrightarrow> addr_ok a \<Longrightarrow> length (udpgw_addr_mem a) = (if BAddr_type a = 2 then 18 else 6)"
  by (cases a) (auto simp: is_ip_addr_def mem_simps)

lemma connection_send_ok:
  assumes inv: "ug_inv o'" and c: "ug_cons o' p = Some c" and d: "length data \<le> ug_udp_mtu o'"
  shows "\<exists>calls. connection_send room p flags data o' = Some calls
    \<and> calls = (if room p then [Con_Send p (udpgw_header_mem (if BAddr_type (remote_addr (c_conaddr c)) = 2 then flags OR UDPGW_CLIENT_FLAG_IPV6 else flags)
         (c_conid c) @ udpgw_addr_mem (remote_addr (c_conaddr c)) @ data)] else [])"
proof -
  have "conaddr_ok (c_conaddr c)" by (rule conaddr.table_ok [OF ug_invD(1) [OF inv] c])
  moreover have "is_ip_addr (remote_addr (c_conaddr c))" using ug_invD(5) [OF inv c] by (simp add: con_ok_def)
  ultimately have "length (udpgw_addr_mem (remote_addr (c_conaddr c))) \<le> 18"
    using length_addr_mem by (simp add: conaddr_ok_def)
  then show ?thesis using c d ug_invD(4) [OF inv] by (simp add: connection_send_def Let_def byte_id udpgw_header_mem_def mem_simps)
qed

lemma connection_init_ok:
  assumes inv: "ug_inv o'" and lt: "ug_num_connections o' < ug_max_connections o'"
    and ip: "is_ip_addr (local_addr a)" "is_ip_addr (remote_addr a)" "conaddr_ok a"
    and new: "find_connection_by_conaddr o' a = None" and d: "length data \<le> ug_udp_mtu o'"
    and fresh: "\<And>p. malloc = Some p \<Longrightarrow> ug_cons o' p = None"
  shows "\<exists>o'' calls. connection_init malloc flow_ok o' a flags data = Some (o'', calls) \<and> ug_inv o''
    \<and> (\<forall>p. malloc = Some p \<and> flow_ok \<longrightarrow> (\<exists>conid. find_connection_by_conid o' conid = None
          \<and> ug_cons o'' = (ug_cons o')(p \<mapsto> \<lparr>c_conaddr = a, c_first_flags = flags, c_first_data = data, c_conid = conid, c_first_job = True\<rparr>)
          \<and> ug_connections_list o'' = ug_connections_list o' @ [p]))
    \<and> (malloc = None \<or> \<not> flow_ok \<longrightarrow> ug_cons o'' = ug_cons o' \<and> ug_connections_list o'' = ug_connections_list o')"
proof (cases malloc)
  case None
  then show ?thesis using assms by (simp add: connection_init_def)
next
  case (Some p)
  obtain k where k: "find_unused_conid o' = Some (of_nat k, o'\<lparr>ug_next_conid := k\<rparr>)" "k < ug_max_connections o'"
    "find_connection_by_conid o' (of_nat k) = None" "ug_inv (o'\<lparr>ug_next_conid := k\<rparr>)"
    using find_unused_conid_ok [OF inv lt] by blast
  show ?thesis
  proof (cases flow_ok)
    case False
    then show ?thesis using Some assms k by (simp add: connection_init_def)
  next
    case True
    let ?c = "\<lparr>c_conaddr = a, c_first_flags = flags, c_first_data = data, c_conid = of_nat k, c_first_job = True\<rparr>"
    let ?cons = "(ug_cons o')(p \<mapsto> ?c)"
    have np: "ug_cons o' p = None" by (rule fresh [OF Some])
    obtain t1 where t1: "bavl_add (key_at c_conaddr ?cons) conaddr_comparator (ug_tree_by_conaddr o') p = Some t1"
      "table_inv conaddr_comparator conaddr_ok c_conaddr t1 (ug_connections_list o' @ [p]) ?cons"
      using conaddr.table_add [OF ug_invD(1) [OF inv] np, of ?c] ip(3) new by (auto simp: find_connection_by_conaddr_def)
    obtain t2 where t2: "bavl_add (key_at c_conid ?cons) uint16_comparator (ug_tree_by_conid o') p = Some t2"
      "table_inv uint16_comparator (\<lambda>_. True) c_conid t2 (ug_connections_list o' @ [p]) ?cons"
      using u16cmp.table_add [OF ug_invD(2) [OF inv] np, of ?c] k(3) by (auto simp: find_connection_by_conid_def)
    let ?o = "o'\<lparr>ug_next_conid := k, ug_cons := ?cons, ug_tree_by_conaddr := t1, ug_tree_by_conid := t2,
        ug_connections_list := ug_connections_list o' @ [p], ug_num_connections := ug_num_connections o' + 1\<rparr>"
    have "unat (of_nat k :: u16) = k" using k(2) inv by (simp add: ug_inv_def unat_of_nat)
    then have "ug_inv ?o" using inv lt t1(2) t2(2) k(2) ip d by (auto simp: ug_inv_def con_ok_def)
    moreover have "connection_init malloc flow_ok o' a flags data = Some (?o, [Flow_Init p])"
      using Some True assms k t1 t2 by (simp add: connection_init_def)
    ultimately show ?thesis using Some True k(3) by auto
  qed
qed

lemma reuse_connection_ok:
  assumes inv: "ug_inv o'" and full: "ug_num_connections o' = ug_max_connections o'"
    and ip: "is_ip_addr (local_addr a)" "is_ip_addr (remote_addr a)" "conaddr_ok a"
    and new: "find_connection_by_conaddr o' a = None"
  shows "\<exists>p ps c o''. ug_connections_list o' = p # ps \<and> ug_cons o' p = Some c
    \<and> reuse_connection o' a = Some (p, o'') \<and> ug_inv o''
    \<and> ug_cons o'' = (ug_cons o')(p \<mapsto> c\<lparr>c_conaddr := a\<rparr>) \<and> ug_connections_list o'' = ug_connections_list o'
    \<and> ug_udp_mtu o'' = ug_udp_mtu o' \<and> ug_have_server o'' = ug_have_server o'"
proof -
  have "0 < length (ug_connections_list o')" using inv full by (auto simp: ug_inv_def)
  then obtain p ps where l: "ug_connections_list o' = p # ps" by (cases "ug_connections_list o'") auto
  obtain c where c: "ug_cons o' p = Some c" using table_inv_dom [OF ug_invD(1) [OF inv], of p] l by auto
  let ?cons = "(ug_cons o')(p \<mapsto> c\<lparr>c_conaddr := a\<rparr>)"
  obtain t1 t2 where t: "bavl_del (key_at c_conaddr (ug_cons o')) conaddr_comparator (ug_tree_by_conaddr o') (c_conaddr c) = Some t1"
    "bavl_add (key_at c_conaddr ?cons) conaddr_comparator t1 p = Some t2"
    "table_inv conaddr_comparator conaddr_ok c_conaddr t2 (ug_connections_list o') ?cons"
    using conaddr.table_rekey [OF ug_invD(1) [OF inv] c, of "c\<lparr>c_conaddr := a\<rparr>"] ip(3) new
    by (auto simp: find_connection_by_conaddr_def)
  have "table_inv uint16_comparator (\<lambda>_. True) c_conid (ug_tree_by_conid o') (ug_connections_list o') ?cons"
    by (rule table_inv_update [OF ug_invD(2) [OF inv] c]) simp
  then have "ug_inv (o'\<lparr>ug_cons := ?cons, ug_tree_by_conaddr := t2\<rparr>)"
    using inv t(3) ip ug_invD(5) [OF inv c] by (auto simp: ug_inv_def con_ok_def)
  moreover have "reuse_connection o' a = Some (p, o'\<lparr>ug_cons := ?cons, ug_tree_by_conaddr := t2\<rparr>)"
    using inv full new l c t by (simp add: reuse_connection_def ug_inv_def)
  ultimately show ?thesis using l c by simp
qed

text \<open>
  What submitting a packet does in each of the three cases: the pair of addresses has a connection, it
  has none and there are fewer than the maximum, or it has none and the least recently used one is
  taken over.
\<close>

definition submit_spec :: "nat option \<Rightarrow> bool \<Rightarrow> (nat \<Rightarrow> bool) \<Rightarrow> UdpGwClient \<Rightarrow> conaddr \<Rightarrow> byte \<Rightarrow> bytes \<Rightarrow> UdpGwClient \<Rightarrow> ug_call list \<Rightarrow> bool" where
  "submit_spec malloc flow_ok room o' a flags data o'' calls \<longleftrightarrow>
     (\<exists>p c. ug_cons o' p = Some c \<and> c_conaddr c = a \<and> ug_cons o'' = ug_cons o'
        \<and> ug_connections_list o'' = remove1 p (ug_connections_list o') @ [p]
        \<and> connection_send room p flags data o'' = Some calls)
     \<or> (\<forall>p c. ug_cons o' p = Some c \<longrightarrow> c_conaddr c \<noteq> a)
        \<and> length (ug_connections_list o') < ug_max_connections o'
        \<and> (case malloc of
             Some p \<Rightarrow> if flow_ok then \<exists>conid. (\<forall>q c. ug_cons o' q = Some c \<longrightarrow> c_conid c \<noteq> conid)
                 \<and> ug_cons o'' = (ug_cons o')(p \<mapsto> \<lparr>c_conaddr = a, c_first_flags = flags, c_first_data = data, c_conid = conid, c_first_job = True\<rparr>)
                 \<and> ug_connections_list o'' = ug_connections_list o' @ [p]
               else ug_cons o'' = ug_cons o' \<and> ug_connections_list o'' = ug_connections_list o'
           | None \<Rightarrow> ug_cons o'' = ug_cons o' \<and> ug_connections_list o'' = ug_connections_list o')
     \<or> (\<forall>p c. ug_cons o' p = Some c \<longrightarrow> c_conaddr c \<noteq> a)
        \<and> length (ug_connections_list o') = ug_max_connections o'
        \<and> (\<exists>p ps c. ug_connections_list o' = p # ps \<and> ug_cons o' p = Some c
             \<and> ug_cons o'' = (ug_cons o')(p \<mapsto> c\<lparr>c_conaddr := a\<rparr>) \<and> ug_connections_list o'' = ps @ [p]
             \<and> connection_send room p (flags OR UDPGW_CLIENT_FLAG_REBIND) data o'' = Some calls)"

lemma SubmitPacket_ok:
  assumes inv: "ug_inv o'" and ip: "is_ip_addr l" "is_ip_addr r" "addr_ok l" "addr_ok r"
    and d: "length data \<le> ug_udp_mtu o'" and fresh: "\<And>p. malloc = Some p \<Longrightarrow> ug_cons o' p = None"
  shows "\<exists>o'' calls. UdpGwClient_SubmitPacket malloc flow_ok room o' l r is_dns data = Some (o'', calls) \<and> ug_inv o''
    \<and> submit_spec malloc flow_ok room o' \<lparr>local_addr = l, remote_addr = r\<rparr> (if is_dns then UDPGW_CLIENT_FLAG_DNS else 0) data o'' calls"
proof -
  let ?a = "\<lparr>local_addr = l, remote_addr = r\<rparr>" and ?flags = "if is_dns then UDPGW_CLIENT_FLAG_DNS else 0"
  have a: "conaddr_ok ?a" using ip by (simp add: conaddr_ok_def)
  show ?thesis
  proof (cases "find_connection_by_conaddr o' ?a")
    case (Some p)
    then obtain c where c: "ug_cons o' p = Some c" "c_conaddr c = ?a" using find_conaddr(1) [OF inv a] by blast
    have i: "ug_inv (move_to_front p o')" by (rule move_to_front_inv [OF inv c(1)])
    obtain calls where calls: "connection_send room p ?flags data (move_to_front p o') = Some calls"
      using connection_send_ok [OF i, of p c data] c d by (auto simp: move_to_front_def)
    have "UdpGwClient_SubmitPacket malloc flow_ok room o' l r is_dns data = Some (move_to_front p o', calls)"
      using ip d Some calls by (simp add: UdpGwClient_SubmitPacket_def)
    then show ?thesis using i c calls by (intro exI conjI) (auto simp: submit_spec_def move_to_front_def)
  next
    case None
    have none: "\<forall>p c. ug_cons o' p = Some c \<longrightarrow> c_conaddr c \<noteq> ?a" using find_conaddr(2) [OF inv a] None by blast
    show ?thesis
    proof (cases "ug_num_connections o' = ug_max_connections o'")
      case False
      then have lt: "ug_num_connections o' < ug_max_connections o'" using inv by (simp add: ug_inv_def)
      have "\<exists>o'' calls. connection_init malloc flow_ok o' ?a ?flags data = Some (o'', calls) \<and> ug_inv o''
        \<and> (\<forall>p. malloc = Some p \<and> flow_ok \<longrightarrow> (\<exists>conid. find_connection_by_conid o' conid = None
          \<and> ug_cons o'' = (ug_cons o')(p \<mapsto> \<lparr>c_conaddr = ?a, c_first_flags = ?flags, c_first_data = data, c_conid = conid, c_first_job = True\<rparr>)
          \<and> ug_connections_list o'' = ug_connections_list o' @ [p]))
        \<and> (malloc = None \<or> \<not> flow_ok \<longrightarrow> ug_cons o'' = ug_cons o' \<and> ug_connections_list o'' = ug_connections_list o')"
        by (rule connection_init_ok [OF inv lt _ _ a None d fresh]) (simp_all add: ip)
      then obtain o'' calls where s: "connection_init malloc flow_ok o' ?a ?flags data = Some (o'', calls)" "ug_inv o''"
        "\<forall>p. malloc = Some p \<and> flow_ok \<longrightarrow> (\<exists>conid. find_connection_by_conid o' conid = None
          \<and> ug_cons o'' = (ug_cons o')(p \<mapsto> \<lparr>c_conaddr = ?a, c_first_flags = ?flags, c_first_data = data, c_conid = conid, c_first_job = True\<rparr>)
          \<and> ug_connections_list o'' = ug_connections_list o' @ [p])"
        "malloc = None \<or> \<not> flow_ok \<longrightarrow> ug_cons o'' = ug_cons o' \<and> ug_connections_list o'' = ug_connections_list o'" by blast
      have "UdpGwClient_SubmitPacket malloc flow_ok room o' l r is_dns data = Some (o'', calls)"
        using ip d None False s(1) by (simp add: UdpGwClient_SubmitPacket_def Let_def)
      moreover have "submit_spec malloc flow_ok room o' ?a ?flags data o'' calls"
        using s(3,4) none lt ug_invD(3) [OF inv] find_conid(2) [OF inv] unfolding submit_spec_def by (cases malloc) auto
      ultimately show ?thesis using s(2) by blast
    next
      case True
      obtain p ps c o1 where r: "ug_connections_list o' = p # ps" "ug_cons o' p = Some c" "reuse_connection o' ?a = Some (p, o1)" "ug_inv o1"
        "ug_cons o1 = (ug_cons o')(p \<mapsto> c\<lparr>c_conaddr := ?a\<rparr>)" "ug_connections_list o1 = ug_connections_list o'" "ug_udp_mtu o1 = ug_udp_mtu o'"
        using reuse_connection_ok [OF inv True _ _ a None] ip by auto
      have i: "ug_inv (move_to_front p o1)" by (rule move_to_front_inv [OF r(4)]) (simp add: r(5))
      obtain calls where calls: "connection_send room p (?flags OR UDPGW_CLIENT_FLAG_REBIND) data (move_to_front p o1) = Some calls"
        using connection_send_ok [OF i, of p "c\<lparr>c_conaddr := ?a\<rparr>" data] r d by (auto simp: move_to_front_def)
      have "UdpGwClient_SubmitPacket malloc flow_ok room o' l r is_dns data = Some (move_to_front p o1, calls)"
        using ip d None True r(3) calls by (simp add: UdpGwClient_SubmitPacket_def Let_def)
      moreover have "submit_spec malloc flow_ok room o' ?a ?flags data (move_to_front p o1) calls"
        using none True ug_invD(3) [OF inv] r calls unfolding submit_spec_def by (auto simp: move_to_front_def)
      ultimately show ?thesis using i by blast
    qed
  qed
qed

lemma recv_cases:
  assumes inv: "ug_inv o'" and "ug_have_server o'" and "length data \<le> ug_udpgw_mtu o'"
  shows "\<exists>o'' calls. recv_interface_handler_send data o' = Some (o'', calls) \<and> ug_inv o'' \<and> ug_cons o'' = ug_cons o'
    \<and> (o'' = o' \<and> calls = [Recv_Done]
       \<or> (\<exists>p c d. ug_cons o' p = Some c \<and> o'' = move_to_front p o' \<and> length d \<le> ug_udp_mtu o'
            \<and> calls = [Recv_Done, Handler_received (local_addr (c_conaddr c)) (remote_addr (c_conaddr c)) d]
            \<and> 3 \<le> length data \<and> c_conid c = badvpn_read_le16 (drop 1 data)
            \<and> (\<exists>h. udpgw_addr_parse (data ! 0 AND UDPGW_CLIENT_FLAG_IPV6 \<noteq> 0) (drop 3 data) = Some (h, d)
                 \<and> BAddr_CompareOrder (remote_addr (c_conaddr c)) h = 0)))"
proof (cases "length data < 3")
  case True
  then show ?thesis using assms by (simp add: recv_interface_handler_send_def)
next
  case False
  let ?parse = "udpgw_addr_parse (data ! 0 AND UDPGW_CLIENT_FLAG_IPV6 \<noteq> 0) (drop 3 data)"
  let ?conid = "badvpn_read_le16 (drop 1 data)"
  show ?thesis
  proof (cases "?parse = None \<or> (\<exists>h d. ?parse = Some (h, d) \<and> (length d > ug_udp_mtu o' \<or> find_connection_by_conid o' ?conid = None))")
    case True
    then have "recv_interface_handler_send data o' = Some (o', [Recv_Done])"
      using False assms by (auto simp: recv_interface_handler_send_def Let_def byte_id split: option.splits)
    then show ?thesis using inv by simp
  next
    case nonfail: False
    then obtain h d p where p: "?parse = Some (h, d)" "length d \<le> ug_udp_mtu o'" "find_connection_by_conid o' ?conid = Some p" by auto
    then obtain c where c: "ug_cons o' p = Some c" "c_conid c = ?conid" using find_conid(1) [OF inv] by blast
    have i: "ug_inv (move_to_front p o')" by (rule move_to_front_inv [OF inv c(1)])
    show ?thesis
    proof (cases "BAddr_CompareOrder (remote_addr (c_conaddr c)) h = 0")
      case True
      have "recv_interface_handler_send data o' = Some (move_to_front p o',
          [Recv_Done, Handler_received (local_addr (c_conaddr c)) (remote_addr (c_conaddr c)) d])"
        using False assms p c True by (simp add: recv_interface_handler_send_def Let_def byte_id)
      then show ?thesis using i p c True False
        by (intro exI [of _ "move_to_front p o'"] exI [of _ "[Recv_Done, Handler_received (local_addr (c_conaddr c)) (remote_addr (c_conaddr c)) d]"])
           (auto simp: move_to_front_def)
    next
      case ne: False
      have "recv_interface_handler_send data o' = Some (o', [Recv_Done])"
        using False assms p c ne by (simp add: recv_interface_handler_send_def Let_def byte_id)
      then show ?thesis using inv by simp
    qed
  qed
qed

lemma connection_free_ok:
  assumes inv: "ug_inv o'" and c: "ug_cons o' p = Some c"
  shows "\<exists>o''. connection_free p o' = Some (o'', [Flow_Free p]) \<and> ug_inv o''
    \<and> ug_connections_list o'' = remove1 p (ug_connections_list o') \<and> ug_cons o'' = (ug_cons o')(p := None)
    \<and> ug_have_server o'' = ug_have_server o'"
proof -
  obtain t1 where t1: "bavl_del (key_at c_conaddr (ug_cons o')) conaddr_comparator (ug_tree_by_conaddr o') (c_conaddr c) = Some t1"
    "table_inv conaddr_comparator conaddr_ok c_conaddr t1 (remove1 p (ug_connections_list o')) ((ug_cons o')(p := None))"
    using conaddr.table_del [OF ug_invD(1) [OF inv] c] by blast
  obtain t2 where t2: "bavl_del (key_at c_conid (ug_cons o')) uint16_comparator (ug_tree_by_conid o') (c_conid c) = Some t2"
    "table_inv uint16_comparator (\<lambda>_. True) c_conid t2 (remove1 p (ug_connections_list o')) ((ug_cons o')(p := None))"
    using u16cmp.table_del [OF ug_invD(2) [OF inv] c] by blast
  have p: "p \<in> set (ug_connections_list o')" using table_inv_dom [OF ug_invD(1) [OF inv], of p] c by simp
  then have "length (remove1 p (ug_connections_list o')) = length (ug_connections_list o') - 1" by (simp add: length_remove1)
  then show ?thesis using c t1 t2 inv by (auto simp: connection_free_def ug_inv_def con_ok_def)
qed

lemma free_connections_ok:
  "ug_inv o' \<Longrightarrow> \<exists>o''. free_connections o' = Some o'' \<and> ug_inv o'' \<and> ug_connections_list o'' = [] \<and> ug_cons o'' = Map.empty"
proof (induction "length (ug_connections_list o')" arbitrary: o' rule: less_induct)
  case less
  show ?case
  proof (cases "ug_connections_list o'")
    case Nil
    have "dom (ug_cons o') = {}" using ug_invD(1) [OF less.prems] Nil by (simp add: table_inv_def)
    then show ?thesis using less.prems Nil by (subst free_connections.simps) simp
  next
    case (Cons p ps)
    then obtain c where c: "ug_cons o' p = Some c" using table_inv_dom [OF ug_invD(1) [OF less.prems], of p] by auto
    obtain o1 where o1: "connection_free p o' = Some (o1, [Flow_Free p])" "ug_inv o1" "ug_connections_list o1 = ps"
      using connection_free_ok [OF less.prems c] Cons by auto
    have "\<exists>o''. free_connections o1 = Some o'' \<and> ug_inv o'' \<and> ug_connections_list o'' = [] \<and> ug_cons o'' = Map.empty"
      by (rule less.hyps) (simp_all add: o1 Cons)
    then show ?thesis using Cons o1(1) by (subst free_connections.simps) simp
  qed
qed

subsection \<open>The client as a system of events\<close>

text \<open>
  \<open>ug_allowed\<close> is what the neighbours guarantee: packets to submit have IP addresses and fit the MTU,
  an allocated object is a new one, a first job only runs when it is set, received packets fit the
  MTU of the interface and only come while there is a server.
\<close>

datatype ug_event =
    USubmit "nat option" bool "nat \<Rightarrow> bool" BAddr BAddr bool bytes
  | UFirst "nat \<Rightarrow> bool" nat
  | URecv bytes
  | UMonitor
  | UKeepaliveDone
  | UConnect bool
  | UDisconnect
  | UDecoderError

fun ug_allowed :: "UdpGwClient \<Rightarrow> ug_event \<Rightarrow> bool" where
  "ug_allowed o' (USubmit malloc flow_ok room l r is_dns data) =
     (is_ip_addr l \<and> is_ip_addr r \<and> addr_ok l \<and> addr_ok r \<and> length data \<le> ug_udp_mtu o'
      \<and> (case malloc of Some p \<Rightarrow> ug_cons o' p = None | None \<Rightarrow> True))"
| "ug_allowed o' (UFirst room p) = (case ug_cons o' p of Some c \<Rightarrow> c_first_job c | None \<Rightarrow> False)"
| "ug_allowed o' (URecv data) = (ug_have_server o' \<and> length data \<le> ug_udpgw_mtu o')"
| "ug_allowed o' UMonitor = True"
| "ug_allowed o' UKeepaliveDone = ug_keepalive_sending o'"
| "ug_allowed o' (UConnect decoder_ok) = (\<not> ug_have_server o')"
| "ug_allowed o' UDisconnect = ug_have_server o'"
| "ug_allowed o' UDecoderError = ug_have_server o'"

definition clear_first_job :: "nat \<Rightarrow> UdpGwClient \<Rightarrow> UdpGwClient" where
  "clear_first_job p o' = o'\<lparr>ug_cons := (ug_cons o')(p := map_option (\<lambda>c. c\<lparr>c_first_job := False\<rparr>) (ug_cons o' p))\<rparr>"

fun ug_handle :: "UdpGwClient \<Rightarrow> ug_event \<Rightarrow> (UdpGwClient \<times> ug_call list) option" where
  "ug_handle o' (USubmit malloc flow_ok room l r is_dns data) = UdpGwClient_SubmitPacket malloc flow_ok room o' l r is_dns data"
| "ug_handle o' (UFirst room p) =
     map_option (\<lambda>calls. (clear_first_job p o', calls)) (connection_first_job_handler room p (clear_first_job p o'))"
| "ug_handle o' (URecv data) = recv_interface_handler_send data o'"
| "ug_handle o' UMonitor = Some (send_monitor_handler o')"
| "ug_handle o' UKeepaliveDone = map_option (\<lambda>o'. (o', [])) (keepalive_if_handler_done o')"
| "ug_handle o' (UConnect decoder_ok) = map_option snd (UdpGwClient_ConnectServer decoder_ok o')"
| "ug_handle o' UDisconnect = UdpGwClient_DisconnectServer o'"
| "ug_handle o' UDecoderError = map_option (\<lambda>calls. (o', calls)) (ug_decoder_handler_error o')"

definition ug_step :: "UdpGwClient \<Rightarrow> ug_event \<times> ug_call list \<Rightarrow> UdpGwClient \<Rightarrow> bool" where
  "ug_step o' l o'' \<longleftrightarrow> ug_allowed o' (fst l) \<and> ug_handle o' (fst l) = Some (o'', snd l)"

lemma clear_first_job_inv: "ug_inv o' \<Longrightarrow> ug_cons o' p = Some c \<Longrightarrow> ug_inv (clear_first_job p o')"
  using table_inv_update [OF ug_invD(1), of o' p c "c\<lparr>c_first_job := False\<rparr>"]
    table_inv_update [OF ug_invD(2), of o' p c "c\<lparr>c_first_job := False\<rparr>"]
  by (auto simp: clear_first_job_def ug_inv_def con_ok_def)

lemma ug_inv_flags: "ug_inv o' \<Longrightarrow> ug_inv (o'\<lparr>ug_keepalive_sending := b\<rparr>)" "ug_inv o' \<Longrightarrow> ug_inv (o'\<lparr>ug_have_server := b\<rparr>)"
  by (simp_all add: ug_inv_def con_ok_def)

lemma ug_step_ok:
  assumes inv: "ug_inv o'" and al: "ug_allowed o' e"
  shows "\<exists>o'' calls. ug_handle o' e = Some (o'', calls) \<and> ug_inv o''"
proof (cases e)
  case (USubmit malloc flow_ok room l r is_dns data)
  have "\<exists>o'' calls. UdpGwClient_SubmitPacket malloc flow_ok room o' l r is_dns data = Some (o'', calls) \<and> ug_inv o''
    \<and> submit_spec malloc flow_ok room o' \<lparr>local_addr = l, remote_addr = r\<rparr> (if is_dns then UDPGW_CLIENT_FLAG_DNS else 0) data o'' calls"
    by (rule SubmitPacket_ok [OF inv]) (use al USubmit in auto)
  then show ?thesis using USubmit by auto
next
  case (UFirst room p)
  then obtain c where c: "ug_cons o' p = Some c" using al by (auto split: option.splits)
  have i: "ug_inv (clear_first_job p o')" by (rule clear_first_job_inv [OF inv c])
  have c': "ug_cons (clear_first_job p o') p = Some (c\<lparr>c_first_job := False\<rparr>)" using c by (simp add: clear_first_job_def)
  have "length (c_first_data c) \<le> ug_udp_mtu (clear_first_job p o')"
    using ug_invD(5) [OF inv c] by (simp add: con_ok_def clear_first_job_def)
  then obtain calls where "connection_send room p (UDPGW_CLIENT_FLAG_REBIND OR c_first_flags c) (c_first_data c) (clear_first_job p o') = Some calls"
    using connection_send_ok [OF i c'] by blast
  then show ?thesis using UFirst i c' by (simp add: connection_first_job_handler_def)
next
  case (URecv data)
  then show ?thesis using recv_cases [OF inv, of data] al by auto
next
  case UMonitor
  then show ?thesis using inv ug_inv_flags by (simp add: send_monitor_handler_def)
next
  case UKeepaliveDone
  then show ?thesis using inv al ug_inv_flags by (simp add: keepalive_if_handler_done_def)
next
  case (UConnect decoder_ok)
  then show ?thesis using inv al ug_inv_flags(2) [OF inv, of True] by (cases decoder_ok) (auto simp: UdpGwClient_ConnectServer_def)
next
  case UDisconnect
  then show ?thesis using inv al ug_inv_flags by (simp add: UdpGwClient_DisconnectServer_def)
next
  case UDecoderError
  then show ?thesis using inv al by (simp add: ug_decoder_handler_error_def)
qed

lemma compute_mtu: 
  assumes "udpgw_compute_mtu size_max (int m) \<ge> 0" and "m \<le> size_max" and "22 \<le> size_max"
  shows "udpgw_compute_mtu size_max (int m) = int m + 22"
  using assms by (auto simp: udpgw_compute_mtu_def bsize_add_def bsize_fromsize_def bsize_max_def bsize_fromint_def bsize_toint_def Let_def
      split: option.splits if_splits)

lemma ug_Init_inv:
  assumes "UdpGwClient_Init size_max udp_mtu mx sbs queue_ok = Some (Some o')" and "udp_mtu \<le> size_max" and "22 \<le> size_max"
  shows "ug_inv o'"
  using assms compute_mtu [of size_max udp_mtu]
  by (auto simp: UdpGwClient_Init_def ug_inv_def table_inv_def bavl_ok_def assert_simps split: if_splits)

interpretation ug: event_system ug_inv ug_allowed ug_handle ug_step
  by unfold_locales (rule ug_step_ok, assumption+, auto simp: ug_step_def)

lemma ug_reachable_inv:
  assumes "UdpGwClient_Init size_max udp_mtu mx sbs queue_ok = Some (Some o0)" and "udp_mtu \<le> size_max" and "22 \<le> size_max"
    and "steps ug_step o0 ls o'"
  shows "ug_inv o'"
  by (rule ug.reached_inv [OF assms(4) ug_Init_inv [OF assms(1-3)]])

definition example_ug :: UdpGwClient where
  "example_ug = \<lparr>ug_udp_mtu = 1472, ug_max_connections = 1, ug_udpgw_mtu = 1494, ug_pp_mtu = 1496,
     ug_tree_by_conaddr = Leaf, ug_tree_by_conid = Leaf, ug_connections_list = [], ug_num_connections = 0,
     ug_next_conid = 0, ug_cons = Map.empty, ug_keepalive_sending = False, ug_have_server = False\<rparr>"

lemma example_ug_Init: "UdpGwClient_Init 4294967295 1472 1 16 True = Some (Some example_ug)"
  by (simp add: UdpGwClient_Init_def example_ug_def udpgw_compute_mtu_def bsize_add_def bsize_fromsize_def bsize_max_def
      bsize_fromint_def bsize_toint_def)

definition example_local :: BAddr where "example_local = BAddr_IPv4 (hton32 0x0A000001) (hton16 4000)"
definition example_remote :: BAddr where "example_remote = BAddr_IPv4 (hton32 0x08080808) (hton16 53)"

definition example_submit :: ug_event where
  "example_submit = USubmit (Some 7) True (\<lambda>_. True) example_local example_remote False [1, 2, 3]"

definition example_con :: UdpGwClient_connection where
  "example_con = \<lparr>c_conaddr = \<lparr>local_addr = example_local, remote_addr = example_remote\<rparr>, c_first_flags = 0,
     c_first_data = [1, 2, 3], c_conid = 0, c_first_job = True\<rparr>"

definition example_ug1 :: UdpGwClient where
  "example_ug1 = example_ug\<lparr>ug_tree_by_conaddr := Node Leaf 7 0 Leaf, ug_tree_by_conid := Node Leaf 7 0 Leaf,
     ug_connections_list := [7], ug_num_connections := 1, ug_cons := [7 \<mapsto> example_con]\<rparr>"

definition example_ug2 :: UdpGwClient where
  "example_ug2 = example_ug1\<lparr>ug_have_server := True\<rparr>"

lemma example_addr: "is_ip_addr example_local" "is_ip_addr example_remote" "addr_ok example_local" "addr_ok example_remote"
  by (simp_all add: example_local_def example_remote_def is_ip_addr_def)

lemma example_ug_steps: "steps ug_step example_ug [(example_submit, [Flow_Init 7]), (UConnect True, [Connect_Output])] example_ug2"
proof -
  have "ug_handle example_ug example_submit = Some (example_ug1, [Flow_Init 7])"
    using example_addr
    by (simp add: example_submit_def example_ug_def example_ug1_def example_con_def UdpGwClient_SubmitPacket_def connection_init_def
        find_connection_by_conaddr_def find_unused_conid_def unused_conid_loop.simps find_connection_by_conid_def bavl_add_def BAVL_Insert_def)
  moreover have "ug_allowed example_ug example_submit" using example_addr by (simp add: example_submit_def example_ug_def)
  ultimately have 1: "ug_step example_ug (example_submit, [Flow_Init 7]) example_ug1" by (simp add: ug_step_def)
  have 2: "ug_step example_ug1 (UConnect True, [Connect_Output]) example_ug2"
    by (simp add: ug_step_def example_ug1_def example_ug2_def example_ug_def UdpGwClient_ConnectServer_def)
  show ?thesis by (rule steps_Cons [where step = ug_step, OF 1 steps_Cons [where step = ug_step, OF 2 steps_Nil]])
qed


text \<open>
  C26. The connection table of the UDP gateway client. In every state that the client can reach, by any
  sequence of submitted and received packets, first jobs, keep-alives, and server connections and
  disconnections, every handler runs without failing an assertion (in particular the search for an
  unused number ends, and no packet exceeds the buffer it is written to); different connections
  have different numbers and different pairs of addresses; there are never more connections than
  the maximum; and freeing the client ends with no connection left.
\<close>

theorem udpgw_table_safe:
  assumes "UdpGwClient_Init size_max udp_mtu mx sbs queue_ok = Some (Some o0)" and "udp_mtu \<le> size_max" and "22 \<le> size_max"
    and "steps ug_step o0 ls o'"
  shows "(\<forall>e. ug_allowed o' e \<longrightarrow> ug_handle o' e \<noteq> None)
    \<and> (\<forall>p c q d. ug_cons o' p = Some c \<and> ug_cons o' q = Some d \<and> (c_conid c = c_conid d \<or> c_conaddr c = c_conaddr d) \<longrightarrow> p = q)
    \<and> card (dom (ug_cons o')) = ug_num_connections o' \<and> ug_num_connections o' \<le> ug_max_connections o'
    \<and> (\<exists>o'' calls. UdpGwClient_Free o' = Some (o'', calls) \<and> ug_cons o'' = Map.empty)"
proof -
  have inv: "ug_inv o'" by (rule ug_reachable_inv [OF assms])
  have "\<forall>e. ug_allowed o' e \<longrightarrow> ug_handle o' e \<noteq> None" by (rule ug.never_fails [OF inv])
  moreover have "p = q" if "ug_cons o' p = Some c" "ug_cons o' q = Some d" "c_conid c = c_conid d \<or> c_conaddr c = c_conaddr d" for p c q d
    using that u16cmp.table_unique [OF ug_invD(2) [OF inv], of p c q d] conaddr.table_unique [OF ug_invD(1) [OF inv], of p c q d] by blast
  moreover have "card (dom (ug_cons o')) = ug_num_connections o'"
    using ug_invD(1,3) [OF inv] by (simp add: table_inv_def distinct_card)
  moreover have "ug_num_connections o' \<le> ug_max_connections o'" using inv by (simp add: ug_inv_def)
  moreover have "\<exists>o'' calls. UdpGwClient_Free o' = Some (o'', calls) \<and> ug_cons o'' = Map.empty"
    using free_connections_ok [OF inv] by (auto simp: UdpGwClient_Free_def)
  ultimately show ?thesis by blast
qed

theorem udpgw_table_safe_witness:
  "card (dom (ug_cons example_ug2)) = 1 \<and> ug_handle example_ug2 (URecv [9, 9]) \<noteq> None"
proof -
  have al: "ug_allowed example_ug2 (URecv [9, 9])" and n: "ug_num_connections example_ug2 = 1"
    by (simp_all add: example_ug2_def example_ug1_def example_ug_def)
  have "(\<forall>e. ug_allowed example_ug2 e \<longrightarrow> ug_handle example_ug2 e \<noteq> None)" "card (dom (ug_cons example_ug2)) = ug_num_connections example_ug2"
    using udpgw_table_safe [OF example_ug_Init _ _ example_ug_steps] by simp_all
  then show ?thesis using al n by metis
qed

text \<open>
  Submitting a packet (with the parameters as above). If the pair of addresses has a connection,
  the packet is sent over it and nothing else changes but its place in the order of use. If it has
  none and there are fewer than the maximum, a new connection with an unused number is made, with
  the packet as its first; only a failed allocation drops it. At the maximum, the connection that was
  least recently used is given the new addresses, keeps its number, and sends the packet with the
  \<open>REBIND\<close> flag.
\<close>

theorem udpgw_submit_packet:
  assumes "UdpGwClient_Init size_max udp_mtu mx sbs queue_ok = Some (Some o0)" and "udp_mtu \<le> size_max" and "22 \<le> size_max"
    and "steps ug_step o0 ls o'" and "ug_allowed o' (USubmit malloc flow_ok room l r is_dns data)"
  shows "\<exists>o'' calls. UdpGwClient_SubmitPacket malloc flow_ok room o' l r is_dns data = Some (o'', calls)
    \<and> submit_spec malloc flow_ok room o' \<lparr>local_addr = l, remote_addr = r\<rparr> (if is_dns then UDPGW_CLIENT_FLAG_DNS else 0) data o'' calls"
proof -
  have inv: "ug_inv o'" by (rule ug_reachable_inv [OF assms(1-4)])
  have "\<exists>o'' calls. UdpGwClient_SubmitPacket malloc flow_ok room o' l r is_dns data = Some (o'', calls) \<and> ug_inv o''
    \<and> submit_spec malloc flow_ok room o' \<lparr>local_addr = l, remote_addr = r\<rparr> (if is_dns then UDPGW_CLIENT_FLAG_DNS else 0) data o'' calls"
    by (rule SubmitPacket_ok [OF inv]) (use assms(5) in auto)
  then show ?thesis by blast
qed

theorem udpgw_submit_packet_witness:
  "\<exists>o'' calls. UdpGwClient_SubmitPacket None True (\<lambda>_. True) example_ug2 example_remote example_local False [5] = Some (o'', calls)
     \<and> ug_cons o'' 7 = Some (example_con\<lparr>c_conaddr := \<lparr>local_addr = example_remote, remote_addr = example_local\<rparr>\<rparr>)"
proof -
  have al: "ug_allowed example_ug2 (USubmit None True (\<lambda>_. True) example_remote example_local False [5])"
    using example_addr by (simp add: example_ug2_def example_ug1_def example_ug_def)
  have ne: "example_local \<noteq> example_remote" by (simp add: example_local_def example_remote_def m32.swap_inj)
  obtain o'' calls where s: "UdpGwClient_SubmitPacket None True (\<lambda>_. True) example_ug2 example_remote example_local False [5] = Some (o'', calls)"
    "submit_spec None True (\<lambda>_. True) example_ug2 \<lparr>local_addr = example_remote, remote_addr = example_local\<rparr> 0 [5] o'' calls"
    using udpgw_submit_packet [OF example_ug_Init _ _ example_ug_steps al] by auto
  have "ug_cons o'' 7 = Some (example_con\<lparr>c_conaddr := \<lparr>local_addr = example_remote, remote_addr = example_local\<rparr>\<rparr>)"
    using s(2) ne by (auto simp: submit_spec_def example_ug2_def example_ug1_def example_ug_def example_con_def split: if_splits)
  then show ?thesis using s(1) by blast
qed

lemma flag_ipv6: "(flags AND UDPGW_CLIENT_FLAG_IPV6 = 0 \<Longrightarrow> (flags OR UDPGW_CLIENT_FLAG_IPV6) AND UDPGW_CLIENT_FLAG_IPV6 \<noteq> 0)"
  by (simp add: UDPGW_CLIENT_FLAG_IPV6_def bit.conj_disj_distrib2)

lemma udpgw_addr_roundtrip:
  "is_ip_addr a \<Longrightarrow> addr_ok a \<Longrightarrow> udpgw_addr_parse (BAddr_type a = 2) (udpgw_addr_mem a @ d) = Some (a, d)"
  by (cases a) (auto simp: is_ip_addr_def udpgw_addr_parse_def mem_simps m16.rd_mem m32.rd_mem BAddr_MakeIPv4_def BAddr_MakeIPv6_def)

text \<open>
  C25. Sending and receiving. If the gateway echoes what \<open>connection_send\<close> writes for a connection (with
  any flags but the one that \<open>connection_send\<close> sets itself), the client passes to its user exactly the
  data that was sent, with the local and the remote address of that connection, for IPv4 and
  IPv6. And whatever is received, packets are only passed to the user for an existing connection,
  with its addresses, and never more data than the MTU.
\<close>

theorem udpgw_echo:
  assumes "UdpGwClient_Init size_max udp_mtu mx sbs queue_ok = Some (Some o0)" and "udp_mtu \<le> size_max" and "22 \<le> size_max"
    and "steps ug_step o0 ls o'" and "ug_have_server o'"
  shows "(ug_cons o' p = Some c \<and> length data \<le> ug_udp_mtu o' \<and> flags AND UDPGW_CLIENT_FLAG_IPV6 = 0 \<longrightarrow>
      (\<exists>out. connection_send (\<lambda>_. True) p flags data o' = Some [Con_Send p out]
         \<and> recv_interface_handler_send out o' = Some (move_to_front p o',
             [Recv_Done, Handler_received (local_addr (c_conaddr c)) (remote_addr (c_conaddr c)) data])))
    \<and> (recv_interface_handler_send input o' = Some (o'', calls) \<and> Handler_received l r d \<in> set calls \<longrightarrow>
        length d \<le> ug_udp_mtu o' \<and> (\<exists>q e. ug_cons o' q = Some e \<and> c_conaddr e = \<lparr>local_addr = l, remote_addr = r\<rparr>))"
proof (intro conjI impI)
  have inv: "ug_inv o'" by (rule ug_reachable_inv [OF assms(1-4)])
  show "\<exists>out. connection_send (\<lambda>_. True) p flags data o' = Some [Con_Send p out]
         \<and> recv_interface_handler_send out o' = Some (move_to_front p o',
             [Recv_Done, Handler_received (local_addr (c_conaddr c)) (remote_addr (c_conaddr c)) data])"
    if a: "ug_cons o' p = Some c \<and> length data \<le> ug_udp_mtu o' \<and> flags AND UDPGW_CLIENT_FLAG_IPV6 = 0"
  proof -
    let ?r = "remote_addr (c_conaddr c)"
    let ?f = "if BAddr_type ?r = 2 then flags OR UDPGW_CLIENT_FLAG_IPV6 else flags"
    let ?out = "udpgw_header_mem ?f (c_conid c) @ udpgw_addr_mem ?r @ data"
    have r: "is_ip_addr ?r" "addr_ok ?r"
      using ug_invD(5) [OF inv, of p c] conaddr.table_ok [OF ug_invD(1) [OF inv], of p c] a by (auto simp: con_ok_def conaddr_ok_def)
    have s: "connection_send (\<lambda>_. True) p flags data o' = Some [Con_Send p ?out]"
      using connection_send_ok [OF inv, of p c data "\<lambda>_. True" flags] a by simp
    have v6: "(?f AND UDPGW_CLIENT_FLAG_IPV6 \<noteq> 0) = (BAddr_type ?r = 2)" using a flag_ipv6 by auto
    have len: "length ?out \<le> ug_udpgw_mtu o'"
      using length_addr_mem [OF r] a ug_invD(4) [OF inv] by (simp add: udpgw_header_mem_def mem_simps)
    have "find_connection_by_conid o' (c_conid c) = Some p" using find_conid(1) [OF inv] a by blast
    moreover have "badvpn_read_le16 (drop 1 ?out) = c_conid c" by (simp add: udpgw_header_mem_def m16.rd_mem)
    moreover have "drop 3 ?out = udpgw_addr_mem ?r @ data" by (simp add: udpgw_header_mem_def mem_simps)
    moreover have "?out ! 0 = ?f" "\<not> length ?out < 3" by (simp_all add: udpgw_header_mem_def mem_simps)
    ultimately have "recv_interface_handler_send ?out o' = Some (move_to_front p o',
        [Recv_Done, Handler_received (local_addr (c_conaddr c)) ?r data])"
      using assms(5) len a v6 udpgw_addr_roundtrip [OF r, of data] baddr.cmp_self [OF r(2)]
      by (simp add: recv_interface_handler_send_def Let_def byte_id)
    then show ?thesis using s by blast
  qed
  assume b: "recv_interface_handler_send input o' = Some (o'', calls) \<and> Handler_received l r d \<in> set calls"
  then have "length input \<le> ug_udpgw_mtu o'" by (auto simp: recv_interface_handler_send_def assert_simps split: if_splits)
  from recv_cases [OF inv assms(5) this] b
  have "length d \<le> ug_udp_mtu o' \<and> (\<exists>q e. ug_cons o' q = Some e \<and> local_addr (c_conaddr e) = l \<and> remote_addr (c_conaddr e) = r)"
    by auto blast
  then show "length d \<le> ug_udp_mtu o'" and "\<exists>q e. ug_cons o' q = Some e \<and> c_conaddr e = \<lparr>local_addr = l, remote_addr = r\<rparr>"
    by (simp_all add: conaddr_eq_iff)
qed

theorem udpgw_echo_witness:
  "\<exists>out. connection_send (\<lambda>_. True) 7 0 [1, 2, 3] example_ug2 = Some [Con_Send 7 out]
     \<and> recv_interface_handler_send out example_ug2 = Some (move_to_front 7 example_ug2,
         [Recv_Done, Handler_received example_local example_remote [1, 2, 3]])"
  using udpgw_echo [OF example_ug_Init _ _ example_ug_steps, of 7 example_con "[1, 2, 3]" 0]
  by (simp add: example_ug2_def example_ug1_def example_ug_def example_con_def)

end
