(* ===== verification/SocksClient.thy ===== *)
theory SocksClient
  imports Addr
begin

section \<open>The SOCKS client\<close>

text \<open>
  \<open>socksclient/BSocksClient.c\<close> and \<open>misc/socks_proto.h\<close>: the client side of the SOCKS 5 handshake
  (RFC 1928, with the password authentication of RFC 1929) on a connection to the server, as a
  state machine driven by the completion of sends and receives.

  The buffer is a block of bytes; every copy into or out of it is checked against its size, so that a
  run in which a handler leaves the buffer has no result, as one in which an assertion fails.
  \<open>mem\<close> is what \<open>BRealloc\<close> returns for a size; the contents of the block do not matter, because the
  code writes or receives all it later reads. Handlers return the calls to the neighbours in order.
\<close>

subsection \<open>The protocol\<close>

definition SOCKS_VERSION :: byte where "SOCKS_VERSION = 0x05"
definition SOCKS_METHOD_NO_AUTHENTICATION_REQUIRED :: int where "SOCKS_METHOD_NO_AUTHENTICATION_REQUIRED = 0x00"
definition SOCKS_METHOD_USERNAME_PASSWORD :: int where "SOCKS_METHOD_USERNAME_PASSWORD = 0x02"
definition SOCKS_CMD_CONNECT :: byte where "SOCKS_CMD_CONNECT = 0x01"
definition SOCKS_ATYP_IPV4 :: byte where "SOCKS_ATYP_IPV4 = 0x01"
definition SOCKS_ATYP_IPV6 :: byte where "SOCKS_ATYP_IPV6 = 0x04"
definition SOCKS_REP_SUCCEEDED :: byte where "SOCKS_REP_SUCCEEDED = 0x00"

lemmas socks_consts = SOCKS_VERSION_def SOCKS_METHOD_NO_AUTHENTICATION_REQUIRED_def SOCKS_METHOD_USERNAME_PASSWORD_def
  SOCKS_CMD_CONNECT_def SOCKS_ATYP_IPV4_def SOCKS_ATYP_IPV6_def SOCKS_REP_SUCCEEDED_def

abbreviation (input) sizeof_socks_client_hello_header :: nat where "sizeof_socks_client_hello_header \<equiv> 2"
abbreviation (input) sizeof_socks_client_hello_method :: nat where "sizeof_socks_client_hello_method \<equiv> 1"
abbreviation (input) sizeof_socks_server_hello :: nat where "sizeof_socks_server_hello \<equiv> 2"
abbreviation (input) sizeof_socks_request_header :: nat where "sizeof_socks_request_header \<equiv> 4"
abbreviation (input) sizeof_socks_reply_header :: nat where "sizeof_socks_reply_header \<equiv> 4"
abbreviation (input) sizeof_socks_addr_ipv4 :: nat where "sizeof_socks_addr_ipv4 \<equiv> 6"
abbreviation (input) sizeof_socks_addr_ipv6 :: nat where "sizeof_socks_addr_ipv6 \<equiv> 18"

fun socks_addr_mem :: "BAddr \<Rightarrow> bytes" where
  "socks_addr_mem (BAddr_IPv4 ip port) = mem32 ip @ mem16 port"
| "socks_addr_mem (BAddr_IPv6 ip port) = ip @ mem16 port"
| "socks_addr_mem _ = []"

subsection \<open>State\<close>

datatype socks_state =
    STATE_CONNECTING | STATE_SENDING_HELLO | STATE_SENT_HELLO | STATE_SENDING_PASSWORD | STATE_SENT_PASSWORD
  | STATE_SENDING_REQUEST | STATE_SENT_REQUEST | STATE_RECEIVED_REPLY_HEADER | STATE_UP

datatype socks_event = BSOCKSCLIENT_EVENT_ERROR | BSOCKSCLIENT_EVENT_UP | BSOCKSCLIENT_EVENT_ERROR_CLOSED

datatype connection_event = BCONNECTION_EVENT_ERROR | BCONNECTION_EVENT_RECVCLOSED

record BSocksClient_auth_info =
  ai_auth_type :: int
  ai_username :: bytes
  ai_password :: bytes

record BSocksClient =
  so_auth_info :: "BSocksClient_auth_info list"
  so_dest_addr :: BAddr
  so_state :: socks_state
  so_buffer :: "bytes option"
  so_recv_dest :: nat
  so_recv_len :: nat
  so_recv_total :: nat

datatype socks_call =
    Con_Init | Con_Free | Control_Init | Control_Free | Up_Init | Up_Free | Connector_Free | Buffer_Free
  | Sender_Send bytes
  | Receiver_Recv nat
  | Handler socks_event

type_synonym socks_result = "(BSocksClient \<times> socks_call list) option"

subsection \<open>Operations\<close>

definition report_error :: "BSocksClient \<Rightarrow> socks_event \<Rightarrow> socks_result" where
  "report_error o' error = Some (o', [Handler error])"

definition reserve_buffer :: "(nat \<Rightarrow> bytes option) \<Rightarrow> BSocksClient \<Rightarrow> bsize_t \<Rightarrow> BSocksClient option" where
  "reserve_buffer mem o' sz =
     (if is_overflow sz then None
      else case mem (bvalue sz) of
        None \<Rightarrow> None
      | Some buffer \<Rightarrow> Some (o'\<lparr>so_buffer := Some buffer\<rparr>))"

definition buffer_write :: "nat \<Rightarrow> bytes \<Rightarrow> BSocksClient \<Rightarrow> BSocksClient option" where
  "buffer_write i xs o' = do {
     b \<leftarrow> so_buffer o';
     b \<leftarrow> store b i xs;
     Some (o'\<lparr>so_buffer := Some b\<rparr>) }"

definition buffer_read :: "nat \<Rightarrow> nat \<Rightarrow> BSocksClient \<Rightarrow> bytes option" where
  "buffer_read i n o' = do {
     b \<leftarrow> so_buffer o';
     ASSERT (i + n \<le> length b);
     Some (segment b i n) }"

definition do_receive :: "BSocksClient \<Rightarrow> socks_result" where
  "do_receive o' = do {
     ASSERT (so_recv_len o' < so_recv_total o');
     Some (o', [Receiver_Recv (so_recv_total o' - so_recv_len o')]) }"

definition start_receive :: "BSocksClient \<Rightarrow> nat \<Rightarrow> nat \<Rightarrow> socks_result" where
  "start_receive o' dest tot = do {
     ASSERT (tot > 0);
     do_receive (o'\<lparr>so_recv_dest := dest, so_recv_len := 0, so_recv_total := tot\<rparr>) }"

fun write_methods :: "nat \<Rightarrow> BSocksClient_auth_info list \<Rightarrow> BSocksClient \<Rightarrow> BSocksClient option" where
  "write_methods i [] o' = Some o'"
| "write_methods i (ai # ais) o' = do {
     o' \<leftarrow> buffer_write (sizeof_socks_client_hello_header + i * sizeof_socks_client_hello_method) [hton8 (word_of_int (ai_auth_type ai))] o';
     write_methods (i + 1) ais o' }"

definition connector_handler :: "nat \<Rightarrow> (nat \<Rightarrow> bytes option) \<Rightarrow> bool \<Rightarrow> bool \<Rightarrow> BSocksClient \<Rightarrow> socks_result" where
  "connector_handler size_max mem con_ok is_error o' = do {
     ASSERT (so_state o' = STATE_CONNECTING);
     if is_error then report_error o' BSOCKSCLIENT_EVENT_ERROR
     else if \<not> con_ok then report_error o' BSOCKSCLIENT_EVENT_ERROR
     else do {
       let fail1 = [Con_Init, Control_Init, Control_Free, Con_Free, Handler BSOCKSCLIENT_EVENT_ERROR];
       let n = length (so_auth_info o');
       if n = 0 \<or> n > 255 then Some (o', fail1)
       else do {
         let size = bsize_add size_max (bsize_fromsize sizeof_socks_client_hello_header)
                      (bsize_mul size_max (bsize_fromsize n) (bsize_fromsize sizeof_socks_client_hello_method));
         case reserve_buffer mem o' size of
           None \<Rightarrow> Some (o', fail1)
         | Some o' \<Rightarrow> do {
             o' \<leftarrow> buffer_write 0 [hton8 SOCKS_VERSION, hton8 (of_nat n)] o';
             o' \<leftarrow> write_methods 0 (so_auth_info o') o';
             data \<leftarrow> buffer_read 0 (bvalue size) o';
             Some (o'\<lparr>so_state := STATE_SENDING_HELLO\<rparr>, [Con_Init, Control_Init, Sender_Send data]) } } } }"

definition connection_handler :: "connection_event \<Rightarrow> BSocksClient \<Rightarrow> socks_result" where
  "connection_handler event o' = do {
     ASSERT (so_state o' \<noteq> STATE_CONNECTING);
     if so_state o' = STATE_UP \<and> event = BCONNECTION_EVENT_RECVCLOSED
     then report_error o' BSOCKSCLIENT_EVENT_ERROR_CLOSED
     else report_error o' BSOCKSCLIENT_EVENT_ERROR }"

definition auth_finished :: "nat \<Rightarrow> (nat \<Rightarrow> bytes option) \<Rightarrow> BSocksClient \<Rightarrow> socks_result" where
  "auth_finished size_max mem o' = do {
     let size = bsize_fromsize sizeof_socks_request_header;
     let size = (case so_dest_addr o' of
                   BAddr_IPv4 _ _ \<Rightarrow> bsize_add size_max size (bsize_fromsize sizeof_socks_addr_ipv4)
                 | BAddr_IPv6 _ _ \<Rightarrow> bsize_add size_max size (bsize_fromsize sizeof_socks_addr_ipv6)
                 | _ \<Rightarrow> size);
     case reserve_buffer mem o' size of
       None \<Rightarrow> report_error o' BSOCKSCLIENT_EVENT_ERROR
     | Some o' \<Rightarrow> do {
         (atyp, o') \<leftarrow> (case so_dest_addr o' of
             BAddr_IPv4 ip port \<Rightarrow> do {
               o' \<leftarrow> buffer_write sizeof_socks_request_header (socks_addr_mem (BAddr_IPv4 ip port)) o';
               Some (hton8 SOCKS_ATYP_IPV4, o') }
           | BAddr_IPv6 ip port \<Rightarrow> do {
               o' \<leftarrow> buffer_write sizeof_socks_request_header (socks_addr_mem (BAddr_IPv6 ip port)) o';
               Some (hton8 SOCKS_ATYP_IPV6, o') }
           | _ \<Rightarrow> None);
         o' \<leftarrow> buffer_write 0 [hton8 SOCKS_VERSION, hton8 SOCKS_CMD_CONNECT, hton8 0, atyp] o';
         data \<leftarrow> buffer_read 0 (bvalue size) o';
         Some (o'\<lparr>so_state := STATE_SENDING_REQUEST\<rparr>, [Sender_Send data]) } }"

text \<open>The password packet, written byte by byte through a moving pointer.\<close>

definition send_password :: "(nat \<Rightarrow> bytes option) \<Rightarrow> BSocksClient_auth_info \<Rightarrow> BSocksClient \<Rightarrow> socks_result" where
  "send_password mem ai o' = do {
     let ul = length (ai_username ai);
     let pl = length (ai_password ai);
     if ul = 0 \<or> ul > 255 \<or> pl = 0 \<or> pl > 255 then report_error o' BSOCKSCLIENT_EVENT_ERROR
     else do {
       let size = bsize_fromsize (1 + 1 + ul + 1 + pl);
       case reserve_buffer mem o' size of
         None \<Rightarrow> report_error o' BSOCKSCLIENT_EVENT_ERROR
       | Some o' \<Rightarrow> do {
           o' \<leftarrow> buffer_write 0 [1] o';
           o' \<leftarrow> buffer_write 1 [of_nat ul] o';
           o' \<leftarrow> buffer_write 2 (ai_username ai) o';
           o' \<leftarrow> buffer_write (2 + ul) [of_nat pl] o';
           o' \<leftarrow> buffer_write (3 + ul) (ai_password ai) o';
           data \<leftarrow> buffer_read 0 (bvalue size) o';
           Some (o'\<lparr>so_state := STATE_SENDING_PASSWORD\<rparr>, [Sender_Send data]) } } }"

definition received_hello :: "nat \<Rightarrow> (nat \<Rightarrow> bytes option) \<Rightarrow> BSocksClient \<Rightarrow> socks_result" where
  "received_hello size_max mem o' = do {
     imsg \<leftarrow> buffer_read 0 sizeof_socks_server_hello o';
     if ntoh8 (imsg ! 0) \<noteq> SOCKS_VERSION then report_error o' BSOCKSCLIENT_EVENT_ERROR
     else case find (\<lambda>ai. ai_auth_type ai = uint (ntoh8 (imsg ! 1))) (so_auth_info o') of
       None \<Rightarrow> report_error o' BSOCKSCLIENT_EVENT_ERROR
     | Some ai \<Rightarrow>
         if ai_auth_type ai = SOCKS_METHOD_NO_AUTHENTICATION_REQUIRED then auth_finished size_max mem o'
         else if ai_auth_type ai = SOCKS_METHOD_USERNAME_PASSWORD then send_password mem ai o'
         else None }"

definition received_reply_header :: "BSocksClient \<Rightarrow> socks_result" where
  "received_reply_header o' = do {
     imsg \<leftarrow> buffer_read 0 sizeof_socks_reply_header o';
     if ntoh8 (imsg ! 0) \<noteq> SOCKS_VERSION then report_error o' BSOCKSCLIENT_EVENT_ERROR
     else if ntoh8 (imsg ! 1) \<noteq> SOCKS_REP_SUCCEEDED then report_error o' BSOCKSCLIENT_EVENT_ERROR
     else if ntoh8 (imsg ! 3) = SOCKS_ATYP_IPV4 then do {
       (o', calls) \<leftarrow> start_receive o' sizeof_socks_reply_header sizeof_socks_addr_ipv4;
       Some (o'\<lparr>so_state := STATE_RECEIVED_REPLY_HEADER\<rparr>, calls) }
     else if ntoh8 (imsg ! 3) = SOCKS_ATYP_IPV6 then do {
       (o', calls) \<leftarrow> start_receive o' sizeof_socks_reply_header sizeof_socks_addr_ipv6;
       Some (o'\<lparr>so_state := STATE_RECEIVED_REPLY_HEADER\<rparr>, calls) }
     else report_error o' BSOCKSCLIENT_EVENT_ERROR }"

definition received_password_reply :: "nat \<Rightarrow> (nat \<Rightarrow> bytes option) \<Rightarrow> BSocksClient \<Rightarrow> socks_result" where
  "received_password_reply size_max mem o' = do {
     b \<leftarrow> buffer_read 0 2 o';
     if b ! 0 \<noteq> 1 then report_error o' BSOCKSCLIENT_EVENT_ERROR
     else if b ! 1 \<noteq> 0 then report_error o' BSOCKSCLIENT_EVENT_ERROR
     else auth_finished size_max mem o' }"

definition received_reply_rest :: "BSocksClient \<Rightarrow> socks_result" where
  "received_reply_rest o' = Some (o'\<lparr>so_buffer := None, so_state := STATE_UP\<rparr>,
     [Control_Free, Up_Init, Handler BSOCKSCLIENT_EVENT_UP])"

definition recv_handler_done :: "nat \<Rightarrow> (nat \<Rightarrow> bytes option) \<Rightarrow> nat \<Rightarrow> BSocksClient \<Rightarrow> socks_result" where
  "recv_handler_done size_max mem data_len o' = do {
     ASSERT (int data_len \<le> int (so_recv_total o') - int (so_recv_len o'));
     let o' = o'\<lparr>so_recv_len := so_recv_len o' + data_len\<rparr>;
     if so_recv_len o' < so_recv_total o' then do_receive o'
     else case so_state o' of
       STATE_SENT_HELLO \<Rightarrow> received_hello size_max mem o'
     | STATE_SENT_REQUEST \<Rightarrow> received_reply_header o'
     | STATE_SENT_PASSWORD \<Rightarrow> received_password_reply size_max mem o'
     | STATE_RECEIVED_REPLY_HEADER \<Rightarrow> received_reply_rest o'
     | _ \<Rightarrow> None }"

definition receive_reply ::
  "(nat \<Rightarrow> bytes option) \<Rightarrow> bsize_t \<Rightarrow> nat \<Rightarrow> socks_state \<Rightarrow> BSocksClient \<Rightarrow> socks_result" where
  "receive_reply mem sz tot state o' =
     (case reserve_buffer mem o' sz of
        None \<Rightarrow> report_error o' BSOCKSCLIENT_EVENT_ERROR
      | Some o' \<Rightarrow> do {
          (o', calls) \<leftarrow> start_receive o' 0 tot;
          Some (o'\<lparr>so_state := state\<rparr>, calls) })"

definition send_handler_done :: "nat \<Rightarrow> (nat \<Rightarrow> bytes option) \<Rightarrow> BSocksClient \<Rightarrow> socks_result" where
  "send_handler_done size_max mem o' = do {
     ASSERT (so_buffer o' \<noteq> None);
     case so_state o' of
       STATE_SENDING_HELLO \<Rightarrow>
         receive_reply mem (bsize_fromsize sizeof_socks_server_hello) sizeof_socks_server_hello STATE_SENT_HELLO o'
     | STATE_SENDING_REQUEST \<Rightarrow>
         receive_reply mem (bsize_add size_max (bsize_fromsize sizeof_socks_reply_header)
             (bsize_max (bsize_fromsize sizeof_socks_addr_ipv4) (bsize_fromsize sizeof_socks_addr_ipv6)))
           sizeof_socks_reply_header STATE_SENT_REQUEST o'
     | STATE_SENDING_PASSWORD \<Rightarrow> receive_reply mem (bsize_fromsize 2) 2 STATE_SENT_PASSWORD o'
     | _ \<Rightarrow> None }"

definition BSocksClient_auth_none :: BSocksClient_auth_info where
  "BSocksClient_auth_none = \<lparr>ai_auth_type = SOCKS_METHOD_NO_AUTHENTICATION_REQUIRED, ai_username = [], ai_password = []\<rparr>"

definition BSocksClient_auth_password :: "bytes \<Rightarrow> bytes \<Rightarrow> BSocksClient_auth_info" where
  "BSocksClient_auth_password username password =
     \<lparr>ai_auth_type = SOCKS_METHOD_USERNAME_PASSWORD, ai_username = username, ai_password = password\<rparr>"

definition BSocksClient_Init :: "bool \<Rightarrow> BAddr \<Rightarrow> BSocksClient_auth_info list \<Rightarrow> BAddr \<Rightarrow> BSocksClient option option" where
  "BSocksClient_Init connector_ok server_addr auth_info dest_addr = do {
     ASSERT (\<not> BAddr_IsInvalid server_addr);
     ASSERT (is_ip_addr dest_addr);
     ASSERT (\<forall>ai\<in>set auth_info. ai_auth_type ai = SOCKS_METHOD_NO_AUTHENTICATION_REQUIRED
                                \<or> ai_auth_type ai = SOCKS_METHOD_USERNAME_PASSWORD);
     if \<not> connector_ok then Some None
     else Some (Some \<lparr>so_auth_info = auth_info, so_dest_addr = dest_addr, so_state = STATE_CONNECTING, so_buffer = None,
                      so_recv_dest = 0, so_recv_len = 0, so_recv_total = 0\<rparr>) }"

definition BSocksClient_Free :: "BSocksClient \<Rightarrow> socks_call list" where
  "BSocksClient_Free o' =
     (if so_state o' \<noteq> STATE_CONNECTING
      then (if so_state o' = STATE_UP then [Up_Free] else [Control_Free]) @ [Con_Free] else [])
     @ [Connector_Free] @ (if so_buffer o' \<noteq> None then [Buffer_Free] else [])"

subsection \<open>The client on its connection\<close>

text \<open>
  The client together with what its neighbours know: whether the connector has reported, what is
  initialised on the connection, whether a packet is being sent and how many bytes are being
  received, and all bytes sent and received so far. A call that the neighbours do not allow has no
  result: sending while a packet is being sent, receiving while receiving, freeing what is not
  initialised, or reporting after an error.
\<close>

record socks_sys =
  ss_o :: BSocksClient
  ss_connecting :: bool
  ss_con :: bool
  ss_control :: bool
  ss_up :: bool
  ss_sending :: bool
  ss_receiving :: "nat option"
  ss_failed :: bool
  ss_sent :: bytes
  ss_received :: bytes

fun apply_call :: "socks_call \<Rightarrow> socks_sys \<Rightarrow> socks_sys option" where
  "apply_call Con_Init s = do { ASSERT (\<not> ss_con s); Some (s\<lparr>ss_con := True\<rparr>) }"
| "apply_call Con_Free s = do { ASSERT (ss_con s \<and> \<not> ss_control s \<and> \<not> ss_up s); Some (s\<lparr>ss_con := False\<rparr>) }"
| "apply_call Control_Init s = do { ASSERT (ss_con s \<and> \<not> ss_control s \<and> \<not> ss_up s); Some (s\<lparr>ss_control := True\<rparr>) }"
| "apply_call Control_Free s = do {
     ASSERT (ss_control s);
     Some (s\<lparr>ss_control := False, ss_sending := False, ss_receiving := None\<rparr>) }"
| "apply_call Up_Init s = do { ASSERT (ss_con s \<and> \<not> ss_control s \<and> \<not> ss_up s); Some (s\<lparr>ss_up := True\<rparr>) }"
| "apply_call Up_Free s = do { ASSERT (ss_up s); Some (s\<lparr>ss_up := False\<rparr>) }"
| "apply_call Connector_Free s = Some (s\<lparr>ss_connecting := False\<rparr>)"
| "apply_call Buffer_Free s = do {
     ASSERT (so_buffer (ss_o s) \<noteq> None);
     Some (s\<lparr>ss_o := (ss_o s)\<lparr>so_buffer := None\<rparr>\<rparr>) }"
| "apply_call (Sender_Send data) s = do {
     ASSERT (ss_control s \<and> \<not> ss_sending s);
     Some (s\<lparr>ss_sending := True, ss_sent := ss_sent s @ data\<rparr>) }"
| "apply_call (Receiver_Recv n) s = do {
     ASSERT (ss_control s \<and> ss_receiving s = None \<and> n > 0);
     Some (s\<lparr>ss_receiving := Some n\<rparr>) }"
| "apply_call (Handler event) s = do {
     ASSERT (\<not> ss_failed s);
     Some (s\<lparr>ss_failed := (event \<noteq> BSOCKSCLIENT_EVENT_UP)\<rparr>) }"

fun apply_calls :: "socks_call list \<Rightarrow> socks_sys \<Rightarrow> socks_sys option" where
  "apply_calls [] s = Some s"
| "apply_calls (c # cs) s = do { s \<leftarrow> apply_call c s; apply_calls cs s }"

datatype socks_input =
    EConnector "nat \<Rightarrow> bytes option" bool bool
  | ESent "nat \<Rightarrow> bytes option"
  | EReceived "nat \<Rightarrow> bytes option" bytes
  | EConnection connection_event

definition mem_ok :: "(nat \<Rightarrow> bytes option) \<Rightarrow> bool" where
  "mem_ok mem \<longleftrightarrow> (\<forall>n b. mem n = Some b \<longrightarrow> length b = n)"

fun socks_allowed :: "socks_sys \<Rightarrow> socks_input \<Rightarrow> bool" where
  "socks_allowed s (EConnector mem con_ok is_error) = (ss_connecting s \<and> \<not> ss_failed s \<and> mem_ok mem)"
| "socks_allowed s (ESent mem) = (ss_sending s \<and> \<not> ss_failed s \<and> mem_ok mem)"
| "socks_allowed s (EReceived mem data) =
     ((case ss_receiving s of None \<Rightarrow> False | Some n \<Rightarrow> 0 < length data \<and> length data \<le> n) \<and> \<not> ss_failed s \<and> mem_ok mem)"
| "socks_allowed s (EConnection event) = (ss_con s \<and> \<not> ss_failed s)"

definition socks_run :: "socks_result \<Rightarrow> socks_sys \<Rightarrow> socks_sys option" where
  "socks_run r s = do {
     (o', calls) \<leftarrow> r;
     apply_calls calls (s\<lparr>ss_o := o'\<rparr>) }"

fun socks_handle :: "nat \<Rightarrow> socks_sys \<Rightarrow> socks_input \<Rightarrow> socks_sys option" where
  "socks_handle size_max s (EConnector mem con_ok is_error) =
     socks_run (connector_handler size_max mem con_ok is_error (ss_o s)) (s\<lparr>ss_connecting := False\<rparr>)"
| "socks_handle size_max s (ESent mem) = socks_run (send_handler_done size_max mem (ss_o s)) (s\<lparr>ss_sending := False\<rparr>)"
| "socks_handle size_max s (EReceived mem data) = do {
     o' \<leftarrow> buffer_write (so_recv_dest (ss_o s) + so_recv_len (ss_o s)) data (ss_o s);
     socks_run (recv_handler_done size_max mem (length data) o')
       (s\<lparr>ss_receiving := None, ss_received := ss_received s @ data\<rparr>) }"
| "socks_handle size_max s (EConnection event) = socks_run (connection_handler event (ss_o s)) s"

definition socks_step :: "nat \<Rightarrow> socks_sys \<Rightarrow> socks_input \<Rightarrow> socks_sys \<Rightarrow> bool" where
  "socks_step size_max s e s' \<longleftrightarrow> socks_allowed s e \<and> socks_handle size_max s e = Some s'"

definition socks_start :: "BSocksClient \<Rightarrow> socks_sys" where
  "socks_start o' = \<lparr>ss_o = o', ss_connecting = True, ss_con = False, ss_control = False, ss_up = False, ss_sending = False,
     ss_receiving = None, ss_failed = False, ss_sent = [], ss_received = []\<rparr>"

text \<open>No failure of the environment: the server is reached and memory is available.\<close>

fun env_ok :: "socks_input \<Rightarrow> bool" where
  "env_ok (EConnector mem con_ok is_error) = (con_ok \<and> \<not> is_error \<and> (\<forall>n. mem n \<noteq> None))"
| "env_ok (ESent mem) = (\<forall>n. mem n \<noteq> None)"
| "env_ok (EReceived mem data) = (\<forall>n. mem n \<noteq> None)"
| "env_ok (EConnection event) = False"

subsection \<open>The dialogue of RFC 1928 and RFC 1929\<close>

text \<open>
  \<open>dialogue ais dest input\<close>: the bytes a client with the methods \<open>ais\<close> sends to a server that has sent
  \<open>input\<close>, and whether it waits for more, has been refused, or the connection to \<open>dest\<close> is established,
  with the bytes that follow the reply.
\<close>

datatype outcome = Waiting | Refused | Established bytes

definition hello_bytes :: "BSocksClient_auth_info list \<Rightarrow> bytes" where
  "hello_bytes ais = [5, of_nat (length ais)] @ map (\<lambda>ai. word_of_int (ai_auth_type ai)) ais"

definition password_bytes :: "BSocksClient_auth_info \<Rightarrow> bytes" where
  "password_bytes ai = [1, of_nat (length (ai_username ai))] @ ai_username ai @ [of_nat (length (ai_password ai))] @ ai_password ai"

definition request_bytes :: "BAddr \<Rightarrow> bytes" where
  "request_bytes dest = [5, 1, 0, if BAddr_type dest = 2 then 4 else 1] @ socks_addr_mem dest"

definition password_usable :: "BSocksClient_auth_info \<Rightarrow> bool" where
  "password_usable ai \<longleftrightarrow> ai_username ai \<noteq> [] \<and> length (ai_username ai) \<le> 255 \<and> ai_password ai \<noteq> [] \<and> length (ai_password ai) \<le> 255"

definition reply_addr_len :: "byte \<Rightarrow> nat option" where
  "reply_addr_len atyp = (if atyp = 1 then Some 6 else if atyp = 4 then Some 18 else None)"

definition request_phase :: "BAddr \<Rightarrow> bytes \<Rightarrow> bytes \<Rightarrow> bytes \<times> outcome" where
  "request_phase dest sent input =
     (sent @ request_bytes dest,
      if length input < 4 then Waiting
      else if input ! 0 \<noteq> 5 \<or> input ! 1 \<noteq> 0 then Refused
      else case reply_addr_len (input ! 3) of
        None \<Rightarrow> Refused
      | Some n \<Rightarrow> if length input < 4 + n then Waiting else Established (drop (4 + n) input))"

definition dialogue :: "BSocksClient_auth_info list \<Rightarrow> BAddr \<Rightarrow> bytes \<Rightarrow> bytes \<times> outcome" where
  "dialogue ais dest input =
     (if ais = [] \<or> length ais > 255 then ([], Refused)
      else if length input < 2 then (hello_bytes ais, Waiting)
      else if input ! 0 \<noteq> 5 then (hello_bytes ais, Refused)
      else case find (\<lambda>ai. ai_auth_type ai = uint (input ! 1)) ais of
        None \<Rightarrow> (hello_bytes ais, Refused)
      | Some ai \<Rightarrow>
          if ai_auth_type ai = 0 then request_phase dest (hello_bytes ais) (drop 2 input)
          else if \<not> password_usable ai then (hello_bytes ais, Refused)
          else if length input < 4 then (hello_bytes ais @ password_bytes ai, Waiting)
          else if input ! 2 \<noteq> 1 \<or> input ! 3 \<noteq> 0 then (hello_bytes ais @ password_bytes ai, Refused)
          else request_phase dest (hello_bytes ais @ password_bytes ai) (drop 4 input))"

subsection \<open>What the operations send\<close>

lemma buffer_write_eq:
  "so_buffer o' = Some (pre @ rest) \<Longrightarrow> length pre = i \<Longrightarrow> length xs \<le> length rest \<Longrightarrow>
     buffer_write i xs o' = Some (o'\<lparr>so_buffer := Some (pre @ xs @ drop (length xs) rest)\<rparr>)"
  by (auto simp: buffer_write_def store_def)

lemma buffer_read_all: "so_buffer o' = Some b \<Longrightarrow> length b = n \<Longrightarrow> buffer_read 0 n o' = Some b"
  by (auto simp: buffer_read_def segment_def)

lemma write_methods_eq:
  "so_buffer o' = Some (pre @ rest) \<Longrightarrow> length pre = 2 + i \<Longrightarrow> length ais \<le> length rest \<Longrightarrow>
     write_methods i ais o' = Some (o'\<lparr>so_buffer := Some (pre @ map (\<lambda>ai. word_of_int (ai_auth_type ai)) ais @ drop (length ais) rest)\<rparr>)"
proof (induction ais arbitrary: i pre rest o')
  case (Cons ai ais)
  let ?m = "word_of_int (ai_auth_type ai)"
  have 1: "buffer_write (2 + i * 1) [hton8 ?m] o' = Some (o'\<lparr>so_buffer := Some ((pre @ [?m]) @ drop 1 rest)\<rparr>)"
    using buffer_write_eq [OF Cons.prems(1), of "2 + i" "[?m]"] Cons.prems by (simp add: byte_id)
  have "write_methods (i + 1) ais (o'\<lparr>so_buffer := Some ((pre @ [?m]) @ drop 1 rest)\<rparr>)
      = Some (o'\<lparr>so_buffer := Some ((pre @ [?m]) @ map (\<lambda>ai. word_of_int (ai_auth_type ai)) ais @ drop (length ais) (drop 1 rest))\<rparr>)"
    using Cons.IH [of "o'\<lparr>so_buffer := Some ((pre @ [?m]) @ drop 1 rest)\<rparr>" "pre @ [?m]" "drop 1 rest" "i + 1"] Cons.prems by simp
  then show ?case using 1 by simp
qed simp

lemma reserve_buffer_eq:
  "\<not> is_overflow sz \<Longrightarrow> reserve_buffer mem o' sz = map_option (\<lambda>b. o'\<lparr>so_buffer := Some b\<rparr>) (mem (bvalue sz))"
  by (simp add: reserve_buffer_def split: option.splits)

lemma connector_handler_eq:
  assumes "so_state o' = STATE_CONNECTING" and "mem_ok mem" and "65535 \<le> size_max"
  shows "connector_handler size_max mem con_ok is_error o' =
    (if is_error \<or> \<not> con_ok then Some (o', [Handler BSOCKSCLIENT_EVENT_ERROR])
     else if so_auth_info o' = [] \<or> length (so_auth_info o') > 255 \<or> mem (2 + length (so_auth_info o')) = None
     then Some (o', [Con_Init, Control_Init, Control_Free, Con_Free, Handler BSOCKSCLIENT_EVENT_ERROR])
     else Some (o'\<lparr>so_buffer := Some (hello_bytes (so_auth_info o')), so_state := STATE_SENDING_HELLO\<rparr>,
            [Con_Init, Control_Init, Sender_Send (hello_bytes (so_auth_info o'))]))"
proof (cases "is_error \<or> \<not> con_ok \<or> so_auth_info o' = [] \<or> length (so_auth_info o') > 255")
  case True
  then show ?thesis using assms(1) by (auto simp: connector_handler_def report_error_def)
next
  case False
  let ?n = "length (so_auth_info o')"
  let ?sz = "bsize_add size_max (bsize_fromsize 2) (bsize_mul size_max (bsize_fromsize ?n) (bsize_fromsize 1))"
  have "?n \<le> size_max" "2 + ?n \<le> size_max" "1 \<le> size_max div ?n" using False assms(3) by (auto simp: Suc_le_eq div_greater_zero_iff)
  then have sz: "\<not> is_overflow ?sz" "bvalue ?sz = 2 + ?n"
    by (auto simp: bsize_add_def bsize_mul_def bsize_fromsize_def)
  show ?thesis
  proof (cases "mem (2 + ?n)")
    case None
    then show ?thesis using False assms(1) unfolding connector_handler_def Let_def reserve_buffer_eq [OF sz(1)] sz(2) by simp
  next
    case (Some b)
    have len: "length b = 2 + ?n" using Some assms(2) by (simp add: mem_ok_def)
    let ?o1 = "o'\<lparr>so_buffer := Some b\<rparr>" and ?h = "[5, of_nat ?n] :: bytes"
    let ?o2 = "o'\<lparr>so_buffer := Some (?h @ drop 2 b)\<rparr>"
    have 1: "buffer_write 0 [hton8 SOCKS_VERSION, hton8 (of_nat ?n)] ?o1 = Some ?o2"
      using buffer_write_eq [of ?o1 "[]" b 0 ?h] len by (simp add: byte_id socks_consts numeral_2_eq_2)
    have 2: "write_methods 0 (so_auth_info o') ?o2 = Some (o'\<lparr>so_buffer := Some (hello_bytes (so_auth_info o'))\<rparr>)"
      using write_methods_eq [of ?o2 ?h "drop 2 b" 0 "so_auth_info o'"] len by (simp add: hello_bytes_def)
    have 3: "buffer_read 0 (2 + ?n) (o'\<lparr>so_buffer := Some (hello_bytes (so_auth_info o'))\<rparr>) = Some (hello_bytes (so_auth_info o'))"
      by (rule buffer_read_all) (simp_all add: hello_bytes_def)
    show ?thesis using False assms(1) Some 1 2 3
      unfolding connector_handler_def Let_def reserve_buffer_eq [OF sz(1)] sz(2) by simp
  qed
qed

lemma request_len: "is_ip_addr d \<Longrightarrow> addr_ok d \<Longrightarrow> length (socks_addr_mem d) = (if BAddr_type d = 2 then 18 else 6)"
  by (cases d) (auto simp: is_ip_addr_def mem_simps)

lemma auth_finished_eq:
  assumes "is_ip_addr (so_dest_addr o')" and "addr_ok (so_dest_addr o')" and "mem_ok mem" and "65535 \<le> size_max"
  shows "auth_finished size_max mem o' =
    (if mem (length (request_bytes (so_dest_addr o'))) = None then Some (o', [Handler BSOCKSCLIENT_EVENT_ERROR])
     else Some (o'\<lparr>so_buffer := Some (request_bytes (so_dest_addr o')), so_state := STATE_SENDING_REQUEST\<rparr>,
            [Sender_Send (request_bytes (so_dest_addr o'))]))"
proof -
  have len: "mem n = Some b \<Longrightarrow> length b = n" for n b using assms(3) by (simp add: mem_ok_def)
  show ?thesis
  proof (cases "so_dest_addr o'")
    case (BAddr_IPv4 ip port)
    have sz: "\<not> is_overflow (bsize_add size_max (bsize_fromsize 4) (bsize_fromsize 6))"
      "bvalue (bsize_add size_max (bsize_fromsize 4) (bsize_fromsize 6)) = 10"
      using assms(4) by (auto simp: bsize_add_def bsize_fromsize_def)
    show ?thesis using BAddr_IPv4 len [of 10] unfolding auth_finished_def Let_def
      by (cases "mem 10") (auto simp: sz reserve_buffer_eq [OF sz(1)] report_error_def buffer_write_def buffer_read_def store_def segment_def request_bytes_def
          byte_id socks_consts mem_simps)
  next
    case (BAddr_IPv6 ip port)
    have ip: "length ip = 16" using assms(2) BAddr_IPv6 by simp
    have sz: "\<not> is_overflow (bsize_add size_max (bsize_fromsize 4) (bsize_fromsize 18))"
      "bvalue (bsize_add size_max (bsize_fromsize 4) (bsize_fromsize 18)) = 22"
      using assms(4) by (auto simp: bsize_add_def bsize_fromsize_def)
    show ?thesis using BAddr_IPv6 len [of 22] ip unfolding auth_finished_def Let_def
      by (cases "mem 22") (auto simp: sz reserve_buffer_eq [OF sz(1)] report_error_def buffer_write_def buffer_read_def store_def segment_def request_bytes_def
          byte_id socks_consts mem_simps)
  qed (use assms(1) in \<open>auto simp: is_ip_addr_def\<close>)
qed

lemma send_password_eq:
  assumes "mem_ok mem"
  shows "send_password mem ai o' =
    (if \<not> password_usable ai \<or> mem (length (password_bytes ai)) = None then Some (o', [Handler BSOCKSCLIENT_EVENT_ERROR])
     else Some (o'\<lparr>so_buffer := Some (password_bytes ai), so_state := STATE_SENDING_PASSWORD\<rparr>, [Sender_Send (password_bytes ai)]))"
proof (cases "password_usable ai")
  case False
  then show ?thesis by (auto simp: send_password_def password_usable_def report_error_def)
next
  case True
  let ?ul = "length (ai_username ai)" and ?pl = "length (ai_password ai)"
  let ?n = "1 + 1 + ?ul + 1 + ?pl"
  have n: "length (password_bytes ai) = ?n" by (simp add: password_bytes_def)
  have u: "\<not> (?ul = 0 \<or> ?ul > 255 \<or> ?pl = 0 \<or> ?pl > 255)" using True by (auto simp: password_usable_def)
  have sz: "\<not> is_overflow (bsize_fromsize ?n)" "bvalue (bsize_fromsize ?n) = ?n" by (simp_all add: bsize_fromsize_def)
  show ?thesis
  proof (cases "mem ?n")
    case None
    then show ?thesis using u True n unfolding send_password_def Let_def reserve_buffer_eq [OF sz(1)] sz(2) by (simp add: report_error_def)
  next
    case (Some b)
    have len: "length b = ?n" using Some assms by (simp add: mem_ok_def)
    define p1 p2 p3 p4 where p: "p1 = [1 :: byte]" "p2 = p1 @ [of_nat ?ul]" "p3 = p2 @ ai_username ai" "p4 = p3 @ [of_nat ?pl]"
    have "buffer_write 0 [1] (o'\<lparr>so_buffer := Some b\<rparr>) = Some (o'\<lparr>so_buffer := Some (p1 @ drop 1 b)\<rparr>)"
      using buffer_write_eq [of "o'\<lparr>so_buffer := Some b\<rparr>" "[]" b 0 "[1]"] len by (simp add: p)
    moreover have "buffer_write 1 [of_nat ?ul] (o'\<lparr>so_buffer := Some (p1 @ drop 1 b)\<rparr>) = Some (o'\<lparr>so_buffer := Some (p2 @ drop 2 b)\<rparr>)"
      using buffer_write_eq [of "o'\<lparr>so_buffer := Some (p1 @ drop 1 b)\<rparr>" p1 "drop 1 b" 1 "[of_nat ?ul]"] len by (simp add: p numeral_2_eq_2)
    moreover have "buffer_write 2 (ai_username ai) (o'\<lparr>so_buffer := Some (p2 @ drop 2 b)\<rparr>) = Some (o'\<lparr>so_buffer := Some (p3 @ drop (2 + ?ul) b)\<rparr>)"
      using buffer_write_eq [of "o'\<lparr>so_buffer := Some (p2 @ drop 2 b)\<rparr>" p2 "drop 2 b" 2 "ai_username ai"] len by (simp add: p add.commute)
    moreover have "buffer_write (2 + ?ul) [of_nat ?pl] (o'\<lparr>so_buffer := Some (p3 @ drop (2 + ?ul) b)\<rparr>)
        = Some (o'\<lparr>so_buffer := Some (p4 @ drop (3 + ?ul) b)\<rparr>)"
      using buffer_write_eq [of "o'\<lparr>so_buffer := Some (p3 @ drop (2 + ?ul) b)\<rparr>" p3 "drop (2 + ?ul) b" "2 + ?ul" "[of_nat ?pl]"] len by (simp add: p numeral_3_eq_3)
    moreover have "buffer_write (3 + ?ul) (ai_password ai) (o'\<lparr>so_buffer := Some (p4 @ drop (3 + ?ul) b)\<rparr>)
        = Some (o'\<lparr>so_buffer := Some (password_bytes ai)\<rparr>)"
      using buffer_write_eq [of "o'\<lparr>so_buffer := Some (p4 @ drop (3 + ?ul) b)\<rparr>" p4 "drop (3 + ?ul) b" "3 + ?ul" "ai_password ai"] len
      by (simp add: p password_bytes_def)
    moreover have "buffer_read 0 ?n (o'\<lparr>so_buffer := Some (password_bytes ai)\<rparr>) = Some (password_bytes ai)"
      by (rule buffer_read_all) (simp_all add: n)
    ultimately show ?thesis using Some u True n unfolding send_password_def Let_def reserve_buffer_eq [OF sz(1)] sz(2) by simp
  qed
qed

lemma receive_reply_eq:
  assumes "\<not> is_overflow sz" and "tot > 0"
  shows "receive_reply mem sz tot state o' =
    (case mem (bvalue sz) of
       None \<Rightarrow> Some (o', [Handler BSOCKSCLIENT_EVENT_ERROR])
     | Some b \<Rightarrow> Some (o'\<lparr>so_buffer := Some b, so_recv_dest := 0, so_recv_len := 0, so_recv_total := tot, so_state := state\<rparr>, [Receiver_Recv tot]))"
  using assms by (auto simp: receive_reply_def reserve_buffer_eq report_error_def start_receive_def do_receive_def split: option.splits)

subsection \<open>The invariant\<close>

definition const_ok :: "BSocksClient_auth_info list \<Rightarrow> BAddr \<Rightarrow> BSocksClient \<Rightarrow> bool" where
  "const_ok ais dest o' \<longleftrightarrow> so_auth_info o' = ais \<and> so_dest_addr o' = dest \<and> is_ip_addr dest \<and> addr_ok dest
     \<and> (\<forall>ai\<in>set ais. ai_auth_type ai = 0 \<or> ai_auth_type ai = 2)"

definition resources :: "socks_sys \<Rightarrow> bool" where
  "resources s \<longleftrightarrow>
     (case so_state (ss_o s) of
        STATE_CONNECTING \<Rightarrow> \<not> ss_con s \<and> \<not> ss_control s \<and> \<not> ss_up s
      | STATE_UP \<Rightarrow> ss_con s \<and> \<not> ss_control s \<and> ss_up s
      | _ \<Rightarrow> ss_con s \<and> ss_control s \<and> \<not> ss_up s)"

definition sending_at :: "socks_sys \<Rightarrow> bool" where
  "sending_at s \<longleftrightarrow> ss_sending s \<and> ss_receiving s = None \<and> so_buffer (ss_o s) \<noteq> None \<and> \<not> ss_connecting s"

text \<open>A reply of \<open>tot\<close> bytes is being received into the buffer at \<open>dest\<close>; \<open>pre\<close> was received before the buffer.\<close>

definition receiving_at :: "socks_sys \<Rightarrow> bytes \<Rightarrow> bytes \<Rightarrow> nat \<Rightarrow> nat \<Rightarrow> bool" where
  "receiving_at s pre b dest tot \<longleftrightarrow> \<not> ss_sending s \<and> \<not> ss_connecting s \<and> so_recv_dest (ss_o s) = dest \<and> so_recv_total (ss_o s) = tot
     \<and> so_recv_len (ss_o s) < tot \<and> ss_receiving s = Some (tot - so_recv_len (ss_o s))
     \<and> so_buffer (ss_o s) = Some b \<and> dest + tot \<le> length b \<and> ss_received s = pre @ segment b 0 (dest + so_recv_len (ss_o s))"

definition auth_done :: "BSocksClient_auth_info list \<Rightarrow> bytes \<Rightarrow> bytes \<Rightarrow> bool" where
  "auth_done ais s0 r0 \<longleftrightarrow>
     (\<exists>ai. find (\<lambda>ai. ai_auth_type ai = 0) ais = Some ai) \<and> s0 = hello_bytes ais \<and> r0 = [5, 0]
     \<or> (\<exists>ai. find (\<lambda>ai. ai_auth_type ai = 2) ais = Some ai \<and> password_usable ai \<and> s0 = hello_bytes ais @ password_bytes ai) \<and> r0 = [5, 2, 1, 0]"

definition password_sent :: "BSocksClient_auth_info list \<Rightarrow> bytes \<Rightarrow> bool" where
  "password_sent ais s0 \<longleftrightarrow> (\<exists>ai. find (\<lambda>ai. ai_auth_type ai = 2) ais = Some ai \<and> password_usable ai \<and> s0 = hello_bytes ais @ password_bytes ai)"

definition phase :: "BSocksClient_auth_info list \<Rightarrow> BAddr \<Rightarrow> socks_sys \<Rightarrow> bool" where
  "phase ais dest s \<longleftrightarrow>
     (case so_state (ss_o s) of
        STATE_CONNECTING \<Rightarrow> ss_connecting s \<and> \<not> ss_sending s \<and> ss_receiving s = None \<and> ss_sent s = [] \<and> ss_received s = []
      | STATE_SENDING_HELLO \<Rightarrow> sending_at s \<and> ss_sent s = hello_bytes ais \<and> ss_received s = []
      | STATE_SENT_HELLO \<Rightarrow> (\<exists>b. receiving_at s [] b 0 2) \<and> ss_sent s = hello_bytes ais
      | STATE_SENDING_PASSWORD \<Rightarrow> sending_at s \<and> password_sent ais (ss_sent s) \<and> ss_received s = [5, 2]
      | STATE_SENT_PASSWORD \<Rightarrow> (\<exists>b. receiving_at s [5, 2] b 0 2) \<and> password_sent ais (ss_sent s)
      | STATE_SENDING_REQUEST \<Rightarrow> sending_at s \<and> (\<exists>s0. auth_done ais s0 (ss_received s) \<and> ss_sent s = s0 @ request_bytes dest)
      | STATE_SENT_REQUEST \<Rightarrow> (\<exists>s0 r0 b. auth_done ais s0 r0 \<and> ss_sent s = s0 @ request_bytes dest \<and> receiving_at s r0 b 0 4 \<and> 22 \<le> length b)
      | STATE_RECEIVED_REPLY_HEADER \<Rightarrow> (\<exists>s0 r0 b n. auth_done ais s0 r0 \<and> ss_sent s = s0 @ request_bytes dest
           \<and> receiving_at s r0 b 4 n \<and> b ! 0 = 5 \<and> b ! 1 = 0 \<and> reply_addr_len (b ! 3) = Some n)
      | STATE_UP \<Rightarrow> \<not> ss_connecting s \<and> \<not> ss_sending s \<and> ss_receiving s = None
          \<and> (\<exists>s0 r0 h a. auth_done ais s0 r0 \<and> ss_sent s = s0 @ request_bytes dest \<and> ss_received s = r0 @ h @ a
             \<and> length h = 4 \<and> h ! 0 = 5 \<and> h ! 1 = 0 \<and> reply_addr_len (h ! 3) = Some (length a)))"

definition socks_inv :: "BSocksClient_auth_info list \<Rightarrow> BAddr \<Rightarrow> socks_sys \<Rightarrow> bool" where
  "socks_inv ais dest s \<longleftrightarrow> const_ok ais dest (ss_o s) \<and> resources s
     \<and> (so_state (ss_o s) \<noteq> STATE_CONNECTING \<longrightarrow> ais \<noteq> [] \<and> length ais \<le> 255) \<and> (\<not> ss_failed s \<longrightarrow> phase ais dest s)"

subsection \<open>The invariant gives the dialogue\<close>

lemma find_type: "find (\<lambda>ai. ai_auth_type ai = k) ais = Some ai \<Longrightarrow> ai_auth_type ai = k \<and> ai \<in> set ais"
  by (auto simp: find_Some_iff)

lemma dialogue_auth:
  assumes "auth_done ais s0 r0" and "ais \<noteq> []" and "length ais \<le> 255"
  shows "dialogue ais dest (r0 @ x) = request_phase dest s0 x"
  using assms(1) unfolding auth_done_def
proof (elim disjE exE conjE)
  fix ai assume "find (\<lambda>ai. ai_auth_type ai = 0) ais = Some ai" "s0 = hello_bytes ais" "r0 = [5, 0]"
  then show ?thesis using assms(2,3) find_type [of 0 ais ai] by (simp add: dialogue_def not_less)
next
  fix ai assume "find (\<lambda>ai. ai_auth_type ai = 2) ais = Some ai" "password_usable ai" "s0 = hello_bytes ais @ password_bytes ai" "r0 = [5, 2, 1, 0]"
  then show ?thesis using assms(2,3) find_type [of 2 ais ai] by (simp add: dialogue_def not_less)
qed

lemma dialogue_password:
  assumes "password_sent ais s0" and "ais \<noteq> []" and "length ais \<le> 255"
  shows "dialogue ais dest ([5, 2] @ x) = (if length x < 2 then (s0, Waiting) else if x ! 0 \<noteq> 1 \<or> x ! 1 \<noteq> 0 then (s0, Refused)
     else request_phase dest s0 (drop 2 x))"
proof -
  obtain ai where ai: "find (\<lambda>ai. ai_auth_type ai = 2) ais = Some ai" "password_usable ai" "s0 = hello_bytes ais @ password_bytes ai"
    using assms(1) by (auto simp: password_sent_def)
  then have "ai_auth_type ai = 2" using find_type by blast
  then show ?thesis using ai assms(2,3) by (auto simp: dialogue_def not_less)
qed

lemma phase_dialogue:
  assumes "socks_inv ais dest s" and "\<not> ss_failed s" and "so_state (ss_o s) \<noteq> STATE_CONNECTING"
  shows "dialogue ais dest (ss_received s) = (ss_sent s, if so_state (ss_o s) = STATE_UP then Established [] else Waiting)"
proof -
  have n: "ais \<noteq> []" "length ais \<le> 255" and ph: "phase ais dest s" using assms by (auto simp: socks_inv_def)
  have seg: "length (segment b 0 k) = k" if "k \<le> length b" for b :: bytes and k using that by simp
  show ?thesis
  proof (cases "so_state (ss_o s)")
    case STATE_SENDING_HELLO
    then show ?thesis using ph n by (simp add: phase_def dialogue_def)
  next
    case STATE_SENT_HELLO
    then obtain b where "receiving_at s [] b 0 2" "ss_sent s = hello_bytes ais" using ph by (auto simp: phase_def)
    then show ?thesis using STATE_SENT_HELLO n by (simp add: receiving_at_def dialogue_def)
  next
    case STATE_SENDING_PASSWORD
    then show ?thesis using ph dialogue_password [OF _ n, of "ss_sent s" dest "[]"] by (simp add: phase_def)
  next
    case STATE_SENT_PASSWORD
    then obtain b where "receiving_at s [5, 2] b 0 2" "password_sent ais (ss_sent s)" using ph by (auto simp: phase_def)
    then show ?thesis using STATE_SENT_PASSWORD dialogue_password [OF _ n, of "ss_sent s" dest "segment b 0 (so_recv_len (ss_o s))"]
      by (simp add: receiving_at_def)
  next
    case STATE_SENDING_REQUEST
    then obtain s0 where "auth_done ais s0 (ss_received s)" "ss_sent s = s0 @ request_bytes dest" using ph by (auto simp: phase_def)
    then show ?thesis using STATE_SENDING_REQUEST dialogue_auth [OF _ n, of s0 "ss_received s" dest "[]"] by (simp add: request_phase_def)
  next
    case STATE_SENT_REQUEST
    then obtain s0 r0 b where "auth_done ais s0 r0" "ss_sent s = s0 @ request_bytes dest" "receiving_at s r0 b 0 4" using ph by (auto simp: phase_def)
    then show ?thesis using STATE_SENT_REQUEST dialogue_auth [OF _ n, of s0 r0 dest "segment b 0 (so_recv_len (ss_o s))"]
      by (simp add: receiving_at_def request_phase_def)
  next
    case STATE_RECEIVED_REPLY_HEADER
    then obtain s0 r0 b k where a: "auth_done ais s0 r0" "ss_sent s = s0 @ request_bytes dest" "receiving_at s r0 b 4 k"
      "b ! 0 = 5" "b ! 1 = 0" "reply_addr_len (b ! 3) = Some k" using ph by (auto simp: phase_def)
    then show ?thesis using STATE_RECEIVED_REPLY_HEADER dialogue_auth [OF a(1) n, of dest "segment b 0 (4 + so_recv_len (ss_o s))"]
      by (simp add: receiving_at_def request_phase_def nth_segment)
  next
    case STATE_UP
    then obtain s0 r0 h a where a: "auth_done ais s0 r0" "ss_sent s = s0 @ request_bytes dest" "ss_received s = r0 @ h @ a"
      "length h = 4" "h ! 0 = 5" "h ! 1 = 0" "reply_addr_len (h ! 3) = Some (length a)" using ph by (auto simp: phase_def)
    then show ?thesis using STATE_UP dialogue_auth [OF a(1) n, of dest "h @ a"] by (simp add: request_phase_def nth_append)
  qed (use assms in auto)
qed

subsection \<open>Every event keeps the invariant\<close>

text \<open>
  \<open>good ais dest env r\<close>: the run of a handler has a result, which satisfies the invariant; and if the
  environment did not fail but the client did, it was refused according to the dialogue.
\<close>

definition good :: "BSocksClient_auth_info list \<Rightarrow> BAddr \<Rightarrow> bool \<Rightarrow> socks_sys option \<Rightarrow> bool" where
  "good ais dest env r \<longleftrightarrow> (\<exists>s. r = Some s \<and> socks_inv ais dest s
     \<and> (env \<and> ss_failed s \<longrightarrow> dialogue ais dest (ss_received s) = (ss_sent s, Refused)))"

definition connected :: "BSocksClient_auth_info list \<Rightarrow> BAddr \<Rightarrow> socks_sys \<Rightarrow> BSocksClient \<Rightarrow> bool" where
  "connected ais dest s o' \<longleftrightarrow> const_ok ais dest o' \<and> so_state o' \<noteq> STATE_CONNECTING \<and> so_state o' \<noteq> STATE_UP
     \<and> ss_con s \<and> ss_control s \<and> \<not> ss_up s \<and> ais \<noteq> [] \<and> length ais \<le> 255
     \<and> \<not> ss_failed s \<and> \<not> ss_sending s \<and> ss_receiving s = None \<and> \<not> ss_connecting s"

lemma good_error:
  assumes "connected ais dest s o'" and "env \<Longrightarrow> dialogue ais dest (ss_received s) = (ss_sent s, Refused)"
  shows "good ais dest env (socks_run (Some (o', [Handler BSOCKSCLIENT_EVENT_ERROR])) s)"
proof -
  have "resources (s\<lparr>ss_o := o', ss_failed := True\<rparr>)"
    using assms(1) by (cases "so_state o'") (auto simp: connected_def resources_def)
  then show ?thesis using assms by (auto simp: good_def socks_run_def socks_inv_def connected_def)
qed

lemma good_auth_finished:
  assumes c: "connected ais dest s o'" and a: "auth_done ais (ss_sent s) (ss_received s)" and m: "mem_ok mem" "65535 \<le> size_max"
    and env: "env \<longrightarrow> (\<forall>n. mem n \<noteq> None)"
  shows "good ais dest env (socks_run (auth_finished size_max mem o') s)"
proof -
  have d: "so_dest_addr o' = dest" "is_ip_addr (so_dest_addr o')" "addr_ok (so_dest_addr o')" using c by (auto simp: connected_def const_ok_def)
  show ?thesis
  proof (cases "mem (length (request_bytes dest)) = None")
    case True
    then have "\<not> env" using env by blast
    then show ?thesis using True d good_error [OF c, of env] by (simp add: auth_finished_eq [OF d(2,3) m])
  next
    case False
    then show ?thesis using c a d
      by (auto simp: auth_finished_eq [OF d(2,3) m] good_def socks_run_def socks_inv_def connected_def const_ok_def resources_def phase_def sending_at_def)
  qed
qed

lemma good_send_password:
  assumes c: "connected ais dest s o'" and f: "find (\<lambda>ai. ai_auth_type ai = 2) ais = Some ai"
    and s: "ss_sent s = hello_bytes ais" "ss_received s = [5, 2]" and m: "mem_ok mem" and env: "env \<longrightarrow> (\<forall>n. mem n \<noteq> None)"
  shows "good ais dest env (socks_run (send_password mem ai o') s)"
proof (cases "\<not> password_usable ai \<or> mem (length (password_bytes ai)) = None")
  case True
  have "dialogue ais dest (ss_received s) = (ss_sent s, Refused)" if env
  proof -
    have "\<not> password_usable ai" using True env that by blast
    then show ?thesis using c f s find_type [OF f] by (simp add: connected_def dialogue_def not_less)
  qed
  then show ?thesis using True good_error [OF c, of env] by (simp add: send_password_eq [OF m])
next
  case False
  then have p: "password_sent ais (hello_bytes ais @ password_bytes ai)" using f by (auto simp: password_sent_def)
  show ?thesis using c False s p
    by (auto simp: send_password_eq [OF m] good_def socks_run_def socks_inv_def connected_def const_ok_def resources_def phase_def sending_at_def)
qed

lemma two_bytes: "length b = 2 \<Longrightarrow> b = [b ! 0, b ! 1]"
  by (auto simp: list_eq_iff_nth_eq less_2_cases_iff)

lemma good_received_hello:
  assumes c: "connected ais dest s o'" and b: "so_buffer o' = Some b" "2 \<le> length b" "ss_received s = segment b 0 2"
    and s: "ss_sent s = hello_bytes ais" and m: "mem_ok mem" "65535 \<le> size_max" and env: "env \<longrightarrow> (\<forall>n. mem n \<noteq> None)"
  shows "good ais dest env (socks_run (received_hello size_max mem o') s)"
proof -
  have ais: "so_auth_info o' = ais" "ais \<noteq> []" "\<not> 255 < length ais" and
    types: "\<forall>ai\<in>set ais. ai_auth_type ai = 0 \<or> ai_auth_type ai = 2" using c by (auto simp: connected_def const_ok_def)
  let ?m = "segment b 0 2"
  have read: "buffer_read 0 2 o' = Some ?m" using b by (simp add: buffer_read_def)
  have rcv: "ss_received s = [?m ! 0, ?m ! 1]" using b two_bytes [of ?m] by simp
  show ?thesis
  proof (cases "?m ! 0 = 5")
    case False
    then have "dialogue ais dest (ss_received s) = (ss_sent s, Refused)" using ais s rcv by (simp add: dialogue_def)
    then show ?thesis using False read good_error [OF c] by (simp add: received_hello_def byte_id socks_consts report_error_def)
  next
    case v: True
    show ?thesis
    proof (cases "find (\<lambda>ai. ai_auth_type ai = uint (?m ! 1)) ais")
      case None
      then have "dialogue ais dest (ss_received s) = (ss_sent s, Refused)" using ais s rcv v by (simp add: dialogue_def)
      then show ?thesis using v None ais read good_error [OF c] by (simp add: received_hello_def byte_id socks_consts report_error_def)
    next
      case (Some ai)
      then have ai: "ai_auth_type ai = uint (?m ! 1)" "ai_auth_type ai = 0 \<or> ai_auth_type ai = 2" using find_type types by blast+
      then have m1: "?m ! 1 = (if ai_auth_type ai = 0 then 0 else 2)" by (auto simp: word_uint_eq_iff)
      show ?thesis
      proof (cases "ai_auth_type ai = 0")
        case True
        then have "auth_done ais (ss_sent s) (ss_received s)" using Some ai s rcv v m1 by (simp add: auth_done_def)
        then show ?thesis using v True Some ais read good_auth_finished [OF c _ m env]
          by (simp add: received_hello_def byte_id socks_consts)
      next
        case False
        then have "find (\<lambda>ai. ai_auth_type ai = 2) ais = Some ai" "ss_received s = [5, 2]" using Some ai rcv v m1 by simp_all
        then show ?thesis using v False Some ais read ai good_send_password [OF c _ s _ m(1) env]
          by (simp add: received_hello_def byte_id socks_consts)
      qed
    qed
  qed
qed

lemma good_received_password_reply:
  assumes c: "connected ais dest s o'" and b: "so_buffer o' = Some b" "2 \<le> length b" "ss_received s = [5, 2] @ segment b 0 2"
    and s: "password_sent ais (ss_sent s)" and m: "mem_ok mem" "65535 \<le> size_max" and env: "env \<longrightarrow> (\<forall>n. mem n \<noteq> None)"
  shows "good ais dest env (socks_run (received_password_reply size_max mem o') s)"
proof -
  have ais: "ais \<noteq> []" "length ais \<le> 255" using c by (auto simp: connected_def)
  let ?m = "segment b 0 2"
  have read: "buffer_read 0 2 o' = Some ?m" using b by (simp add: buffer_read_def)
  have rcv: "ss_received s = [5, 2, ?m ! 0, ?m ! 1]" using b two_bytes [of ?m] by simp
  show ?thesis
  proof (cases "?m ! 0 = 1 \<and> ?m ! 1 = 0")
    case False
    then have "dialogue ais dest (ss_received s) = (ss_sent s, Refused)"
      using dialogue_password [OF s ais, of dest ?m] b by simp
    then show ?thesis using False read good_error [OF c, of env] by (auto simp: received_password_reply_def report_error_def)
  next
    case True
    then have "auth_done ais (ss_sent s) (ss_received s)" using s rcv by (auto simp: auth_done_def password_sent_def)
    then show ?thesis using True read good_auth_finished [OF c _ m env] by (simp add: received_password_reply_def)
  qed
qed

lemma good_received_reply_header:
  assumes c: "connected ais dest s o'" and b: "so_buffer o' = Some b" "22 \<le> length b" "ss_received s = r0 @ segment b 0 4"
    and a: "auth_done ais s0 r0" and s: "ss_sent s = s0 @ request_bytes dest"
  shows "good ais dest env (socks_run (received_reply_header o') s)"
proof -
  have ais: "ais \<noteq> []" "length ais \<le> 255" using c by (auto simp: connected_def)
  have read: "buffer_read 0 4 o' = Some (segment b 0 4)" using b by (simp add: buffer_read_def)
  have nth: "segment b 0 4 ! 0 = b ! 0" "segment b 0 4 ! Suc 0 = b ! 1" "segment b 0 4 ! 3 = b ! 3" using b(2) by (simp_all add: nth_segment)
  have di: "dialogue ais dest (ss_received s) = request_phase dest s0 (segment b 0 4)" using dialogue_auth [OF a ais] b(3) by simp
  show ?thesis
  proof (cases "b ! 0 = 5 \<and> b ! 1 = 0 \<and> reply_addr_len (b ! 3) \<noteq> None")
    case False
    then have "dialogue ais dest (ss_received s) = (ss_sent s, Refused)" using di b(2) s nth by (auto simp: request_phase_def)
    moreover have "received_reply_header o' = Some (o', [Handler BSOCKSCLIENT_EVENT_ERROR])"
      using False read nth by (auto simp: received_reply_header_def byte_id socks_consts report_error_def reply_addr_len_def split: if_splits)
    ultimately show ?thesis using good_error [OF c, of env] by simp
  next
    case True
    then obtain n where n: "reply_addr_len (b ! 3) = Some n" by auto
    then have n': "n = 6 \<or> n = 18" by (auto simp: reply_addr_len_def split: if_splits)
    let ?o = "o'\<lparr>so_recv_dest := 4, so_recv_len := 0, so_recv_total := n, so_state := STATE_RECEIVED_REPLY_HEADER\<rparr>"
    have r: "received_reply_header o' = Some (?o, [Receiver_Recv n])"
      using True n read nth by (auto simp: received_reply_header_def byte_id socks_consts start_receive_def do_receive_def reply_addr_len_def split: if_splits)
    have "receiving_at (s\<lparr>ss_o := ?o, ss_receiving := Some n\<rparr>) r0 b 4 n"
      using c b n' by (auto simp: receiving_at_def connected_def)
    then have "phase ais dest (s\<lparr>ss_o := ?o, ss_receiving := Some n\<rparr>)"
      using True n a s by (auto simp: phase_def)
    then show ?thesis using c r n'
      by (auto simp: good_def socks_run_def socks_inv_def connected_def const_ok_def resources_def)
  qed
qed

lemma good_received_reply_rest:
  assumes c: "connected ais dest s o'" and b: "4 + n \<le> length b" "ss_received s = r0 @ segment b 0 (4 + n)"
    and h: "b ! 0 = 5" "b ! 1 = 0" "reply_addr_len (b ! 3) = Some n"
    and a: "auth_done ais s0 r0" and s: "ss_sent s = s0 @ request_bytes dest"
  shows "good ais dest env (socks_run (received_reply_rest o') s)"
proof -
  have "ss_received s = r0 @ segment b 0 4 @ segment b 4 n" using b(2) segment_append [of b 0 4 n] by simp
  moreover have "length (segment b 0 4) = 4" "length (segment b 4 n) = n" using b(1) by simp_all
  moreover have "segment b 0 4 ! 0 = 5" "segment b 0 4 ! 1 = 0" "reply_addr_len (segment b 0 4 ! 3) = Some n" using b(1) h by (simp_all add: nth_segment)
  ultimately have "\<exists>s0 r0 h a. auth_done ais s0 r0 \<and> ss_sent s = s0 @ request_bytes dest \<and> ss_received s = r0 @ h @ a
      \<and> length h = 4 \<and> h ! 0 = 5 \<and> h ! 1 = 0 \<and> reply_addr_len (h ! 3) = Some (length a)" using a s by metis
  then show ?thesis using c
    by (auto simp: received_reply_rest_def good_def socks_run_def socks_inv_def connected_def const_ok_def resources_def phase_def)
qed

lemma socks_connector_ok:
  assumes inv: "socks_inv ais dest s" and al: "socks_allowed s (EConnector mem con_ok is_error)" and m: "65535 \<le> size_max"
  shows "good ais dest (env_ok (EConnector mem con_ok is_error)) (socks_handle size_max s (EConnector mem con_ok is_error))"
proof -
  have ph: "phase ais dest s" "mem_ok mem" "ss_connecting s" "\<not> ss_failed s" using inv al by (auto simp: socks_inv_def)
  then have st: "so_state (ss_o s) = STATE_CONNECTING"
    by (cases "so_state (ss_o s)") (auto simp: phase_def sending_at_def receiving_at_def)
  then have p: "\<not> ss_sending s" "ss_receiving s = None" "ss_sent s = []" "ss_received s = []" "\<not> ss_con s" "\<not> ss_control s" "\<not> ss_up s"
    "const_ok ais dest (ss_o s)"
    using ph(1) inv by (auto simp: phase_def socks_inv_def resources_def)
  have a: "so_auth_info (ss_o s) = ais" using p(8) by (simp add: const_ok_def)
  show ?thesis using p ph(4) st
    by (auto simp: connector_handler_eq [OF st ph(2) m] a good_def socks_run_def socks_inv_def const_ok_def resources_def phase_def sending_at_def
        dialogue_def)
qed

lemma phase_sent_requestI:
  "so_state (ss_o s) = STATE_SENT_REQUEST \<Longrightarrow> auth_done ais s0 r0 \<Longrightarrow> ss_sent s = s0 @ request_bytes dest \<Longrightarrow> receiving_at s r0 b 0 4
    \<Longrightarrow> 22 \<le> length b \<Longrightarrow> phase ais dest s"
  unfolding phase_def by simp blast

lemma good_receive_reply:
  assumes c: "connected ais dest s o'" and sz: "\<not> is_overflow sz" "0 < tot" "tot \<le> bvalue sz" and st: "state \<notin> {STATE_CONNECTING, STATE_UP}"
    and m: "mem_ok mem" and env: "env \<longrightarrow> (\<forall>n. mem n \<noteq> None)"
    and p: "\<And>b s'. length b = bvalue sz \<Longrightarrow> receiving_at s' (ss_received s) b 0 tot \<Longrightarrow> ss_sent s' = ss_sent s
      \<Longrightarrow> so_state (ss_o s') = state \<Longrightarrow> phase ais dest s'"
  shows "good ais dest env (socks_run (receive_reply mem sz tot state o') s)"
proof (cases "mem (bvalue sz)")
  case None
  then have "\<not> env" using env by blast
  then show ?thesis using None good_error [OF c, of env] by (simp add: receive_reply_eq [OF sz(1,2)])
next
  case (Some b)
  then have len: "length b = bvalue sz" using m by (simp add: mem_ok_def)
  let ?o = "o'\<lparr>so_buffer := Some b, so_recv_dest := 0, so_recv_len := 0, so_recv_total := tot, so_state := state\<rparr>"
  have "phase ais dest (s\<lparr>ss_o := ?o, ss_receiving := Some tot\<rparr>)"
    by (rule p [OF len]) (use c sz(2,3) len in \<open>simp_all add: receiving_at_def connected_def\<close>)
  then show ?thesis using Some c st sz(2)
    by (cases state) (auto simp: receive_reply_eq [OF sz(1,2)] good_def socks_run_def socks_inv_def connected_def const_ok_def resources_def)
qed

lemma socks_sent_ok:
  assumes inv: "socks_inv ais dest s" and al: "socks_allowed s (ESent mem)" and m: "65535 \<le> size_max"
  shows "good ais dest (env_ok (ESent mem)) (socks_handle size_max s (ESent mem))"
proof -
  have ph: "phase ais dest s" "mem_ok mem" "ss_sending s" "\<not> ss_failed s" using inv al by (auto simp: socks_inv_def)
  have env: "env_ok (ESent mem) \<longrightarrow> (\<forall>n. mem n \<noteq> None)" by simp
  have st: "so_state (ss_o s) \<in> {STATE_SENDING_HELLO, STATE_SENDING_PASSWORD, STATE_SENDING_REQUEST}"
    using ph by (cases "so_state (ss_o s)") (auto simp: phase_def receiving_at_def)
  then have at: "sending_at s" using ph(1) by (auto simp: phase_def)
  let ?s = "s\<lparr>ss_sending := False\<rparr>"
  have c: "connected ais dest ?s (ss_o s)" using inv st at ph(4) by (auto simp: connected_def socks_inv_def resources_def sending_at_def)
  have buf: "so_buffer (ss_o s) \<noteq> None" using at by (simp add: sending_at_def)
  let ?sz = "bsize_add size_max (bsize_fromsize 4) (bsize_max (bsize_fromsize 6) (bsize_fromsize 18))"
  have sz: "\<not> is_overflow (bsize_fromsize 2)" "bvalue (bsize_fromsize 2) = 2" "\<not> is_overflow ?sz" "bvalue ?sz = 22"
    using m by (auto simp: bsize_add_def bsize_max_def bsize_fromsize_def)
  consider "so_state (ss_o s) = STATE_SENDING_HELLO" | "so_state (ss_o s) = STATE_SENDING_PASSWORD" | "so_state (ss_o s) = STATE_SENDING_REQUEST"
    using st by auto
  then show ?thesis
  proof cases
    case 1
    have "good ais dest (env_ok (ESent mem)) (socks_run (receive_reply mem (bsize_fromsize 2) 2 STATE_SENT_HELLO (ss_o s)) ?s)"
      by (rule good_receive_reply [OF c sz(1) _ _ _ ph(2) env]) (use ph(1) 1 sz(2) in \<open>auto simp: phase_def\<close>)
    then show ?thesis using 1 buf by (simp add: send_handler_done_def)
  next
    case 2
    have "good ais dest (env_ok (ESent mem)) (socks_run (receive_reply mem (bsize_fromsize 2) 2 STATE_SENT_PASSWORD (ss_o s)) ?s)"
      by (rule good_receive_reply [OF c sz(1) _ _ _ ph(2) env]) (use ph(1) 2 sz(2) in \<open>auto simp: phase_def\<close>)
    then show ?thesis using 2 buf by (simp add: send_handler_done_def)
  next
    case 3
    have "good ais dest (env_ok (ESent mem)) (socks_run (receive_reply mem ?sz 4 STATE_SENT_REQUEST (ss_o s)) ?s)"
    proof (rule good_receive_reply [OF c sz(3) _ _ _ ph(2) env])
      fix b :: bytes and s' assume r: "length b = bvalue ?sz" "receiving_at s' (ss_received ?s) b 0 4" "ss_sent s' = ss_sent ?s"
        "so_state (ss_o s') = STATE_SENT_REQUEST"
      obtain s0 where "auth_done ais s0 (ss_received s)" "ss_sent s = s0 @ request_bytes dest" using ph(1) 3 by (auto simp: phase_def)
      then show "phase ais dest s'" by (intro phase_sent_requestI [OF r(4) _ _ r(2)]) (use r sz(4) in simp_all)
    qed (simp_all add: sz(4))
    then show ?thesis using 3 buf by (simp add: send_handler_done_def)
  qed
qed

text \<open>Receiving: the bytes are in the buffer, and either more are asked for or the reply is complete.\<close>

lemma receiving_write:
  assumes r: "receiving_at s pre b dest tot" and n: "so_recv_len (ss_o s) + length data \<le> tot"
  shows "\<exists>b'. buffer_write (dest + so_recv_len (ss_o s)) data (ss_o s) = Some ((ss_o s)\<lparr>so_buffer := Some b'\<rparr>) \<and> length b' = length b
    \<and> ss_received s @ data = pre @ segment b' 0 (dest + so_recv_len (ss_o s) + length data)
    \<and> (\<forall>i < dest. b' ! i = b ! i)"
proof -
  let ?i = "dest + so_recv_len (ss_o s)"
  have b: "so_buffer (ss_o s) = Some b" "?i + length data \<le> length b" "ss_received s = pre @ segment b 0 ?i"
    using r n by (auto simp: receiving_at_def)
  then obtain b' where b': "store b ?i data = Some b'" using store_Some by blast
  have "segment b' 0 (?i + length data) = segment b 0 ?i @ data"
    using segment_append [of b' 0 ?i "length data"] segment_store_same [OF b'] segment_store_before [OF b', of 0 ?i] by simp
  moreover have "b' ! i = b ! i" if "i < dest" for i
    using same_on_store [OF b', of ?i 0] that by (auto simp: same_on_def)
  ultimately show ?thesis using b b' length_store [OF b'] by (intro exI [of _ b']) (simp add: buffer_write_def)
qed

lemma phase_reply_headerI:
  "so_state (ss_o s) = STATE_RECEIVED_REPLY_HEADER \<Longrightarrow> auth_done ais s0 r0 \<Longrightarrow> ss_sent s = s0 @ request_bytes dest \<Longrightarrow> receiving_at s r0 b 4 n
    \<Longrightarrow> b ! 0 = 5 \<Longrightarrow> b ! 1 = 0 \<Longrightarrow> reply_addr_len (b ! 3) = Some n \<Longrightarrow> phase ais dest s"
  unfolding phase_def by simp blast

text \<open>What \<open>recv_handler_done\<close> does when the reply is complete.\<close>

definition complete :: "nat \<Rightarrow> (nat \<Rightarrow> bytes option) \<Rightarrow> BSocksClient \<Rightarrow> socks_result" where
  "complete size_max mem o' =
     (case so_state o' of STATE_SENT_HELLO \<Rightarrow> received_hello size_max mem o' | STATE_SENT_REQUEST \<Rightarrow> received_reply_header o'
      | STATE_SENT_PASSWORD \<Rightarrow> received_password_reply size_max mem o' | STATE_RECEIVED_REPLY_HEADER \<Rightarrow> received_reply_rest o' | _ \<Rightarrow> None)"

lemma recv_handler_done_eq:
  "so_recv_len o' + n \<le> so_recv_total o' \<Longrightarrow> recv_handler_done size_max mem n o' =
     (if so_recv_len o' + n < so_recv_total o'
      then Some (o'\<lparr>so_recv_len := so_recv_len o' + n\<rparr>, [Receiver_Recv (so_recv_total o' - (so_recv_len o' + n))])
      else complete size_max mem (o'\<lparr>so_recv_len := so_recv_len o' + n\<rparr>))"
  by (cases "so_state o'") (simp_all add: recv_handler_done_def do_receive_def complete_def)

text \<open>
  In a state that receives, the bytes are received into the buffer; more bytes in the buffer
  keep the phase, and a complete reply is handled well.
\<close>

lemma phase_receiving:
  assumes ph: "phase ais dest s" and rc: "ss_receiving s \<noteq> None" and m: "mem_ok mem" "65535 \<le> size_max" and env: "env \<longrightarrow> (\<forall>n. mem n \<noteq> None)"
  shows "\<exists>pre b d tot. receiving_at s pre b d tot
    \<and> (\<forall>s' b'. receiving_at s' pre b' d tot \<and> length b' = length b \<and> (\<forall>i < d. b' ! i = b ! i)
         \<and> so_state (ss_o s') = so_state (ss_o s) \<and> ss_sent s' = ss_sent s \<longrightarrow> phase ais dest s')
    \<and> (\<forall>s' o' b'. connected ais dest s' o' \<and> so_state o' = so_state (ss_o s) \<and> ss_sent s' = ss_sent s \<and> so_buffer o' = Some b'
         \<and> length b' = length b \<and> (\<forall>i < d. b' ! i = b ! i) \<and> ss_received s' = pre @ segment b' 0 (d + tot)
         \<longrightarrow> good ais dest env (socks_run (complete size_max mem o') s'))"
proof (cases "so_state (ss_o s)")
  case STATE_SENT_HELLO
  then obtain b where a: "receiving_at s [] b 0 2" "ss_sent s = hello_bytes ais" using ph by (auto simp: phase_def)
  have "phase ais dest s'" if "receiving_at s' [] b' 0 2" "so_state (ss_o s') = so_state (ss_o s)" "ss_sent s' = ss_sent s" for s' b'
    using that a STATE_SENT_HELLO by (auto simp: phase_def)
  moreover have "good ais dest env (socks_run (complete size_max mem o') s')" if "connected ais dest s' o'" "so_state o' = so_state (ss_o s)"
    "ss_sent s' = ss_sent s" "so_buffer o' = Some b'" "length b' = length b" "ss_received s' = [] @ segment b' 0 (0 + 2)" for s' o' b'
  proof -
    have "ss_received s' = segment b' 0 2" using that(6) by (simp only: append_Nil add_0)
    from good_received_hello [where env = env, OF that(1,4) _ this _ m env] show ?thesis
      using that(2,3,5) a STATE_SENT_HELLO by (simp add: complete_def receiving_at_def)
  qed
  ultimately show ?thesis using a(1) by blast
next
  case STATE_SENT_PASSWORD
  then obtain b where a: "receiving_at s [5, 2] b 0 2" "password_sent ais (ss_sent s)" using ph by (auto simp: phase_def)
  have "phase ais dest s'" if "receiving_at s' [5, 2] b' 0 2" "so_state (ss_o s') = so_state (ss_o s)" "ss_sent s' = ss_sent s" for s' b'
    using that a STATE_SENT_PASSWORD by (auto simp: phase_def)
  moreover have "good ais dest env (socks_run (complete size_max mem o') s')" if "connected ais dest s' o'" "so_state o' = so_state (ss_o s)"
    "ss_sent s' = ss_sent s" "so_buffer o' = Some b'" "length b' = length b" "ss_received s' = [5, 2] @ segment b' 0 (0 + 2)" for s' o' b'
  proof -
    have "ss_received s' = [5, 2] @ segment b' 0 2" using that(6) by (simp only: add_0)
    from good_received_password_reply [where env = env, OF that(1,4) _ this _ m env] show ?thesis
      using that(2,3,5) a STATE_SENT_PASSWORD by (simp add: complete_def receiving_at_def)
  qed
  ultimately show ?thesis using a(1) by blast
next
  case STATE_SENT_REQUEST
  then obtain s0 r0 b where a: "auth_done ais s0 r0" "ss_sent s = s0 @ request_bytes dest" "receiving_at s r0 b 0 4" "22 \<le> length b"
    using ph by (auto simp: phase_def)
  have "phase ais dest s'" if "receiving_at s' r0 b' 0 4" "length b' = length b" "so_state (ss_o s') = so_state (ss_o s)" "ss_sent s' = ss_sent s" for s' b'
    by (rule phase_sent_requestI [OF _ a(1) _ that(1)]) (use that a STATE_SENT_REQUEST in simp_all)
  moreover have "good ais dest env (socks_run (complete size_max mem o') s')" if "connected ais dest s' o'" "so_state o' = so_state (ss_o s)"
    "ss_sent s' = ss_sent s" "so_buffer o' = Some b'" "length b' = length b" "ss_received s' = r0 @ segment b' 0 (0 + 4)" for s' o' b'
    using that a STATE_SENT_REQUEST good_received_reply_header [OF that(1,4) _ _ a(1)] by (simp add: complete_def)
  ultimately show ?thesis using a(3) by blast
next
  case STATE_RECEIVED_REPLY_HEADER
  then obtain s0 r0 b n where a: "auth_done ais s0 r0" "ss_sent s = s0 @ request_bytes dest" "receiving_at s r0 b 4 n"
    "b ! 0 = 5" "b ! 1 = 0" "reply_addr_len (b ! 3) = Some n" using ph by (auto simp: phase_def)
  have h: "b' ! 0 = 5 \<and> b' ! 1 = 0 \<and> reply_addr_len (b' ! 3) = Some n" if "\<forall>i < 4. b' ! i = b ! i" for b' using that a by auto
  have "phase ais dest s'" if "receiving_at s' r0 b' 4 n" "\<forall>i < 4. b' ! i = b ! i" "so_state (ss_o s') = so_state (ss_o s)" "ss_sent s' = ss_sent s" for s' b'
    by (rule phase_reply_headerI [OF _ a(1) _ that(1)]) (use that a(2) h [OF that(2)] STATE_RECEIVED_REPLY_HEADER in simp_all)
  moreover have "good ais dest env (socks_run (complete size_max mem o') s')" if "connected ais dest s' o'" "so_state o' = so_state (ss_o s)"
    "ss_sent s' = ss_sent s" "length b' = length b" "\<forall>i < 4. b' ! i = b ! i" "ss_received s' = r0 @ segment b' 0 (4 + n)" for s' o' b'
  proof -
    have "4 + n \<le> length b'" using a(3) that(4) by (simp add: receiving_at_def)
    from good_received_reply_rest [OF that(1) this that(6) _ _ _ a(1)] show ?thesis
      using h [OF that(5)] that(2,3) a(2) STATE_RECEIVED_REPLY_HEADER by (simp add: complete_def)
  qed
  ultimately show ?thesis using a(3) by blast
qed (use ph rc in \<open>auto simp: phase_def sending_at_def\<close>)

lemma socks_received_ok:
  assumes inv: "socks_inv ais dest s" and al: "socks_allowed s (EReceived mem data)" and m: "65535 \<le> size_max"
  shows "good ais dest (env_ok (EReceived mem data)) (socks_handle size_max s (EReceived mem data))"
proof -
  have ph: "phase ais dest s" "mem_ok mem" "ss_receiving s \<noteq> None" "\<not> ss_failed s" using inv al by (auto simp: socks_inv_def split: option.splits)
  have env: "env_ok (EReceived mem data) \<longrightarrow> (\<forall>n. mem n \<noteq> None)" by simp
  obtain pre b d tot where r: "receiving_at s pre b d tot"
    and keep: "\<forall>s' b'. receiving_at s' pre b' d tot \<and> length b' = length b \<and> (\<forall>i < d. b' ! i = b ! i)
      \<and> so_state (ss_o s') = so_state (ss_o s) \<and> ss_sent s' = ss_sent s \<longrightarrow> phase ais dest s'"
    and compl: "\<forall>s' o' b'. connected ais dest s' o' \<and> so_state o' = so_state (ss_o s) \<and> ss_sent s' = ss_sent s \<and> so_buffer o' = Some b'
         \<and> length b' = length b \<and> (\<forall>i < d. b' ! i = b ! i) \<and> ss_received s' = pre @ segment b' 0 (d + tot)
         \<longrightarrow> good ais dest (env_ok (EReceived mem data)) (socks_run (complete size_max mem o') s')"
    using phase_receiving [where env = "env_ok (EReceived mem data)", OF ph(1,3,2) m env] by (elim exE conjE) (rule that; assumption)
  let ?o = "ss_o s" and ?len = "so_recv_len (ss_o s)"
  have r': "so_recv_dest ?o = d" "so_recv_total ?o = tot" "ss_receiving s = Some (tot - ?len)" "?len < tot" "d + tot \<le> length b"
    "\<not> ss_sending s" "\<not> ss_connecting s" using r by (auto simp: receiving_at_def)
  have n: "0 < length data" "?len + length data \<le> tot" using al r' by auto
  obtain b' where b': "buffer_write (d + ?len) data ?o = Some (?o\<lparr>so_buffer := Some b'\<rparr>)" "length b' = length b"
    "ss_received s @ data = pre @ segment b' 0 (d + ?len + length data)" "\<forall>i < d. b' ! i = b ! i"
    using receiving_write [OF r n(2)] by blast
  let ?s = "s\<lparr>ss_receiving := None, ss_received := ss_received s @ data\<rparr>"
  let ?o1 = "?o\<lparr>so_buffer := Some b', so_recv_len := ?len + length data\<rparr>"
  have st: "so_state ?o \<notin> {STATE_CONNECTING, STATE_UP}" using ph(1,3) by (auto simp: phase_def)
  then have c: "connected ais dest ?s ?o1"
    using inv ph(4) r' by (cases "so_state ?o") (auto simp: connected_def socks_inv_def resources_def const_ok_def)
  have h: "socks_handle size_max s (EReceived mem data) = socks_run
      (if ?len + length data < tot then Some (?o1, [Receiver_Recv (tot - (?len + length data))]) else complete size_max mem ?o1) ?s"
    using r' b'(1) n by (simp add: recv_handler_done_eq)
  show ?thesis
  proof (cases "?len + length data < tot")
    case True
    let ?s' = "?s\<lparr>ss_o := ?o1, ss_receiving := Some (tot - (?len + length data))\<rparr>"
    have ra: "receiving_at ?s' pre b' d tot" using True r' b' by (simp add: receiving_at_def add.assoc)
    have "phase ais dest ?s'"
      by (intro keep [THEN spec [of _ ?s'], THEN spec [of _ b'], THEN mp] conjI ra b'(2,4)) simp_all
    then show ?thesis unfolding h using True c st
      by (cases "so_state ?o") (auto simp: good_def socks_run_def socks_inv_def connected_def const_ok_def resources_def)
  next
    case False
    then have "ss_received ?s = pre @ segment b' 0 (d + tot)" using b' n r' by (simp add: add.assoc)
    then have "good ais dest (env_ok (EReceived mem data)) (socks_run (complete size_max mem ?o1) ?s)" using compl c b' by simp
    then show ?thesis unfolding h using False by simp
  qed
qed

lemma socks_event_ok:
  assumes inv: "socks_inv ais dest s" and al: "socks_allowed s e" and m: "65535 \<le> size_max"
  shows "good ais dest (env_ok e) (socks_handle size_max s e)"
proof (cases e)
  case (EConnection event)
  have "so_state (ss_o s) \<noteq> STATE_CONNECTING" using inv al EConnection by (auto simp: socks_inv_def resources_def)
  then show ?thesis using EConnection inv al
    by (cases "so_state (ss_o s)") (auto simp: connection_handler_def report_error_def good_def socks_run_def socks_inv_def resources_def)
qed (use socks_connector_ok socks_sent_ok socks_received_ok assms in auto)

lemma socks_start_inv:
  assumes "BSocksClient_Init connector_ok server ais dest = Some (Some o0)" and "addr_ok dest"
  shows "socks_inv ais dest (socks_start o0)"
  using assms by (auto simp: BSocksClient_Init_def socks_start_def socks_inv_def const_ok_def resources_def phase_def assert_simps socks_consts split: if_splits)

lemma socks_reachable:
  assumes "BSocksClient_Init connector_ok server ais dest = Some (Some o0)" and "addr_ok dest" and "65535 \<le> size_max"
    and "steps (socks_step size_max) (socks_start o0) ls s"
  shows "socks_inv ais dest s \<and> (ss_failed s \<and> (\<forall>e\<in>set ls. env_ok e) \<longrightarrow> dialogue ais dest (ss_received s) = (ss_sent s, Refused))"
  using assms(4)
proof (induction "socks_start o0" ls s rule: steps.induct)
  case steps_Nil
  then show ?case using socks_start_inv [OF assms(1,2)] by (simp add: socks_start_def)
next
  case (steps_snoc ls s e s')
  then have al: "socks_allowed s e" and h: "socks_handle size_max s e = Some s'" by (simp_all add: socks_step_def)
  from socks_event_ok [OF conjunct1 [OF steps_snoc(2)] al assms(3)] h show ?case by (auto simp: good_def)
qed

subsection \<open>An example\<close>

fun socks_runs :: "nat \<Rightarrow> socks_sys \<Rightarrow> socks_input list \<Rightarrow> socks_sys option" where
  "socks_runs size_max s [] = Some s"
| "socks_runs size_max s (e # es) = do {
     ASSERT (socks_allowed s e);
     s' \<leftarrow> socks_handle size_max s e;
     socks_runs size_max s' es }"

lemma socks_runs_steps: "socks_runs size_max s es = Some s' \<Longrightarrow> steps (socks_step size_max) s es s'"
  by (induction es arbitrary: s) (auto simp: assert_simps socks_step_def intro: steps_Cons)

definition example_mem :: "nat \<Rightarrow> bytes option" where "example_mem n = Some (replicate n 0)"

definition example_dest :: BAddr where "example_dest = BAddr_IPv4 0 0"

definition example_socks :: BSocksClient where
  "example_socks = \<lparr>so_auth_info = [BSocksClient_auth_none], so_dest_addr = example_dest, so_state = STATE_CONNECTING, so_buffer = None,
     so_recv_dest = 0, so_recv_len = 0, so_recv_total = 0\<rparr>"

text \<open>A server that accepts, with its reply header in two pieces.\<close>

definition example_inputs :: "socks_input list" where
  "example_inputs = [EConnector example_mem True False, ESent example_mem, EReceived example_mem [5, 0], ESent example_mem,
     EReceived example_mem [5], EReceived example_mem [0, 0, 1], EReceived example_mem [1, 2, 3, 4, 5, 6]]"

lemma example_mem_ok: "mem_ok example_mem" by (simp add: mem_ok_def example_mem_def)

lemma example_socks_run:
  "\<exists>s. socks_runs 65535 (socks_start example_socks) example_inputs = Some s \<and> so_state (ss_o s) = STATE_UP \<and> \<not> ss_failed s"
proof -
  have z: "mem32 0 = [0, 0, 0, 0]" "mem16 0 = [0, 0]" by (simp_all add: mem32_def mem16_def)
  have r: "replicate 2 x = [x, x]" "replicate 3 x = [x, x, x]" "replicate 10 x = [x, x, x, x, x, x, x, x, x, x]"
    "replicate 22 x = [x, x, x, x, x, x, x, x, x, x, x, x, x, x, x, x, x, x, x, x, x, x]" for x :: byte by (simp_all add: numeral_eq_Suc)
  show ?thesis
    by (simp add: example_inputs_def socks_start_def connector_handler_def bsize_mul_def example_mem_ok socks_run_def send_handler_done_def receive_reply_def reserve_buffer_def
        start_receive_def do_receive_def bsize_add_def bsize_max_def bsize_fromsize_def example_mem_def buffer_write_def buffer_read_def store_def
        segment_def recv_handler_done_def received_hello_def received_reply_header_def received_reply_rest_def auth_finished_def byte_id socks_consts
        example_socks_def example_dest_def BSocksClient_auth_none_def z r)
qed

lemma example_socks_Init: "BSocksClient_Init True (BAddr_IPv4 0 0) [BSocksClient_auth_none] example_dest = Some (Some example_socks)"
  by (simp add: BSocksClient_Init_def example_socks_def BAddr_IsInvalid_def is_ip_addr_def example_dest_def BSocksClient_auth_none_def)

subsection \<open>Properties\<close>

text \<open>
  C34. The handshake. However the replies of the server are cut into pieces, and as long as the
  environment does not fail, what the client has sent is what RFC 1928 and RFC 1929 prescribe for the
  bytes it has received so far, and its state is the outcome of that dialogue: it has failed exactly
  if the server's answers refuse the connection, it is up exactly if they grant it, and then it has
  not received a byte that follows the reply; otherwise it waits for more.
\<close>

theorem socks_handshake:
  assumes "BSocksClient_Init connector_ok server ais dest = Some (Some o0)" and "addr_ok dest" and "65535 \<le> size_max"
    and "steps (socks_step size_max) (socks_start o0) ls s" and "\<forall>e\<in>set ls. env_ok e"
    and "so_state (ss_o s) \<noteq> STATE_CONNECTING \<or> ss_failed s"
  shows "dialogue ais dest (ss_received s) =
    (ss_sent s, if ss_failed s then Refused else if so_state (ss_o s) = STATE_UP then Established [] else Waiting)"
proof (cases "ss_failed s")
  case True
  then show ?thesis using socks_reachable [OF assms(1-4)] assms(5) by simp
next
  case False
  then show ?thesis using phase_dialogue [of ais dest s] socks_reachable [OF assms(1-4)] assms(6) by auto
qed

theorem socks_handshake_witness:
  "\<exists>s. steps (socks_step 65535) (socks_start example_socks) example_inputs s
     \<and> dialogue [BSocksClient_auth_none] example_dest (ss_received s) = (ss_sent s, Established [])"
proof -
  obtain s where s: "socks_runs 65535 (socks_start example_socks) example_inputs = Some s" "so_state (ss_o s) = STATE_UP" "\<not> ss_failed s"
    using example_socks_run by blast
  have "\<forall>e\<in>set example_inputs. env_ok e" by (simp add: example_inputs_def example_mem_def)
  then show ?thesis using socks_handshake [OF example_socks_Init _ _ socks_runs_steps [OF s(1)]] socks_runs_steps [OF s(1)] s(2,3)
    by (auto simp: example_dest_def)
qed

text \<open>
  C35. Safety of the SOCKS client. In every reachable state, also after failures of the environment, every
  event that the neighbours may report is handled without failing an assertion, without writing or
  reading outside the buffer, without sending during a send or receiving during a receive, and without
  a report after an error. Freeing the client frees exactly what is initialised on the connection.
\<close>

theorem socks_client_safe:
  assumes "BSocksClient_Init connector_ok server ais dest = Some (Some o0)" and "addr_ok dest" and "65535 \<le> size_max"
    and "steps (socks_step size_max) (socks_start o0) ls s"
  shows "(\<forall>e. socks_allowed s e \<longrightarrow> socks_handle size_max s e \<noteq> None)
    \<and> (\<exists>s'. apply_calls (BSocksClient_Free (ss_o s)) s = Some s' \<and> \<not> ss_con s' \<and> \<not> ss_control s' \<and> \<not> ss_up s' \<and> so_buffer (ss_o s') = None)"
proof -
  have inv: "socks_inv ais dest s" using socks_reachable [OF assms] by blast
  have "socks_handle size_max s e \<noteq> None" if "socks_allowed s e" for e
    using socks_event_ok [OF inv that assms(3)] by (auto simp: good_def)
  moreover have "\<exists>s'. apply_calls (BSocksClient_Free (ss_o s)) s = Some s' \<and> \<not> ss_con s' \<and> \<not> ss_control s' \<and> \<not> ss_up s' \<and> so_buffer (ss_o s') = None"
    using inv by (cases "so_state (ss_o s)"; cases "so_buffer (ss_o s)") (auto simp: socks_inv_def resources_def BSocksClient_Free_def)
  ultimately show ?thesis by blast
qed

theorem socks_client_safe_witness:
  "\<exists>s s'. steps (socks_step 65535) (socks_start example_socks) example_inputs s \<and> apply_calls (BSocksClient_Free (ss_o s)) s = Some s' \<and> \<not> ss_up s'"
proof -
  obtain s where s: "socks_runs 65535 (socks_start example_socks) example_inputs = Some s" using example_socks_run by blast
  show ?thesis using socks_client_safe [OF example_socks_Init _ _ socks_runs_steps [OF s]] socks_runs_steps [OF s] by (auto simp: example_dest_def)
qed

text \<open>
  C36. The SOCKS client is never stuck: until it is up or has failed, it waits for exactly one of the
  connector, the end of a send, or bytes of a reply, and that event can be handled.
\<close>

theorem socks_client_live:
  assumes "BSocksClient_Init connector_ok server ais dest = Some (Some o0)" and "addr_ok dest" and "65535 \<le> size_max"
    and "steps (socks_step size_max) (socks_start o0) ls s" and "\<not> ss_failed s" and "so_state (ss_o s) \<noteq> STATE_UP"
  shows "(ss_connecting s \<and> \<not> ss_sending s \<and> ss_receiving s = None
      \<or> \<not> ss_connecting s \<and> ss_sending s \<and> ss_receiving s = None
      \<or> \<not> ss_connecting s \<and> \<not> ss_sending s \<and> (\<exists>n > 0. ss_receiving s = Some n))
    \<and> (\<exists>e s'. env_ok e \<and> socks_step size_max s e s')"
proof -
  have inv: "socks_inv ais dest s" using socks_reachable [OF assms(1-4)] by blast
  then have "phase ais dest s" using assms(5) by (simp add: socks_inv_def)
  then have 1: "ss_connecting s \<and> \<not> ss_sending s \<and> ss_receiving s = None
      \<or> \<not> ss_connecting s \<and> ss_sending s \<and> ss_receiving s = None
      \<or> \<not> ss_connecting s \<and> \<not> ss_sending s \<and> (\<exists>n > 0. ss_receiving s = Some n)"
    using assms(6) by (cases "so_state (ss_o s)") (auto simp: phase_def sending_at_def receiving_at_def)
  let ?mem = "\<lambda>n. Some (replicate n (0 :: byte))"
  have m: "mem_ok ?mem" by (simp add: mem_ok_def)
  have "\<exists>e. env_ok e \<and> socks_allowed s e" using 1
  proof (elim disjE conjE exE)
    assume "ss_connecting s"
    then have "socks_allowed s (EConnector ?mem True False)" "env_ok (EConnector ?mem True False)" using m assms(5) by auto
    then show ?thesis by blast
  next
    assume "ss_sending s"
    then have "socks_allowed s (ESent ?mem)" "env_ok (ESent ?mem)" using m assms(5) by auto
    then show ?thesis by blast
  next
    fix n assume "0 < n" "ss_receiving s = Some n"
    then have "socks_allowed s (EReceived ?mem [0])" "env_ok (EReceived ?mem [0])" using m assms(5) by auto
    then show ?thesis by blast
  qed
  then obtain e where e: "env_ok e" "socks_allowed s e" by blast
  then have "\<exists>s'. socks_step size_max s e s'" using socks_event_ok [OF inv e(2) assms(3)] by (auto simp: good_def socks_step_def)
  then show ?thesis using 1 e(1) by blast
qed

theorem socks_client_live_witness: "\<exists>e s'. env_ok e \<and> socks_step 65535 (socks_start example_socks) e s'"
proof -
  have "addr_ok example_dest" "\<not> ss_failed (socks_start example_socks)" "so_state (ss_o (socks_start example_socks)) \<noteq> STATE_UP"
    by (simp_all add: example_dest_def socks_start_def example_socks_def)
  then show ?thesis using socks_client_live [OF example_socks_Init _ _ steps_Nil] by blast
qed

end
