(* ===== verification/SocksUdpGw.thy ===== *)
theory SocksUdpGw
  imports UdpGw SocksClient
begin

section \<open>UDP through a SOCKS server\<close>

text \<open>
  \<open>tun2socks/SocksUdpGwClient.c\<close>, the Android variant: every pair of addresses has a connection with a
  datagram socket of its own. The packets of a connection go to the SOCKS server with the header of
  RFC 1928, section 7, or, for DNS connections, to the DNS gateway as they are.

  The model is that of the UDP gateway client: connections are named by their addresses in memory;
  parameters say what \<open>malloc\<close> returns, which initialisation of a new connection fails, and
  whether a connection's buffer has room. \<open>sg_jobs\<close> are the first jobs that are pending in the
  reactor, which holds a pointer to the connection for each. \<open>Acquire\<close> and \<open>Release\<close> are the
  initialisations and the frees of the parts of a connection.
\<close>

subsection \<open>State\<close>


definition socks_udp_header_mem :: "u16 \<Rightarrow> byte \<Rightarrow> byte \<Rightarrow> bytes" where
  "socks_udp_header_mem rsv frag atyp = mem16 rsv @ [frag, atyp]"

record SocksUdpGwClient_connection =
  sc_conaddr :: conaddr
  sc_first_data :: bytes
  sc_is_dns :: bool
  sc_send_addr :: BAddr

record SocksUdpGwClient =
  sg_udp_mtu :: nat
  sg_socks_server_addr :: BAddr
  sg_dnsgw :: BAddr
  sg_udpgw_mtu :: int
  sg_num_connections :: int
  sg_max_connections :: int
  sg_connections_tree :: "nat bavl"
  sg_connections_list :: "nat list"
  sg_cons :: "nat \<Rightarrow> SocksUdpGwClient_connection option"
  sg_jobs :: "nat list"

datatype sg_part =
    Part_memory | Part_first_job | Part_dgram | Part_send_async | Part_recv_async | Part_writer
  | Part_send_buffer | Part_recv_if | Part_recv_buffer

datatype sg_call =
    Acquire nat sg_part
  | Release nat sg_part
  | Set_send_addr nat BAddr
  | Dgram_send nat BAddr bytes
  | Dgram_recv_done nat
  | User_received BAddr BAddr bytes

text \<open>Which initialisation of a new connection fails, if one does.\<close>

datatype sg_failure = Fail_dgram | Fail_reuseaddr | Fail_send_buffer | Fail_recv_buffer

subsection \<open>Operations\<close>

definition dgram_handler_received :: "nat \<Rightarrow> bytes \<Rightarrow> SocksUdpGwClient \<Rightarrow> sg_call list option" where
  "dgram_handler_received con data client = do {
     c \<leftarrow> sg_cons client con;
     ASSERT (int (length data) \<le> sg_udpgw_mtu client);
     let deliver = (\<lambda>data. if length data > sg_udp_mtu client then [Dgram_recv_done con]
                           else [Dgram_recv_done con,
                                 User_received (local_addr (sc_conaddr c)) (remote_addr (sc_conaddr c)) data]);
     if \<not> sc_is_dns c then
       (if length data < sizeof_socks_udp_header then Some [Dgram_recv_done con]
        else do {
          let frag = data ! 2;
          let atyp = data ! 3;
          let data = drop sizeof_socks_udp_header data;
          if frag \<noteq> 0 then Some [Dgram_recv_done con]
          else (case udpgw_addr_parse (atyp = SOCKS_ATYP_IPV6) data of
            None \<Rightarrow> Some [Dgram_recv_done con]
          | Some (remote, data) \<Rightarrow>
              if \<not> BAddr_Compare remote (remote_addr (sc_conaddr c)) then Some [Dgram_recv_done con]
              else Some (deliver data)) })
     else Some (deliver data) }"

definition find_connection :: "SocksUdpGwClient \<Rightarrow> conaddr \<Rightarrow> nat option" where
  "find_connection o' conaddr =
     BAVL_LookupExact (key_at sc_conaddr (sg_cons o')) conaddr_comparator (sg_connections_tree o') conaddr"

definition sg_reuse_connection :: "SocksUdpGwClient \<Rightarrow> conaddr \<Rightarrow> (nat \<times> SocksUdpGwClient) option" where
  "sg_reuse_connection o' conaddr = do {
     ASSERT (find_connection o' conaddr = None);
     ASSERT (sg_num_connections o' > 0);
     con \<leftarrow> first_of (sg_connections_list o');
     c \<leftarrow> sg_cons o' con;
     tree \<leftarrow> bavl_del (key_at sc_conaddr (sg_cons o')) conaddr_comparator (sg_connections_tree o') (sc_conaddr c);
     let cons = (sg_cons o')(con \<mapsto> c\<lparr>sc_conaddr := conaddr\<rparr>);
     tree \<leftarrow> bavl_add (key_at sc_conaddr cons) conaddr_comparator tree con;
     Some (con, o'\<lparr>sg_cons := cons, sg_connections_tree := tree\<rparr>) }"

text \<open>
  \<open>room\<close> is what \<open>BufferWriter_StartPacket\<close> answers. The writer has the MTU \<open>udp_mtu\<close> (see
  \<open>connection_init\<close>); \<open>BufferWriter_EndPacket\<close> asserts that the packet is no longer.
\<close>

definition sg_connection_send :: "(nat \<Rightarrow> bool) \<Rightarrow> nat \<Rightarrow> bytes \<Rightarrow> SocksUdpGwClient \<Rightarrow> sg_call list option" where
  "sg_connection_send room con data o' = do {
     c \<leftarrow> sg_cons o' con;
     if \<not> room con then Some []
     else do {
       let remote = remote_addr (sc_conaddr c);
       let head = (if \<not> sc_is_dns c
                   then socks_udp_header_mem 0 0 (if BAddr_type remote = 1 then SOCKS_ATYP_IPV4 else SOCKS_ATYP_IPV6)
                          @ udpgw_addr_mem remote
                   else []);
       let out = head @ data;
       ASSERT (length out \<le> sg_udp_mtu o');
       Some [Dgram_send con (sc_send_addr c) out] } }"

definition sg_first_job_handler :: "(nat \<Rightarrow> bool) \<Rightarrow> nat \<Rightarrow> SocksUdpGwClient \<Rightarrow> sg_call list option" where
  "sg_first_job_handler room con o' = do {
     c \<leftarrow> sg_cons o' con;
     sg_connection_send room con (sc_first_data c) o' }"

definition sg_connection_init ::
  "nat option \<Rightarrow> sg_failure option \<Rightarrow> SocksUdpGwClient \<Rightarrow> conaddr \<Rightarrow> bytes \<Rightarrow> bool \<Rightarrow> (SocksUdpGwClient \<times> sg_call list) option" where
  "sg_connection_init malloc failure client conaddr data is_dns =
     (case malloc of
        None \<Rightarrow> Some (client, [])
      | Some p \<Rightarrow>
          let send_addr = (if is_dns then sg_dnsgw client else sg_socks_server_addr client);
              fail0 = [Release p Part_first_job, Release p Part_memory];
              fail1 = Release p Part_dgram # fail0;
              fail2 = [Release p Part_writer, Release p Part_recv_async, Release p Part_send_async] @ fail1;
              fail3 = [Release p Part_recv_if, Release p Part_send_buffer] @ fail2;
              calls0 = [Acquire p Part_memory, Acquire p Part_first_job];
              calls1 = calls0 @ [Acquire p Part_dgram];
              calls2 = calls1 @ [Set_send_addr p send_addr, Acquire p Part_send_async, Acquire p Part_recv_async,
                                 Acquire p Part_writer];
              calls3 = calls2 @ [Acquire p Part_send_buffer, Acquire p Part_recv_if]
          in (case failure of
                Some Fail_dgram \<Rightarrow> Some (client, calls0 @ fail0)
              | Some Fail_reuseaddr \<Rightarrow> Some (client, calls1 @ fail1)
              | Some Fail_send_buffer \<Rightarrow> Some (client, calls2 @ fail2)
              | Some Fail_recv_buffer \<Rightarrow> Some (client, calls3 @ fail3)
              | None \<Rightarrow> do {
                  let cons = (sg_cons client)(p \<mapsto> \<lparr>sc_conaddr = conaddr, sc_first_data = data, sc_is_dns = is_dns,
                                                     sc_send_addr = send_addr\<rparr>);
                  tree \<leftarrow> bavl_add (key_at sc_conaddr cons) conaddr_comparator (sg_connections_tree client) p;
                  Some (client\<lparr>sg_cons := cons, sg_connections_tree := tree,
                               sg_connections_list := sg_connections_list client @ [p],
                               sg_num_connections := sg_num_connections client + 1,
                               sg_jobs := p # sg_jobs client\<rparr>, calls3 @ [Acquire p Part_recv_buffer]) }))"

definition sg_connection_free :: "nat \<Rightarrow> SocksUdpGwClient \<Rightarrow> (SocksUdpGwClient \<times> sg_call list) option" where
  "sg_connection_free con client = do {
     c \<leftarrow> sg_cons client con;
     tree \<leftarrow> bavl_del (key_at sc_conaddr (sg_cons client)) conaddr_comparator (sg_connections_tree client) (sc_conaddr c);
     Some (client\<lparr>sg_num_connections := sg_num_connections client - 1,
                  sg_connections_list := remove1 con (sg_connections_list client),
                  sg_connections_tree := tree, sg_cons := (sg_cons client)(con := None)\<rparr>,
           map (Release con) [Part_recv_buffer, Part_recv_if, Part_send_buffer, Part_writer, Part_recv_async,
                              Part_send_async, Part_dgram, Part_memory]) }"

text \<open>
  \<open>num0\<close> is the value that \<open>num_connections\<close> has in memory before: the function does not set it.
\<close>

definition SocksUdpGwClient_Init :: "nat \<Rightarrow> int \<Rightarrow> nat \<Rightarrow> int \<Rightarrow> BAddr \<Rightarrow> BAddr \<Rightarrow> SocksUdpGwClient option" where
  "SocksUdpGwClient_Init size_max num0 udp_mtu max_connections socks_server_addr dnsgw = do {
     ASSERT (\<not> BAddr_IsInvalid socks_server_addr);
     Some \<lparr>sg_udp_mtu = udp_mtu, sg_socks_server_addr = socks_server_addr, sg_dnsgw = dnsgw,
       sg_udpgw_mtu = udpgw_compute_mtu size_max (int udp_mtu), sg_num_connections = num0,
       sg_max_connections = (if max_connections > UINT16_MAX + 1 then UINT16_MAX + 1 else max_connections),
       sg_connections_tree = Leaf, sg_connections_list = [], sg_cons = Map.empty, sg_jobs = []\<rparr> }"

partial_function (option) sg_free_connections :: "SocksUdpGwClient \<Rightarrow> (SocksUdpGwClient \<times> sg_call list) option" where
  "sg_free_connections o' =
     (case sg_connections_list o' of
        [] \<Rightarrow> Some (o', [])
      | con # _ \<Rightarrow> Option.bind (sg_connection_free con o') (\<lambda>r.
          Option.bind (sg_free_connections (fst r)) (\<lambda>s. Some (fst s, snd r @ snd s))))"

definition SocksUdpGwClient_Free :: "SocksUdpGwClient \<Rightarrow> (SocksUdpGwClient \<times> sg_call list) option" where
  "SocksUdpGwClient_Free o' = sg_free_connections o'"

definition sg_move_to_front :: "nat \<Rightarrow> SocksUdpGwClient \<Rightarrow> SocksUdpGwClient" where
  "sg_move_to_front con o' = o'\<lparr>sg_connections_list := remove1 con (sg_connections_list o') @ [con]\<rparr>"

definition SocksUdpGwClient_SubmitPacket ::
  "nat option \<Rightarrow> sg_failure option \<Rightarrow> (nat \<Rightarrow> bool) \<Rightarrow> SocksUdpGwClient \<Rightarrow> BAddr \<Rightarrow> BAddr \<Rightarrow> bool \<Rightarrow> bytes
    \<Rightarrow> (SocksUdpGwClient \<times> sg_call list) option" where
  "SocksUdpGwClient_SubmitPacket malloc failure room o' local remote is_dns data = do {
     ASSERT (is_ip_addr local);
     ASSERT (is_ip_addr remote);
     ASSERT (length data \<le> sg_udp_mtu o');
     let conaddr = \<lparr>local_addr = local, remote_addr = remote\<rparr>;
     let con = find_connection o' conaddr;
     (con, o') \<leftarrow> (if con = None \<and> sg_num_connections o' = sg_max_connections o' then do {
                     (p, o') \<leftarrow> sg_reuse_connection o' conaddr;
                     Some (Some p, o') }
                   else Some (con, o'));
     case con of
       None \<Rightarrow> sg_connection_init malloc failure o' conaddr data is_dns
     | Some p \<Rightarrow> do {
         let o' = sg_move_to_front p o';
         calls \<leftarrow> sg_connection_send room p data o';
         Some (o', calls) } }"

subsection \<open>The invariant\<close>

definition sg_con_ok :: "SocksUdpGwClient \<Rightarrow> SocksUdpGwClient_connection \<Rightarrow> bool" where
  "sg_con_ok o' c \<longleftrightarrow> is_ip_addr (local_addr (sc_conaddr c)) \<and> is_ip_addr (remote_addr (sc_conaddr c))
     \<and> length (sc_first_data c) + 22 \<le> sg_udp_mtu o'
     \<and> sc_send_addr c = (if sc_is_dns c then sg_dnsgw o' else sg_socks_server_addr o')"

definition sg_inv :: "SocksUdpGwClient \<Rightarrow> bool" where
  "sg_inv o' \<longleftrightarrow>
     table_inv conaddr_comparator conaddr_ok sc_conaddr (sg_connections_tree o') (sg_connections_list o') (sg_cons o')
     \<and> sg_num_connections o' = int (length (sg_connections_list o')) \<and> sg_num_connections o' \<le> sg_max_connections o'
     \<and> 0 < sg_max_connections o' \<and> sg_udpgw_mtu o' = int (sg_udp_mtu o') + 22
     \<and> (\<forall>p c. sg_cons o' p = Some c \<longrightarrow> sg_con_ok o' c) \<and> set (sg_jobs o') \<subseteq> dom (sg_cons o')"

lemma sg_invD:
  assumes "sg_inv o'"
  shows "table_inv conaddr_comparator conaddr_ok sc_conaddr (sg_connections_tree o') (sg_connections_list o') (sg_cons o')"
    and "sg_num_connections o' = int (length (sg_connections_list o'))"
    and "sg_udpgw_mtu o' = int (sg_udp_mtu o') + 22"
    and "sg_cons o' p = Some c \<Longrightarrow> sg_con_ok o' c"
    and "sg_cons o' p = Some c \<Longrightarrow> is_ip_addr (remote_addr (sc_conaddr c)) \<and> addr_ok (remote_addr (sc_conaddr c))"
proof -
  show t: "table_inv conaddr_comparator conaddr_ok sc_conaddr (sg_connections_tree o') (sg_connections_list o') (sg_cons o')"
    and "sg_num_connections o' = int (length (sg_connections_list o'))"
    and "sg_udpgw_mtu o' = int (sg_udp_mtu o') + 22"
    and c: "sg_cons o' p = Some c \<Longrightarrow> sg_con_ok o' c" for p c
    using assms by (simp_all add: sg_inv_def)
  show "is_ip_addr (remote_addr (sc_conaddr c)) \<and> addr_ok (remote_addr (sc_conaddr c))" if "sg_cons o' p = Some c"
    using c [OF that] conaddr.table_ok [OF t that] by (simp add: sg_con_ok_def conaddr_ok_def)
qed

lemma sg_find:
  assumes "sg_inv o'" and "conaddr_ok a"
  shows "find_connection o' a = Some p \<longleftrightarrow> (\<exists>c. sg_cons o' p = Some c \<and> sc_conaddr c = a)"
    and "find_connection o' a = None \<longleftrightarrow> (\<forall>p c. sg_cons o' p = Some c \<longrightarrow> sc_conaddr c \<noteq> a)"
  unfolding find_connection_def
  by (rule conaddr.table_find [OF sg_invD(1) [OF assms(1)] assms(2)], rule conaddr.table_find_None [OF sg_invD(1) [OF assms(1)] assms(2)])

lemma sg_move_to_front_inv:
  assumes "sg_inv o'" and "sg_cons o' p = Some c"
  shows "sg_inv (sg_move_to_front p o')"
proof -
  have p: "p \<in> set (sg_connections_list o')" using table_inv_dom [OF sg_invD(1) [OF assms(1)], of p] assms(2) by simp
  have "length (remove1 p (sg_connections_list o') @ [p]) = length (sg_connections_list o')"
    using length_pos_if_in_set [OF p] p by (simp add: length_remove1)
  then show ?thesis using assms(1) table_inv_touch [OF sg_invD(1) [OF assms(1)] p]
    by (auto simp: sg_inv_def sg_move_to_front_def sg_con_ok_def)
qed

text \<open>The bytes that precede the data of a packet: the header of RFC 1928, none for DNS.\<close>

definition sg_head :: "SocksUdpGwClient_connection \<Rightarrow> bytes" where
  "sg_head c = (if sc_is_dns c then []
     else [0, 0, 0, if BAddr_type (remote_addr (sc_conaddr c)) = 2 then 4 else 1] @ udpgw_addr_mem (remote_addr (sc_conaddr c)))"

lemma sg_send_eq:
  assumes "sg_cons o' p = Some c" and "is_ip_addr (remote_addr (sc_conaddr c))"
  shows "sg_connection_send room p data o' =
    (if \<not> room p then Some [] else if length (sg_head c @ data) \<le> sg_udp_mtu o' then Some [Dgram_send p (sc_send_addr c) (sg_head c @ data)] else None)"
proof -
  have "mem16 0 = [0, 0]" by (simp add: mem16_def)
  moreover have "BAddr_type (remote_addr (sc_conaddr c)) = 1 \<or> BAddr_type (remote_addr (sc_conaddr c)) = 2"
    using assms(2) by (simp add: is_ip_addr_def)
  ultimately show ?thesis using assms(1)
    by (auto simp: sg_connection_send_def sg_head_def socks_udp_header_mem_def SOCKS_ATYP_IPV4_def SOCKS_ATYP_IPV6_def ASSERT_def)
qed

lemma length_sg_head:
  assumes "is_ip_addr (remote_addr (sc_conaddr c))" and "addr_ok (remote_addr (sc_conaddr c))"
  shows "length (sg_head c) = (if sc_is_dns c then 0 else if BAddr_type (remote_addr (sc_conaddr c)) = 2 then 22 else 10)"
  using length_addr_mem [OF assms] by (simp add: sg_head_def)

lemma sg_send_ok:
  assumes "sg_inv o'" and "sg_cons o' p = Some c" and "length data + 22 \<le> sg_udp_mtu o'"
  shows "sg_connection_send room p data o' = Some (if room p then [Dgram_send p (sc_send_addr c) (sg_head c @ data)] else [])"
  using sg_send_eq [OF assms(2), of room data] length_sg_head [of c] sg_invD(5) [OF assms(1,2)] assms(3) by simp

lemma sg_connection_init_ok:
  assumes inv: "sg_inv o'" and lt: "sg_num_connections o' < sg_max_connections o'"
    and ip: "is_ip_addr (local_addr a)" "is_ip_addr (remote_addr a)" "conaddr_ok a"
    and new: "find_connection o' a = None" and d: "length data + 22 \<le> sg_udp_mtu o'"
    and fresh: "sg_cons o' p = None"
  shows "\<exists>o'' calls. sg_connection_init (Some p) None o' a data is_dns = Some (o'', calls) \<and> sg_inv o''
    \<and> sg_cons o'' = (sg_cons o')(p \<mapsto> \<lparr>sc_conaddr = a, sc_first_data = data, sc_is_dns = is_dns,
         sc_send_addr = if is_dns then sg_dnsgw o' else sg_socks_server_addr o'\<rparr>)
    \<and> sg_connections_list o'' = sg_connections_list o' @ [p] \<and> sg_jobs o'' = p # sg_jobs o'"
proof -
  let ?c = "\<lparr>sc_conaddr = a, sc_first_data = data, sc_is_dns = is_dns, sc_send_addr = if is_dns then sg_dnsgw o' else sg_socks_server_addr o'\<rparr>"
  let ?cons = "(sg_cons o')(p \<mapsto> ?c)"
  obtain t1 where t1: "bavl_add (key_at sc_conaddr ?cons) conaddr_comparator (sg_connections_tree o') p = Some t1"
    "table_inv conaddr_comparator conaddr_ok sc_conaddr t1 (sg_connections_list o' @ [p]) ?cons"
    using conaddr.table_add [OF sg_invD(1) [OF inv] fresh, of ?c] ip(3) new by (auto simp: find_connection_def)
  let ?o = "o'\<lparr>sg_cons := ?cons, sg_connections_tree := t1, sg_connections_list := sg_connections_list o' @ [p],
    sg_num_connections := sg_num_connections o' + 1, sg_jobs := p # sg_jobs o'\<rparr>"
  have "sg_inv ?o" using inv lt t1(2) ip d by (auto simp: sg_inv_def sg_con_ok_def)
  then show ?thesis using t1(1) by (simp add: sg_connection_init_def Let_def)
qed

lemma sg_reuse_ok:
  assumes inv: "sg_inv o'" and full: "sg_num_connections o' = sg_max_connections o'"
    and ip: "is_ip_addr (local_addr a)" "is_ip_addr (remote_addr a)" "conaddr_ok a"
    and new: "find_connection o' a = None"
  shows "\<exists>p ps c o''. sg_connections_list o' = p # ps \<and> sg_cons o' p = Some c
    \<and> sg_reuse_connection o' a = Some (p, o'') \<and> sg_inv o''
    \<and> sg_cons o'' = (sg_cons o')(p \<mapsto> c\<lparr>sc_conaddr := a\<rparr>) \<and> sg_connections_list o'' = sg_connections_list o'
    \<and> sg_jobs o'' = sg_jobs o' \<and> sg_udp_mtu o'' = sg_udp_mtu o'"
proof -
  have "0 < length (sg_connections_list o')" using inv full by (auto simp: sg_inv_def)
  then obtain p ps where l: "sg_connections_list o' = p # ps" by (cases "sg_connections_list o'") auto
  obtain c where c: "sg_cons o' p = Some c" using table_inv_dom [OF sg_invD(1) [OF inv], of p] l by auto
  let ?cons = "(sg_cons o')(p \<mapsto> c\<lparr>sc_conaddr := a\<rparr>)"
  obtain t1 t2 where t: "bavl_del (key_at sc_conaddr (sg_cons o')) conaddr_comparator (sg_connections_tree o') (sc_conaddr c) = Some t1"
    "bavl_add (key_at sc_conaddr ?cons) conaddr_comparator t1 p = Some t2"
    "table_inv conaddr_comparator conaddr_ok sc_conaddr t2 (sg_connections_list o') ?cons"
    using conaddr.table_rekey [OF sg_invD(1) [OF inv] c, of "c\<lparr>sc_conaddr := a\<rparr>"] ip(3) new by (auto simp: find_connection_def)
  have "sg_inv (o'\<lparr>sg_cons := ?cons, sg_connections_tree := t2\<rparr>)"
    using inv t(3) ip sg_invD(4) [OF inv c] by (auto simp: sg_inv_def sg_con_ok_def)
  moreover have "sg_reuse_connection o' a = Some (p, o'\<lparr>sg_cons := ?cons, sg_connections_tree := t2\<rparr>)"
    using inv full new l c t by (simp add: sg_reuse_connection_def sg_inv_def)
  ultimately show ?thesis using l c by simp
qed

text \<open>What submitting a packet does, as for the UDP gateway client.\<close>

definition sg_submit_spec ::
  "nat option \<Rightarrow> sg_failure option \<Rightarrow> (nat \<Rightarrow> bool) \<Rightarrow> SocksUdpGwClient \<Rightarrow> conaddr \<Rightarrow> bool \<Rightarrow> bytes \<Rightarrow> SocksUdpGwClient \<Rightarrow> sg_call list \<Rightarrow> bool" where
  "sg_submit_spec malloc failure room o' a is_dns data o'' calls \<longleftrightarrow>
     (\<exists>p c. sg_cons o' p = Some c \<and> sc_conaddr c = a \<and> o'' = sg_move_to_front p o'
        \<and> calls = (if room p then [Dgram_send p (sc_send_addr c) (sg_head c @ data)] else []))
     \<or> (\<forall>p c. sg_cons o' p = Some c \<longrightarrow> sc_conaddr c \<noteq> a) \<and> int (length (sg_connections_list o')) < sg_max_connections o'
        \<and> (case (malloc, failure) of
             (Some p, None) \<Rightarrow> sg_cons o'' = (sg_cons o')(p \<mapsto> \<lparr>sc_conaddr = a, sc_first_data = data, sc_is_dns = is_dns,
                   sc_send_addr = if is_dns then sg_dnsgw o' else sg_socks_server_addr o'\<rparr>)
               \<and> sg_connections_list o'' = sg_connections_list o' @ [p] \<and> sg_jobs o'' = p # sg_jobs o'
           | _ \<Rightarrow> o'' = o')
     \<or> (\<forall>p c. sg_cons o' p = Some c \<longrightarrow> sc_conaddr c \<noteq> a) \<and> int (length (sg_connections_list o')) = sg_max_connections o'
        \<and> (\<exists>p ps c. sg_connections_list o' = p # ps \<and> sg_cons o' p = Some c
             \<and> sg_cons o'' = (sg_cons o')(p \<mapsto> c\<lparr>sc_conaddr := a\<rparr>) \<and> sg_connections_list o'' = ps @ [p]
             \<and> calls = (if room p then [Dgram_send p (sc_send_addr c) (sg_head (c\<lparr>sc_conaddr := a\<rparr>) @ data)] else []))"

lemma sg_connection_init_fail:
  "malloc = None \<or> failure \<noteq> None \<Longrightarrow> \<exists>calls. sg_connection_init malloc failure o' a data is_dns = Some (o', calls)"
  by (auto simp: sg_connection_init_def Let_def split: option.splits sg_failure.splits)

lemma sg_SubmitPacket_new:
  assumes inv: "sg_inv o'" and ip: "is_ip_addr l" "is_ip_addr r" "conaddr_ok \<lparr>local_addr = l, remote_addr = r\<rparr>"
    and d: "length data + 22 \<le> sg_udp_mtu o'" and fresh: "\<And>p. malloc = Some p \<Longrightarrow> sg_cons o' p = None"
    and new: "find_connection o' \<lparr>local_addr = l, remote_addr = r\<rparr> = None" and lt: "sg_num_connections o' < sg_max_connections o'"
  shows "\<exists>o'' calls. SocksUdpGwClient_SubmitPacket malloc failure room o' l r is_dns data = Some (o'', calls) \<and> sg_inv o''
    \<and> sg_submit_spec malloc failure room o' \<lparr>local_addr = l, remote_addr = r\<rparr> is_dns data o'' calls"
proof -
  let ?a = "\<lparr>local_addr = l, remote_addr = r\<rparr>"
  have none: "\<forall>p c. sg_cons o' p = Some c \<longrightarrow> sc_conaddr c \<noteq> ?a" using sg_find(2) [OF inv ip(3)] new by blast
  have eq: "SocksUdpGwClient_SubmitPacket malloc failure room o' l r is_dns data = sg_connection_init malloc failure o' ?a data is_dns"
    using ip(1,2) d new lt by (simp add: SocksUdpGwClient_SubmitPacket_def)
  have n: "int (length (sg_connections_list o')) < sg_max_connections o'" using lt sg_invD(2) [OF inv] by simp
  show ?thesis
  proof (cases "malloc = None \<or> failure \<noteq> None")
    case True
    then obtain calls where "sg_connection_init malloc failure o' ?a data is_dns = Some (o', calls)"
      using sg_connection_init_fail by blast
    moreover have "sg_submit_spec malloc failure room o' ?a is_dns data o' calls"
      using True none n by (auto simp: sg_submit_spec_def split: option.splits)
    ultimately show ?thesis using inv eq by auto
  next
    case False
    then obtain p where p: "malloc = Some p" "failure = None" by auto
    obtain o'' calls where s: "sg_connection_init (Some p) None o' ?a data is_dns = Some (o'', calls)" "sg_inv o''"
      "sg_cons o'' = (sg_cons o')(p \<mapsto> \<lparr>sc_conaddr = ?a, sc_first_data = data, sc_is_dns = is_dns,
         sc_send_addr = if is_dns then sg_dnsgw o' else sg_socks_server_addr o'\<rparr>)"
      "sg_connections_list o'' = sg_connections_list o' @ [p]" "sg_jobs o'' = p # sg_jobs o'"
      using sg_connection_init_ok [where is_dns = is_dns, OF inv lt _ _ ip(3) new d fresh [OF p(1)]] ip(1,2) by auto
    have "sg_submit_spec malloc failure room o' ?a is_dns data o'' calls"
      using s none n by (simp add: sg_submit_spec_def p)
    then show ?thesis using s(1,2) p eq by auto
  qed
qed

lemma sg_SubmitPacket_ok:
  assumes inv: "sg_inv o'" and ip: "is_ip_addr l" "is_ip_addr r" "addr_ok l" "addr_ok r"
    and d: "length data + 22 \<le> sg_udp_mtu o'" and fresh: "\<And>p. malloc = Some p \<Longrightarrow> sg_cons o' p = None"
  shows "\<exists>o'' calls. SocksUdpGwClient_SubmitPacket malloc failure room o' l r is_dns data = Some (o'', calls) \<and> sg_inv o''
    \<and> sg_submit_spec malloc failure room o' \<lparr>local_addr = l, remote_addr = r\<rparr> is_dns data o'' calls"
proof -
  let ?a = "\<lparr>local_addr = l, remote_addr = r\<rparr>"
  have a: "conaddr_ok ?a" using ip by (simp add: conaddr_ok_def)
  show ?thesis
  proof (cases "find_connection o' ?a")
    case (Some p)
    then obtain c where c: "sg_cons o' p = Some c" "sc_conaddr c = ?a" using sg_find(1) [OF inv a] by blast
    have i: "sg_inv (sg_move_to_front p o')" by (rule sg_move_to_front_inv [OF inv c(1)])
    have s: "sg_connection_send room p data (sg_move_to_front p o') = Some (if room p then [Dgram_send p (sc_send_addr c) (sg_head c @ data)] else [])"
      by (rule sg_send_ok [OF i]) (use c d in \<open>simp_all add: sg_move_to_front_def\<close>)
    have "SocksUdpGwClient_SubmitPacket malloc failure room o' l r is_dns data
        = Some (sg_move_to_front p o', if room p then [Dgram_send p (sc_send_addr c) (sg_head c @ data)] else [])"
      using ip d Some s by (simp add: SocksUdpGwClient_SubmitPacket_def)
    then show ?thesis using i c by (auto simp: sg_submit_spec_def)
  next
    case None
    have none: "\<forall>p c. sg_cons o' p = Some c \<longrightarrow> sc_conaddr c \<noteq> ?a" using sg_find(2) [OF inv a] None by blast
    show ?thesis
    proof (cases "sg_num_connections o' = sg_max_connections o'")
      case False
      then have "sg_num_connections o' < sg_max_connections o'" using inv by (simp add: sg_inv_def)
      with sg_SubmitPacket_new [OF inv ip(1,2) a d fresh None] show ?thesis by simp
    next
      case True
      obtain p ps c o1 where r: "sg_connections_list o' = p # ps" "sg_cons o' p = Some c" "sg_reuse_connection o' ?a = Some (p, o1)" "sg_inv o1"
        "sg_cons o1 = (sg_cons o')(p \<mapsto> c\<lparr>sc_conaddr := ?a\<rparr>)" "sg_connections_list o1 = sg_connections_list o'" "sg_udp_mtu o1 = sg_udp_mtu o'"
        using sg_reuse_ok [OF inv True _ _ a None] ip by auto
      have i: "sg_inv (sg_move_to_front p o1)" by (rule sg_move_to_front_inv [OF r(4)]) (simp add: r(5))
      have s: "sg_connection_send room p data (sg_move_to_front p o1)
          = Some (if room p then [Dgram_send p (sc_send_addr c) (sg_head (c\<lparr>sc_conaddr := ?a\<rparr>) @ data)] else [])"
        using sg_send_ok [OF i, of p "c\<lparr>sc_conaddr := ?a\<rparr>" data room] r d by (simp add: sg_move_to_front_def)
      have "SocksUdpGwClient_SubmitPacket malloc failure room o' l r is_dns data = Some (sg_move_to_front p o1,
          if room p then [Dgram_send p (sc_send_addr c) (sg_head (c\<lparr>sc_conaddr := ?a\<rparr>) @ data)] else [])"
        using ip d None True r(3) s by (simp add: SocksUdpGwClient_SubmitPacket_def Let_def)
      moreover have "sg_submit_spec malloc failure room o' ?a is_dns data (sg_move_to_front p o1)
          (if room p then [Dgram_send p (sc_send_addr c) (sg_head (c\<lparr>sc_conaddr := ?a\<rparr>) @ data)] else [])"
        using none True sg_invD(2) [OF inv] r unfolding sg_submit_spec_def by (simp add: sg_move_to_front_def)
      ultimately show ?thesis using i by blast
    qed
  qed
qed

lemma sg_connection_free_ok:
  assumes inv: "sg_inv (o'\<lparr>sg_jobs := []\<rparr>)" and c: "sg_cons o' p = Some c"
  shows "\<exists>o''. sg_connection_free p o' = Some (o'', map (Release p) [Part_recv_buffer, Part_recv_if, Part_send_buffer, Part_writer,
        Part_recv_async, Part_send_async, Part_dgram, Part_memory]) \<and> sg_inv (o''\<lparr>sg_jobs := []\<rparr>) \<and> sg_jobs o'' = sg_jobs o'
    \<and> sg_connections_list o'' = remove1 p (sg_connections_list o') \<and> sg_cons o'' = (sg_cons o')(p := None)"
proof -
  have t: "table_inv conaddr_comparator conaddr_ok sc_conaddr (sg_connections_tree o') (sg_connections_list o') (sg_cons o')"
    using sg_invD(1) [OF inv] by simp
  obtain t1 where t1: "bavl_del (key_at sc_conaddr (sg_cons o')) conaddr_comparator (sg_connections_tree o') (sc_conaddr c) = Some t1"
    "table_inv conaddr_comparator conaddr_ok sc_conaddr t1 (remove1 p (sg_connections_list o')) ((sg_cons o')(p := None))"
    using conaddr.table_del [OF t c] by blast
  have p: "p \<in> set (sg_connections_list o')" using table_inv_dom [OF t, of p] c by simp
  then have "int (length (remove1 p (sg_connections_list o'))) = int (length (sg_connections_list o')) - 1"
    using length_pos_if_in_set [OF p] by (simp add: length_remove1 of_nat_diff Suc_leI)
  then show ?thesis using c t1 inv by (auto simp: sg_connection_free_def sg_inv_def sg_con_ok_def)
qed

lemma sg_free_connections_ok:
  "sg_inv (o'\<lparr>sg_jobs := []\<rparr>) \<Longrightarrow> \<exists>o'' calls. sg_free_connections o' = Some (o'', calls)
     \<and> sg_cons o'' = Map.empty \<and> sg_jobs o'' = sg_jobs o'
     \<and> calls = concat (map (\<lambda>p. map (Release p) [Part_recv_buffer, Part_recv_if, Part_send_buffer, Part_writer,
          Part_recv_async, Part_send_async, Part_dgram, Part_memory]) (sg_connections_list o'))"
proof (induction "length (sg_connections_list o')" arbitrary: o' rule: less_induct)
  case less
  have t: "table_inv conaddr_comparator conaddr_ok sc_conaddr (sg_connections_tree o') (sg_connections_list o') (sg_cons o')"
    using sg_invD(1) [OF less.prems] by simp
  show ?case
  proof (cases "sg_connections_list o'")
    case Nil
    have "dom (sg_cons o') = {}" using t Nil by (simp add: table_inv_def)
    then show ?thesis using Nil by (subst sg_free_connections.simps) simp
  next
    case (Cons p ps)
    then obtain c where c: "sg_cons o' p = Some c" using table_inv_dom [OF t, of p] by auto
    let ?rel = "\<lambda>p. map (Release p) [Part_recv_buffer, Part_recv_if, Part_send_buffer, Part_writer,
          Part_recv_async, Part_send_async, Part_dgram, Part_memory]"
    obtain o1 where o1: "sg_connection_free p o' = Some (o1, ?rel p)" "sg_inv (o1\<lparr>sg_jobs := []\<rparr>)" "sg_connections_list o1 = ps"
      "sg_jobs o1 = sg_jobs o'"
      using sg_connection_free_ok [OF less.prems c] Cons by auto
    have "\<exists>o'' calls. sg_free_connections o1 = Some (o'', calls) \<and> sg_cons o'' = Map.empty \<and> sg_jobs o'' = sg_jobs o1
       \<and> calls = concat (map ?rel (sg_connections_list o1))"
      by (rule less.hyps) (use o1 Cons in simp_all)
    then show ?thesis using Cons o1(1,3,4) by (subst sg_free_connections.simps) auto
  qed
qed

subsection \<open>Receiving\<close>

lemma sg_recv_head:
  assumes "sg_cons o' p = Some c" and "sg_udpgw_mtu o' = int (sg_udp_mtu o') + 22"
    and "is_ip_addr (remote_addr (sc_conaddr c))" and "addr_ok (remote_addr (sc_conaddr c))" and "length data \<le> sg_udp_mtu o'"
  shows "dgram_handler_received p (sg_head c @ data) o'
    = Some [Dgram_recv_done p, User_received (local_addr (sc_conaddr c)) (remote_addr (sc_conaddr c)) data]"
proof (cases "sc_is_dns c")
  case True
  then show ?thesis using assms by (simp add: dgram_handler_received_def sg_head_def)
next
  case False
  let ?r = "remote_addr (sc_conaddr c)"
  have len: "int (length (sg_head c @ data)) \<le> sg_udpgw_mtu o'" using length_sg_head [OF assms(3,4)] assms(2,5) by auto
  have self: "BAddr_Compare ?r ?r" using assms(3) by (cases ?r) (auto simp: is_ip_addr_def)
  have "udpgw_addr_parse ((sg_head c @ data) ! 3 = SOCKS_ATYP_IPV6) (drop 4 (sg_head c @ data)) = Some (?r, data)"
    using udpgw_addr_roundtrip [OF assms(3,4), of data] False by (auto simp: sg_head_def SOCKS_ATYP_IPV6_def)
  moreover have "(sg_head c @ data) ! 2 = 0" "\<not> length (sg_head c @ data) < 4" using False by (simp_all add: sg_head_def)
  ultimately show ?thesis using assms(1,5) False len self by (simp add: dgram_handler_received_def Let_def)
qed

lemma sg_recv_cases:
  assumes "sg_cons o' p = Some c" and "int (length data) \<le> sg_udpgw_mtu o'"
  shows "\<exists>calls. dgram_handler_received p data o' = Some calls
    \<and> (calls = [Dgram_recv_done p] \<or> (\<exists>d. length d \<le> sg_udp_mtu o'
        \<and> calls = [Dgram_recv_done p, User_received (local_addr (sc_conaddr c)) (remote_addr (sc_conaddr c)) d]))"
  using assms by (auto simp: dgram_handler_received_def Let_def split: option.splits prod.splits)

subsection \<open>The client as a system of events\<close>

text \<open>
  \<open>sg_allowed\<close> is what the neighbours guarantee, and that a packet to submit leaves room for the longest
  header (22 bytes, for IPv6) in a packet of \<open>udp_mtu\<close> bytes.
\<close>

datatype sg_event =
    SSubmit "nat option" "sg_failure option" "nat \<Rightarrow> bool" BAddr BAddr bool bytes
  | SFirst "nat \<Rightarrow> bool" nat
  | SRecv nat bytes

fun sg_allowed :: "SocksUdpGwClient \<Rightarrow> sg_event \<Rightarrow> bool" where
  "sg_allowed o' (SSubmit malloc failure room l r is_dns data) =
     (is_ip_addr l \<and> is_ip_addr r \<and> addr_ok l \<and> addr_ok r \<and> length data + 22 \<le> sg_udp_mtu o'
      \<and> (case malloc of Some p \<Rightarrow> sg_cons o' p = None | None \<Rightarrow> True))"
| "sg_allowed o' (SFirst room p) = (p \<in> set (sg_jobs o'))"
| "sg_allowed o' (SRecv p data) = (sg_cons o' p \<noteq> None \<and> length data \<le> sg_udp_mtu o')"

fun sg_handle :: "SocksUdpGwClient \<Rightarrow> sg_event \<Rightarrow> (SocksUdpGwClient \<times> sg_call list) option" where
  "sg_handle o' (SSubmit malloc failure room l r is_dns data) = SocksUdpGwClient_SubmitPacket malloc failure room o' l r is_dns data"
| "sg_handle o' (SFirst room p) =
     map_option (\<lambda>calls. (o'\<lparr>sg_jobs := remove1 p (sg_jobs o')\<rparr>, calls))
       (sg_first_job_handler room p (o'\<lparr>sg_jobs := remove1 p (sg_jobs o')\<rparr>))"
| "sg_handle o' (SRecv p data) = map_option (\<lambda>calls. (o', calls)) (dgram_handler_received p data o')"

definition sg_step :: "SocksUdpGwClient \<Rightarrow> sg_event \<times> sg_call list \<Rightarrow> SocksUdpGwClient \<Rightarrow> bool" where
  "sg_step o' l o'' \<longleftrightarrow> sg_allowed o' (fst l) \<and> sg_handle o' (fst l) = Some (o'', snd l)"

lemma sg_step_ok:
  assumes inv: "sg_inv o'" and al: "sg_allowed o' e"
  shows "\<exists>o'' calls. sg_handle o' e = Some (o'', calls) \<and> sg_inv o''"
proof (cases e)
  case (SSubmit malloc failure room l r is_dns data)
  have "\<exists>o'' calls. SocksUdpGwClient_SubmitPacket malloc failure room o' l r is_dns data = Some (o'', calls) \<and> sg_inv o''
    \<and> sg_submit_spec malloc failure room o' \<lparr>local_addr = l, remote_addr = r\<rparr> is_dns data o'' calls"
    by (rule sg_SubmitPacket_ok [OF inv]) (use al SSubmit in auto)
  then show ?thesis using SSubmit by auto
next
  case (SFirst room p)
  let ?o = "o'\<lparr>sg_jobs := remove1 p (sg_jobs o')\<rparr>"
  obtain c where c: "sg_cons o' p = Some c" using al SFirst inv by (auto simp: sg_inv_def)
  have i: "sg_inv ?o" using inv set_remove1_subset [of p "sg_jobs o'"] by (auto simp: sg_inv_def sg_con_ok_def)
  have "length (sc_first_data c) + 22 \<le> sg_udp_mtu ?o" using sg_invD(4) [OF inv c] by (simp add: sg_con_ok_def)
  from sg_send_ok [OF i _ this, of p c room] show ?thesis using SFirst i c by (simp add: sg_first_job_handler_def)
next
  case (SRecv p data)
  then obtain c where c: "sg_cons o' p = Some c" using al by auto
  have "int (length data) \<le> sg_udpgw_mtu o'" using al SRecv sg_invD(3) [OF inv] by simp
  from sg_recv_cases [OF c this] show ?thesis using SRecv inv by auto
qed

lemma sg_Init_inv:
  assumes "SocksUdpGwClient_Init size_max 0 udp_mtu mx socks dns = Some o'" and "0 < mx" and "udp_mtu + 22 \<le> 2147483647" and "2147483647 \<le> size_max"
  shows "sg_inv o'"
  using assms
  by (auto simp: SocksUdpGwClient_Init_def sg_inv_def table_inv_def bavl_ok_def assert_simps udpgw_compute_mtu_def bsize_add_def bsize_fromsize_def
      bsize_max_def bsize_fromint_def bsize_toint_def Let_def split: if_splits)

interpretation sg: event_system sg_inv sg_allowed sg_handle sg_step
  by unfold_locales (rule sg_step_ok, assumption+, auto simp: sg_step_def)

lemma sg_reachable_inv:
  assumes "SocksUdpGwClient_Init size_max 0 udp_mtu mx socks dns = Some o0" and "0 < mx" and "udp_mtu + 22 \<le> 2147483647" and "2147483647 \<le> size_max"
    and "steps sg_step o0 ls o'"
  shows "sg_inv o'"
  by (rule sg.reached_inv [OF assms(5) sg_Init_inv [OF assms(1-4)]])


text \<open>The parts of a connection that a list of calls initialises and frees.\<close>

definition acquired :: "nat \<Rightarrow> sg_call list \<Rightarrow> sg_part list" where
  "acquired p calls = List.map_filter (\<lambda>c. case c of Acquire q x \<Rightarrow> if q = p then Some x else None | _ \<Rightarrow> None) calls"

definition released :: "nat \<Rightarrow> sg_call list \<Rightarrow> sg_part list" where
  "released p calls = List.map_filter (\<lambda>c. case c of Release q x \<Rightarrow> if q = p then Some x else None | _ \<Rightarrow> None) calls"

subsection \<open>An example\<close>

definition example_sg :: SocksUdpGwClient where
  "example_sg = \<lparr>sg_udp_mtu = 1472, sg_socks_server_addr = BAddr_IPv4 (hton32 0x7F000001) (hton16 1080),
     sg_dnsgw = BAddr_IPv4 (hton32 0x7F000001) (hton16 5300), sg_udpgw_mtu = 1494, sg_num_connections = 0, sg_max_connections = 1,
     sg_connections_tree = Leaf, sg_connections_list = [], sg_cons = Map.empty, sg_jobs = []\<rparr>"

lemma example_sg_Init:
  "SocksUdpGwClient_Init 4294967295 0 1472 1 (BAddr_IPv4 (hton32 0x7F000001) (hton16 1080)) (BAddr_IPv4 (hton32 0x7F000001) (hton16 5300))
    = Some example_sg"
  by (simp add: SocksUdpGwClient_Init_def example_sg_def udpgw_compute_mtu_def bsize_add_def bsize_fromsize_def bsize_max_def
      bsize_fromint_def bsize_toint_def BAddr_IsInvalid_def)

definition example_sg_con :: SocksUdpGwClient_connection where
  "example_sg_con = \<lparr>sc_conaddr = \<lparr>local_addr = example_local, remote_addr = example_remote\<rparr>, sc_first_data = [1, 2, 3],
     sc_is_dns = True, sc_send_addr = BAddr_IPv4 (hton32 0x7F000001) (hton16 5300)\<rparr>"

definition example_sg1 :: SocksUdpGwClient where
  "example_sg1 = example_sg\<lparr>sg_connections_tree := Node Leaf 7 0 Leaf, sg_connections_list := [7], sg_num_connections := 1,
     sg_cons := [7 \<mapsto> example_sg_con], sg_jobs := [7]\<rparr>"

definition example_sg_event :: sg_event where
  "example_sg_event = SSubmit (Some 7) None (\<lambda>_. True) example_local example_remote True [1, 2, 3]"

lemma example_sg_steps: "\<exists>calls. steps sg_step example_sg [(example_sg_event, calls)] example_sg1"
proof -
  have "\<exists>calls. sg_handle example_sg example_sg_event = Some (example_sg1, calls)"
    using example_addr
    by (simp add: example_sg_event_def example_sg_def example_sg1_def example_sg_con_def SocksUdpGwClient_SubmitPacket_def
        sg_connection_init_def find_connection_def bavl_add_def BAVL_Insert_def Let_def)
  moreover have "sg_allowed example_sg example_sg_event" using example_addr by (simp add: example_sg_event_def example_sg_def)
  ultimately obtain calls where "sg_step example_sg (example_sg_event, calls) example_sg1" by (auto simp: sg_step_def)
  then show ?thesis using steps_Cons [where step = sg_step, OF _ steps_Nil] by blast
qed

subsection \<open>Properties\<close>

text \<open>
  C37. Sending and receiving through the SOCKS server. In every reachable state, a packet that leaves room
  for the header is sent over its connection, to the SOCKS server with the header of RFC 1928 or to the
  DNS gateway without; and if the same bytes come back, the user gets exactly the data, with the
  addresses of the connection. Whatever comes back, the user only gets data of at most the MTU with
  the addresses of the connection.
\<close>

theorem socks_udp_echo:
  assumes "SocksUdpGwClient_Init size_max 0 udp_mtu mx socks dns = Some o0" and "0 < mx" and "udp_mtu + 22 \<le> 2147483647" and "2147483647 \<le> size_max"
    and "steps sg_step o0 ls o'" and "sg_cons o' p = Some c"
  shows "(length data + 22 \<le> sg_udp_mtu o' \<longrightarrow>
      (\<exists>out. sg_connection_send (\<lambda>_. True) p data o' = Some [Dgram_send p (if sc_is_dns c then sg_dnsgw o' else sg_socks_server_addr o') out]
         \<and> (sc_is_dns c \<longrightarrow> out = data)
         \<and> (\<not> sc_is_dns c \<longrightarrow> (\<exists>rest. out = [0, 0, 0, if BAddr_type (remote_addr (sc_conaddr c)) = 2 then 4 else 1] @ rest))
         \<and> dgram_handler_received p out o' = Some [Dgram_recv_done p, User_received (local_addr (sc_conaddr c)) (remote_addr (sc_conaddr c)) data]))
    \<and> (length input \<le> sg_udp_mtu o' \<longrightarrow> (\<exists>calls. dgram_handler_received p input o' = Some calls
         \<and> (\<forall>l r d. User_received l r d \<in> set calls \<longrightarrow> l = local_addr (sc_conaddr c) \<and> r = remote_addr (sc_conaddr c) \<and> length d \<le> sg_udp_mtu o')))"
proof (intro conjI impI)
  have inv: "sg_inv o'" by (rule sg_reachable_inv [OF assms(1-5)])
  have a: "sc_send_addr c = (if sc_is_dns c then sg_dnsgw o' else sg_socks_server_addr o')"
    using sg_invD(4) [OF inv assms(6)] by (simp add: sg_con_ok_def)
  assume d: "length data + 22 \<le> sg_udp_mtu o'"
  have "dgram_handler_received p (sg_head c @ data) o'
      = Some [Dgram_recv_done p, User_received (local_addr (sc_conaddr c)) (remote_addr (sc_conaddr c)) data]"
    by (rule sg_recv_head [OF assms(6)]) (use sg_invD [OF inv] assms(6) d in auto)
  then show "\<exists>out. sg_connection_send (\<lambda>_. True) p data o' = Some [Dgram_send p (if sc_is_dns c then sg_dnsgw o' else sg_socks_server_addr o') out]
      \<and> (sc_is_dns c \<longrightarrow> out = data)
      \<and> (\<not> sc_is_dns c \<longrightarrow> (\<exists>rest. out = [0, 0, 0, if BAddr_type (remote_addr (sc_conaddr c)) = 2 then 4 else 1] @ rest))
      \<and> dgram_handler_received p out o' = Some [Dgram_recv_done p, User_received (local_addr (sc_conaddr c)) (remote_addr (sc_conaddr c)) data]"
    using sg_send_ok [OF inv assms(6) d, of "\<lambda>_. True"] a by (intro exI [of _ "sg_head c @ data"]) (simp add: sg_head_def)
next
  assume "length input \<le> sg_udp_mtu o'"
  then have "int (length input) \<le> sg_udpgw_mtu o'" using sg_invD(3) [OF sg_reachable_inv [OF assms(1-5)]] by simp
  from sg_recv_cases [OF assms(6) this]
  show "\<exists>calls. dgram_handler_received p input o' = Some calls
      \<and> (\<forall>l r d. User_received l r d \<in> set calls \<longrightarrow> l = local_addr (sc_conaddr c) \<and> r = remote_addr (sc_conaddr c) \<and> length d \<le> sg_udp_mtu o')"
    by auto
qed

theorem socks_udp_echo_witness:
  "\<exists>out. dgram_handler_received 7 out example_sg1 = Some [Dgram_recv_done 7, User_received example_local example_remote [5, 6]]"
proof -
  obtain calls where s: "steps sg_step example_sg [(example_sg_event, calls)] example_sg1" using example_sg_steps by blast
  have c: "sg_cons example_sg1 7 = Some example_sg_con" "length [5 :: byte, 6] + 22 \<le> sg_udp_mtu example_sg1"
    by (simp_all add: example_sg1_def example_sg_def)
  show ?thesis using socks_udp_echo [OF example_sg_Init _ _ _ s c(1), of "[5, 6]"] c(2) by (auto simp: example_sg_con_def)
qed

text \<open>
  C38. The bound of a packet. \<open>SubmitPacket\<close> takes packets of up to \<open>udp_mtu\<close> bytes, but the buffer of a
  connection is for \<open>udp_mtu\<close> bytes including the header: a packet is longer than the buffer, so
  that the assertion of \<open>BufferWriter_EndPacket\<close> fails, exactly when the connection is not for DNS
  and the data with the header of 10 (IPv4) or 22 (IPv6) bytes exceeds \<open>udp_mtu\<close>.
\<close>

theorem socks_udp_send_bounds:
  assumes "SocksUdpGwClient_Init size_max 0 udp_mtu mx socks dns = Some o0" and "0 < mx" and "udp_mtu + 22 \<le> 2147483647" and "2147483647 \<le> size_max"
    and "steps sg_step o0 ls o'" and "sg_cons o' p = Some c" and "room p" and "length data \<le> sg_udp_mtu o'"
  shows "sg_connection_send room p data o' = None \<longleftrightarrow>
    \<not> sc_is_dns c \<and> sg_udp_mtu o' < length data + (if BAddr_type (remote_addr (sc_conaddr c)) = 2 then 22 else 10)"
proof -
  have r: "is_ip_addr (remote_addr (sc_conaddr c)) \<and> addr_ok (remote_addr (sc_conaddr c))"
    by (rule sg_invD(5) [OF sg_reachable_inv [OF assms(1-5)] assms(6)])
  show ?thesis using sg_send_eq [OF assms(6), of room data] r length_sg_head [of c] assms(7,8) by auto
qed

theorem socks_udp_send_bounds_witness:
  "sg_connection_send (\<lambda>_. True) 7 (replicate 1472 0) example_sg1 \<noteq> None"
proof -
  obtain calls where s: "steps sg_step example_sg [(example_sg_event, calls)] example_sg1" using example_sg_steps by blast
  have c: "sg_cons example_sg1 7 = Some example_sg_con" "length (replicate 1472 (0 :: byte)) \<le> sg_udp_mtu example_sg1"
    by (simp_all add: example_sg1_def example_sg_def)
  show ?thesis using socks_udp_send_bounds [OF example_sg_Init _ _ _ s c(1) _ c(2), of "\<lambda>_. True"] by (simp add: example_sg_con_def)
qed

text \<open>
  C39. Submitting a packet to the SOCKS variant: it is sent over the connection of its addresses; or a new
  connection is made, whose first job sends it, with the DNS gateway as destination for DNS and the
  SOCKS server otherwise; or, at the maximum, the least recently used connection is given the new
  addresses, and keeps everything else, in particular its destination and whether it is for DNS,
  whatever the new packet is. A connection that cannot be made is freed completely, in the opposite
  order.
\<close>

theorem socks_udp_submit:
  assumes "SocksUdpGwClient_Init size_max 0 udp_mtu mx socks dns = Some o0" and "0 < mx" and "udp_mtu + 22 \<le> 2147483647" and "2147483647 \<le> size_max"
    and "steps sg_step o0 ls o'" and "sg_allowed o' (SSubmit malloc failure room l r is_dns data)"
  shows "\<exists>o'' calls. SocksUdpGwClient_SubmitPacket malloc failure room o' l r is_dns data = Some (o'', calls)
    \<and> sg_submit_spec malloc failure room o' \<lparr>local_addr = l, remote_addr = r\<rparr> is_dns data o'' calls
    \<and> (\<forall>p. failure \<noteq> None \<longrightarrow> released p calls = rev (acquired p calls))"
proof -
  have inv: "sg_inv o'" by (rule sg_reachable_inv [OF assms(1-5)])
  let ?a = "\<lparr>local_addr = l, remote_addr = r\<rparr>"
  have "\<exists>o'' calls. SocksUdpGwClient_SubmitPacket malloc failure room o' l r is_dns data = Some (o'', calls) \<and> sg_inv o''
    \<and> sg_submit_spec malloc failure room o' ?a is_dns data o'' calls"
    by (rule sg_SubmitPacket_ok [OF inv]) (use assms(6) in auto)
  then obtain o'' calls where s: "SocksUdpGwClient_SubmitPacket malloc failure room o' l r is_dns data = Some (o'', calls)"
    "sg_submit_spec malloc failure room o' ?a is_dns data o'' calls" by blast
  have "released p calls = rev (acquired p calls)" if f: "failure \<noteq> None" for p
  proof (cases "\<exists>q addr out. calls = [Dgram_send q addr out] \<or> calls = []")
    case True
    then show ?thesis by (auto simp: acquired_def released_def List.map_filter_def)
  next
    case False
    then have "sg_connection_init malloc failure o' ?a data is_dns = Some (o'', calls)"
      using s(1) by (auto simp: SocksUdpGwClient_SubmitPacket_def sg_connection_send_def Let_def assert_simps
          split: option.splits if_splits bind_splits)
    then show ?thesis using f
      by (auto simp: sg_connection_init_def acquired_def released_def List.map_filter_def Let_def split: option.splits sg_failure.splits)
  qed
  then show ?thesis using s by blast
qed

theorem socks_udp_submit_witness:
  "\<exists>o'' calls. SocksUdpGwClient_SubmitPacket None None (\<lambda>_. True) example_sg1 example_remote example_local False [9] = Some (o'', calls)
     \<and> calls = [Dgram_send 7 (BAddr_IPv4 (hton32 0x7F000001) (hton16 5300)) [9]]"
proof -
  obtain calls where s: "steps sg_step example_sg [(example_sg_event, calls)] example_sg1" using example_sg_steps by blast
  have al: "sg_allowed example_sg1 (SSubmit None None (\<lambda>_. True) example_remote example_local False [9])"
    using example_addr by (simp add: example_sg1_def example_sg_def)
  have ne: "example_local \<noteq> example_remote" by (simp add: example_local_def example_remote_def m32.swap_inj)
  obtain o'' calls where r: "SocksUdpGwClient_SubmitPacket None None (\<lambda>_. True) example_sg1 example_remote example_local False [9] = Some (o'', calls)"
    "sg_submit_spec None None (\<lambda>_. True) example_sg1 \<lparr>local_addr = example_remote, remote_addr = example_local\<rparr> False [9] o'' calls"
    using socks_udp_submit [OF example_sg_Init _ _ _ s al] by auto
  have "calls = [Dgram_send 7 (BAddr_IPv4 (hton32 0x7F000001) (hton16 5300)) [9]]"
    using r(2) ne by (auto simp: sg_submit_spec_def example_sg1_def example_sg_def example_sg_con_def sg_head_def split: if_splits)
  then show ?thesis using r(1) by blast
qed



end
