(* ===== verification/TcpClient.thy ===== *)
theory TcpClient
  imports SocksClient
begin

section \<open>TCP connections through the SOCKS server\<close>

text \<open>
  The TCP side of \<open>tun2socks/tun2socks.c\<close>: for every connection that the lwIP stack accepts there is a
  \<open>tcp_client\<close>, which relays between the lwIP connection (the \<open>pcb\<close>) and a SOCKS client, with one
  buffer in each direction, and lives until both ends are closed.

  Clients are named by their addresses in memory. The state also holds, for each client, what
  its neighbours know (\<open>tcp_env\<close>): whether the \<open>pcb\<close> and the SOCKS client are open, which callbacks are
  registered, whether there is a packet buffer to free, what is being sent and received, and all
  bytes that have gone each way. Every call to
  a neighbour is checked against it: a call on a closed \<open>pcb\<close>, a second send while one is going on, or
  the use of a freed client has no result, as has a failed assertion. The answers of lwIP are the
  parameter \<open>lwip_env\<close>.
\<close>

subsection \<open>State\<close>

definition TCP_WND :: nat where "TCP_WND = 4 * 1460"
definition CLIENT_SOCKS_RECV_BUF_SIZE :: nat where "CLIENT_SOCKS_RECV_BUF_SIZE = 8192"

abbreviation (input) ERR_OK :: int where "ERR_OK \<equiv> 0"
abbreviation (input) ERR_MEM :: int where "ERR_MEM \<equiv> -1"
abbreviation (input) ERR_ABRT :: int where "ERR_ABRT \<equiv> -10"

text \<open>\<open>tc_buf\<close> and \<open>tc_recv_buf\<close> are the used parts of \<open>buf\<close> and \<open>socks_recv_buf\<close>.\<close>

record tcp_client =
  tc_local_addr :: BAddr
  tc_remote_addr :: BAddr
  tc_client_closed :: bool
  tc_buf :: bytes
  tc_socks_username :: "string option"
  tc_socks_up :: bool
  tc_socks_closed :: bool
  tc_recv_buf :: bytes
  tc_recv_buf_used :: int
  tc_recv_buf_sent :: int
  tc_recv_waiting :: bool
  tc_recv_tcp_pending :: int

record tcp_env =
  e_pcb :: bool
  e_err_cb :: bool
  e_recv_cb :: bool
  e_sent_cb :: bool
  e_dead_client :: bool
  e_pbuf :: bool
  e_socks :: bool
  e_up :: bool
  e_sending :: "bytes option"
  e_receiving :: bool
  e_accepted :: bytes
  e_sent :: bytes
  e_received :: bytes
  e_written :: bytes
  e_acked :: nat

record t2s =
  t_clients :: "nat \<Rightarrow> tcp_client option"
  t_list :: "nat list"
  t_num :: int
  t_auth_username :: "string option"
  t_env :: "nat \<Rightarrow> tcp_env"

record lwip_env =
  lw_sndbuf :: "nat \<Rightarrow> nat"
  lw_write :: "nat \<Rightarrow> int"
  lw_output :: int
  lw_close :: int

definition set_client :: "nat \<Rightarrow> tcp_client \<Rightarrow> t2s \<Rightarrow> t2s" where
  "set_client p c s = s\<lparr>t_clients := (t_clients s)(p \<mapsto> c)\<rparr>"

definition set_env :: "nat \<Rightarrow> tcp_env \<Rightarrow> t2s \<Rightarrow> t2s" where
  "set_env p e s = s\<lparr>t_env := (t_env s)(p := e)\<rparr>"

subsection \<open>The neighbours\<close>

datatype tcp_call =
    Tcp_err bool | Tcp_recv bool | Tcp_sent bool
  | Tcp_close int | Tcp_abort | Tcp_recved nat | Tcp_write bytes int | Tcp_output
  | Socks_Init | Socks_Free | Socks_Send bytes | Socks_Recv nat
  | Dead_enter | Dead_kill | Pbuf_free

fun env_call :: "tcp_call \<Rightarrow> tcp_env \<Rightarrow> tcp_env option" where
  "env_call (Tcp_err b) e = do { ASSERT (e_pcb e); Some (e\<lparr>e_err_cb := b\<rparr>) }"
| "env_call (Tcp_recv b) e = do { ASSERT (e_pcb e); Some (e\<lparr>e_recv_cb := b\<rparr>) }"
| "env_call (Tcp_sent b) e = do { ASSERT (e_pcb e); Some (e\<lparr>e_sent_cb := b\<rparr>) }"
| "env_call (Tcp_close err) e = do {
     ASSERT (e_pcb e \<and> \<not> e_err_cb e \<and> \<not> e_recv_cb e \<and> \<not> e_sent_cb e);
     Some (if err = ERR_OK then e\<lparr>e_pcb := False\<rparr> else e) }"
| "env_call Tcp_abort e = do {
     ASSERT (e_pcb e \<and> \<not> e_err_cb e \<and> \<not> e_recv_cb e \<and> \<not> e_sent_cb e);
     Some (e\<lparr>e_pcb := False\<rparr>) }"
| "env_call (Tcp_recved n) e = do { ASSERT (e_pcb e); Some e }"
| "env_call (Tcp_write b err) e = do {
     ASSERT (e_pcb e);
     Some (if err = ERR_OK then e\<lparr>e_written := e_written e @ b\<rparr> else e) }"
| "env_call Tcp_output e = do { ASSERT (e_pcb e); Some e }"
| "env_call Socks_Init e = do { ASSERT (\<not> e_socks e); Some (e\<lparr>e_socks := True, e_up := False, e_sending := None, e_receiving := False\<rparr>) }"
| "env_call Socks_Free e = do { ASSERT (e_socks e); Some (e\<lparr>e_socks := False, e_sending := None, e_receiving := False\<rparr>) }"
| "env_call (Socks_Send b) e = do {
     ASSERT (e_socks e \<and> e_up e \<and> e_sending e = None \<and> b \<noteq> []);
     Some (e\<lparr>e_sending := Some b\<rparr>) }"
| "env_call (Socks_Recv n) e = do {
     ASSERT (e_socks e \<and> e_up e \<and> \<not> e_receiving e \<and> n > 0);
     Some (e\<lparr>e_receiving := True\<rparr>) }"
| "env_call Pbuf_free e = do { ASSERT (e_pbuf e); Some (e\<lparr>e_pbuf := False\<rparr>) }"
| "env_call Dead_enter e = Some (e\<lparr>e_dead_client := False\<rparr>)"
| "env_call Dead_kill e = Some (e\<lparr>e_dead_client := True\<rparr>)"

definition call :: "nat \<Rightarrow> tcp_call \<Rightarrow> t2s \<Rightarrow> t2s option" where
  "call p c s = do { e \<leftarrow> env_call c (t_env s p); Some (set_env p e s) }"

subsection \<open>Closing\<close>

definition client_dealloc :: "nat \<Rightarrow> t2s \<Rightarrow> t2s option" where
  "client_dealloc p s = do {
     c \<leftarrow> t_clients s p;
     ASSERT (tc_client_closed c);
     ASSERT (tc_socks_closed c);
     ASSERT (t_num s > 0);
     Some (s\<lparr>t_num := t_num s - 1, t_list := remove1 p (t_list s), t_clients := (t_clients s)(p := None)\<rparr>) }"

definition open_ends :: "nat \<Rightarrow> t2s \<Rightarrow> nat" where
  "open_ends p s = (case t_clients s p of
     None \<Rightarrow> 0
   | Some c \<Rightarrow> (if tc_client_closed c then 0 else 1) + (if tc_socks_closed c then 0 else 1))"

lemma call_clients [simp]: "call p x s = Some s' \<Longrightarrow> t_clients s' = t_clients s \<and> t_num s' = t_num s \<and> t_list s' = t_list s"
  by (auto simp: call_def set_env_def assert_simps)

lemma open_ends_close:
  "t_clients s p = Some c \<Longrightarrow> \<not> tc_client_closed c \<Longrightarrow> Suc (open_ends p (set_client p (c\<lparr>tc_client_closed := True\<rparr>) s')) = open_ends p s"
  "t_clients s p = Some c \<Longrightarrow> \<not> tc_socks_closed c \<Longrightarrow> Suc (open_ends p (set_client p (c\<lparr>tc_socks_closed := True\<rparr>) s')) = open_ends p s"
  by (auto simp: open_ends_def set_client_def)

lemma open_ends_call: "call p x s = Some s' \<Longrightarrow> open_ends p s' = open_ends p s"
  by (auto simp: open_ends_def dest!: call_clients)

text \<open>
  The three functions call each other; every round closes one of the two ends.
\<close>

function (sequential) client_handle_freed_client :: "lwip_env \<Rightarrow> nat \<Rightarrow> t2s \<Rightarrow> t2s option"
  and client_free_client :: "lwip_env \<Rightarrow> nat \<Rightarrow> t2s \<Rightarrow> t2s option"
  and client_free_socks :: "lwip_env \<Rightarrow> nat \<Rightarrow> t2s \<Rightarrow> t2s option" where
  "client_handle_freed_client lw p s = do {
     c \<leftarrow> t_clients s p;
     ASSERT (\<not> tc_client_closed c);
     s1 \<leftarrow> call p Dead_kill s;
     let s2 = set_client p (c\<lparr>tc_client_closed := True\<rparr>) s1;
     if tc_buf c \<noteq> [] \<and> \<not> tc_socks_closed c then Some s2
     else if \<not> tc_socks_closed c then client_free_socks lw p s2
     else client_dealloc p s2 }"
| "client_free_client lw p s = do {
     c \<leftarrow> t_clients s p;
     ASSERT (\<not> tc_client_closed c);
     s1 \<leftarrow> call p (Tcp_err False) s;
     s2 \<leftarrow> call p (Tcp_recv False) s1;
     s3 \<leftarrow> call p (Tcp_sent False) s2;
     s4 \<leftarrow> call p (Tcp_close (lw_close lw)) s3;
     s5 \<leftarrow> (if lw_close lw \<noteq> ERR_OK then call p Tcp_abort s4 else Some s4);
     client_handle_freed_client lw p s5 }"
| "client_free_socks lw p s = do {
     c \<leftarrow> t_clients s p;
     ASSERT (\<not> tc_socks_closed c);
     s1 \<leftarrow> (if tc_socks_up c \<and> \<not> tc_client_closed c then call p (Tcp_recv False) s else Some s);
     s2 \<leftarrow> call p Socks_Free s1;
     let s3 = set_client p (c\<lparr>tc_socks_closed := True\<rparr>) s2;
     if tc_socks_up c \<and> (tc_recv_buf_used c \<ge> 0 \<or> tc_recv_tcp_pending c > 0) \<and> \<not> tc_client_closed c then Some s3
     else if \<not> tc_client_closed c then client_free_client lw p s3
     else client_dealloc p s3 }"
  by pat_completeness auto

termination
proof (relation "measure (\<lambda>x. case x of Inl (lw, p, s) \<Rightarrow> 2 * open_ends p s
    | Inr (Inl (lw, p, s)) \<Rightarrow> 2 * open_ends p s + 1 | Inr (Inr (lw, p, s)) \<Rightarrow> 2 * open_ends p s)", goal_cases)
  case 1
  show ?case by simp
next
  case (2 lw p s c u s1 s2)
  then show ?case using open_ends_close(1) [of s p c s1] by simp
next
  case (3 lw p s c u s1 s2 s3 s4 s5)
  then have "open_ends p s5 = open_ends p s" by (auto split: if_splits dest!: open_ends_call)
  then show ?case by simp
next
  case (4 lw p s c u s1 s2 s3)
  then show ?case using open_ends_close(2) [of s p c s2] by simp
qed

definition client_abort_client :: "lwip_env \<Rightarrow> nat \<Rightarrow> t2s \<Rightarrow> t2s option" where
  "client_abort_client lw p s = do {
     c \<leftarrow> t_clients s p;
     ASSERT (\<not> tc_client_closed c);
     s \<leftarrow> call p (Tcp_err False) s;
     s \<leftarrow> call p (Tcp_recv False) s;
     s \<leftarrow> call p (Tcp_sent False) s;
     s \<leftarrow> call p Tcp_abort s;
     client_handle_freed_client lw p s }"

definition client_murder :: "nat \<Rightarrow> t2s \<Rightarrow> t2s option" where
  "client_murder p s = do {
     c \<leftarrow> t_clients s p;
     s \<leftarrow> (if \<not> tc_client_closed c then do {
              s \<leftarrow> call p (Tcp_err False) s;
              s \<leftarrow> call p (Tcp_recv False) s;
              s \<leftarrow> call p (Tcp_sent False) s;
              s \<leftarrow> call p Tcp_abort s;
              s \<leftarrow> call p Dead_kill s;
              Some (set_client p (c\<lparr>tc_client_closed := True\<rparr>) s) }
            else Some s);
     c \<leftarrow> t_clients s p;
     s \<leftarrow> (if \<not> tc_socks_closed c then do {
              s \<leftarrow> call p Socks_Free s;
              Some (set_client p (c\<lparr>tc_socks_closed := True\<rparr>) s) }
            else Some s);
     client_dealloc p s }"

definition client_err_func :: "lwip_env \<Rightarrow> nat \<Rightarrow> t2s \<Rightarrow> t2s option" where
  "client_err_func lw p s = do {
     c \<leftarrow> t_clients s p;
     ASSERT (\<not> tc_client_closed c);
     client_handle_freed_client lw p s }"

subsection \<open>From the client to SOCKS\<close>

definition client_send_to_socks :: "nat \<Rightarrow> t2s \<Rightarrow> t2s option" where
  "client_send_to_socks p s = do {
     c \<leftarrow> t_clients s p;
     ASSERT (\<not> tc_socks_closed c);
     ASSERT (tc_socks_up c);
     ASSERT (length (tc_buf c) > 0);
     call p (Socks_Send (tc_buf c)) s }"

definition client_socks_send_handler_done :: "lwip_env \<Rightarrow> nat \<Rightarrow> nat \<Rightarrow> t2s \<Rightarrow> t2s option" where
  "client_socks_send_handler_done lw p data_len s = do {
     c \<leftarrow> t_clients s p;
     ASSERT (\<not> tc_socks_closed c);
     ASSERT (tc_socks_up c);
     ASSERT (length (tc_buf c) > 0);
     ASSERT (data_len > 0);
     ASSERT (data_len \<le> length (tc_buf c));
     let c = c\<lparr>tc_buf := drop data_len (tc_buf c)\<rparr>;
     let s = set_client p c s;
     s \<leftarrow> (if \<not> tc_client_closed c then call p (Tcp_recved data_len) s else Some s);
     if length (tc_buf c) > 0 then call p (Socks_Send (tc_buf c)) s
     else if tc_client_closed c then client_free_socks lw p s
     else Some s }"

text \<open>
  The data is copied to the buffer, which \<open>e_accepted\<close> records.
  \<open>sync\<close> is the effect of \<open>SYNC_COMMIT\<close>: the jobs that the operation has set run, that is, handlers of
  the SOCKS side of this client. The result is that of the callback. \<open>pbuf\<close> is the data, \<open>None\<close> for a
  null pointer.
\<close>

definition client_recv_func ::
  "(t2s \<Rightarrow> t2s option) \<Rightarrow> lwip_env \<Rightarrow> nat \<Rightarrow> bytes option \<Rightarrow> t2s \<Rightarrow> (t2s \<times> int) option" where
  "client_recv_func sync lw p pbuf s = do {
     c \<leftarrow> t_clients s p;
     ASSERT (\<not> tc_client_closed c);
     case pbuf of
       None \<Rightarrow> do {
         s \<leftarrow> client_free_client lw p s;
         Some (s, ERR_ABRT) }
     | Some data \<Rightarrow> do {
         ASSERT (length data > 0);
         if length data > TCP_WND - length (tc_buf c) then Some (s, ERR_MEM)
         else do {
           let c = c\<lparr>tc_buf := tc_buf c @ data\<rparr>;
           let s = set_client p c s;
           let s = set_env p ((t_env s p)\<lparr>e_accepted := e_accepted (t_env s p) @ data\<rparr>) s;
           if length (tc_buf c) = length data \<and> tc_socks_up c then do {
             ASSERT (\<not> tc_socks_closed c);
             s \<leftarrow> client_send_to_socks p s;
             s \<leftarrow> call p Dead_enter s;
             s \<leftarrow> sync s;
             if e_dead_client (t_env s p) then Some (s, ERR_ABRT)
             else do {
               s \<leftarrow> call p Pbuf_free s;
               Some (s, ERR_OK) } }
           else do {
             s \<leftarrow> call p Pbuf_free s;
             Some (s, ERR_OK) } } } }"

subsection \<open>From SOCKS to the client\<close>

definition client_socks_recv_initiate :: "nat \<Rightarrow> t2s \<Rightarrow> t2s option" where
  "client_socks_recv_initiate p s = do {
     c \<leftarrow> t_clients s p;
     ASSERT (\<not> tc_client_closed c);
     ASSERT (\<not> tc_socks_closed c);
     ASSERT (tc_socks_up c);
     ASSERT (tc_recv_buf_used c = -1);
     call p (Socks_Recv CLIENT_SOCKS_RECV_BUF_SIZE) s }"

text \<open>
  The loop that hands data to \<open>tcp_write\<close>; the answers of lwIP are numbered. The result says
  whether the connection was aborted. A negative length has no meaning for \<open>tcp_write\<close>.
\<close>

function (sequential) send_out_loop :: "lwip_env \<Rightarrow> nat \<Rightarrow> nat \<Rightarrow> t2s \<Rightarrow> (t2s \<times> bool) option" where
  "send_out_loop lw p i s = do {
     c \<leftarrow> t_clients s p;
     let to_write = min (tc_recv_buf_used c - tc_recv_buf_sent c) (int (lw_sndbuf lw i));
     ASSERT (0 \<le> to_write);
     if to_write = 0 then Some (s, False)
     else do {
       s1 \<leftarrow> call p (Tcp_write (segment (tc_recv_buf c) (nat (tc_recv_buf_sent c)) (nat to_write)) (lw_write lw i)) s;
       if lw_write lw i \<noteq> ERR_OK then
         (if lw_write lw i = ERR_MEM then Some (s1, False)
          else do {
            s2 \<leftarrow> client_abort_client lw p s1;
            Some (s2, True) })
       else do {
         let s2 = set_client p (c\<lparr>tc_recv_buf_sent := tc_recv_buf_sent c + to_write,
                                   tc_recv_tcp_pending := tc_recv_tcp_pending c + to_write\<rparr>) s1;
         if tc_recv_buf_sent c + to_write < tc_recv_buf_used c then send_out_loop lw p (i + 1) s2
         else Some (s2, False) } } }"
  by pat_completeness auto

termination
  by (relation "measure (\<lambda>(lw, p, i, s). case t_clients s p of None \<Rightarrow> 0 | Some c \<Rightarrow> nat (tc_recv_buf_used c - tc_recv_buf_sent c))")
    (auto simp: set_client_def)

definition client_socks_recv_send_out :: "lwip_env \<Rightarrow> nat \<Rightarrow> t2s \<Rightarrow> (t2s \<times> int) option" where
  "client_socks_recv_send_out lw p s = do {
     c \<leftarrow> t_clients s p;
     ASSERT (\<not> tc_client_closed c);
     ASSERT (tc_socks_up c);
     ASSERT (tc_recv_buf_used c > 0);
     ASSERT (tc_recv_buf_sent c < tc_recv_buf_used c);
     ASSERT (\<not> tc_recv_waiting c);
     (s, aborted) \<leftarrow> send_out_loop lw p 0 s;
     if aborted then Some (s, -1)
     else do {
       s \<leftarrow> call p Tcp_output s;
       if lw_output lw \<noteq> ERR_OK then do {
         s \<leftarrow> client_abort_client lw p s;
         Some (s, -1) }
       else do {
         c \<leftarrow> t_clients s p;
         if tc_recv_buf_sent c < tc_recv_buf_used c then
           (if tc_recv_tcp_pending c = 0 then do {
              s \<leftarrow> client_abort_client lw p s;
              Some (s, -1) }
            else Some (set_client p (c\<lparr>tc_recv_waiting := True\<rparr>) s, 0))
         else Some (set_client p (c\<lparr>tc_recv_buf_used := -1\<rparr>) s, 0) } } }"

text \<open>\<open>data\<close> is what has been received into \<open>socks_recv_buf\<close>.\<close>

definition client_socks_recv_handler_done :: "lwip_env \<Rightarrow> nat \<Rightarrow> bytes \<Rightarrow> t2s \<Rightarrow> t2s option" where
  "client_socks_recv_handler_done lw p data s = do {
     c \<leftarrow> t_clients s p;
     ASSERT (length data > 0);
     ASSERT (length data \<le> CLIENT_SOCKS_RECV_BUF_SIZE);
     ASSERT (\<not> tc_socks_closed c);
     ASSERT (tc_socks_up c);
     ASSERT (tc_recv_buf_used c = -1);
     if tc_client_closed c then Some s
     else do {
       let s = set_client p (c\<lparr>tc_recv_buf := data, tc_recv_buf_used := int (length data), tc_recv_buf_sent := 0,
                               tc_recv_waiting := False\<rparr>) s;
       (s, r) \<leftarrow> client_socks_recv_send_out lw p s;
       if r < 0 then Some s
       else do {
         c \<leftarrow> t_clients s p;
         if tc_recv_buf_used c = -1 then client_socks_recv_initiate p s else Some s } } }"

definition client_sent_func :: "(t2s \<Rightarrow> t2s option) \<Rightarrow> lwip_env \<Rightarrow> nat \<Rightarrow> nat \<Rightarrow> t2s \<Rightarrow> (t2s \<times> int) option" where
  "client_sent_func sync lw p len s = do {
     c \<leftarrow> t_clients s p;
     ASSERT (\<not> tc_client_closed c);
     ASSERT (tc_socks_up c);
     ASSERT (len > 0);
     ASSERT (int len \<le> tc_recv_tcp_pending c);
     let c = c\<lparr>tc_recv_tcp_pending := tc_recv_tcp_pending c - int len\<rparr>;
     let s = set_client p c s;
     if tc_recv_buf_used c > 0 then do {
       ASSERT (tc_recv_waiting c);
       ASSERT (tc_recv_buf_sent c < tc_recv_buf_used c);
       let s = set_client p (c\<lparr>tc_recv_waiting := False\<rparr>) s;
       (s, r) \<leftarrow> client_socks_recv_send_out lw p s;
       if r < 0 then Some (s, ERR_ABRT)
       else do {
         c \<leftarrow> t_clients s p;
         ASSERT (tc_recv_tcp_pending c > 0);
         if tc_recv_buf_used c = -1 \<and> \<not> tc_socks_closed c then do {
           s \<leftarrow> client_socks_recv_initiate p s;
           s \<leftarrow> call p Dead_enter s;
           s \<leftarrow> sync s;
           if e_dead_client (t_env s p) then Some (s, ERR_ABRT) else Some (s, ERR_OK) }
         else Some (s, ERR_OK) } }
     else if tc_socks_closed c \<and> tc_recv_tcp_pending c = 0 then do {
       s \<leftarrow> client_free_client lw p s;
       Some (s, ERR_ABRT) }
     else Some (s, ERR_OK) }"

definition client_socks_handler :: "lwip_env \<Rightarrow> nat \<Rightarrow> socks_event \<Rightarrow> t2s \<Rightarrow> t2s option" where
  "client_socks_handler lw p event s = do {
     c \<leftarrow> t_clients s p;
     ASSERT (\<not> tc_socks_closed c);
     case event of
       BSOCKSCLIENT_EVENT_ERROR \<Rightarrow> client_free_socks lw p s
     | BSOCKSCLIENT_EVENT_UP \<Rightarrow> do {
         ASSERT (\<not> tc_socks_up c);
         s \<leftarrow> (if \<not> tc_client_closed c then call p (Tcp_sent True) s else Some s);
         let c = c\<lparr>tc_recv_buf_used := -1, tc_recv_tcp_pending := 0, tc_socks_up := True\<rparr>;
         let s = set_client p c s;
         s \<leftarrow> (if length (tc_buf c) > 0 then client_send_to_socks p s else Some s);
         if \<not> tc_client_closed c then client_socks_recv_initiate p s else Some s }
     | BSOCKSCLIENT_EVENT_ERROR_CLOSED \<Rightarrow> do {
         ASSERT (tc_socks_up c);
         client_free_socks lw p s } }"

subsection \<open>Accepting a connection\<close>

text \<open>
  \<open>mem\<close> is the allocated object, with whatever its memory holds; the fields that are not set here
  keep that. \<open>t_auth_username\<close> is the user name in \<open>socks_auth_info[1]\<close>, which all SOCKS clients share.
  \<open>username\<close> is \<open>options.username\<close>, \<open>append_source\<close> is \<open>options.append_source_to_username\<close>,
  \<open>concat_ok\<close> and \<open>socks_ok\<close> say whether \<open>concat_strings\<close> and \<open>BSocksClient_Init\<close> succeed.
\<close>

definition listener_accept_func ::
  "(t2s \<Rightarrow> t2s option) \<Rightarrow> (nat \<times> tcp_client) option \<Rightarrow> string option \<Rightarrow> bool \<Rightarrow> bool \<Rightarrow> bool \<Rightarrow> BAddr \<Rightarrow> BAddr \<Rightarrow> t2s
    \<Rightarrow> (t2s \<times> int) option" where
  "listener_accept_func sync mem username append_source concat_ok socks_ok local remote s =
     (case mem of
        None \<Rightarrow> Some (s, ERR_MEM)
      | Some (p, c) \<Rightarrow> do {
          let c = c\<lparr>tc_socks_username := None, tc_local_addr := local, tc_remote_addr := remote\<rparr>;
          let append = (username \<noteq> None \<and> append_source);
          if append \<and> \<not> concat_ok then Some (s, ERR_MEM)
          else do {
            let c = (if append then c\<lparr>tc_socks_username := Some (the username @ ''@'' @ BAddr_Print remote)\<rparr> else c);
            let s = (if append then s\<lparr>t_auth_username := tc_socks_username c\<rparr> else s);
            if \<not> socks_ok then Some (s, ERR_MEM)
            else do {
              s \<leftarrow> call p Socks_Init s;
              ASSERT (t_num s \<ge> 0);
              let s = s\<lparr>t_list := t_list s @ [p], t_num := t_num s + 1\<rparr>;
              let c = c\<lparr>tc_client_closed := False, tc_buf := [], tc_socks_up := False, tc_socks_closed := False\<rparr>;
              let s = set_client p c s;
              s \<leftarrow> call p (Tcp_err True) s;
              s \<leftarrow> call p (Tcp_recv True) s;
              s \<leftarrow> call p Dead_enter s;
              s \<leftarrow> sync s;
              if e_dead_client (t_env s p) then Some (s, ERR_ABRT) else Some (s, ERR_OK) } } })"

subsection \<open>States that differ in one client\<close>

text \<open>
  \<open>put p X e s\<close> is \<open>s\<close> with \<open>X\<close> for the client \<open>p\<close> (\<open>None\<close>: deallocated) and \<open>e\<close> for what its neighbours know.
  Every operation on a client turns one such state into another.
\<close>

definition put :: "nat \<Rightarrow> tcp_client option \<Rightarrow> tcp_env \<Rightarrow> t2s \<Rightarrow> t2s" where
  "put p X e s = s\<lparr>t_clients := (t_clients s)(p := X), t_env := (t_env s)(p := e),
     t_list := (if X = None then remove1 p (t_list s) else t_list s), t_num := (if X = None then t_num s - 1 else t_num s)\<rparr>"

named_theorems put_simps \<open>operations on a state given by \<open>put\<close>\<close>

lemma put_self: "t_clients s p = Some c \<Longrightarrow> put p (Some c) (t_env s p) s = s"
  by (simp add: put_def map_upd_triv)

lemma put_proj [put_simps]:
  "t_clients (put p X e s) p = X" "t_env (put p X e s) p = e" "t_num (put p (Some c) e s) = t_num s"
  by (simp_all add: put_def)

lemma put_put [put_simps]: "put p X e (put p (Some c) e' s) = put p X e s"
  by (simp add: put_def)

lemma set_put [put_simps]:
  "set_client p c' (put p (Some c) e s) = put p (Some c') e s" "set_env p e' (put p (Some c) e s) = put p (Some c) e' s"
  by (simp_all add: put_def set_client_def set_env_def)

lemma call_put [put_simps]: "call p x (put p (Some c) e s) = map_option (\<lambda>e'. put p (Some c) e' s) (env_call x e)"
  by (cases "env_call x e") (simp_all add: call_def put_simps)

lemma dealloc_put [put_simps]:
  "client_dealloc p (put p (Some c) e s) =
     (if tc_client_closed c \<and> tc_socks_closed c \<and> t_num s > 0 then Some (put p None e s) else None)"
  by (auto simp: client_dealloc_def put_simps ASSERT_def put_def)

text \<open>What remains of a client and its neighbours when the \<open>pcb\<close> is gone, and when the SOCKS client is.\<close>

definition no_pcb :: "tcp_env \<Rightarrow> tcp_env" where
  "no_pcb e = e\<lparr>e_err_cb := False, e_recv_cb := False, e_sent_cb := False, e_pcb := False\<rparr>"

definition no_socks :: "tcp_env \<Rightarrow> tcp_env" where
  "no_socks e = e\<lparr>e_socks := False, e_sending := None, e_receiving := False\<rparr>"

definition freed_client :: "nat \<Rightarrow> tcp_client \<Rightarrow> tcp_env \<Rightarrow> t2s \<Rightarrow> t2s" where
  "freed_client p c e s =
     (if \<not> tc_socks_closed c \<and> tc_buf c \<noteq> [] then put p (Some (c\<lparr>tc_client_closed := True\<rparr>)) (e\<lparr>e_dead_client := True\<rparr>) s
      else put p None (if tc_socks_closed c then e\<lparr>e_dead_client := True\<rparr> else no_socks (e\<lparr>e_dead_client := True\<rparr>)) s)"

declare client_handle_freed_client.simps [simp del] client_free_client.simps [simp del] client_free_socks.simps [simp del]
  send_out_loop.simps [simp del]

lemma handle_freed_put [put_simps]:
  assumes "\<not> tc_client_closed c" and "t_num s > 0" and "e_socks e = (\<not> tc_socks_closed c)"
  shows "client_handle_freed_client lw p (put p (Some c) e s) = Some (freed_client p c e s)"
  using assms
  by (simp add: client_handle_freed_client.simps [of lw] client_free_socks.simps [of lw] put_simps freed_client_def no_socks_def)

lemma free_client_put [put_simps]:
  assumes "\<not> tc_client_closed c" and "t_num s > 0" and "e_socks e = (\<not> tc_socks_closed c)" and "e_pcb e"
  shows "client_free_client lw p (put p (Some c) e s) = Some (freed_client p c (no_pcb e) s)"
  using assms by (simp add: client_free_client.simps put_simps no_pcb_def)

lemma abort_client_put [put_simps]:
  assumes "\<not> tc_client_closed c" and "t_num s > 0" and "e_socks e = (\<not> tc_socks_closed c)" and "e_pcb e"
  shows "client_abort_client lw p (put p (Some c) e s) = Some (freed_client p c (no_pcb e) s)"
  using assms by (simp add: client_abort_client_def put_simps no_pcb_def)

definition freed_socks :: "nat \<Rightarrow> tcp_client \<Rightarrow> tcp_env \<Rightarrow> t2s \<Rightarrow> t2s" where
  "freed_socks p c e s =
     (if tc_socks_up c \<and> (tc_recv_buf_used c \<ge> 0 \<or> tc_recv_tcp_pending c > 0) \<and> \<not> tc_client_closed c
      then put p (Some (c\<lparr>tc_socks_closed := True\<rparr>)) (no_socks (e\<lparr>e_recv_cb := False\<rparr>)) s
      else if \<not> tc_client_closed c then put p None ((no_pcb (no_socks e))\<lparr>e_dead_client := True\<rparr>) s
      else put p None (no_socks e) s)"

lemma free_socks_put [put_simps]:
  assumes "\<not> tc_socks_closed c" and "t_num s > 0" and "e_socks e" and "e_pcb e = (\<not> tc_client_closed c)"
  shows "client_free_socks lw p (put p (Some c) e s) = Some (freed_socks p c e s)"
  using assms
  by (auto simp: client_free_socks.simps [of lw] client_free_client.simps [of lw] client_handle_freed_client.simps [of lw]
      put_simps freed_socks_def freed_client_def no_socks_def no_pcb_def)

subsection \<open>The invariant of a client\<close>

text \<open>
  \<open>base\<close>: the SOCKS end and the buffer of data for it. What was accepted from the client is what
  SOCKS has sent, followed by the buffer; a send is going on exactly while there is data and SOCKS
  is up, and what is being sent is a prefix of the buffer.
\<close>

definition sending_ok :: "bytes option \<Rightarrow> bool \<Rightarrow> bytes \<Rightarrow> bool" where
  "sending_ok sending active buf \<longleftrightarrow>
     (case sending of None \<Rightarrow> \<not> active \<or> buf = [] | Some b \<Rightarrow> active \<and> b \<noteq> [] \<and> (\<exists>rest. buf = b @ rest))"

definition upward :: "tcp_client \<Rightarrow> tcp_env \<Rightarrow> bool" where
  "upward c e \<longleftrightarrow> length (tc_buf c) \<le> TCP_WND \<and> e_accepted e = e_sent e @ tc_buf c
     \<and> sending_ok (e_sending e) (tc_socks_up c \<and> \<not> tc_socks_closed c) (tc_buf c)"

lemma sending_ok_simps [simp]: "sending_ok None b buf \<longleftrightarrow> \<not> b \<or> buf = []" "sending_ok x False buf \<longleftrightarrow> x = None"
  by (auto simp: sending_ok_def split: option.splits)

definition base :: "tcp_client \<Rightarrow> tcp_env \<Rightarrow> bool" where
  "base c e \<longleftrightarrow> e_socks e = (\<not> tc_socks_closed c) \<and> (\<not> tc_socks_closed c \<longrightarrow> e_up e = tc_socks_up c) \<and> upward c e
     \<and> (e_receiving e \<longrightarrow> tc_socks_up c \<and> \<not> tc_socks_closed c \<and> tc_recv_buf_used c = -1)
     \<and> (\<not> tc_socks_up c \<longrightarrow> e_written e = [] \<and> e_received e = [] \<and> e_acked e = 0)"

definition pcb_open :: "tcp_client \<Rightarrow> tcp_env \<Rightarrow> bool" where
  "pcb_open c e \<longleftrightarrow> e_pcb e = (\<not> tc_client_closed c) \<and> e_err_cb e = (\<not> tc_client_closed c)
     \<and> e_recv_cb e = (\<not> tc_client_closed c \<and> \<not> tc_socks_closed c) \<and> e_sent_cb e = (\<not> tc_client_closed c \<and> tc_socks_up c)"

definition pending_ok :: "tcp_client \<Rightarrow> tcp_env \<Rightarrow> bool" where
  "pending_ok c e \<longleftrightarrow> e_acked e \<le> length (e_written e) \<and> tc_recv_tcp_pending c = int (length (e_written e)) - int (e_acked e)"

text \<open>All received data is queued, or some waits in the buffer until earlier data is confirmed.\<close>

definition drained :: "tcp_client \<Rightarrow> tcp_env \<Rightarrow> bool" where
  "drained c e \<longleftrightarrow> pending_ok c e \<and> tc_recv_buf_used c = -1 \<and> e_received e = e_written e"

definition filled :: "tcp_client \<Rightarrow> tcp_env \<Rightarrow> bool" where
  "filled c e \<longleftrightarrow> pending_ok c e \<and> tc_recv_buf_used c = int (length (tc_recv_buf c)) \<and> 0 \<le> tc_recv_buf_sent c
     \<and> tc_recv_buf_sent c < tc_recv_buf_used c \<and> \<not> e_receiving e
     \<and> e_received e = e_written e @ drop (nat (tc_recv_buf_sent c)) (tc_recv_buf c)"

definition downward :: "tcp_client \<Rightarrow> tcp_env \<Rightarrow> bool" where
  "downward c e \<longleftrightarrow> drained c e \<and> (if tc_socks_closed c then tc_recv_tcp_pending c > 0 else e_receiving e)
     \<or> filled c e \<and> tc_recv_waiting c \<and> tc_recv_tcp_pending c > 0"

definition client_inv :: "tcp_client \<Rightarrow> tcp_env \<Rightarrow> bool" where
  "client_inv c e \<longleftrightarrow> base c e \<and> pcb_open c e \<and> \<not> (tc_client_closed c \<and> tc_socks_closed c)
     \<and> (tc_client_closed c \<longrightarrow> tc_buf c \<noteq> []) \<and> (tc_socks_closed c \<longrightarrow> tc_socks_up c)
     \<and> (tc_socks_up c \<and> \<not> tc_client_closed c \<longrightarrow> downward c e)"

definition ended :: "tcp_env \<Rightarrow> bool" where
  "ended e \<longleftrightarrow> \<not> e_pcb e \<and> \<not> e_err_cb e \<and> \<not> e_recv_cb e \<and> \<not> e_sent_cb e \<and> \<not> e_socks e \<and> e_sending e = None \<and> \<not> e_receiving e"

text \<open>
  \<open>good p e0 s r\<close>: the run has a result, in which the client satisfies its invariant or is gone with
  both ends closed; and if the dead variable was right about the \<open>pcb\<close>, it still is.
\<close>

definition dead_right :: "tcp_env \<Rightarrow> bool" where
  "dead_right e \<longleftrightarrow> e_dead_client e = (\<not> e_pcb e)"

definition kept :: "tcp_env \<Rightarrow> tcp_env \<Rightarrow> bool" where [simp]:
  "kept e e' \<longleftrightarrow> e_accepted e' = e_accepted e \<and> e_pbuf e' = e_pbuf e"

definition fine :: "tcp_client option \<Rightarrow> tcp_env \<Rightarrow> bool" where
  "fine X e \<longleftrightarrow> (case X of Some c \<Rightarrow> client_inv c e | None \<Rightarrow> ended e)"

definition good :: "nat \<Rightarrow> tcp_env \<Rightarrow> t2s \<Rightarrow> t2s option \<Rightarrow> bool" where
  "good p e0 s r \<longleftrightarrow> (\<exists>X e. r = Some (put p X e s) \<and> fine X e \<and> (dead_right e0 \<longrightarrow> dead_right e) \<and> kept e0 e)"

lemmas inv_defs = base_def upward_def pcb_open_def pending_ok_def drained_def filled_def downward_def client_inv_def


lemma goodI: "fine X e \<Longrightarrow> (dead_right e0 \<longrightarrow> dead_right e) \<Longrightarrow> kept e0 e \<Longrightarrow> good p e0 s (Some (put p X e s))"
  by (auto simp: good_def)

lemma good_freed_client:
  assumes "base c e" and "\<not> tc_client_closed c" and "kept e0 e"
  shows "good p e0 s (Some (freed_client p c (no_pcb e) s))"
proof (cases "\<not> tc_socks_closed c \<and> tc_buf c \<noteq> []")
  case True
  then have "client_inv (c\<lparr>tc_client_closed := True\<rparr>) ((no_pcb e)\<lparr>e_dead_client := True\<rparr>)"
    using assms by (auto simp: inv_defs no_pcb_def)
  then show ?thesis using True assms(3) by (auto simp: freed_client_def fine_def dead_right_def no_pcb_def intro!: goodI)
next
  case False
  then show ?thesis using assms
    by (auto simp: freed_client_def fine_def dead_right_def ended_def no_pcb_def no_socks_def base_def upward_def intro!: goodI)
qed

lemma good_freed_socks:
  assumes "base c e" and "pcb_open c e" and "\<not> tc_socks_closed c" and "tc_socks_up c \<and> \<not> tc_client_closed c \<longrightarrow> downward c e"
    and "kept e0 e" and "e_dead_client e = e_dead_client e0" and "e_pcb e = e_pcb e0"
  shows "good p e0 s (Some (freed_socks p c e s))"
proof (cases "tc_socks_up c \<and> (tc_recv_buf_used c \<ge> 0 \<or> tc_recv_tcp_pending c > 0) \<and> \<not> tc_client_closed c")
  case True
  then have "client_inv (c\<lparr>tc_socks_closed := True\<rparr>) (no_socks (e\<lparr>e_recv_cb := False\<rparr>))"
    using assms(1-4) by (auto simp: inv_defs no_socks_def)
  then show ?thesis using True assms(5-) by (auto simp: freed_socks_def fine_def dead_right_def no_socks_def intro!: goodI)
next
  case False
  then show ?thesis using assms
    by (auto simp: freed_socks_def fine_def dead_right_def ended_def no_pcb_def no_socks_def pcb_open_def intro!: goodI)
qed

subsection \<open>Queuing received data\<close>

lemma send_out_loop_step:
  assumes "filled c e" and "\<not> tc_client_closed c" and "e_pcb e" and "t_num s > 0" and "e_socks e = (\<not> tc_socks_closed c)"
    and w: "w = min (tc_recv_buf_used c - tc_recv_buf_sent c) (int (lw_sndbuf lw i))"
  shows "send_out_loop lw p i (put p (Some c) e s) =
    (if w = 0 then Some (put p (Some c) e s, False)
     else if lw_write lw i \<noteq> 0 then
       (if lw_write lw i = -1 then Some (put p (Some c) e s, False) else Some (freed_client p c (no_pcb e) s, True))
     else let c1 = c\<lparr>tc_recv_buf_sent := tc_recv_buf_sent c + w, tc_recv_tcp_pending := tc_recv_tcp_pending c + w\<rparr>;
              e1 = e\<lparr>e_written := e_written e @ segment (tc_recv_buf c) (nat (tc_recv_buf_sent c)) (nat w)\<rparr>
          in if tc_recv_buf_sent c + w < tc_recv_buf_used c then send_out_loop lw p (i + 1) (put p (Some c1) e1 s)
             else Some (put p (Some c1) e1 s, False))"
proof -
  have "0 \<le> w" "w \<le> tc_recv_buf_used c - tc_recv_buf_sent c" using assms(1) by (auto simp: filled_def w)
  then show ?thesis using assms(2-5) by (subst send_out_loop.simps) (simp add: put_simps Let_def flip: w)
qed

text \<open>What one round of the loop keeps.\<close>

lemma filled_segment:
  assumes "filled c e" and "0 \<le> w" and "w \<le> tc_recv_buf_used c - tc_recv_buf_sent c"
  shows "length (segment (tc_recv_buf c) (nat (tc_recv_buf_sent c)) (nat w)) = nat w"
    and "drop (nat (tc_recv_buf_sent c)) (tc_recv_buf c) =
      segment (tc_recv_buf c) (nat (tc_recv_buf_sent c)) (nat w) @ drop (nat (tc_recv_buf_sent c + w)) (tc_recv_buf c)"
proof -
  have sn: "0 \<le> tc_recv_buf_sent c" "tc_recv_buf_used c = int (length (tc_recv_buf c))" using assms(1) by (auto simp: filled_def)
  then show "length (segment (tc_recv_buf c) (nat (tc_recv_buf_sent c)) (nat w)) = nat w" using assms(2,3) by (intro length_segment) auto
  have "nat (tc_recv_buf_sent c + w) = nat (tc_recv_buf_sent c) + nat w" using sn assms(2) by (simp add: nat_add_distrib)
  then show "drop (nat (tc_recv_buf_sent c)) (tc_recv_buf c) =
      segment (tc_recv_buf c) (nat (tc_recv_buf_sent c)) (nat w) @ drop (nat (tc_recv_buf_sent c + w)) (tc_recv_buf c)"
    by (simp add: segment_def add.commute flip: drop_drop)
qed

lemma filled_write:
  assumes b: "base c e" and f: "filled c e" and w: "0 \<le> w" "tc_recv_buf_sent c + w < tc_recv_buf_used c"
    and c1: "c1 = c\<lparr>tc_recv_buf_sent := tc_recv_buf_sent c + w, tc_recv_tcp_pending := tc_recv_tcp_pending c + w\<rparr>"
    and e1: "e1 = e\<lparr>e_written := e_written e @ segment (tc_recv_buf c) (nat (tc_recv_buf_sent c)) (nat w)\<rparr>"
    and up: "tc_socks_up c"
  shows "base c1 e1" and "filled c1 e1"
proof -
  note sg = filled_segment [OF f w(1)]
  have sn: "0 \<le> tc_recv_buf_sent c" "tc_recv_buf_used c = int (length (tc_recv_buf c))" using f by (auto simp: filled_def)
  show "base c1 e1" using b f up by (auto simp: base_def upward_def c1 e1 filled_def)
  show "filled c1 e1" using f w sg sn by (simp add: filled_def pending_ok_def c1 e1)
qed

lemma send_out_loop_put:
  assumes "base c e" and "filled c e" and "\<not> tc_client_closed c" and "e_pcb e" and "tc_socks_up c" and n: "t_num s > 0"
  shows "\<exists>k c' e'. 0 \<le> k \<and> k \<le> tc_recv_buf_used c - tc_recv_buf_sent c
    \<and> c' = c\<lparr>tc_recv_buf_sent := tc_recv_buf_sent c + k, tc_recv_tcp_pending := tc_recv_tcp_pending c + k\<rparr>
    \<and> e' = e\<lparr>e_written := e_written e @ segment (tc_recv_buf c) (nat (tc_recv_buf_sent c)) (nat k)\<rparr>
    \<and> (send_out_loop lw p i (put p (Some c) e s) = Some (put p (Some c') e' s, False)
       \<or> send_out_loop lw p i (put p (Some c) e s) = Some (freed_client p c' (no_pcb e') s, True))"
  using assms(1-5)
proof (induction "nat (tc_recv_buf_used c - tc_recv_buf_sent c)" arbitrary: c e i rule: less_induct)
  case less
  define w where "w = min (tc_recv_buf_used c - tc_recv_buf_sent c) (int (lw_sndbuf lw i))"
  let ?seg = "\<lambda>k. segment (tc_recv_buf c) (nat (tc_recv_buf_sent c)) (nat k)"
  have w: "0 \<le> w" "w \<le> tc_recv_buf_used c - tc_recv_buf_sent c" using less.prems(2) by (auto simp: filled_def w_def)
  have sn: "0 \<le> tc_recv_buf_sent c" using less.prems(2) by (auto simp: filled_def)
  define c1 where "c1 = c\<lparr>tc_recv_buf_sent := tc_recv_buf_sent c + w, tc_recv_tcp_pending := tc_recv_tcp_pending c + w\<rparr>"
  define e1 where "e1 = e\<lparr>e_written := e_written e @ ?seg w\<rparr>"
  have "e_socks e = (\<not> tc_socks_closed c)" using less.prems(1) by (simp add: base_def)
  note loop = send_out_loop_step [OF less.prems(2-4) n this w_def, of p, unfolded Let_def, folded c1_def, folded e1_def]
  consider (stop) "w = 0 \<or> lw_write lw i \<noteq> 0" | (last) "w \<noteq> 0" "lw_write lw i = 0" "\<not> tc_recv_buf_sent c + w < tc_recv_buf_used c"
    | (more) "w \<noteq> 0" "lw_write lw i = 0" "tc_recv_buf_sent c + w < tc_recv_buf_used c" by blast
  then show ?case
  proof cases
    case stop
    then have "send_out_loop lw p i (put p (Some c) e s) = Some (put p (Some c) e s, False)
        \<or> send_out_loop lw p i (put p (Some c) e s) = Some (freed_client p c (no_pcb e) s, True)" unfolding loop by auto
    then show ?thesis using w by (intro exI [of _ 0] exI [of _ c] exI [of _ e]) simp
  next
    case last
    then have "send_out_loop lw p i (put p (Some c) e s) = Some (put p (Some c1) e1 s, False)" unfolding loop by simp
    then show ?thesis using w by (intro exI [of _ w] exI [of _ c1] exI [of _ e1]) (simp add: c1_def e1_def)
  next
    case more
    note 1 = filled_write [OF less.prems(1,2) w(1) more(3) c1_def e1_def less.prems(5)]
    have 2: "\<not> tc_client_closed c1" "e_pcb e1" "tc_socks_up c1" using less.prems(3-5) by (simp_all add: c1_def e1_def)
    have "nat (tc_recv_buf_used c1 - tc_recv_buf_sent c1) < nat (tc_recv_buf_used c - tc_recv_buf_sent c)"
      using w more by (simp add: c1_def)
    from less.hyps [OF this 1 2, of "i + 1"] obtain k c' e' where k: "0 \<le> k" "k \<le> tc_recv_buf_used c1 - tc_recv_buf_sent c1"
      "c' = c1\<lparr>tc_recv_buf_sent := tc_recv_buf_sent c1 + k, tc_recv_tcp_pending := tc_recv_tcp_pending c1 + k\<rparr>"
      "e' = e1\<lparr>e_written := e_written e1 @ segment (tc_recv_buf c1) (nat (tc_recv_buf_sent c1)) (nat k)\<rparr>"
      "send_out_loop lw p (i + 1) (put p (Some c1) e1 s) = Some (put p (Some c') e' s, False)
        \<or> send_out_loop lw p (i + 1) (put p (Some c1) e1 s) = Some (freed_client p c' (no_pcb e') s, True)" by blast
    have "nat (tc_recv_buf_sent c + w) = nat (tc_recv_buf_sent c) + nat w" using w sn by (simp add: nat_add_distrib)
    then have seg: "?seg (w + k) = ?seg w @ segment (tc_recv_buf c) (nat (tc_recv_buf_sent c + w)) (nat k)"
      using w(1) k(1) by (simp add: nat_add_distrib segment_append)
    have "c' = c\<lparr>tc_recv_buf_sent := tc_recv_buf_sent c + (w + k), tc_recv_tcp_pending := tc_recv_tcp_pending c + (w + k)\<rparr>"
      using k(3) by (simp add: c1_def add.assoc)
    moreover have "e' = e\<lparr>e_written := e_written e @ ?seg (w + k)\<rparr>" unfolding seg using k(4) by (simp add: c1_def e1_def)
    moreover have "0 \<le> w + k" "w + k \<le> tc_recv_buf_used c - tc_recv_buf_sent c" using k(1,2) w(1) by (simp_all add: c1_def)
    moreover have "send_out_loop lw p i (put p (Some c) e s) = send_out_loop lw p (i + 1) (put p (Some c1) e1 s)"
      using more unfolding loop by simp
    ultimately show ?thesis using k(5) by (intro exI [of _ "w + k"] exI [of _ c'] exI [of _ e']) simp
  qed
qed

text \<open>When lwIP has room and reports no error, the loop queues all of the buffer.\<close>

definition lw_ready :: "lwip_env \<Rightarrow> bool" where
  "lw_ready lw \<longleftrightarrow> (\<forall>i. lw_sndbuf lw i > 0 \<and> lw_write lw i = ERR_OK) \<and> lw_output lw = ERR_OK"

lemma send_out_loop_ready:
  assumes "base c e" and "filled c e" and "\<not> tc_client_closed c" and "e_pcb e" and "tc_socks_up c" and n: "t_num s > 0" and lw: "lw_ready lw"
  shows "send_out_loop lw p i (put p (Some c) e s) =
    Some (put p (Some (c\<lparr>tc_recv_buf_sent := tc_recv_buf_used c,
                          tc_recv_tcp_pending := tc_recv_tcp_pending c + (tc_recv_buf_used c - tc_recv_buf_sent c)\<rparr>))
      (e\<lparr>e_written := e_written e @ drop (nat (tc_recv_buf_sent c)) (tc_recv_buf c)\<rparr>) s, False)"
  using assms(1-5)
proof (induction "nat (tc_recv_buf_used c - tc_recv_buf_sent c)" arbitrary: c e i rule: less_induct)
  case less
  define w where "w = min (tc_recv_buf_used c - tc_recv_buf_sent c) (int (lw_sndbuf lw i))"
  have lwi: "lw_sndbuf lw i > 0" "lw_write lw i = 0" using lw by (simp_all add: lw_ready_def)
  have sn: "0 \<le> tc_recv_buf_sent c" "tc_recv_buf_used c = int (length (tc_recv_buf c))" "tc_recv_buf_sent c < tc_recv_buf_used c"
    using less.prems(2) by (auto simp: filled_def)
  then have w: "0 \<le> w" "w \<le> tc_recv_buf_used c - tc_recv_buf_sent c" "w \<noteq> 0" using lwi(1) by (auto simp: w_def)
  define c1 where "c1 = c\<lparr>tc_recv_buf_sent := tc_recv_buf_sent c + w, tc_recv_tcp_pending := tc_recv_tcp_pending c + w\<rparr>"
  define e1 where "e1 = e\<lparr>e_written := e_written e @ segment (tc_recv_buf c) (nat (tc_recv_buf_sent c)) (nat w)\<rparr>"
  have "e_socks e = (\<not> tc_socks_closed c)" using less.prems(1) by (simp add: base_def)
  note loop = send_out_loop_step [OF less.prems(2-4) n this w_def, of p, unfolded Let_def, folded c1_def, folded e1_def]
  note sg = filled_segment(2) [OF less.prems(2) w(1,2)]
  show ?case
  proof (cases "tc_recv_buf_sent c + w < tc_recv_buf_used c")
    case False
    then have e: "tc_recv_buf_sent c + w = tc_recv_buf_used c" "tc_recv_buf_used c - tc_recv_buf_sent c = w" using w(2) by simp_all
    have "drop (nat (tc_recv_buf_sent c)) (tc_recv_buf c) = segment (tc_recv_buf c) (nat (tc_recv_buf_sent c)) (nat w)" using sg e(1) sn(2) by simp
    then show ?thesis using e(1) w(3) lwi(2) unfolding loop e(2) by (simp add: c1_def e1_def)
  next
    case True
    note 1 = filled_write [OF less.prems(1,2) w(1) True c1_def e1_def less.prems(5)]
    have 2: "\<not> tc_client_closed c1" "e_pcb e1" "tc_socks_up c1" using less.prems(3-5) by (simp_all add: c1_def e1_def)
    have "nat (tc_recv_buf_used c1 - tc_recv_buf_sent c1) < nat (tc_recv_buf_used c - tc_recv_buf_sent c)" using w True by (simp add: c1_def)
    note less.hyps [OF this 1 2, of "i + 1"]
    then show ?thesis using True w(3) lwi(2) sg unfolding loop by (simp add: c1_def e1_def)
  qed
qed

definition same_ends :: "tcp_client \<Rightarrow> tcp_client \<Rightarrow> bool" where
  "same_ends c c' \<longleftrightarrow> tc_client_closed c' = tc_client_closed c \<and> tc_socks_closed c' = tc_socks_closed c \<and> tc_socks_up c' = tc_socks_up c
     \<and> tc_buf c' = tc_buf c"

lemma send_out_put:
  assumes b: "base c e" and f: "filled c e" and c: "\<not> tc_client_closed c" "tc_socks_up c" "\<not> tc_recv_waiting c" and e: "e_pcb e" and n: "t_num s > 0"
  shows "(\<exists>c' e'. base c' e' \<and> \<not> tc_client_closed c' \<and> kept e e'
      \<and> client_socks_recv_send_out lw p (put p (Some c) e s) = Some (freed_client p c' (no_pcb e') s, -1))
    \<or> (\<exists>c' w. client_socks_recv_send_out lw p (put p (Some c) e s) = Some (put p (Some c') (e\<lparr>e_written := w\<rparr>) s, 0)
         \<and> same_ends c c' \<and> base c' (e\<lparr>e_written := w\<rparr>) \<and> tc_recv_tcp_pending c' > 0
         \<and> (drained c' (e\<lparr>e_written := w\<rparr>) \<or> filled c' (e\<lparr>e_written := w\<rparr>) \<and> tc_recv_waiting c'))"
proof -
  obtain k c1 e1 where k: "0 \<le> k" "k \<le> tc_recv_buf_used c - tc_recv_buf_sent c"
    and c1: "c1 = c\<lparr>tc_recv_buf_sent := tc_recv_buf_sent c + k, tc_recv_tcp_pending := tc_recv_tcp_pending c + k\<rparr>"
    and e1: "e1 = e\<lparr>e_written := e_written e @ segment (tc_recv_buf c) (nat (tc_recv_buf_sent c)) (nat k)\<rparr>"
    and loop: "send_out_loop lw p 0 (put p (Some c) e s) = Some (put p (Some c1) e1 s, False)
       \<or> send_out_loop lw p 0 (put p (Some c) e s) = Some (freed_client p c1 (no_pcb e1) s, True)"
    using send_out_loop_put [OF b f c(1) e c(2) n, of lw p 0] by blast
  have fs: "0 \<le> tc_recv_buf_sent c" "tc_recv_buf_used c = int (length (tc_recv_buf c))" "tc_recv_buf_sent c < tc_recv_buf_used c"
    "tc_recv_buf_used c > 0" "\<not> e_receiving e" using f by (auto simp: filled_def)
  have base1: "base c1 e1" using b fs c(2) by (auto simp: base_def upward_def c1 e1)
  have socks1: "e_socks e1 = (\<not> tc_socks_closed c1)" "e_pcb e1" "\<not> tc_client_closed c1" using b e c by (simp_all add: base_def c1 e1)
  note sg = filled_segment [OF f k]
  have pend: "pending_ok c1 e1" using f k sg(1) by (simp add: filled_def pending_ok_def c1 e1)
  have rcv: "e_received e1 = e_written e1 @ drop (nat (tc_recv_buf_sent c1)) (tc_recv_buf c1)" using f sg(2) by (simp add: filled_def c1 e1)
  let ?r = "client_socks_recv_send_out lw p (put p (Some c) e s)"
  show ?thesis
  proof (cases "?r = Some (freed_client p c1 (no_pcb e1) s, -1)")
    case True
    then show ?thesis using base1 socks1(3) by (intro disjI1 exI [of _ c1] exI [of _ e1]) (simp add: e1)
  next
    case False
    have "?r = Some (freed_client p c1 (no_pcb e1) s, -1)"
      if "send_out_loop lw p 0 (put p (Some c) e s) = Some (freed_client p c1 (no_pcb e1) s, True)"
      using that c fs(3,4) by (simp add: client_socks_recv_send_out_def put_simps)
    then have l: "send_out_loop lw p 0 (put p (Some c) e s) = Some (put p (Some c1) e1 s, False)" using loop False by blast
    have o0: "lw_output lw = 0"
    proof (rule ccontr)
      assume "lw_output lw \<noteq> 0"
      then have "?r = Some (freed_client p c1 (no_pcb e1) s, -1)" using l c fs(3,4) socks1 n by (simp add: client_socks_recv_send_out_def put_simps)
      then show False using False by simp
    qed
    have "\<not> (tc_recv_buf_sent c1 < tc_recv_buf_used c1 \<and> tc_recv_tcp_pending c1 = 0)"
    proof
      assume "tc_recv_buf_sent c1 < tc_recv_buf_used c1 \<and> tc_recv_tcp_pending c1 = 0"
      then have "?r = Some (freed_client p c1 (no_pcb e1) s, -1)" using l o0 c fs(3,4) socks1 n by (simp add: client_socks_recv_send_out_def put_simps)
      then show False using False by simp
    qed
    note ok = l o0 this
    show ?thesis
    proof (cases "tc_recv_buf_sent c1 < tc_recv_buf_used c1")
      case True
      let ?c = "c1\<lparr>tc_recv_waiting := True\<rparr>"
      have "?r = Some (put p (Some ?c) e1 s, 0)" using ok True c fs(3,4) socks1 by (simp add: client_socks_recv_send_out_def put_simps)
      moreover have "base ?c e1" using base1 by (simp add: base_def upward_def)
      moreover have "tc_recv_tcp_pending ?c > 0" using ok(3) True pend by (auto simp: pending_ok_def)
      moreover have "filled ?c e1" using pend rcv True fs k by (auto simp: filled_def pending_ok_def c1 e1)
      moreover have "same_ends c ?c" by (simp add: same_ends_def c1)
      ultimately show ?thesis by (intro disjI2 exI [of _ ?c] exI [of _ "e_written e1"]) (simp add: e1)
    next
      case False
      let ?c = "c1\<lparr>tc_recv_buf_used := -1\<rparr>"
      have "k = tc_recv_buf_used c - tc_recv_buf_sent c" using False k by (simp add: c1)
      then have kk: "tc_recv_buf_sent c + k = int (length (tc_recv_buf c))" "0 < k" using fs by simp_all
      have "?r = Some (put p (Some ?c) e1 s, 0)" using ok False c fs(3,4) socks1 by (simp add: client_socks_recv_send_out_def put_simps)
      moreover have "base ?c e1" using base1 fs(5) by (simp add: base_def upward_def e1)
      moreover have "tc_recv_tcp_pending ?c > 0" using f kk(2) by (auto simp: filled_def pending_ok_def c1)
      moreover have "drained ?c e1" using pend rcv kk by (simp add: drained_def pending_ok_def c1 e1)
      moreover have "same_ends c ?c" by (simp add: same_ends_def c1)
      ultimately show ?thesis by (intro disjI2 exI [of _ ?c] exI [of _ "e_written e1"]) (simp add: e1)
    qed
  qed
qed

end
