(* ===== verification/TcpRelay.thy ===== *)
theory TcpRelay
  imports TcpClient
begin

section \<open>The life of a relayed connection\<close>

text \<open>
  The events that reach the TCP side of \<open>tun2socks/tun2socks.c\<close>, in any order: callbacks of lwIP, with the
  jobs that run within them, handlers of the SOCKS side, and the end of the program. All data is
  relayed in order and without loss, every call keeps the contracts of the neighbours, and a client
  is freed exactly when both its ends are closed.
\<close>

subsection \<open>Events of the SOCKS side\<close>

datatype socks_ev = SE_Event socks_event | SE_SendDone nat | SE_RecvDone bytes

fun se_allowed :: "nat \<Rightarrow> socks_ev \<Rightarrow> t2s \<Rightarrow> bool" where
  "se_allowed p (SE_Event event) s =
     (e_socks (t_env s p) \<and>
      (case event of BSOCKSCLIENT_EVENT_ERROR \<Rightarrow> True | BSOCKSCLIENT_EVENT_UP \<Rightarrow> \<not> e_up (t_env s p)
        | BSOCKSCLIENT_EVENT_ERROR_CLOSED \<Rightarrow> e_up (t_env s p)))"
| "se_allowed p (SE_SendDone n) s = (case e_sending (t_env s p) of None \<Rightarrow> False | Some b \<Rightarrow> 0 < n \<and> n \<le> length b)"
| "se_allowed p (SE_RecvDone data) s = (e_receiving (t_env s p) \<and> 0 < length data \<and> length data \<le> CLIENT_SOCKS_RECV_BUF_SIZE)"

fun se_env :: "socks_ev \<Rightarrow> tcp_env \<Rightarrow> tcp_env" where
  "se_env (SE_Event event) e = (if event = BSOCKSCLIENT_EVENT_UP then e\<lparr>e_up := True\<rparr> else e)"
| "se_env (SE_SendDone n) e = e\<lparr>e_sending := None, e_sent := e_sent e @ take n (the (e_sending e))\<rparr>"
| "se_env (SE_RecvDone data) e = e\<lparr>e_receiving := False, e_received := e_received e @ data\<rparr>"

fun se_run :: "lwip_env \<Rightarrow> nat \<Rightarrow> socks_ev \<Rightarrow> t2s \<Rightarrow> t2s option" where
  "se_run lw p (SE_Event event) s = client_socks_handler lw p event s"
| "se_run lw p (SE_SendDone n) s = client_socks_send_handler_done lw p n s"
| "se_run lw p (SE_RecvDone data) s = client_socks_recv_handler_done lw p data s"

definition se_handle :: "lwip_env \<Rightarrow> nat \<Rightarrow> socks_ev \<Rightarrow> t2s \<Rightarrow> t2s option" where
  "se_handle lw p ev s = se_run lw p ev (set_env p (se_env ev (t_env s p)) s)"

text \<open>
  The jobs that run within \<open>SYNC_COMMIT\<close>: any sequence of events of the SOCKS side; an event that cannot
  occur in the state that is reached does not occur.
\<close>

fun run_sync :: "nat \<Rightarrow> (lwip_env \<times> socks_ev) list \<Rightarrow> t2s \<Rightarrow> t2s option" where
  "run_sync p [] s = Some s"
| "run_sync p ((lw, ev) # evs) s =
     (if se_allowed p ev s then do { s \<leftarrow> se_handle lw p ev s; run_sync p evs s } else run_sync p evs s)"

lemma client_invD:
  assumes "client_inv c e"
  shows "base c e" and "pcb_open c e" and "tc_socks_up c \<and> \<not> tc_client_closed c \<longrightarrow> downward c e" and "\<not> (tc_client_closed c \<and> tc_socks_closed c)"
    and "e_socks e = (\<not> tc_socks_closed c)" and "e_pcb e = (\<not> tc_client_closed c)"
  using assms by (simp_all add: client_inv_def base_def pcb_open_def)

lemma se_event_put:
  assumes inv: "client_inv c e" and n: "t_num s > 0" and al: "se_allowed p (SE_Event event) (put p (Some c) e s)"
  shows "good p e s (se_handle lw p (SE_Event event) (put p (Some c) e s))"
proof (cases "event = BSOCKSCLIENT_EVENT_UP")
  case False
  have "\<not> tc_socks_closed c" using al client_invD(5) [OF inv] by (auto simp: put_simps)
  moreover have "event = BSOCKSCLIENT_EVENT_ERROR_CLOSED \<Longrightarrow> tc_socks_up c" using al inv by (auto simp: put_simps client_inv_def base_def)
  ultimately have "se_handle lw p (SE_Event event) (put p (Some c) e s) = Some (freed_socks p c e s)"
    using False n client_invD(5,6) [OF inv]
    by (cases event) (simp_all add: se_handle_def client_socks_handler_def put_simps)
  then show ?thesis using good_freed_socks [OF client_invD(1,2) [OF inv] _ client_invD(3) [OF inv]] \<open>\<not> tc_socks_closed c\<close> by simp
next
  case up: True
  then have c: "\<not> tc_socks_closed c" "\<not> tc_socks_up c" "\<not> e_up e" using al inv by (auto simp: put_simps client_inv_def base_def)
  let ?c = "c\<lparr>tc_recv_buf_used := -1, tc_recv_tcp_pending := 0, tc_socks_up := True\<rparr>"
  let ?e = "e\<lparr>e_up := True, e_sent_cb := \<not> tc_client_closed c, e_sending := if tc_buf c = [] then None else Some (tc_buf c),
     e_receiving := \<not> tc_client_closed c\<rparr>"
  have e: "e_sending e = None" "\<not> e_receiving e" "e_written e = []" "e_received e = []" "e_acked e = 0" "\<not> e_sent_cb e"
    using c inv by (auto simp: client_inv_def base_def upward_def pcb_open_def)
  have "se_handle lw p (SE_Event event) (put p (Some c) e s) = Some (put p (Some ?c) ?e s)"
    using up c e client_invD(5,6) [OF inv] n
    by (cases e; cases "tc_client_closed c"; cases "tc_buf c = []")
       (simp_all add: se_handle_def client_socks_handler_def client_send_to_socks_def client_socks_recv_initiate_def put_simps
        CLIENT_SOCKS_RECV_BUF_SIZE_def)
  moreover have "client_inv ?c ?e"
    using inv c e by (auto simp: inv_defs sending_ok_def)
  ultimately show ?thesis by (auto simp: fine_def dead_right_def intro!: goodI)
qed

text \<open>The invariant after a change of the buffer of data for SOCKS.\<close>

definition same_rest :: "tcp_env \<Rightarrow> tcp_env \<Rightarrow> bool" where [simp]:
  "same_rest e e' \<longleftrightarrow> e_pcb e' = e_pcb e \<and> e_err_cb e' = e_err_cb e \<and> e_recv_cb e' = e_recv_cb e \<and> e_sent_cb e' = e_sent_cb e
     \<and> e_socks e' = e_socks e \<and> e_up e' = e_up e \<and> e_receiving e' = e_receiving e
     \<and> e_received e' = e_received e \<and> e_written e' = e_written e \<and> e_acked e' = e_acked e"

lemma client_inv_upward:
  assumes "client_inv c e" and "upward (c\<lparr>tc_buf := d\<rparr>) e'" and "same_rest e e'" and "tc_client_closed c \<longrightarrow> d \<noteq> []"
  shows "client_inv (c\<lparr>tc_buf := d\<rparr>) e'" and "base (c\<lparr>tc_buf := d\<rparr>) e'"
proof -
  have "downward (c\<lparr>tc_buf := d\<rparr>) e' = downward c e" "pcb_open (c\<lparr>tc_buf := d\<rparr>) e' = pcb_open c e"
    using assms(3) by (simp_all add: pcb_open_def downward_def drained_def filled_def pending_ok_def)
  moreover show "base (c\<lparr>tc_buf := d\<rparr>) e'" using assms(2,3) client_invD(1) [OF assms(1)] by (simp add: base_def)
  ultimately show "client_inv (c\<lparr>tc_buf := d\<rparr>) e'" using assms(1,4) by (auto simp: client_inv_def)
qed

lemma send_done_put:
  assumes "tc_buf c = x @ d" and "length x = k" and "0 < k" and "tc_socks_up c" and "\<not> tc_socks_closed c" and "t_num s > 0"
    and "e_socks e" and "e_up e" and "e_sending e = None" and "e_pcb e = (\<not> tc_client_closed c)"
  shows "client_socks_send_handler_done lw p k (put p (Some c) e s) =
    (if d \<noteq> [] then Some (put p (Some (c\<lparr>tc_buf := d\<rparr>)) (e\<lparr>e_sending := Some d\<rparr>) s)
     else if tc_client_closed c then Some (freed_socks p (c\<lparr>tc_buf := d\<rparr>) e s) else Some (put p (Some (c\<lparr>tc_buf := d\<rparr>)) e s))"
proof -
  have k: "drop k (tc_buf c) = d" "length (tc_buf c) > 0" "k \<le> length (tc_buf c)" using assms(1-3) by auto
  show ?thesis unfolding client_socks_send_handler_done_def put_proj Let_def set_put call_put
    using k assms(3-) by (cases "tc_client_closed c"; cases "d = []") (auto simp: put_simps)
qed

lemma sending_prefix:
  assumes "client_inv c e" and "e_sending e = Some b"
  obtains rest where "tc_socks_up c" and "\<not> tc_socks_closed c" and "b \<noteq> []" and "tc_buf c = b @ rest"
  using client_invD(1) [OF assms(1)] assms(2) by (auto simp: base_def upward_def sending_ok_def)

lemma se_send_done_run:
  assumes inv: "client_inv c e" and n: "t_num s > 0" and b: "e_sending e = Some b" "0 < k" "k \<le> length b"
  shows "se_handle lw p (SE_SendDone k) (put p (Some c) e s) =
    (if drop k (tc_buf c) \<noteq> []
     then Some (put p (Some (c\<lparr>tc_buf := drop k (tc_buf c)\<rparr>)) (e\<lparr>e_sending := Some (drop k (tc_buf c)), e_sent := e_sent e @ take k b\<rparr>) s)
     else if tc_client_closed c then Some (freed_socks p (c\<lparr>tc_buf := drop k (tc_buf c)\<rparr>) (e\<lparr>e_sending := None, e_sent := e_sent e @ take k b\<rparr>) s)
     else Some (put p (Some (c\<lparr>tc_buf := drop k (tc_buf c)\<rparr>)) (e\<lparr>e_sending := None, e_sent := e_sent e @ take k b\<rparr>) s))"
proof -
  obtain rest where r: "tc_socks_up c" "\<not> tc_socks_closed c" "b \<noteq> []" "tc_buf c = b @ rest" by (rule sending_prefix [OF inv b(1)])
  let ?c = "c\<lparr>tc_buf := drop k (tc_buf c)\<rparr>"
  let ?e = "e\<lparr>e_sending := None, e_sent := e_sent e @ take k b\<rparr>"
  have bl: "tc_buf c \<noteq> []" "k \<le> length (tc_buf c)" using b r by simp_all
  have eu: "e_up e" "e_socks e" "e_pcb e = (\<not> tc_client_closed c)" using client_invD(1,2) [OF inv] r by (auto simp: base_def pcb_open_def)
  have "client_socks_send_handler_done lw p k (put p (Some c) ?e s) =
    (if drop k (tc_buf c) \<noteq> [] then Some (put p (Some ?c) (?e\<lparr>e_sending := Some (drop k (tc_buf c))\<rparr>) s)
     else if tc_client_closed c then Some (freed_socks p ?c ?e s) else Some (put p (Some ?c) ?e s))"
    by (rule send_done_put [of c "take k (tc_buf c)"]) (use b r(1,2) bl n eu in simp_all)
  then show ?thesis using b(1) by (cases e) (simp add: se_handle_def put_simps)
qed

lemma se_send_done_put:
  assumes inv: "client_inv c e" and n: "t_num s > 0" and al: "se_allowed p (SE_SendDone k) (put p (Some c) e s)"
  shows "good p e s (se_handle lw p (SE_SendDone k) (put p (Some c) e s))"
proof -
  obtain b where b: "e_sending e = Some b" "0 < k" "k \<le> length b" using al by (auto simp: put_simps split: option.splits)
  have i: "base c e" "pcb_open c e" by (rule client_invD [OF inv])+
  obtain rest where r: "tc_socks_up c" "\<not> tc_socks_closed c" "b \<noteq> []" "tc_buf c = b @ rest" by (rule sending_prefix [OF inv b(1)])
  let ?c = "c\<lparr>tc_buf := drop k (tc_buf c)\<rparr>"
  let ?e = "e\<lparr>e_sending := None, e_sent := e_sent e @ take k b\<rparr>"
  have acc: "e_accepted ?e = e_sent ?e @ tc_buf ?c" using i(1) r(4) b(3)
    by (simp add: base_def upward_def)
  have len: "length (tc_buf ?c) \<le> TCP_WND" using i(1) by (auto simp: base_def upward_def)
  note run = se_send_done_run [OF inv n b, of lw p]
  show ?thesis
  proof (cases "drop k (tc_buf c) = []")
    case more: False
    let ?e' = "e\<lparr>e_sending := Some (drop k (tc_buf c)), e_sent := e_sent e @ take k b\<rparr>"
    have "upward ?c ?e'" using acc len more r(1,2) by (simp add: upward_def sending_ok_def)
    then have "client_inv ?c ?e'" using client_inv_upward(1) [OF inv] more by simp
    then show ?thesis using more unfolding run by (auto simp: fine_def dead_right_def intro!: goodI)
  next
    case empty: True
    have "upward ?c ?e" using acc len empty by (simp add: upward_def)
    note up = client_inv_upward [OF inv this]
    show ?thesis
    proof (cases "tc_client_closed c")
      case True
      have "base ?c ?e" "pcb_open ?c ?e" using i empty acc len r by (auto simp: base_def upward_def pcb_open_def)
      then have "good p e s (Some (freed_socks p ?c ?e s))"
        using True r by (intro good_freed_socks) simp_all
      then show ?thesis using empty True unfolding run by simp
    next
      case False
      have "client_inv ?c ?e" using up False by simp
      then show ?thesis using empty False unfolding run by (auto simp: fine_def dead_right_def intro!: goodI)
    qed
  qed
qed

lemma se_recv_done_put:
  assumes inv: "client_inv c e" and n: "t_num s > 0" and al: "se_allowed p (SE_RecvDone data) (put p (Some c) e s)"
  shows "good p e s (se_handle lw p (SE_RecvDone data) (put p (Some c) e s))"
proof -
  have d: "e_receiving e" "0 < length data" "length data \<le> CLIENT_SOCKS_RECV_BUF_SIZE" using al by (auto simp: put_simps)
  have i: "base c e" "pcb_open c e" by (rule client_invD [OF inv])+
  then have c: "tc_socks_up c" "\<not> tc_socks_closed c" "tc_recv_buf_used c = -1" using d(1) by (auto simp: base_def)
  let ?e = "e\<lparr>e_receiving := False, e_received := e_received e @ data\<rparr>"
  show ?thesis
  proof (cases "tc_client_closed c")
    case True
    have "se_handle lw p (SE_RecvDone data) (put p (Some c) e s) = Some (put p (Some c) ?e s)"
      using c d True by (simp add: se_handle_def client_socks_recv_handler_done_def put_simps)
    moreover have "client_inv c ?e" using inv True c by (auto simp: inv_defs)
    ultimately show ?thesis by (auto simp: fine_def dead_right_def intro!: goodI)
  next
    case False
    let ?c = "c\<lparr>tc_recv_buf := data, tc_recv_buf_used := int (length data), tc_recv_buf_sent := 0, tc_recv_waiting := False\<rparr>"
    have "drained c e" using inv False c by (auto simp: client_inv_def downward_def filled_def)
    then have f: "filled ?c ?e" using d by (auto simp: filled_def drained_def pending_ok_def)
    have bs: "base ?c ?e" using i(1) c by (auto simp: base_def upward_def)
    have pcb: "e_pcb ?e" using client_invD(6) [OF inv] False by simp
    have cc: "\<not> tc_client_closed ?c" "tc_socks_up ?c" "\<not> tc_recv_waiting ?c" using False c by simp_all
    have run: "se_handle lw p (SE_RecvDone data) (put p (Some c) e s) = do {
        (s, r) \<leftarrow> client_socks_recv_send_out lw p (put p (Some ?c) ?e s);
        if r < 0 then Some s
        else do { c \<leftarrow> t_clients s p; if tc_recv_buf_used c = -1 then client_socks_recv_initiate p s else Some s } }"
      using c d False by (simp add: se_handle_def client_socks_recv_handler_done_def put_simps)
    from send_out_put [OF bs f cc pcb n, of lw p] consider
      (aborted) c' e' where "base c' e'" "\<not> tc_client_closed c'" "kept ?e e'"
        "client_socks_recv_send_out lw p (put p (Some ?c) ?e s) = Some (freed_client p c' (no_pcb e') s, -1)"
      | (queued) c' w where "client_socks_recv_send_out lw p (put p (Some ?c) ?e s) = Some (put p (Some c') (?e\<lparr>e_written := w\<rparr>) s, 0)"
        "same_ends ?c c'" "base c' (?e\<lparr>e_written := w\<rparr>)" "tc_recv_tcp_pending c' > 0"
        "drained c' (?e\<lparr>e_written := w\<rparr>) \<or> filled c' (?e\<lparr>e_written := w\<rparr>) \<and> tc_recv_waiting c'"
      by blast
    then show ?thesis
    proof cases
      case (aborted c' e')
      then have "good p e s (Some (freed_client p c' (no_pcb e') s))" by (intro good_freed_client) simp_all
      then show ?thesis unfolding run aborted(4) by simp
    next
      case (queued c' w)
      note r = queued(1) and s = queued(2-5)
      let ?e' = "?e\<lparr>e_written := w\<rparr>"
      have po: "pcb_open c' ?e'" using i(2) s(1) by (auto simp: pcb_open_def same_ends_def)
      show ?thesis
      proof (cases "tc_recv_buf_used c' = -1")
        case True
        have eu: "e_socks e" "e_up e" using i(1) c by (auto simp: base_def)
        have "se_handle lw p (SE_RecvDone data) (put p (Some c) e s) = Some (put p (Some c') (?e'\<lparr>e_receiving := True\<rparr>) s)"
          using True s(1) False c eu unfolding run r by (simp add: client_socks_recv_initiate_def put_simps same_ends_def CLIENT_SOCKS_RECV_BUF_SIZE_def)
        moreover have "drained c' ?e'" using s(4) True by (auto simp: filled_def)
        then have "client_inv c' (?e'\<lparr>e_receiving := True\<rparr>)"
          using s po False c True by (auto simp: client_inv_def base_def upward_def pcb_open_def downward_def drained_def pending_ok_def same_ends_def)
        ultimately show ?thesis by (auto simp: fine_def dead_right_def intro!: goodI)
      next
        case nd: False
        have "se_handle lw p (SE_RecvDone data) (put p (Some c) e s) = Some (put p (Some c') ?e' s)"
          using nd unfolding run r by (simp add: put_simps)
        moreover have "client_inv c' ?e'"
          using s po False c nd by (auto simp: client_inv_def downward_def drained_def same_ends_def)
        ultimately show ?thesis by (auto simp: fine_def dead_right_def intro!: goodI)
      qed
    qed
  qed
qed

lemma se_put:
  assumes "client_inv c e" and "t_num s > 0" and "se_allowed p ev (put p (Some c) e s)"
  shows "good p e s (se_handle lw p ev (put p (Some c) e s))"
  using assms se_event_put se_send_done_put se_recv_done_put by (cases ev) auto

lemma run_sync_put:
  assumes "fine X e" and "t_num s > 0"
  shows "good p e s (run_sync p evs (put p X e s))"
  using assms(1)
proof (induction evs arbitrary: X e)
  case Nil
  then show ?case by (auto intro!: goodI)
next
  case (Cons x evs)
  obtain lw ev where x: "x = (lw, ev)" by (cases x)
  show ?case
  proof (cases "se_allowed p ev (put p X e s)")
    case False
    then show ?thesis using Cons x by simp
  next
    case True
    have "X \<noteq> None"
    proof
      assume "X = None"
      then have "ended e" using Cons.prems by (simp add: fine_def)
      then show False using True by (cases ev) (auto simp: put_simps ended_def)
    qed
    then obtain c where c: "X = Some c" by auto
    have "client_inv c e" using Cons.prems c by (simp add: fine_def)
    from se_put [OF this assms(2), of p ev lw] True c obtain Y e' where y: "se_handle lw p ev (put p X e s) = Some (put p Y e' s)" "fine Y e'"
      "dead_right e \<longrightarrow> dead_right e'" "kept e e'" by (auto simp: good_def)
    then show ?thesis using Cons.IH [OF y(2)] True x by (auto simp: good_def)
  qed
qed


subsection \<open>Callbacks of lwIP\<close>

text \<open>
  \<open>answers p s r\<close>: the callback has a result, in which the client satisfies its invariant or is gone,
  and it returned \<open>ERR_ABRT\<close> exactly if the \<open>pcb\<close> is closed, as lwIP demands, since it goes on to use the
  \<open>pcb\<close> otherwise.
\<close>

definition answers :: "nat \<Rightarrow> t2s \<Rightarrow> (t2s \<times> int) option \<Rightarrow> bool" where
  "answers p s r \<longleftrightarrow> (\<exists>X e ret. r = Some (put p X e s, ret) \<and> fine X e \<and> (ret = ERR_ABRT \<longleftrightarrow> \<not> e_pcb e) \<and> (ret = ERR_OK \<longrightarrow> \<not> e_pbuf e))"

lemma answersI:
  "fine X e \<Longrightarrow> (ret = ERR_ABRT \<longleftrightarrow> \<not> e_pcb e) \<Longrightarrow> (ret = ERR_OK \<longrightarrow> \<not> e_pbuf e) \<Longrightarrow> answers p s (Some (put p X e s, ret))"
  by (auto simp: answers_def)

lemma freed_client_put:
  assumes "base c e" and "\<not> tc_client_closed c"
  obtains X e' where "freed_client p c (no_pcb e) s = put p X e' s" and "fine X e'" and "\<not> e_pcb e'" and "e_dead_client e'" and "kept e e'"
proof -
  let ?e = "if tc_socks_closed c then (no_pcb e)\<lparr>e_dead_client := True\<rparr> else no_socks ((no_pcb e)\<lparr>e_dead_client := True\<rparr>)"
  show ?thesis
  proof (cases "\<not> tc_socks_closed c \<and> tc_buf c \<noteq> []")
    case True
    then have "client_inv (c\<lparr>tc_client_closed := True\<rparr>) ((no_pcb e)\<lparr>e_dead_client := True\<rparr>)"
      using assms by (auto simp: inv_defs no_pcb_def)
    then show ?thesis using True
      by (intro that [of "Some (c\<lparr>tc_client_closed := True\<rparr>)" "(no_pcb e)\<lparr>e_dead_client := True\<rparr>"])
        (auto simp: freed_client_def fine_def no_pcb_def)
  next
    case False
    then have "freed_client p c (no_pcb e) s = put p None ?e s" by (auto simp: freed_client_def)
    then show ?thesis using assms
      by (intro that [of None ?e]) (auto simp: fine_def ended_def no_pcb_def no_socks_def base_def upward_def)
  qed
qed

lemma answers_freed_client:
  assumes "base c e" and "\<not> tc_client_closed c"
  shows "answers p s (Some (freed_client p c (no_pcb e) s, ERR_ABRT))"
proof -
  obtain X e' where "freed_client p c (no_pcb e) s = put p X e' s" "fine X e'" "\<not> e_pcb e'" "e_dead_client e'" "kept e e'"
    by (rule freed_client_put [OF assms, of p s])
  then show ?thesis unfolding answers_def by (intro exI [of _ X] exI [of _ e'] exI [of _ ERR_ABRT]) simp
qed

text \<open>The end of a callback that runs jobs: it watches whether the \<open>pcb\<close> is gone.\<close>

lemma sync_put:
  assumes "fine (Some c) e" and "t_num s > 0" and "e_pcb e" and "\<not> e_dead_client e"
  obtains X e' where "run_sync p evs (put p (Some c) e s) = Some (put p X e' s)" and "fine X e'" and "e_dead_client e' = (\<not> e_pcb e')" and "kept e e'"
proof -
  from run_sync_put [OF assms(1,2), of p evs] obtain X e' where x: "run_sync p evs (put p (Some c) e s) = Some (put p X e' s)" "fine X e'"
    "dead_right e \<longrightarrow> dead_right e'" "kept e e'" unfolding good_def by blast
  moreover have "dead_right e" using assms(3,4) by (simp add: dead_right_def)
  ultimately show ?thesis by (intro that [OF x(1,2)]) (simp_all add: dead_right_def)
qed

lemma fine_pbuf: "fine X (e\<lparr>e_pbuf := b\<rparr>) = fine X e"
  by (cases X) (simp_all add: fine_def ended_def inv_defs)

lemma call_any: "call p x (put p X e s) = map_option (\<lambda>e'. put p X e' s) (env_call x e)"
  by (cases "env_call x e") (simp_all add: call_def set_env_def put_def)

lemma client_recv_put:
  assumes inv: "client_inv c e" and n: "t_num s > 0" and cb: "e_recv_cb e" and p: "e_pbuf e = (pbuf \<noteq> None)" "pbuf \<noteq> Some []"
  shows "answers p s (client_recv_func (run_sync p evs) lw p pbuf (put p (Some c) e s))" (is "answers p s ?r")
proof -
  have b: "base c e" "pcb_open c e" by (rule client_invD [OF inv])+
  have c: "\<not> tc_client_closed c" "\<not> tc_socks_closed c" "e_pcb e" "e_socks e = (\<not> tc_socks_closed c)"
    using cb b by (auto simp: pcb_open_def base_def)
  show ?thesis
  proof (cases pbuf)
    case None
    then have "?r = Some (freed_client p c (no_pcb e) s, ERR_ABRT)" using c n by (simp add: client_recv_func_def put_simps)
    then show ?thesis using answers_freed_client [OF b(1) c(1)] by simp
  next
    case (Some data)
    have d: "data \<noteq> []" using p Some by simp
    let ?c = "c\<lparr>tc_buf := tc_buf c @ data\<rparr>"
    let ?e = "e\<lparr>e_accepted := e_accepted e @ data\<rparr>"
    consider (full) "length data > TCP_WND - length (tc_buf c)"
      | (first) "length data \<le> TCP_WND - length (tc_buf c)" "tc_buf c = []" "tc_socks_up c"
      | (wait) "length data \<le> TCP_WND - length (tc_buf c)" "tc_buf c \<noteq> [] \<or> \<not> tc_socks_up c" by linarith
    then show ?thesis
    proof cases
      case full
      then have "?r = Some (put p (Some c) e s, ERR_MEM)" using c d Some by (simp add: client_recv_func_def put_simps)
      then show ?thesis using inv c by (simp add: answersI fine_def)
    next
      case wait
      have "?r = Some (put p (Some ?c) (?e\<lparr>e_pbuf := False\<rparr>) s, ERR_OK)"
        using wait c d Some p by (auto simp: client_recv_func_def put_simps)
      moreover have "upward ?c (?e\<lparr>e_pbuf := False\<rparr>)" using b(1) wait by (auto simp: base_def upward_def sending_ok_def split: option.splits)
      then have "client_inv ?c (?e\<lparr>e_pbuf := False\<rparr>)" using client_inv_upward(1) [OF inv] d by simp
      ultimately show ?thesis using c by (simp add: answersI fine_def)
    next
      case first
      let ?e1 = "?e\<lparr>e_sending := Some data, e_dead_client := False\<rparr>"
      have up: "e_up e" "e_sending e = None" using first b(1) c by (auto simp: base_def upward_def sending_ok_def split: option.splits)
      have "upward ?c ?e1" using b(1) first c d by (simp add: base_def upward_def sending_ok_def)
      then have f: "fine (Some ?c) ?e1" using client_inv_upward(1) [OF inv] d by (simp add: fine_def)
      have "e_pcb ?e1" "\<not> e_dead_client ?e1" using c by simp_all
      then obtain X e' where x: "run_sync p evs (put p (Some ?c) ?e1 s) = Some (put p X e' s)" "fine X e'" "e_dead_client e' = (\<not> e_pcb e')" "kept ?e1 e'"
        by (rule sync_put [OF f n])
      have "?r = do { s \<leftarrow> run_sync p evs (put p (Some ?c) ?e1 s);
          if e_dead_client (t_env s p) then Some (s, ERR_ABRT) else do { s \<leftarrow> call p Pbuf_free s; Some (s, ERR_OK) } }"
        using first c d up Some by (simp add: client_recv_func_def client_send_to_socks_def put_simps)
      also have "\<dots> = (if e_pcb e' then Some (put p X (e'\<lparr>e_pbuf := False\<rparr>) s, ERR_OK) else Some (put p X e' s, ERR_ABRT))"
        using x p Some by (simp add: put_simps call_any)
      finally show ?thesis using x(2) by (simp add: answersI fine_pbuf)
    qed
  qed
qed


lemma client_err_put:
  assumes inv: "client_inv c e" and n: "t_num s > 0" and cb: "e_err_cb e"
  shows "\<exists>X e'. client_err_func lw p (put p (Some c) (no_pcb e) s) = Some (put p X e' s) \<and> fine X e'"
proof -
  have b: "base c e" "pcb_open c e" by (rule client_invD [OF inv])+
  then have c: "\<not> tc_client_closed c" "e_socks (no_pcb e) = (\<not> tc_socks_closed c)" using cb by (auto simp: pcb_open_def base_def no_pcb_def)
  obtain X e' where x: "freed_client p c (no_pcb e) s = put p X e' s" "fine X e'" "\<not> e_pcb e'" "e_dead_client e'" "kept e e'"
    by (rule freed_client_put [OF b(1) c(1), of p s])
  have "client_err_func lw p (put p (Some c) (no_pcb e) s) = Some (freed_client p c (no_pcb e) s)"
    using c n by (simp add: client_err_func_def put_simps)
  then show ?thesis using x(1,2) by (intro exI [of _ X] exI [of _ e']) simp
qed

lemma client_murder_put:
  assumes inv: "client_inv c e" and n: "t_num s > 0"
  shows "\<exists>e'. client_murder p (put p (Some c) e s) = Some (put p None e' s) \<and> ended e'"
proof -
  have e: "e_pcb e = (\<not> tc_client_closed c)" "e_socks e = (\<not> tc_socks_closed c)" using inv by (simp_all add: client_invD)
  let ?e1 = "if tc_client_closed c then e else (no_pcb e)\<lparr>e_dead_client := True\<rparr>"
  let ?e2 = "if tc_socks_closed c then ?e1 else no_socks ?e1"
  have "client_murder p (put p (Some c) e s) = Some (put p None ?e2 s)"
    using e n by (cases "tc_client_closed c"; cases "tc_socks_closed c") (simp_all add: client_murder_def put_simps no_pcb_def no_socks_def)
  moreover have "ended ?e2" using inv by (auto simp: ended_def no_pcb_def no_socks_def client_inv_def pcb_open_def base_def upward_def)
  ultimately show ?thesis by blast
qed

text \<open>What \<open>client_sent_func\<close> does when data waits in the buffer: queue more, and then \<open>sent_done\<close>.\<close>

definition sent_done :: "(t2s \<Rightarrow> t2s option) \<Rightarrow> nat \<Rightarrow> t2s \<times> int \<Rightarrow> (t2s \<times> int) option" where
  "sent_done sync p = (\<lambda>(s, r).
     if r < 0 then Some (s, ERR_ABRT)
     else do {
       c \<leftarrow> t_clients s p;
       ASSERT (tc_recv_tcp_pending c > 0);
       if tc_recv_buf_used c = -1 \<and> \<not> tc_socks_closed c then do {
         s \<leftarrow> client_socks_recv_initiate p s;
         s \<leftarrow> call p Dead_enter s;
         s \<leftarrow> sync s;
         if e_dead_client (t_env s p) then Some (s, ERR_ABRT) else Some (s, ERR_OK) }
       else Some (s, ERR_OK) })"

lemma sent_filled_run:
  assumes "\<not> tc_client_closed c" and "tc_socks_up c" and "tc_recv_buf_used c > 0" and "tc_recv_buf_sent c < tc_recv_buf_used c"
    and "tc_recv_waiting c" and "0 < k" and "int k \<le> tc_recv_tcp_pending c"
  shows "client_sent_func sync lw p k (put p (Some c) e s) =
    client_socks_recv_send_out lw p (put p (Some (c\<lparr>tc_recv_tcp_pending := tc_recv_tcp_pending c - int k, tc_recv_waiting := False\<rparr>)) e s)
      \<bind> sent_done sync p"
  using assms by (simp add: client_sent_func_def put_simps sent_done_def)

lemma sent_queued_put:
  assumes n: "t_num s > 0" and c: "\<not> tc_client_closed c" "tc_socks_up c" and pc: "pcb_open c e" and pb: "\<not> e_pbuf e" "\<not> e_receiving e"
    and q: "same_ends c c'" "base c' (e\<lparr>e_written := w\<rparr>)" "tc_recv_tcp_pending c' > 0"
      "drained c' (e\<lparr>e_written := w\<rparr>) \<or> filled c' (e\<lparr>e_written := w\<rparr>) \<and> tc_recv_waiting c'"
  shows "answers p s (sent_done (run_sync p evs) p (put p (Some c') (e\<lparr>e_written := w\<rparr>) s, 0))" (is "answers p s ?r")
proof -
  let ?e = "e\<lparr>e_written := w\<rparr>"
  have c': "\<not> tc_client_closed c'" "tc_socks_up c'" "e_pcb e" and pc': "pcb_open c' ?e"
    using c pc q(1) by (auto simp: same_ends_def pcb_open_def)
  show ?thesis
  proof (cases "tc_recv_buf_used c' = -1 \<and> \<not> tc_socks_closed c'")
    case True
    let ?e1 = "?e\<lparr>e_receiving := True, e_dead_client := False\<rparr>"
    have dr: "drained c' ?e" using q(4) True by (auto simp: filled_def)
    then have "client_inv c' ?e1" using c' pc' q(2) True
      by (auto simp: client_inv_def base_def upward_def pcb_open_def downward_def drained_def pending_ok_def)
    then have f: "fine (Some c') ?e1" by (simp add: fine_def)
    have "e_pcb ?e1" "\<not> e_dead_client ?e1" using c' by simp_all
    then obtain X e' where x: "run_sync p evs (put p (Some c') ?e1 s) = Some (put p X e' s)" "fine X e'" "e_dead_client e' = (\<not> e_pcb e')" "kept ?e1 e'"
      by (rule sync_put [OF f n])
    have up: "e_socks e" "e_up e" using q(2) True c' by (simp_all add: base_def)
    have "?r = Some (put p X e' s, if e_pcb e' then ERR_OK else ERR_ABRT)"
      using True c' up pb(2) x(1,3) q(3)
      by (simp add: sent_done_def client_socks_recv_initiate_def CLIENT_SOCKS_RECV_BUF_SIZE_def put_simps)
    then show ?thesis using x(2,4) pb(1) by (simp add: answersI)
  next
    case False
    have "client_inv c' ?e" using False c' pc' q(2-4) by (auto simp: client_inv_def downward_def drained_def)
    moreover have "?r = Some (put p (Some c') ?e s, ERR_OK)" using False q(3) by (auto simp: sent_done_def put_simps)
    ultimately show ?thesis using c' pb by (simp add: answersI fine_def)
  qed
qed

lemma client_sent_put:
  assumes inv: "client_inv c e" and n: "t_num s > 0" and cb: "e_sent_cb e" and k: "0 < k" "e_acked e + k \<le> length (e_written e)"
    and pb: "\<not> e_pbuf e"
  shows "answers p s (client_sent_func (run_sync p evs) lw p k (put p (Some c) (e\<lparr>e_acked := e_acked e + k\<rparr>) s))" (is "answers p s ?r")
proof -
  have b: "base c e" "pcb_open c e" by (rule client_invD [OF inv])+
  then have c: "\<not> tc_client_closed c" "tc_socks_up c" "e_pcb e" "e_socks e = (\<not> tc_socks_closed c)" using cb by (auto simp: pcb_open_def base_def)
  then have down: "downward c e" and pend: "pending_ok c e" using inv by (auto simp: client_inv_def downward_def drained_def filled_def)
  let ?c = "c\<lparr>tc_recv_tcp_pending := tc_recv_tcp_pending c - int k\<rparr>"
  let ?e = "e\<lparr>e_acked := e_acked e + k\<rparr>"
  have le: "int k \<le> tc_recv_tcp_pending c" using pend k(2) by (simp add: pending_ok_def)
  have b1: "base ?c ?e" "pcb_open ?c ?e" "pending_ok ?c ?e"
    using b pend k c by (simp_all add: base_def upward_def pcb_open_def pending_ok_def)
  from down consider (drained) "drained c e" | (filled) "filled c e" "tc_recv_waiting c" by (auto simp: downward_def)
  then show ?thesis
  proof cases
    case drained
    then have u: "tc_recv_buf_used c = -1" by (simp add: drained_def)
    have d1: "drained ?c ?e" using drained b1(3) by (simp add: drained_def)
    show ?thesis
    proof (cases "tc_socks_closed c \<and> tc_recv_tcp_pending c = int k")
      case True
      then have "?r = Some (freed_client p ?c (no_pcb ?e) s, ERR_ABRT)"
        using c u k le n by (simp add: client_sent_func_def put_simps)
      then show ?thesis using answers_freed_client [OF b1(1)] c by simp
    next
      case False
      then have "?r = Some (put p (Some ?c) ?e s, ERR_OK)" using c u k le by (auto simp: client_sent_func_def put_simps)
      moreover have "client_inv ?c ?e"
        using b1 d1 c False le down u inv by (auto simp: client_inv_def downward_def filled_def)
      ultimately show ?thesis using c pb by (simp add: answersI fine_def)
    qed
  next
    case filled
    then have u: "tc_recv_buf_used c > 0" "tc_recv_buf_sent c < tc_recv_buf_used c" by (auto simp: filled_def)
    let ?c2 = "?c\<lparr>tc_recv_waiting := False\<rparr>"
    have f2: "filled ?c2 ?e" using filled b1(3) by (simp add: filled_def pending_ok_def)
    have b2: "base ?c2 ?e" using b1(1) by (simp add: base_def upward_def)
    have c2: "\<not> tc_client_closed ?c2" "tc_socks_up ?c2" "\<not> tc_recv_waiting ?c2" and e2: "e_pcb ?e" using c by simp_all
    have run: "?r = client_socks_recv_send_out lw p (put p (Some ?c2) ?e s) \<bind> sent_done (run_sync p evs) p"
      by (rule sent_filled_run [OF c(1,2) u filled(2) k(1) le])
    from send_out_put [OF b2 f2 c2 e2 n, of lw p] consider
      (aborted) c' e' where "base c' e'" "\<not> tc_client_closed c'"
        "client_socks_recv_send_out lw p (put p (Some ?c2) ?e s) = Some (freed_client p c' (no_pcb e') s, -1)"
      | (queued) c' w where "client_socks_recv_send_out lw p (put p (Some ?c2) ?e s) = Some (put p (Some c') (?e\<lparr>e_written := w\<rparr>) s, 0)"
        "same_ends ?c2 c'" "base c' (?e\<lparr>e_written := w\<rparr>)" "tc_recv_tcp_pending c' > 0"
        "drained c' (?e\<lparr>e_written := w\<rparr>) \<or> filled c' (?e\<lparr>e_written := w\<rparr>) \<and> tc_recv_waiting c'"
      by blast
    then show ?thesis
    proof cases
      case aborted
      then show ?thesis using answers_freed_client [OF aborted(1,2)] unfolding run by (simp add: sent_done_def)
    next
      case (queued c' w)
      have "pcb_open ?c2 ?e" "\<not> e_pbuf ?e" "\<not> e_receiving ?e" using b1(2) pb f2 by (simp_all add: pcb_open_def filled_def)
      note sent_queued_put [OF n c2(1,2) this queued(2-5), of p evs]
      then show ?thesis unfolding run queued(1) by simp
    qed
  qed
qed


subsection \<open>Events\<close>

text \<open>
  The events are the callbacks of lwIP, with the jobs that run within them, the handlers of the SOCKS side,
  and \<open>client_murder\<close>, which the program calls for every client when it ends. \<open>t_allowed\<close> says when an event can
  occur: lwIP calls the callbacks that are registered, on an open \<open>pcb\<close>, never confirms more than was queued
  for it, and an allocation does not return memory in use. \<open>t_before\<close> is what changes at the neighbour
  before the program is called: lwIP has freed the \<open>pcb\<close> when it reports an error. It closes by itself a
  connection that was not accepted.
\<close>

datatype tcp_ev =
    T_Accept "(nat \<times> tcp_client) option" "string option" bool bool bool BAddr BAddr "(lwip_env \<times> socks_ev) list"
  | T_Recv nat lwip_env "bytes option" "(lwip_env \<times> socks_ev) list"
  | T_Sent nat lwip_env nat "(lwip_env \<times> socks_ev) list"
  | T_Err nat lwip_env
  | T_Socks nat lwip_env socks_ev
  | T_Murder nat

definition no_env :: tcp_env where
  "no_env = \<lparr>e_pcb = False, e_err_cb = False, e_recv_cb = False, e_sent_cb = False, e_dead_client = False, e_pbuf = False,
     e_socks = False, e_up = False, e_sending = None, e_receiving = False,
     e_accepted = [], e_sent = [], e_received = [], e_written = [], e_acked = 0\<rparr>"

definition t_init :: t2s where
  "t_init = \<lparr>t_clients = Map.empty, t_list = [], t_num = 0, t_auth_username = None, t_env = (\<lambda>_. no_env)\<rparr>"

fun t_allowed :: "tcp_ev \<Rightarrow> t2s \<Rightarrow> bool" where
  "t_allowed (T_Accept mem username append_source concat_ok socks_ok local remote evs) s =
     (case mem of None \<Rightarrow> True | Some (p, c) \<Rightarrow> t_clients s p = None)"
| "t_allowed (T_Recv p lw pbuf evs) s = (e_recv_cb (t_env s p) \<and> pbuf \<noteq> Some [])"
| "t_allowed (T_Sent p lw n evs) s =
     (e_sent_cb (t_env s p) \<and> 0 < n \<and> e_acked (t_env s p) + n \<le> length (e_written (t_env s p)))"
| "t_allowed (T_Err p lw) s = e_err_cb (t_env s p)"
| "t_allowed (T_Socks p lw ev) s = se_allowed p ev s"
| "t_allowed (T_Murder p) s = (t_clients s p \<noteq> None)"

definition t_before :: "nat \<Rightarrow> (tcp_env \<Rightarrow> tcp_env) \<Rightarrow> t2s \<Rightarrow> t2s" where
  "t_before p f s = set_env p (f (t_env s p)) s"

fun t_handle :: "tcp_ev \<Rightarrow> t2s \<Rightarrow> (t2s \<times> int) option" where
  "t_handle (T_Accept mem username append_source concat_ok socks_ok local remote evs) s =
     (case mem of
        None \<Rightarrow> listener_accept_func (\<lambda>s. Some s) None username append_source concat_ok socks_ok local remote s
      | Some (p, c) \<Rightarrow> do {
          (s, r) \<leftarrow> listener_accept_func (run_sync p evs) (Some (p, c)) username append_source concat_ok socks_ok local remote
                      (t_before p (\<lambda>_. no_env\<lparr>e_pcb := True\<rparr>) s);
          Some (if r = ERR_MEM then t_before p no_pcb s else s, r) })"
| "t_handle (T_Recv p lw pbuf evs) s =
     client_recv_func (run_sync p evs) lw p pbuf (t_before p (\<lambda>e. e\<lparr>e_pbuf := pbuf \<noteq> None\<rparr>) s)"
| "t_handle (T_Sent p lw n evs) s =
     client_sent_func (run_sync p evs) lw p n (t_before p (\<lambda>e. e\<lparr>e_pbuf := False, e_acked := e_acked e + n\<rparr>) s)"
| "t_handle (T_Err p lw) s = do { s \<leftarrow> client_err_func lw p (t_before p no_pcb s); Some (s, ERR_OK) }"
| "t_handle (T_Socks p lw ev) s = do { s \<leftarrow> se_handle lw p ev s; Some (s, ERR_OK) }"
| "t_handle (T_Murder p) s = do { s \<leftarrow> client_murder p s; Some (s, ERR_OK) }"

text \<open>A run of the program: a sequence of events, each of which can occur.\<close>

fun t_run :: "tcp_ev list \<Rightarrow> t2s \<Rightarrow> t2s option" where
  "t_run [] s = Some s"
| "t_run (ev # evs) s = (if t_allowed ev s then do { (s, r) \<leftarrow> t_handle ev s; t_run evs s } else None)"

definition t_inv :: "t2s \<Rightarrow> bool" where
  "t_inv s \<longleftrightarrow> (\<forall>p. fine (t_clients s p) (t_env s p)) \<and> distinct (t_list s) \<and> set (t_list s) = dom (t_clients s)
     \<and> t_num s = int (length (t_list s))"

lemma t_inv_client: "t_inv s \<Longrightarrow> t_clients s p = Some c \<Longrightarrow> client_inv c (t_env s p) \<and> t_num s > 0"
proof -
  assume i: "t_inv s" and c: "t_clients s p = Some c"
  then have "p \<in> set (t_list s)" by (auto simp: t_inv_def)
  then have "length (t_list s) > 0" by (cases "t_list s") auto
  moreover have "fine (Some c) (t_env s p)" using i c by (metis t_inv_def)
  ultimately show ?thesis using i by (simp add: t_inv_def fine_def)
qed

lemma t_inv_put:
  assumes "t_inv s" and "t_clients s p = Some c" and "fine X e"
  shows "t_inv (put p X e s)"
proof -
  have p: "p \<in> set (t_list s)" "distinct (t_list s)" "set (t_list s) = dom (t_clients s)" "t_num s = int (length (t_list s))"
    using assms(1,2) by (auto simp: t_inv_def)
  have f: "fine (t_clients s q) (t_env s q)" for q using assms(1) by (simp add: t_inv_def)
  show ?thesis
  proof (cases X)
    case None
    have "length (t_list s) > 0" using p(1) by (cases "t_list s") auto
    moreover have "length (remove1 p (t_list s)) = length (t_list s) - 1" using p(1) by (simp add: length_remove1)
    ultimately have "int (length (remove1 p (t_list s))) = t_num s - 1" using p(4) by linarith
    then show ?thesis using p f assms(3) None by (auto simp: t_inv_def put_def)
  next
    case (Some c')
    then show ?thesis using p f assms(3) by (auto simp: t_inv_def put_def)
  qed
qed


definition accepted_env :: tcp_env where
  "accepted_env = no_env\<lparr>e_pcb := True, e_err_cb := True, e_recv_cb := True, e_socks := True\<rparr>"

definition accepted_client :: "tcp_client \<Rightarrow> string option \<Rightarrow> BAddr \<Rightarrow> BAddr \<Rightarrow> tcp_client" where
  "accepted_client c username local remote = c\<lparr>tc_socks_username := username, tc_local_addr := local, tc_remote_addr := remote,
     tc_client_closed := False, tc_buf := [], tc_socks_up := False, tc_socks_closed := False\<rparr>"

lemma accepted_inv: "client_inv (accepted_client c username local remote) accepted_env"
  by (simp add: client_inv_def base_def upward_def pcb_open_def accepted_client_def accepted_env_def no_env_def)

lemma t_inv_new:
  assumes "t_inv s" and "t_clients s p = None" and "client_inv c e"
  shows "t_inv (put p (Some c) e (s\<lparr>t_list := t_list s @ [p], t_num := t_num s + 1, t_auth_username := a\<rparr>))"
  using assms by (auto simp: t_inv_def put_def fine_def)

text \<open>The user name of an accepted client, and the one in \<open>socks_auth_info\<close> then.\<close>

definition own_username :: "string option \<Rightarrow> bool \<Rightarrow> BAddr \<Rightarrow> string option" where
  "own_username username append_source remote =
     (if username \<noteq> None \<and> append_source then Some (the username @ ''@'' @ BAddr_Print remote) else None)"

definition auth_username :: "string option \<Rightarrow> bool \<Rightarrow> BAddr \<Rightarrow> t2s \<Rightarrow> string option" where
  "auth_username username append_source remote s =
     (if username \<noteq> None \<and> append_source then own_username username append_source remote else t_auth_username s)"

lemma accept_run:
  assumes "t_clients s p = None" and "t_num s \<ge> 0"
  shows "listener_accept_func sync (Some (p, c)) username append_source concat_ok socks_ok local remote
      (t_before p (\<lambda>_. no_env\<lparr>e_pcb := True\<rparr>) s) =
    (if username \<noteq> None \<and> append_source \<and> \<not> concat_ok then Some (t_before p (\<lambda>_. no_env\<lparr>e_pcb := True\<rparr>) s, ERR_MEM)
     else if \<not> socks_ok
     then Some ((t_before p (\<lambda>_. no_env\<lparr>e_pcb := True\<rparr>) s)\<lparr>t_auth_username := auth_username username append_source remote s\<rparr>, ERR_MEM)
     else do {
       s \<leftarrow> sync (put p (Some (accepted_client c (own_username username append_source remote) local remote)) accepted_env
              (s\<lparr>t_list := t_list s @ [p], t_num := t_num s + 1, t_auth_username := auth_username username append_source remote s\<rparr>));
       if e_dead_client (t_env s p) then Some (s, ERR_ABRT) else Some (s, ERR_OK) })"
  using assms
  by (cases s; cases c; cases "username \<noteq> None \<and> append_source")
    (auto simp: listener_accept_func_def t_before_def call_def set_env_def set_client_def put_def accepted_client_def accepted_env_def
      no_env_def own_username_def auth_username_def Let_def)


lemma t_before_put: "t_clients s p = Some c \<Longrightarrow> t_before p f s = put p (Some c) (f (t_env s p)) s"
  by (simp add: t_before_def set_env_def put_def map_upd_triv)

lemma client_inv_pbuf: "client_inv c e \<Longrightarrow> client_inv c (e\<lparr>e_pbuf := b\<rparr>)"
  using fine_pbuf [where X = "Some c" and e = e and b = b] by (simp add: fine_def)

text \<open>The contract of a callback of lwIP: what its result says about the \<open>pcb\<close> and the packet buffer.\<close>

fun t_pcb :: "tcp_ev \<Rightarrow> nat option" where
  "t_pcb (T_Accept mem username append_source concat_ok socks_ok local remote evs) = map_option fst mem"
| "t_pcb (T_Recv p lw pbuf evs) = Some p"
| "t_pcb (T_Sent p lw n evs) = Some p"
| "t_pcb _ = None"

definition t_contract :: "tcp_ev \<Rightarrow> t2s \<Rightarrow> int \<Rightarrow> bool" where
  "t_contract ev s r \<longleftrightarrow> (case t_pcb ev of
       None \<Rightarrow> True
     | Some p \<Rightarrow> (r = ERR_ABRT \<longrightarrow> \<not> e_pcb (t_env s p)) \<and> (r = ERR_OK \<longrightarrow> e_pcb (t_env s p) \<and> \<not> e_pbuf (t_env s p)))"

definition t_ok :: "tcp_ev \<Rightarrow> (t2s \<times> int) option \<Rightarrow> bool" where
  "t_ok ev r \<longleftrightarrow> (case r of None \<Rightarrow> False | Some (s, ret) \<Rightarrow> t_inv s \<and> t_contract ev s ret)"

lemma t_ok_answers:
  assumes "t_inv s" and "t_clients s p = Some c" and "t_pcb ev = Some p" and "answers p s r"
  shows "t_ok ev r"
proof -
  from assms(4) obtain X e ret where "r = Some (put p X e s, ret)" "fine X e" "ret = ERR_ABRT \<longleftrightarrow> \<not> e_pcb e" "ret = ERR_OK \<longrightarrow> \<not> e_pbuf e"
    unfolding answers_def by blast
  then show ?thesis using t_inv_put [OF assms(1,2), of X e] assms(3) by (auto simp: t_ok_def t_contract_def put_simps)
qed

lemma t_ok_plain: "t_inv s \<Longrightarrow> t_clients s p = Some c \<Longrightarrow> t_pcb ev = None \<Longrightarrow> fine X e \<Longrightarrow> t_ok ev (Some (put p X e s, ret))"
  by (simp add: t_ok_def t_contract_def t_inv_put)

lemma t_inv_closed:
  assumes "t_inv s" and "t_clients s p = None" and "ended e"
  shows "t_inv ((set_env p e s)\<lparr>t_auth_username := a\<rparr>)" "t_inv (set_env p e s)" "t_inv (set_env p e (s\<lparr>t_auth_username := a\<rparr>))"
  using assms by (auto simp: t_inv_def set_env_def fine_def)

lemma t_accept_ok:
  assumes inv: "t_inv s" and p: "t_clients s p = None"
  shows "t_ok (T_Accept (Some (p, c)) username append_source concat_ok socks_ok local remote evs)
    (t_handle (T_Accept (Some (p, c)) username append_source concat_ok socks_ok local remote evs) s)" (is "t_ok ?ev ?r")
proof -
  have n: "t_num s \<ge> 0" using inv by (simp add: t_inv_def)
  let ?a = "auth_username username append_source remote s"
  let ?c = "accepted_client c (own_username username append_source remote) local remote"
  let ?s = "s\<lparr>t_list := t_list s @ [p], t_num := t_num s + 1, t_auth_username := ?a\<rparr>"
  note run = accept_run [OF p n, of "run_sync p evs" c username append_source concat_ok socks_ok local remote]
  have en: "ended (no_pcb (no_env\<lparr>e_pcb := True\<rparr>))" by (simp add: ended_def no_pcb_def no_env_def)
  consider (fail) "username \<noteq> None \<and> append_source \<and> \<not> concat_ok \<or> \<not> socks_ok" | (ok) "\<not> (username \<noteq> None \<and> append_source \<and> \<not> concat_ok)" "socks_ok" by blast
  then show ?thesis
  proof cases
    case fail
    then have "?r = Some (set_env p (no_pcb (no_env\<lparr>e_pcb := True\<rparr>)) s, ERR_MEM)
      \<or> ?r = Some (set_env p (no_pcb (no_env\<lparr>e_pcb := True\<rparr>)) (s\<lparr>t_auth_username := ?a\<rparr>), ERR_MEM)"
      using run by (auto simp: t_before_def set_env_def)
    then show ?thesis using t_inv_closed(2,3) [OF inv p en] by (auto simp: t_ok_def t_contract_def)
  next
    case ok
    have f: "fine (Some ?c) accepted_env" by (simp add: fine_def accepted_inv)
    have n1: "t_num ?s > 0" and pe: "e_pcb accepted_env" "\<not> e_dead_client accepted_env" using n by (simp_all add: accepted_env_def no_env_def)
    obtain X e where x: "run_sync p evs (put p (Some ?c) accepted_env ?s) = Some (put p X e ?s)" "fine X e" "e_dead_client e = (\<not> e_pcb e)" "kept accepted_env e"
      by (rule sync_put [OF f n1 pe, of p evs])
    have "t_inv (put p (Some ?c) accepted_env ?s)" by (rule t_inv_new [OF inv p accepted_inv])
    from t_inv_put [OF this _ x(2), of p ?c] have "t_inv (put p X e ?s)" by (simp add: put_simps)
    moreover have "?r = Some (put p X e ?s, if e_pcb e then ERR_OK else ERR_ABRT)" using run ok x(1,3) by (auto simp: put_simps)
    moreover have "\<not> e_pbuf e" using x(4) by (simp add: accepted_env_def no_env_def)
    ultimately show ?thesis by (simp add: t_ok_def t_contract_def put_simps)
  qed
qed


lemma t_recv_ok:
  assumes inv: "t_inv s" and al: "t_allowed (T_Recv p lw pbuf evs) s"
  shows "t_ok (T_Recv p lw pbuf evs) (t_handle (T_Recv p lw pbuf evs) s)"
proof -
  obtain c where c: "t_clients s p = Some c" using inv al by (fastforce simp: t_inv_def fine_def ended_def split: option.splits)
  let ?e = "(t_env s p)\<lparr>e_pbuf := pbuf \<noteq> None\<rparr>"
  have ci: "client_inv c ?e" "t_num s > 0" using t_inv_client [OF inv c] by (simp_all add: client_inv_pbuf)
  have "answers p s (client_recv_func (run_sync p evs) lw p pbuf (put p (Some c) ?e s))"
    using al by (intro client_recv_put [OF ci]) simp_all
  from t_ok_answers [OF inv c _ this] show ?thesis using t_before_put [OF c] by simp
qed

lemma t_sent_ok:
  assumes inv: "t_inv s" and al: "t_allowed (T_Sent p lw n evs) s"
  shows "t_ok (T_Sent p lw n evs) (t_handle (T_Sent p lw n evs) s)"
proof -
  obtain c where c: "t_clients s p = Some c" using inv al by (fastforce simp: t_inv_def fine_def ended_def split: option.splits)
  let ?e = "(t_env s p)\<lparr>e_pbuf := False\<rparr>"
  have ci: "client_inv c ?e" "t_num s > 0" using t_inv_client [OF inv c] by (simp_all add: client_inv_pbuf)
  have "answers p s (client_sent_func (run_sync p evs) lw p n (put p (Some c) (?e\<lparr>e_acked := e_acked ?e + n\<rparr>) s))"
    using al by (intro client_sent_put [OF ci]) simp_all
  from t_ok_answers [OF inv c _ this] show ?thesis using t_before_put [OF c] by simp
qed

lemma t_err_ok:
  assumes inv: "t_inv s" and al: "t_allowed (T_Err p lw) s"
  shows "t_ok (T_Err p lw) (t_handle (T_Err p lw) s)"
proof -
  obtain c where c: "t_clients s p = Some c" using inv al by (fastforce simp: t_inv_def fine_def ended_def split: option.splits)
  have ci: "client_inv c (t_env s p)" "t_num s > 0" using t_inv_client [OF inv c] by simp_all
  from client_err_put [OF ci, of lw p] al obtain X e where
    "client_err_func lw p (put p (Some c) (no_pcb (t_env s p)) s) = Some (put p X e s)" "fine X e" by auto
  then show ?thesis using t_ok_plain [OF inv c _ \<open>fine X e\<close>, of "T_Err p lw" 0] t_before_put [OF c] by simp
qed

lemma t_socks_ok:
  assumes inv: "t_inv s" and al: "t_allowed (T_Socks p lw ev) s"
  shows "t_ok (T_Socks p lw ev) (t_handle (T_Socks p lw ev) s)"
proof -
  have "fine (t_clients s p) (t_env s p)" using inv by (simp add: t_inv_def)
  then obtain c where c: "t_clients s p = Some c"
    using al by (cases ev; cases "t_clients s p") (auto simp: fine_def ended_def split: option.splits)
  have ci: "client_inv c (t_env s p)" "t_num s > 0" using t_inv_client [OF inv c] by simp_all
  have "good p (t_env s p) s (se_handle lw p ev s)" using se_put [OF ci, of p ev lw] al put_self [OF c] by simp
  then obtain X e where "se_handle lw p ev s = Some (put p X e s)" "fine X e" unfolding good_def by blast
  then show ?thesis using t_ok_plain [OF inv c _ \<open>fine X e\<close>, of "T_Socks p lw ev" 0] by simp
qed

lemma t_murder_ok:
  assumes inv: "t_inv s" and c: "t_clients s p = Some c"
  shows "t_ok (T_Murder p) (t_handle (T_Murder p) s)"
proof -
  have ci: "client_inv c (t_env s p)" "t_num s > 0" using t_inv_client [OF inv c] by simp_all
  from client_murder_put [OF ci, of p] obtain e where e: "client_murder p s = Some (put p None e s)" "ended e"
    using put_self [OF c] by auto
  then have "fine None e" by (simp add: fine_def)
  from t_ok_plain [OF inv c _ this, of "T_Murder p" 0] e show ?thesis by simp
qed

lemma t_handle_ok:
  assumes inv: "t_inv s" and al: "t_allowed ev s"
  shows "t_ok ev (t_handle ev s)"
proof (cases ev)
  case (T_Accept mem username append_source concat_ok socks_ok local remote evs)
  show ?thesis
  proof (cases mem)
    case None
    then show ?thesis using T_Accept inv by (simp add: listener_accept_func_def t_ok_def t_contract_def)
  next
    case (Some pc)
    then show ?thesis using T_Accept t_accept_ok [OF inv] al by (cases pc) auto
  qed
qed (use inv al t_recv_ok t_sent_ok t_err_ok t_socks_ok t_murder_ok in auto)

lemma t_inv_init: "t_inv t_init"
  by (simp add: t_inv_def t_init_def fine_def ended_def no_env_def)

definition t_step :: "t2s \<Rightarrow> tcp_ev \<Rightarrow> t2s \<Rightarrow> bool" where
  "t_step s ev s' \<longleftrightarrow> t_allowed ev s \<and> (\<exists>r. t_handle ev s = Some (s', r))"

interpretation tcp: event_system t_inv "\<lambda>s ev. t_allowed ev s" "\<lambda>s ev. t_handle ev s" t_step
proof unfold_locales
  fix s ev assume "t_inv s" and "t_allowed ev s"
  from t_handle_ok [OF this] show "\<exists>s' r. t_handle ev s = Some (s', r) \<and> t_inv s'" by (auto simp: t_ok_def split: option.splits)
qed (auto simp: t_step_def)

lemma t_run_steps: "t_run evs s = Some s' \<Longrightarrow> steps t_step s evs s'"
proof (induction evs arbitrary: s)
  case (Cons ev evs)
  then obtain s1 r where "t_allowed ev s" "t_handle ev s = Some (s1, r)" "t_run evs s1 = Some s'" by (auto split: if_splits bind_splits)
  then show ?case using Cons.IH by (intro steps_Cons [where s' = s1]) (auto simp: t_step_def)
qed auto

lemma t_inv_reached: "t_run evs t_init = Some s \<Longrightarrow> t_inv s"
  by (rule tcp.reached_inv [OF t_run_steps t_inv_init])

subsection \<open>Ends that close with data on the way\<close>

lemma put_inj: "put p X e s = put p Y e' s \<Longrightarrow> X = Y \<and> e = e'"
  by (metis put_proj(1,2))

text \<open>A client that was closed with data in the buffer is freed when SOCKS has sent all of it.\<close>

lemma flush_put:
  assumes "client_inv c e" and "t_num s > 0" and "tc_client_closed c" and "tc_socks_up c" and "length (tc_buf c) = m"
  shows "\<exists>e'. run_sync p (replicate m (lw, SE_SendDone 1)) (put p (Some c) e s) = Some (put p None e' s) \<and> e_sent e' = e_accepted e"
  using assms(1,3-)
proof (induction m arbitrary: c e)
  case 0
  then show ?case by (simp add: client_inv_def)
next
  case (Suc m)
  have up: "upward c e" and so: "\<not> tc_socks_closed c" using Suc.prems by (auto simp: client_inv_def base_def)
  have "tc_buf c \<noteq> []" using Suc.prems(4) by auto
  then obtain b where b: "e_sending e = Some b" "b \<noteq> []" using up so Suc.prems(3) by (auto simp: upward_def sending_ok_def split: option.splits)
  then have b1: "0 < (1::nat)" "1 \<le> length b" by (cases b; simp)+
  note run = se_send_done_run [OF Suc.prems(1) assms(2) b(1) b1, of lw p]
  have al: "se_allowed p (SE_SendDone 1) (put p (Some c) e s)" using b b1 by (simp add: put_simps)
  let ?c = "c\<lparr>tc_buf := drop 1 (tc_buf c)\<rparr>"
  show ?case
  proof (cases "drop 1 (tc_buf c) = []")
    case True
    then have m: "m = 0" "tc_buf c = b" using Suc.prems(4) b(2) up sending_prefix [OF Suc.prems(1) b(1)]
      by (cases "tc_buf c"; cases b; auto)+
    let ?e = "e\<lparr>e_sending := None, e_sent := e_sent e @ take 1 b\<rparr>"
    have "se_handle lw p (SE_SendDone 1) (put p (Some c) e s) = Some (put p None (no_socks ?e) s)"
      unfolding run using True Suc.prems(2) by (simp add: freed_socks_def)
    moreover have "e_sent (no_socks ?e) = e_accepted e" using up m Suc.prems(4) by (simp add: upward_def no_socks_def)
    ultimately show ?thesis using al m(1) by (intro exI [of _ "no_socks ?e"]) simp
  next
    case False
    let ?e = "e\<lparr>e_sending := Some (drop 1 (tc_buf c)), e_sent := e_sent e @ take 1 b\<rparr>"
    have r: "se_handle lw p (SE_SendDone 1) (put p (Some c) e s) = Some (put p (Some ?c) ?e s)" unfolding run using False by simp
    have "good p e s (se_handle lw p (SE_SendDone 1) (put p (Some c) e s))" by (rule se_put [OF Suc.prems(1) assms(2) al])
    then obtain X e' where "put p (Some ?c) ?e s = put p X e' s" "fine X e'" unfolding good_def r by blast
    then have "client_inv ?c ?e" using put_inj [of p "Some ?c" ?e s X e'] by (auto simp: fine_def)
    from Suc.IH [OF this] Suc.prems obtain e'' where
      "run_sync p (replicate m (lw, SE_SendDone 1)) (put p (Some ?c) ?e s) = Some (put p None e'' s)" "e_sent e'' = e_accepted ?e" by auto
    then show ?thesis using al r by (intro exI [of _ e'']) simp
  qed
qed


text \<open>When SOCKS has closed and lwIP has room, the rest is queued as soon as earlier data is confirmed.\<close>

lemma send_out_ready:
  assumes b: "base c e" and f: "filled c e" and c: "\<not> tc_client_closed c" "tc_socks_up c" "\<not> tc_recv_waiting c" and e: "e_pcb e"
    and n: "t_num s > 0" and lw: "lw_ready lw"
  shows "client_socks_recv_send_out lw p (put p (Some c) e s) =
    Some (put p (Some (c\<lparr>tc_recv_buf_sent := tc_recv_buf_used c,
        tc_recv_tcp_pending := tc_recv_tcp_pending c + (tc_recv_buf_used c - tc_recv_buf_sent c), tc_recv_buf_used := -1\<rparr>))
      (e\<lparr>e_written := e_received e\<rparr>) s, 0)"
proof -
  have "tc_recv_buf_used c > 0" "tc_recv_buf_sent c < tc_recv_buf_used c" "e_written e @ drop (nat (tc_recv_buf_sent c)) (tc_recv_buf c) = e_received e"
    using f by (auto simp: filled_def)
  then show ?thesis using send_out_loop_ready [OF b f c(1) e c(2) n lw, of p 0] c e lw
    by (simp add: client_socks_recv_send_out_def put_simps lw_ready_def)
qed

lemma sent_rest_put:
  assumes inv: "client_inv c e" and n: "t_num s > 0" and lw: "lw_ready lw" and cl: "tc_socks_closed c"
    and e': "e' = e\<lparr>e_pbuf := False, e_acked := e_acked e + nat (tc_recv_tcp_pending c)\<rparr>"
  shows "tc_recv_buf_used c = -1 \<Longrightarrow> e_written e = e_received e \<and> (\<exists>e''. client_sent_func sync lw p (nat (tc_recv_tcp_pending c)) (put p (Some c) e' s)
      = Some (put p None e'' s, ERR_ABRT) \<and> e_written e'' = e_received e \<and> e_acked e'' = length (e_received e))"
    and "tc_recv_buf_used c \<noteq> -1 \<Longrightarrow> \<exists>c' e''. client_sent_func sync lw p (nat (tc_recv_tcp_pending c)) (put p (Some c) e' s)
      = Some (put p (Some c') e'' s, ERR_OK) \<and> e_written e'' = e_received e \<and> e_received e'' = e_received e \<and> tc_recv_buf_used c' = -1 \<and> tc_socks_closed c'"
proof -
  have c: "\<not> tc_client_closed c" "tc_socks_up c" "e_pcb e" "\<not> e_socks e" and down: "downward c e"
    using inv cl by (auto simp: client_inv_def base_def pcb_open_def)
  have pend: "tc_recv_tcp_pending c > 0" and po: "pending_ok c e" using down cl by (auto simp: downward_def drained_def filled_def)
  let ?c = "c\<lparr>tc_recv_tcp_pending := 0\<rparr>"
  { assume u: "tc_recv_buf_used c = -1"
    then have dr: "drained c e" using down by (auto simp: downward_def filled_def)
    have "client_sent_func sync lw p (nat (tc_recv_tcp_pending c)) (put p (Some c) e' s) = Some (freed_client p ?c (no_pcb e') s, ERR_ABRT)"
      using c u cl pend n by (simp add: client_sent_func_def put_simps e')
    also have "\<dots> = Some (put p None ((no_pcb e')\<lparr>e_dead_client := True\<rparr>) s, ERR_ABRT)" using cl by (simp add: freed_client_def)
    finally show "e_written e = e_received e \<and> (\<exists>e''. client_sent_func sync lw p (nat (tc_recv_tcp_pending c)) (put p (Some c) e' s)
      = Some (put p None e'' s, ERR_ABRT) \<and> e_written e'' = e_received e \<and> e_acked e'' = length (e_received e))"
      using dr po pend by (intro conjI exI [of _ "(no_pcb e')\<lparr>e_dead_client := True\<rparr>"]) (auto simp: drained_def e' no_pcb_def pending_ok_def) }
  { assume u: "tc_recv_buf_used c \<noteq> -1"
    then have f: "filled c e" "tc_recv_waiting c" using down by (auto simp: downward_def drained_def)
    then have us: "tc_recv_buf_used c > 0" "tc_recv_buf_sent c < tc_recv_buf_used c" by (auto simp: filled_def)
    let ?c2 = "?c\<lparr>tc_recv_waiting := False\<rparr>"
    have f2: "filled ?c2 e'" using f(1) po pend by (simp add: filled_def pending_ok_def e')
    have b2: "base ?c2 e'" using client_invD(1) [OF inv] c cl by (simp add: base_def upward_def e')
    have c2: "\<not> tc_client_closed ?c2" "tc_socks_up ?c2" "\<not> tc_recv_waiting ?c2" "e_pcb e'" using c by (simp_all add: e')
    have run: "client_sent_func sync lw p (nat (tc_recv_tcp_pending c)) (put p (Some c) e' s) =
        client_socks_recv_send_out lw p (put p (Some ?c2) e' s) \<bind> sent_done sync p"
      using sent_filled_run [OF c(1,2) us f(2), of "nat (tc_recv_tcp_pending c)" sync lw p e' s] pend by simp
    let ?c' = "?c2\<lparr>tc_recv_buf_sent := tc_recv_buf_used c, tc_recv_tcp_pending := tc_recv_buf_used c - tc_recv_buf_sent c, tc_recv_buf_used := -1\<rparr>"
    have "client_sent_func sync lw p (nat (tc_recv_tcp_pending c)) (put p (Some c) e' s) = Some (put p (Some ?c') (e'\<lparr>e_written := e_received e'\<rparr>) s, ERR_OK)"
      unfolding run send_out_ready [OF b2 f2 c2 n lw, of p] using us cl by (cases c) (simp add: put_simps sent_done_def)
    then show "\<exists>c' e''. client_sent_func sync lw p (nat (tc_recv_tcp_pending c)) (put p (Some c) e' s)
      = Some (put p (Some c') e'' s, ERR_OK) \<and> e_written e'' = e_received e \<and> e_received e'' = e_received e \<and> tc_recv_buf_used c' = -1 \<and> tc_socks_closed c'"
      using cl by (intro exI [of _ ?c'] exI [of _ "e'\<lparr>e_written := e_received e'\<rparr>"]) (simp add: e') }
qed


subsection \<open>Correctness of the relay\<close>

text \<open>
  C2. In every run, whatever the order of events, whatever lwIP answers and however SOCKS fragments:
  what SOCKS has sent for a client, followed by the buffer, is what was accepted from lwIP, and the
  buffer never exceeds the window; what was queued to lwIP, followed by the unsent part of the receive
  buffer, is what SOCKS has received, and \<open>socks_recv_tcp_pending\<close> counts the bytes that lwIP has not
  confirmed.
\<close>

theorem tcp_relay:
  assumes "t_run evs t_init = Some s" and "t_clients s p = Some c"
  shows "e_accepted (t_env s p) = e_sent (t_env s p) @ tc_buf c \<and> length (tc_buf c) \<le> TCP_WND
    \<and> (tc_socks_up c \<and> \<not> tc_client_closed c \<longrightarrow>
         e_received (t_env s p) = e_written (t_env s p)
           @ (if tc_recv_buf_used c = -1 then [] else drop (nat (tc_recv_buf_sent c)) (tc_recv_buf c))
         \<and> tc_recv_tcp_pending c = int (length (e_written (t_env s p))) - int (e_acked (t_env s p)))"
proof -
  have "client_inv c (t_env s p)" using t_inv_client [OF t_inv_reached [OF assms(1)] assms(2)] by simp
  then show ?thesis by (auto simp: inv_defs)
qed

definition example_lwip :: lwip_env where
  "example_lwip = \<lparr>lw_sndbuf = (\<lambda>_. 1), lw_write = (\<lambda>_. ERR_OK), lw_output = ERR_OK, lw_close = ERR_OK\<rparr>"

definition example_memory :: tcp_client where
  "example_memory = \<lparr>tc_local_addr = BAddr_None, tc_remote_addr = BAddr_None, tc_client_closed = True, tc_buf = [9], tc_socks_username = None,
     tc_socks_up = True, tc_socks_closed = True, tc_recv_buf = [], tc_recv_buf_used = 7, tc_recv_buf_sent = 3, tc_recv_waiting = True,
     tc_recv_tcp_pending = 4\<rparr>"

definition example_run :: "tcp_ev list" where
  "example_run =
     [T_Accept (Some (5, example_memory)) (Some ''u'') True True True (BAddr_IPv4 1 80) (BAddr_IPv4 2 1000) [],
      T_Socks 5 example_lwip (SE_Event BSOCKSCLIENT_EVENT_UP),
      T_Recv 5 example_lwip (Some [1, 2, 3]) [(example_lwip, SE_SendDone 1)],
      T_Socks 5 example_lwip (SE_RecvDone [7, 8])]"

definition example_name :: "string option" where
  "example_name = own_username (Some ''u'') True (BAddr_IPv4 2 1000)"

definition example_client :: "bytes \<Rightarrow> bytes \<Rightarrow> int \<Rightarrow> int \<Rightarrow> bool \<Rightarrow> tcp_client" where
  "example_client buf rbuf sent pending waiting = \<lparr>tc_local_addr = BAddr_IPv4 1 80, tc_remote_addr = BAddr_IPv4 2 1000,
     tc_client_closed = False, tc_buf = buf, tc_socks_username = example_name, tc_socks_up = True, tc_socks_closed = False,
     tc_recv_buf = rbuf, tc_recv_buf_used = -1, tc_recv_buf_sent = sent, tc_recv_waiting = waiting, tc_recv_tcp_pending = pending\<rparr>"

definition example_env :: "bytes option \<Rightarrow> bytes \<Rightarrow> bytes \<Rightarrow> bytes \<Rightarrow> tcp_env" where
  "example_env sending accepted sent received =
     \<lparr>e_pcb = True, e_err_cb = True, e_recv_cb = True, e_sent_cb = True, e_dead_client = False, e_pbuf = False,
      e_socks = True, e_up = True, e_sending = sending, e_receiving = True,
      e_accepted = accepted, e_sent = sent, e_received = received, e_written = received, e_acked = 0\<rparr>"

definition example_base :: t2s where
  "example_base = t_init\<lparr>t_list := [5], t_num := 1, t_auth_username := example_name\<rparr>"

definition example_state :: t2s where
  "example_state = put 5 (Some (example_client [2, 3] [7, 8] 2 2 False)) (example_env (Some [2, 3]) [1, 2, 3] [1] [7, 8]) example_base"

lemmas example_defs = example_client_def example_env_def example_memory_def accepted_client_def accepted_env_def no_env_def
  CLIENT_SOCKS_RECV_BUF_SIZE_def TCP_WND_def

lemma t_run_step: "t_allowed ev s \<Longrightarrow> t_handle ev s = Some (s', r) \<Longrightarrow> t_run (ev # evs) s = t_run evs s'"
  by simp

lemma example_accept:
  "t_handle (T_Accept (Some (5, example_memory)) (Some ''u'') True True True (BAddr_IPv4 1 80) (BAddr_IPv4 2 1000) []) t_init
     = Some (put 5 (Some (accepted_client example_memory example_name (BAddr_IPv4 1 80) (BAddr_IPv4 2 1000))) accepted_env example_base, 0)"
  unfolding t_handle.simps option.case prod.case
  by (subst accept_run) (simp_all add: t_init_def example_base_def auth_username_def example_name_def put_simps accepted_env_def no_env_def)

lemma example_up:
  "t_handle (T_Socks 5 example_lwip (SE_Event BSOCKSCLIENT_EVENT_UP))
      (put 5 (Some (accepted_client example_memory example_name (BAddr_IPv4 1 80) (BAddr_IPv4 2 1000))) accepted_env s)
     = Some (put 5 (Some (example_client [] [] 3 0 True)) (example_env None [] [] []) s, 0)"
  by (simp add: se_handle_def client_socks_handler_def client_socks_recv_initiate_def put_simps example_defs)

lemma example_recv:
  "t_handle (T_Recv 5 example_lwip (Some [1, 2, 3]) [(example_lwip, SE_SendDone 1)])
      (put 5 (Some (example_client [] [] 3 0 True)) (example_env None [] [] []) s)
     = Some (put 5 (Some (example_client [2, 3] [] 3 0 True)) (example_env (Some [2, 3]) [1, 2, 3] [1] []) s, 0)"
  by (simp add: t_before_def client_recv_func_def client_send_to_socks_def se_handle_def client_socks_send_handler_done_def put_simps example_defs)

lemma example_ready: "lw_ready example_lwip"
  by (simp add: lw_ready_def example_lwip_def)

lemma example_received:
  assumes "t_num s > 0"
  shows "t_handle (T_Socks 5 example_lwip (SE_RecvDone [7, 8]))
      (put 5 (Some (example_client [2, 3] [] 3 0 True)) (example_env (Some [2, 3]) [1, 2, 3] [1] []) s)
     = Some (put 5 (Some (example_client [2, 3] [7, 8] 2 2 False)) (example_env (Some [2, 3]) [1, 2, 3] [1] [7, 8]) s, 0)"
proof -
  let ?c = "(example_client [2, 3] [7, 8] 0 0 False)\<lparr>tc_recv_buf_used := 2\<rparr>"
  let ?e = "(example_env (Some [2, 3]) [1, 2, 3] [1] [7, 8])\<lparr>e_receiving := False, e_written := []\<rparr>"
  have "client_socks_recv_send_out example_lwip 5 (put 5 (Some ?c) ?e s)
      = Some (put 5 (Some (example_client [2, 3] [7, 8] 2 2 False)) (?e\<lparr>e_written := [7, 8]\<rparr>) s, 0)"
    using assms example_ready
    by (subst send_out_ready) (simp_all add: base_def upward_def sending_ok_def filled_def pending_ok_def example_defs)
  then show ?thesis
    by (simp add: se_handle_def client_socks_recv_handler_done_def client_socks_recv_initiate_def put_simps example_defs)
qed

lemma example_reached: "t_run example_run t_init = Some example_state"
proof -
  have n: "t_num example_base > 0" by (simp add: example_base_def)
  show ?thesis unfolding example_run_def example_state_def
    by (subst t_run_step [OF _ example_accept], simp add: t_init_def,
        (subst t_run_step [OF _ example_up] t_run_step [OF _ example_recv] t_run_step [OF _ example_received [OF n]],
         simp add: put_simps example_defs)+, simp)
qed

lemma t_run_append: "t_run (evs @ evs') s = t_run evs s \<bind> t_run evs'"
  by (induction evs arbitrary: s) (auto split: bind_splits prod.splits)

theorem tcp_relay_witness:
  "t_run example_run t_init = Some example_state \<and> e_accepted (t_env example_state 5) = [1] @ [2, 3]
    \<and> e_received (t_env example_state 5) = e_written (t_env example_state 5)"
proof -
  have c: "t_clients example_state 5 = Some (example_client [2, 3] [7, 8] 2 2 False)" by (simp add: example_state_def put_simps)
  from tcp_relay [OF example_reached c] show ?thesis
    using example_reached by (simp add: example_state_def put_simps example_defs)
qed



text \<open>
  C4. No client waits for nothing. In every run, a client has an open end; while SOCKS is connecting its
  first event is still to come; once it is up, a send is going on whenever there is data for it, of a prefix of the
  buffer; while the \<open>pcb\<close> is open, SOCKS is receiving or lwIP has still data to confirm; a client
  whose \<open>pcb\<close> is closed has data to send, and one whose SOCKS end is closed has data to be confirmed.
\<close>

theorem tcp_no_stall:
  assumes "t_run evs t_init = Some s" and "t_clients s p = Some c"
  shows "\<not> (tc_client_closed c \<and> tc_socks_closed c)
    \<and> (\<not> tc_socks_up c \<longrightarrow> t_allowed (T_Socks p lw (SE_Event BSOCKSCLIENT_EVENT_UP)) s)
    \<and> (tc_socks_up c \<and> \<not> tc_socks_closed c \<and> tc_buf c \<noteq> [] \<longrightarrow>
         (\<exists>b rest. e_sending (t_env s p) = Some b \<and> b \<noteq> [] \<and> tc_buf c = b @ rest))
    \<and> (tc_socks_up c \<and> \<not> tc_client_closed c \<longrightarrow>
         e_receiving (t_env s p) \<or> t_allowed (T_Sent p lw (nat (tc_recv_tcp_pending c)) evs') s)
    \<and> (tc_client_closed c \<longrightarrow> tc_buf c \<noteq> [])
    \<and> (tc_socks_closed c \<longrightarrow> t_allowed (T_Sent p lw (nat (tc_recv_tcp_pending c)) evs') s)"
proof -
  have "client_inv c (t_env s p)" using t_inv_client [OF t_inv_reached [OF assms(1)] assms(2)] by simp
  note i = client_invD [OF this] this
  have u: "\<not> tc_socks_up c \<longrightarrow> \<not> tc_socks_closed c" "tc_client_closed c \<longrightarrow> tc_buf c \<noteq> []" using i(7) by (auto simp: client_inv_def)
  have sent: "t_allowed (T_Sent p lw (nat (tc_recv_tcp_pending c)) evs') s" if "tc_socks_up c" "\<not> tc_client_closed c" "tc_recv_tcp_pending c > 0"
    using that i(2,3) by (auto simp: pcb_open_def downward_def drained_def filled_def pending_ok_def)
  have "tc_socks_up c \<and> \<not> tc_client_closed c \<longrightarrow> e_receiving (t_env s p) \<or> tc_recv_tcp_pending c > 0"
    and "tc_socks_closed c \<longrightarrow> tc_recv_tcp_pending c > 0" using i(3,4) u(1) by (auto simp: downward_def split: if_splits)
  then show ?thesis using sent i(1,4) u by (auto simp: base_def upward_def sending_ok_def split: option.splits)
qed

theorem tcp_no_stall_witness:
  "(\<exists>b rest. e_sending (t_env example_state 5) = Some b \<and> b \<noteq> [] \<and> [2, 3] = b @ rest)
    \<and> (e_receiving (t_env example_state 5) \<or> t_allowed (T_Sent 5 example_lwip 2 []) example_state)"
proof -
  have c: "t_clients example_state 5 = Some (example_client [2, 3] [7, 8] 2 2 False)" by (simp add: example_state_def put_simps)
  from tcp_no_stall [OF example_reached c, of example_lwip "[]"] show ?thesis by (simp add: example_client_def)
qed


lemma example_close:
  "t_run (example_run @ [T_Recv 5 example_lwip None []]) t_init =
    Some (put 5 (Some ((example_client [2, 3] [7, 8] 2 2 False)\<lparr>tc_client_closed := True\<rparr>))
      ((no_pcb (example_env (Some [2, 3]) [1, 2, 3] [1] [7, 8]))\<lparr>e_dead_client := True\<rparr>) example_base)"
  unfolding t_run_append example_reached
  by (simp add: example_state_def put_simps t_before_def client_recv_func_def freed_client_def example_base_def example_defs no_pcb_def)



lemma example_socks_close:
  "t_run (example_run @ [T_Socks 5 example_lwip (SE_Event BSOCKSCLIENT_EVENT_ERROR_CLOSED)]) t_init =
    Some (put 5 (Some ((example_client [2, 3] [7, 8] 2 2 False)\<lparr>tc_socks_closed := True\<rparr>))
      (no_socks ((example_env (Some [2, 3]) [1, 2, 3] [1] [7, 8])\<lparr>e_recv_cb := False\<rparr>)) example_base)"
  unfolding t_run_append example_reached
  by (simp add: example_state_def put_simps se_handle_def client_socks_handler_def freed_socks_def example_base_def example_defs)



subsection \<open>Two details\<close>

text \<open>
  When the SOCKS end fails while received data is being passed to it, the \<open>pcb\<close> is closed and
  \<open>client_recv_func\<close> returns \<open>ERR_ABRT\<close> without having freed the packet buffer, which lwIP does not free
  either.
\<close>

lemma recv_abort_keeps_pbuf:
  "\<exists>s. t_handle (T_Recv 5 example_lwip (Some [4]) [(example_lwip, SE_Event BSOCKSCLIENT_EVENT_ERROR)])
      (put 5 (Some (example_client [] [] 3 0 True)) (example_env None [] [] []) example_base) = Some (s, ERR_ABRT)
    \<and> e_pbuf (t_env s 5)"
  by (simp add: t_before_def client_recv_func_def client_send_to_socks_def se_handle_def client_socks_handler_def put_simps
      freed_socks_def no_pcb_def no_socks_def example_base_def example_defs)

text \<open>
  With \<open>append_source_to_username\<close>, accepting a connection replaces the user name that all SOCKS clients
  share by its own, also for clients that have not authenticated yet.
\<close>

lemma accept_replaces_username:
  assumes "t_clients s p = None" and "t_num s \<ge> 0"
  shows "\<exists>s'. t_handle (T_Accept (Some (p, c)) (Some u) True True True local remote []) s = Some (s', ERR_OK)
    \<and> t_auth_username s' = own_username (Some u) True remote \<and> (\<forall>q. q \<noteq> p \<longrightarrow> t_clients s' q = t_clients s q)"
  unfolding t_handle.simps option.case prod.case
  by (subst accept_run [OF assms]) (simp add: put_simps auth_username_def accepted_env_def no_env_def put_def)

end
