(* ===== verification/Device.thy ===== *)
theory Device
  imports IpUdp SocksUdpGw
begin

section \<open>The device\<close>

text \<open>
  The part of \<open>tun2socks/tun2socks.c\<close> between the TUN device and the rest: packets read from the device
  are UDP datagrams for the gateway client or input for lwIP, and datagrams from the gateway client
  and output of lwIP are packets for the device. The buffer \<open>device_write_buf\<close> is a block of the size of the MTU
  of the device; writing beyond it has no result, as has a failed assertion.
\<close>

subsection \<open>Options and MTU\<close>

text \<open>
  Whether \<open>options.udpgw_remote_server_addr\<close>, \<open>options.netif_ip6addr\<close> and \<open>options.dnsgw\<close> are given.
\<close>

record device_options =
  opt_udpgw_remote_server_addr :: bool
  opt_netif_ip6addr :: bool
  opt_dnsgw :: bool

text \<open>The largest UDP payload, as \<open>main\<close> computes it from the MTU of the device; \<open>None\<close> if it gives up.\<close>

definition main_udp_mtu :: "nat \<Rightarrow> device_options \<Rightarrow> int \<Rightarrow> int option" where
  "main_udp_mtu size_max opts device_mtu =
     (let udp_mtu = device_mtu - int (sizeof_ipv4_header + sizeof_udp_header);
          udp_mtu = (if opt_netif_ip6addr opts
                     then (let udp_ip6_mtu = device_mtu - int (sizeof_ipv6_header + sizeof_udp_header)
                           in if udp_mtu < udp_ip6_mtu then udp_ip6_mtu else udp_mtu)
                     else udp_mtu);
          udp_mtu = (if udp_mtu < 0 then 0 else udp_mtu);
          udpgw_mtu = udpgw_compute_mtu size_max udp_mtu
      in if udpgw_mtu < 0 \<or> udpgw_mtu > UINT16_MAX then None else Some udp_mtu)"

subsection \<open>From the device\<close>

text \<open>
  The cases of the \<open>switch\<close> in \<open>process_device_udp_packet\<close>: \<open>Some None\<close> is \<open>goto fail\<close>, otherwise the result is local
  and remote address, \<open>is_dns\<close> and the payload.
\<close>

type_synonym datagram = "BAddr \<times> BAddr \<times> bool \<times> bytes"

definition device_udp4 :: "device_options \<Rightarrow> bytes \<Rightarrow> datagram option option" where
  "device_udp4 opts data =
     (if length data < sizeof_ipv4_header \<or> data ! 9 \<noteq> of_nat IPV4_PROTOCOL_UDP then Some None
      else do {
        r \<leftarrow> ipv4_check data;
        case r of
          None \<Rightarrow> Some None
        | Some (ipv4_header, data) \<Rightarrow>
            (case udp_check data of
               None \<Rightarrow> Some None
             | Some (udp_header, data) \<Rightarrow> do {
                 let checksum_in_packet = udp_csum udp_header;
                 let udp_header = udp_header\<lparr>udp_csum := 0\<rparr>;
                 checksum_computed \<leftarrow> udp_checksum udp_header data (ip4_source_address ipv4_header) (ip4_destination_address ipv4_header);
                 if checksum_in_packet \<noteq> checksum_computed then Some None
                 else Some (Some (BAddr_IPv4 (ip4_source_address ipv4_header) (udp_source_port udp_header),
                                  BAddr_IPv4 (ip4_destination_address ipv4_header) (udp_dest_port udp_header),
                                  opt_dnsgw opts \<and> udp_dest_port udp_header = hton16 53, data)) }) })"

definition device_udp6 :: "device_options \<Rightarrow> bytes \<Rightarrow> datagram option option" where
  "device_udp6 opts data =
     (if \<not> opt_netif_ip6addr opts then Some None
      else if length data < sizeof_ipv6_header \<or> data ! 6 \<noteq> of_nat IPV6_NEXT_UDP then Some None
      else (case ipv6_check data of
          None \<Rightarrow> Some None
        | Some (ipv6_header, data) \<Rightarrow>
            (case udp_check data of
               None \<Rightarrow> Some None
             | Some (udp_header, data) \<Rightarrow> do {
                 let checksum_in_packet = udp_csum udp_header;
                 let udp_header = udp_header\<lparr>udp_csum := 0\<rparr>;
                 checksum_computed \<leftarrow> udp_ip6_checksum udp_header data (ip6_source_address ipv6_header) (ip6_destination_address ipv6_header);
                 if checksum_in_packet \<noteq> checksum_computed then Some None
                 else Some (Some (BAddr_IPv6 (ip6_source_address ipv6_header) (udp_source_port udp_header),
                                  BAddr_IPv6 (ip6_destination_address ipv6_header) (udp_dest_port udp_header), False, data)) })))"

definition device_udp_parse :: "device_options \<Rightarrow> bytes \<Rightarrow> datagram option option" where
  "device_udp_parse opts data =
     (let ip_version = (if length data > 0 then drop_bit 4 (data ! 0) else 0)
      in if ip_version = 4 then device_udp4 opts data
         else if ip_version = 6 then device_udp6 opts data
         else Some None)"

text \<open>
  \<open>Some None\<close> is the result 0. The parameters \<open>malloc\<close>, \<open>failure\<close> and \<open>room\<close> are those of
  \<open>SocksUdpGwClient_SubmitPacket\<close>.
\<close>

definition process_device_udp_packet ::
  "device_options \<Rightarrow> nat option \<Rightarrow> sg_failure option \<Rightarrow> (nat \<Rightarrow> bool) \<Rightarrow> nat \<Rightarrow> bytes \<Rightarrow> SocksUdpGwClient
    \<Rightarrow> (SocksUdpGwClient \<times> sg_call list) option option" where
  "process_device_udp_packet opts malloc failure room udp_mtu data client =
     (if \<not> opt_udpgw_remote_server_addr opts then Some None
      else do {
        r \<leftarrow> device_udp_parse opts data;
        case r of
          None \<Rightarrow> Some None
        | Some (local, remote, is_dns, data) \<Rightarrow>
            if length data > udp_mtu then Some None
            else do {
              res \<leftarrow> SocksUdpGwClient_SubmitPacket malloc failure room client local remote is_dns data;
              Some (Some res) } })"

datatype device_call =
    Device_read_done
  | Netif_input bytes
  | BTap_Send bytes

text \<open>\<open>pbuf_ok\<close> says whether \<open>pbuf_alloc\<close> succeeds.\<close>

definition device_read_handler_send ::
  "device_options \<Rightarrow> nat option \<Rightarrow> sg_failure option \<Rightarrow> (nat \<Rightarrow> bool) \<Rightarrow> bool \<Rightarrow> nat \<Rightarrow> bytes \<Rightarrow> SocksUdpGwClient
    \<Rightarrow> (SocksUdpGwClient \<times> sg_call list \<times> device_call list) option" where
  "device_read_handler_send opts malloc failure room pbuf_ok udp_mtu data client = do {
     r \<leftarrow> process_device_udp_packet opts malloc failure room udp_mtu data client;
     case r of
       Some (client, calls) \<Rightarrow> Some (client, calls, [Device_read_done])
     | None \<Rightarrow>
         if int (length data) > UINT16_MAX then Some (client, [], [Device_read_done])
         else if \<not> pbuf_ok then Some (client, [], [Device_read_done])
         else Some (client, [], [Device_read_done, Netif_input data]) }"

text \<open>Where \<open>netif_input_func\<close> passes a packet: to \<open>ip_input\<close>, to \<open>ip6_input\<close>, or nowhere.\<close>

datatype netif_target = Ip_input | Ip6_input | Pbuf_dropped

definition netif_input_func :: "device_options \<Rightarrow> bytes \<Rightarrow> netif_target" where
  "netif_input_func opts payload =
     (let ip_version = (if length payload > 0 then drop_bit 4 (payload ! 0) else 0)
      in if ip_version = 4 then Ip_input
         else if ip_version = 6 \<and> opt_netif_ip6addr opts then Ip6_input
         else Pbuf_dropped)"

subsection \<open>To the device\<close>

definition reply_ipv4_header :: "u32 \<Rightarrow> u32 \<Rightarrow> nat \<Rightarrow> ipv4_header" where
  "reply_ipv4_header source dest data_len = \<lparr>
     ip4_version4_ihl4 = IPV4_MAKE_VERSION_IHL sizeof_ipv4_header, ip4_ds = hton8 0,
     ip4_total_length = hton16 (of_nat (sizeof_ipv4_header + sizeof_udp_header + data_len)),
     ip4_identification = hton16 0, ip4_flags3_fragmentoffset13 = hton16 0, ip4_ttl = hton8 64,
     ip4_protocol = hton8 (of_nat IPV4_PROTOCOL_UDP), ip4_checksum = hton16 0,
     ip4_source_address = source, ip4_destination_address = dest\<rparr>"

definition reply_ipv6_header :: "bytes \<Rightarrow> bytes \<Rightarrow> nat \<Rightarrow> ipv6_header" where
  "reply_ipv6_header source dest data_len = \<lparr>
     ip6_version4_tc4 = hton8 (push_bit 4 6), ip6_tc4_fl4 = hton8 0, ip6_fl = hton16 0,
     ip6_payload_length = hton16 (of_nat (sizeof_udp_header + data_len)), ip6_next_header = hton8 (of_nat IPV6_NEXT_UDP),
     ip6_hop_limit = hton8 64, ip6_source_address = source, ip6_destination_address = dest\<rparr>"

definition reply_udp_header :: "u16 \<Rightarrow> u16 \<Rightarrow> nat \<Rightarrow> udp_header" where
  "reply_udp_header source dest data_len = \<lparr>
     udp_source_port = source, udp_dest_port = dest,
     udp_length = hton16 (of_nat (sizeof_udp_header + data_len)), udp_csum = hton16 0\<rparr>"

text \<open>The three \<open>memcpy\<close> and \<open>BTap_Send\<close>.\<close>

definition write_packet :: "bytes \<Rightarrow> bytes \<Rightarrow> bytes \<Rightarrow> bytes \<Rightarrow> (bytes \<times> device_call list) option" where
  "write_packet buf iph udph data = do {
     buf \<leftarrow> store buf 0 iph;
     buf \<leftarrow> store buf (length iph) udph;
     buf \<leftarrow> store buf (length iph + length udph) data;
     Some (buf, [BTap_Send (take (length iph + length udph + length data) buf)]) }"

text \<open>The MTU of the device is the length of \<open>buf\<close>, the buffer \<open>device_write_buf\<close>.\<close>

definition udpgw_client_handler_received ::
  "device_options \<Rightarrow> bytes \<Rightarrow> BAddr \<Rightarrow> BAddr \<Rightarrow> bytes \<Rightarrow> (bytes \<times> device_call list) option" where
  "udpgw_client_handler_received opts buf local remote data = do {
     ASSERT (opt_udpgw_remote_server_addr opts);
     ASSERT (is_ip_addr local);
     ASSERT (BAddr_type local = BAddr_type remote);
     case (local, remote) of
       (BAddr_IPv4 local_ip local_port, BAddr_IPv4 remote_ip remote_port) \<Rightarrow>
         if int (length data) > UINT16_MAX - int (sizeof_ipv4_header + sizeof_udp_header)
           \<or> int (length data) > int (length buf) - int (sizeof_ipv4_header + sizeof_udp_header) then Some (buf, [])
         else do {
           let iph = reply_ipv4_header remote_ip local_ip (length data);
           checksum \<leftarrow> ipv4_checksum iph [];
           let iph = iph\<lparr>ip4_checksum := checksum\<rparr>;
           let udph = reply_udp_header remote_port local_port (length data);
           checksum \<leftarrow> udp_checksum udph data (ip4_source_address iph) (ip4_destination_address iph);
           let udph = udph\<lparr>udp_csum := checksum\<rparr>;
           write_packet buf (ipv4_header_mem iph) (udp_header_mem udph) data }
     | (BAddr_IPv6 local_ip local_port, BAddr_IPv6 remote_ip remote_port) \<Rightarrow>
         if \<not> opt_netif_ip6addr opts then Some (buf, [])
         else if int (length data) > UINT16_MAX - int sizeof_udp_header
           \<or> int (length data) > int (length buf) - int (sizeof_ipv6_header + sizeof_udp_header) then Some (buf, [])
         else do {
           let iph = reply_ipv6_header remote_ip local_ip (length data);
           let udph = reply_udp_header remote_port local_port (length data);
           checksum \<leftarrow> udp_ip6_checksum udph data (ip6_source_address iph) (ip6_destination_address iph);
           let udph = udph\<lparr>udp_csum := checksum\<rparr>;
           write_packet buf (ipv6_header_mem iph) (udp_header_mem udph) data }
     | _ \<Rightarrow> Some (buf, []) }"

text \<open>
  Output of lwIP, a chain of chunks, which is not empty. One chunk is sent directly, several are collected in
  the buffer; what does not fit is dropped.
\<close>

fun collect_chunks :: "bytes list \<Rightarrow> nat \<Rightarrow> bytes \<Rightarrow> (bytes \<times> nat option) option" where
  "collect_chunks [] len buf = Some (buf, Some len)"
| "collect_chunks (c # cs) len buf =
     (if int (length c) > int (length buf) - int len then Some (buf, None)
      else do {
        buf \<leftarrow> store buf len c;
        collect_chunks cs (len + length c) buf })"

definition common_netif_output :: "bool \<Rightarrow> bytes list \<Rightarrow> bytes \<Rightarrow> (bytes \<times> device_call list) option" where
  "common_netif_output quitting chain buf =
     (if quitting then Some (buf, [])
      else case chain of
        [payload] \<Rightarrow> if length payload > length buf then Some (buf, []) else Some (buf, [BTap_Send payload])
      | _ \<Rightarrow> do {
          (buf, len) \<leftarrow> collect_chunks chain 0 buf;
          case len of
            None \<Rightarrow> Some (buf, [])
          | Some len \<Rightarrow> Some (buf, [BTap_Send (take len buf)]) })"

definition baddr_from_lwip :: "bool \<Rightarrow> u32 \<Rightarrow> bytes \<Rightarrow> u16 \<Rightarrow> BAddr" where
  "baddr_from_lwip is_ipv6 ip4 ip6 port_hostorder =
     (if is_ipv6 then BAddr_IPv6 ip6 (hton16 port_hostorder) else BAddr_IPv4 ip4 (hton16 port_hostorder))"


subsection \<open>Packets from the device\<close>

text \<open>No input makes the parser fail an assertion, and what it accepts has addresses of one family.\<close>

lemma udp_check_bounds:
  assumes "udp_check d = Some (h, payload)"
  shows "length payload \<le> 65527" and "length payload + 8 \<le> length d"
proof -
  have "unat (ntoh16 (udp_length h)) \<le> 65535" using unsigned_less [of "ntoh16 (udp_length h)", where ?'a = nat] by simp
  then show "length payload \<le> 65527" "length payload + 8 \<le> length d" using assms by (auto simp: udp_check_exact)
qed

definition datagram_ok :: "bytes \<Rightarrow> datagram option \<Rightarrow> bool" where
  "datagram_ok data r \<longleftrightarrow> (case r of None \<Rightarrow> True | Some (l, m, is_dns, payload) \<Rightarrow>
     is_ip_addr l \<and> is_ip_addr m \<and> addr_ok l \<and> addr_ok m \<and> BAddr_type l = BAddr_type m \<and> length payload + 28 \<le> length data)"

lemma device_udp4_total: "\<exists>r. device_udp4 opts data = Some r \<and> datagram_ok data r"
proof (cases "length data < sizeof_ipv4_header \<or> data ! 9 \<noteq> of_nat IPV4_PROTOCOL_UDP")
  case True
  then show ?thesis by (auto simp: device_udp4_def datagram_ok_def)
next
  case False
  obtain r where r: "ipv4_check data = Some r" using ipv4_check_result by blast
  show ?thesis
  proof (cases r)
    case None
    then show ?thesis using False r by (auto simp: device_udp4_def datagram_ok_def)
  next
    case (Some hd)
    obtain h d where h: "hd = (h, d)" by (cases hd)
    have len: "length d + 20 \<le> length data" using ipv4_check_result [of data h d] r Some h by auto
    show ?thesis
    proof (cases "udp_check d")
      case None
      then show ?thesis using False r Some h by (auto simp: device_udp4_def datagram_ok_def)
    next
      case u: (Some up)
      obtain uh payload where up: "up = (uh, payload)" by (cases up)
      note b = udp_check_bounds [OF u [unfolded up]]
      obtain c where "udp_checksum (uh\<lparr>udp_csum := 0\<rparr>) payload (ip4_source_address h) (ip4_destination_address h) = Some c"
        by (rule udp_checksum_field [OF b(1)])
      then show ?thesis using False r Some h u up b(2) len by (auto simp: device_udp4_def datagram_ok_def is_ip_addr_def Let_def)
    qed
  qed
qed

lemma device_udp6_total: "\<exists>r. device_udp6 opts data = Some r \<and> datagram_ok data r"
proof (cases "\<not> opt_netif_ip6addr opts \<or> length data < sizeof_ipv6_header \<or> data ! 6 \<noteq> of_nat IPV6_NEXT_UDP \<or> ipv6_check data = None")
  case True
  then show ?thesis by (auto simp: device_udp6_def datagram_ok_def)
next
  case False
  then obtain h d where h: "ipv6_check data = Some (h, d)" by auto
  then have a: "length (ip6_source_address h) = 16" "length (ip6_destination_address h) = 16" "length d + 40 \<le> length data"
    by (auto simp: ipv6_check_def ipv6_header_of_def Let_def split: if_splits)
  show ?thesis
  proof (cases "udp_check d")
    case None
    then show ?thesis using False h by (auto simp: device_udp6_def datagram_ok_def)
  next
    case u: (Some up)
    obtain uh payload where up: "up = (uh, payload)" by (cases up)
    note b = udp_check_bounds [OF u [unfolded up]]
    obtain c where "udp_ip6_checksum (uh\<lparr>udp_csum := 0\<rparr>) payload (ip6_source_address h) (ip6_destination_address h) = Some c"
      by (rule udp_ip6_checksum_field [OF b(1) a(1,2)])
    then show ?thesis using False h u up b(2) a by (auto simp: device_udp6_def datagram_ok_def is_ip_addr_def Let_def)
  qed
qed

lemma device_udp_parse_total: "\<exists>r. device_udp_parse opts data = Some r \<and> datagram_ok data r"
  using device_udp4_total [of opts data] device_udp6_total [of opts data] by (auto simp: device_udp_parse_def Let_def datagram_ok_def)

lemma device_udp_parseD:
  assumes "device_udp_parse opts data = Some (Some (l, r, is_dns, payload))"
  shows "is_ip_addr l" and "is_ip_addr r" and "addr_ok l" and "addr_ok r" and "BAddr_type l = BAddr_type r" and "length payload + 28 \<le> length data"
  using device_udp_parse_total [of opts data] assms by (simp_all add: datagram_ok_def)

subsection \<open>Packets for the device\<close>

lemma write_packet_ok:
  assumes "length iph + length udph + length data \<le> length buf"
  shows "\<exists>buf'. write_packet buf iph udph data = Some (buf', [BTap_Send (iph @ udph @ data)]) \<and> length buf' = length buf"
  using assms by (simp add: write_packet_def store_def)

lemma unat_u16: "n \<le> 65535 \<Longrightarrow> unat (of_nat n :: u16) = n"
  by (simp add: unsigned_of_nat take_bit_nat_eq_self)

lemma reply_header_simps:
  "ip4_source_address (reply_ipv4_header src dst n) = src" "ip4_destination_address (reply_ipv4_header src dst n) = dst"
  "ip6_source_address (reply_ipv6_header src6 dst6 n) = src6" "ip6_destination_address (reply_ipv6_header src6 dst6 n) = dst6"
  "udp_source_port (reply_udp_header sport dport n) = sport" "udp_dest_port (reply_udp_header sport dport n) = dport"
  "(reply_udp_header sport dport n)\<lparr>udp_csum := 0\<rparr> = reply_udp_header sport dport n"
  by (simp_all add: reply_ipv4_header_def reply_ipv6_header_def reply_udp_header_def hton16_def badvpn_reverse16_def mem16_def)

text \<open>What is written parses as a datagram from the remote to the local address.\<close>

lemma reply_parse4:
  assumes len: "length data \<le> 65507"
    and c: "ipv4_checksum (reply_ipv4_header src dst (length data)) [] = Some ic"
    and u: "udp_checksum (reply_udp_header sport dport (length data)) data src dst = Some uc"
  shows "device_udp_parse opts (ipv4_header_mem ((reply_ipv4_header src dst (length data))\<lparr>ip4_checksum := ic\<rparr>)
      @ udp_header_mem ((reply_udp_header sport dport (length data))\<lparr>udp_csum := uc\<rparr>) @ data)
    = Some (Some (BAddr_IPv4 src sport, BAddr_IPv4 dst dport, opt_dnsgw opts \<and> dport = hton16 53, data))"
proof -
  let ?ih = "(reply_ipv4_header src dst (length data))\<lparr>ip4_checksum := ic\<rparr>"
  let ?uh = "(reply_udp_header sport dport (length data))\<lparr>udp_csum := uc\<rparr>"
  let ?p = "udp_header_mem ?uh @ data"
  have l: "unat (of_nat (28 + length data) :: u16) = 28 + length data" "unat (of_nat (8 + length data) :: u16) = 8 + length data"
    by (rule unat_u16, use len in simp)+
  have "ipv4_check (ipv4_header_mem ?ih @ ?p @ []) = Some (Some (?ih, ?p))"
    by (rule ipv4_check_image) (use l c in \<open>simp_all add: reply_ipv4_header_def mem_simps ntoh_hton\<close>)
  moreover have "udp_check (udp_header_mem ?uh @ data @ []) = Some (?uh, data)"
    by (rule udp_check_image) (use l in \<open>simp add: reply_udp_header_def ntoh_hton\<close>)
  moreover have "(ipv4_header_mem ?ih @ ?p) ! 9 = 17" "drop_bit 4 ((ipv4_header_mem ?ih @ ?p) ! 0) = 4"
    by (simp_all add: ipv4_header_mem_def reply_ipv4_header_def mem16_def IPV4_MAKE_VERSION_IHL_def IPV4_PROTOCOL_UDP_def byte_id)
  ultimately show ?thesis using u
    by (simp add: device_udp_parse_def device_udp4_def mem_simps reply_header_simps IPV4_PROTOCOL_UDP_def Let_def)
qed


lemma reply_parse6:
  assumes len: "length data \<le> 65527" and a: "length src = 16" "length dst = 16" and o: "opt_netif_ip6addr opts"
    and u: "udp_ip6_checksum (reply_udp_header sport dport (length data)) data src dst = Some uc"
  shows "device_udp_parse opts (ipv6_header_mem (reply_ipv6_header src dst (length data))
      @ udp_header_mem ((reply_udp_header sport dport (length data))\<lparr>udp_csum := uc\<rparr>) @ data)
    = Some (Some (BAddr_IPv6 src sport, BAddr_IPv6 dst dport, False, data))"
proof -
  let ?ih = "reply_ipv6_header src dst (length data)"
  let ?uh = "(reply_udp_header sport dport (length data))\<lparr>udp_csum := uc\<rparr>"
  let ?p = "udp_header_mem ?uh @ data"
  have l: "unat (of_nat (8 + length data) :: u16) = 8 + length data" by (rule unat_u16) (use len in simp)
  have "ipv6_check (ipv6_header_mem ?ih @ ?p @ []) = Some (?ih, ?p)"
    by (rule ipv6_check_image) (use l a in \<open>simp_all add: reply_ipv6_header_def mem_simps ntoh_hton byte_id\<close>)
  moreover have "udp_check (udp_header_mem ?uh @ data @ []) = Some (?uh, data)"
    by (rule udp_check_image) (use l in \<open>simp add: reply_udp_header_def ntoh_hton\<close>)
  moreover have "(ipv6_header_mem ?ih @ ?p) ! 6 = 17" "drop_bit 4 ((ipv6_header_mem ?ih @ ?p) ! 0) = 6"
    by (simp_all add: ipv6_header_mem_def reply_ipv6_header_def mem16_def IPV6_NEXT_UDP_def byte_id)
  moreover have "length (ipv6_header_mem ?ih) = 40" using a by (simp add: ipv6_header_mem_def reply_ipv6_header_def mem_simps)
  ultimately show ?thesis using u o
    by (simp add: device_udp_parse_def device_udp6_def mem_simps reply_header_simps IPV6_NEXT_UDP_def Let_def)
qed

lemma received_ipv4:
  assumes o: "opt_udpgw_remote_server_addr opts" and fit: "length data + 28 \<le> length buf" "length data \<le> 65507"
  shows "\<exists>buf' pkt. udpgw_client_handler_received opts buf (BAddr_IPv4 lip lport) (BAddr_IPv4 rip rport) data = Some (buf', [BTap_Send pkt])
    \<and> length buf' = length buf \<and> length pkt = length data + 28
    \<and> device_udp_parse opts' pkt = Some (Some (BAddr_IPv4 rip rport, BAddr_IPv4 lip lport, opt_dnsgw opts' \<and> lport = hton16 53, data))"
proof -
  let ?ih = "reply_ipv4_header rip lip (length data)" and ?uh = "reply_udp_header rport lport (length data)"
  obtain ic where ic: "ipv4_checksum ?ih [] = Some ic"
    by (rule ipv4_checksum_field [of "[]" ?ih]) (simp_all add: reply_ipv4_header_def IPV4_MAKE_VERSION_IHL_def)
  obtain uc where uc: "udp_checksum ?uh data rip lip = Some uc" by (rule udp_checksum_field [of data ?uh rip lip]) (use fit in simp)
  let ?iph = "ipv4_header_mem (?ih\<lparr>ip4_checksum := ic\<rparr>)" and ?udph = "udp_header_mem (?uh\<lparr>udp_csum := uc\<rparr>)"
  have fits: "length ?iph + length ?udph + length data \<le> length buf" using fit by (simp add: mem_simps)
  obtain buf' where b: "write_packet buf ?iph ?udph data = Some (buf', [BTap_Send (?iph @ ?udph @ data)])" "length buf' = length buf"
    using write_packet_ok [OF fits] by blast
  have "udpgw_client_handler_received opts buf (BAddr_IPv4 lip lport) (BAddr_IPv4 rip rport) data = write_packet buf ?iph ?udph data"
    using o fit ic uc by (simp add: udpgw_client_handler_received_def is_ip_addr_def reply_header_simps Let_def)
  then show ?thesis using b reply_parse4 [OF fit(2) ic uc, of opts'] by (simp add: mem_simps)
qed

lemma received_ipv6:
  assumes o: "opt_udpgw_remote_server_addr opts" "opt_netif_ip6addr opts" "opt_netif_ip6addr opts'"
    and a: "length rip = 16" "length lip = 16" and fit: "length data + 48 \<le> length buf" "length data \<le> 65527"
  shows "\<exists>buf' pkt. udpgw_client_handler_received opts buf (BAddr_IPv6 lip lport) (BAddr_IPv6 rip rport) data = Some (buf', [BTap_Send pkt])
    \<and> length buf' = length buf \<and> length pkt = length data + 48
    \<and> device_udp_parse opts' pkt = Some (Some (BAddr_IPv6 rip rport, BAddr_IPv6 lip lport, False, data))"
proof -
  let ?ih = "reply_ipv6_header rip lip (length data)" and ?uh = "reply_udp_header rport lport (length data)"
  obtain uc where uc: "udp_ip6_checksum ?uh data rip lip = Some uc" by (rule udp_ip6_checksum_field [OF fit(2) a])
  let ?iph = "ipv6_header_mem ?ih" and ?udph = "udp_header_mem (?uh\<lparr>udp_csum := uc\<rparr>)"
  have i40: "length ?iph = 40" using a by (simp add: ipv6_header_mem_def reply_ipv6_header_def mem_simps)
  then have fits: "length ?iph + length ?udph + length data \<le> length buf" using fit by (simp add: mem_simps)
  obtain buf' where b: "write_packet buf ?iph ?udph data = Some (buf', [BTap_Send (?iph @ ?udph @ data)])" "length buf' = length buf"
    using write_packet_ok [OF fits] by blast
  have "udpgw_client_handler_received opts buf (BAddr_IPv6 lip lport) (BAddr_IPv6 rip rport) data = write_packet buf ?iph ?udph data"
    using o fit uc by (simp add: udpgw_client_handler_received_def is_ip_addr_def reply_header_simps Let_def)
  then show ?thesis using b reply_parse6 [OF fit(2) a o(3) uc] i40 by (simp add: mem_simps)
qed


lemma collect_chunks_ok:
  assumes "len \<le> length buf"
  shows "if len + length (concat cs) \<le> length buf
    then \<exists>buf'. collect_chunks cs len buf = Some (buf', Some (len + length (concat cs))) \<and> length buf' = length buf
           \<and> take (len + length (concat cs)) buf' = take len buf @ concat cs
    else \<exists>buf'. collect_chunks cs len buf = Some (buf', None) \<and> length buf' = length buf"
  using assms
proof (induction cs arbitrary: len buf)
  case (Cons c cs)
  show ?case
  proof (cases "len + length c \<le> length buf")
    case False
    then show ?thesis by auto
  next
    case True
    then obtain buf1 where b: "store buf len c = Some buf1" using store_Some by blast
    have l: "length buf1 = length buf" by (rule length_store [OF b])
    have t: "take (len + length c) buf1 = take len buf @ c" using b True by (auto simp: store_def split: if_splits)
    have "len + length c \<le> length buf1" using True l by simp
    from Cons.IH [OF this] show ?thesis using b l t True by (auto simp: add.assoc split: if_splits)
  qed
qed auto

lemma common_netif_output_ok:
  assumes "chain \<noteq> []"
  shows "\<exists>buf'. common_netif_output False chain buf = Some (buf', if length (concat chain) \<le> length buf then [BTap_Send (concat chain)] else [])
    \<and> length buf' = length buf"
proof (cases "\<exists>p. chain = [p]")
  case True
  then show ?thesis by (auto simp: common_netif_output_def)
next
  case False
  then have "common_netif_output False chain buf = do {
          (buf, len) \<leftarrow> collect_chunks chain 0 buf;
          case len of None \<Rightarrow> Some (buf, []) | Some len \<Rightarrow> Some (buf, [BTap_Send (take len buf)]) }"
    by (auto simp: common_netif_output_def split: list.splits)
  then show ?thesis using collect_chunks_ok [of 0 buf chain] by (auto split: if_splits)
qed


subsection \<open>Correctness of the device path\<close>

text \<open>
  C8. What is written to the device. A datagram for the user becomes one packet, if it fits the MTU and the
  length fields (and IPv6 is enabled for IPv6 addresses), with headers and checksums that make it a
  valid datagram from the remote to the local address with the same payload; otherwise it is dropped. A chain of chunks from lwIP is sent
  as their concatenation if that fits the MTU and is dropped otherwise. No assertion fails, and nothing is written
  outside \<open>device_write_buf\<close>.
\<close>

theorem device_output:
  assumes "opt_udpgw_remote_server_addr opts" and "is_ip_addr local" and "BAddr_type local = BAddr_type remote"
    and "addr_ok local" and "addr_ok remote" and "chain \<noteq> []"
  shows "(\<exists>buf' calls. udpgw_client_handler_received opts buf local remote data = Some (buf', calls) \<and> length buf' = length buf
      \<and> (let hdr = (if BAddr_type local = 1 then 28 else 48); most = (if BAddr_type local = 1 then 65507 else 65527)
         in if length data + hdr \<le> length buf \<and> length data \<le> most \<and> (BAddr_type local = 1 \<or> opt_netif_ip6addr opts)
            then \<exists>pkt is_dns. calls = [BTap_Send pkt] \<and> length pkt = length data + hdr
                   \<and> device_udp_parse opts pkt = Some (Some (remote, local, is_dns, data))
            else calls = []))
    \<and> (\<exists>buf'. common_netif_output False chain buf = Some (buf', if length (concat chain) \<le> length buf then [BTap_Send (concat chain)] else [])
         \<and> length buf' = length buf)"
proof (intro conjI common_netif_output_ok [OF assms(6)])
  consider (v4) lip lport rip rport where "local = BAddr_IPv4 lip lport" "remote = BAddr_IPv4 rip rport"
    | (v6) lip lport rip rport where "local = BAddr_IPv6 lip lport" "remote = BAddr_IPv6 rip rport" "length lip = 16" "length rip = 16"
    using assms(2-5) by (cases local; cases remote) (auto simp: is_ip_addr_def)
  then show "\<exists>buf' calls. udpgw_client_handler_received opts buf local remote data = Some (buf', calls) \<and> length buf' = length buf
      \<and> (let hdr = (if BAddr_type local = 1 then 28 else 48); most = (if BAddr_type local = 1 then 65507 else 65527)
         in if length data + hdr \<le> length buf \<and> length data \<le> most \<and> (BAddr_type local = 1 \<or> opt_netif_ip6addr opts)
            then \<exists>pkt is_dns. calls = [BTap_Send pkt] \<and> length pkt = length data + hdr
                   \<and> device_udp_parse opts pkt = Some (Some (remote, local, is_dns, data))
            else calls = [])"
  proof cases
    case v4
    show ?thesis
    proof (cases "length data + 28 \<le> length buf \<and> length data \<le> 65507")
      case True
      then show ?thesis using received_ipv4 [OF assms(1), of data buf lip lport rip rport opts] v4 by auto
    next
      case False
      then have "udpgw_client_handler_received opts buf local remote data = Some (buf, [])"
        using assms(1) v4 by (auto simp: udpgw_client_handler_received_def is_ip_addr_def)
      then show ?thesis using False v4 by auto
    qed
  next
    case v6
    show ?thesis
    proof (cases "length data + 48 \<le> length buf \<and> length data \<le> 65527 \<and> opt_netif_ip6addr opts")
      case True
      then show ?thesis using received_ipv6 [OF assms(1) _ _ v6(4,3), of opts data buf lport rport] v6 by auto
    next
      case False
      then have "udpgw_client_handler_received opts buf local remote data = Some (buf, [])"
        using assms(1) v6 by (auto simp: udpgw_client_handler_received_def is_ip_addr_def)
      then show ?thesis using False v6 by auto
    qed
  qed
qed

definition example_opts :: device_options where
  "example_opts = \<lparr>opt_udpgw_remote_server_addr = True, opt_netif_ip6addr = True, opt_dnsgw = True\<rparr>"

theorem device_output_witness:
  "\<exists>buf' pkt is_dns. udpgw_client_handler_received example_opts (replicate 100 0) example_local example_remote [5, 6] = Some (buf', [BTap_Send pkt])
    \<and> length pkt = 30 \<and> device_udp_parse example_opts pkt = Some (Some (example_remote, example_local, is_dns, [5, 6]))"
proof -
  have "opt_udpgw_remote_server_addr example_opts" by (simp add: example_opts_def)
  from device_output [OF this example_addr(1) _ example_addr(3,4), of "[[1]]" "replicate 100 0" "[5, 6]"]
  show ?thesis by (auto simp: example_local_def example_remote_def)
qed



lemma reply_of_datagram:
  assumes "opt_udpgw_remote_server_addr opts" and "device_udp_parse opts pkt = Some (Some (l, r, is_dns, payload))"
    and "length payload + 48 \<le> length buf" and "length buf \<le> 65535"
  shows "\<exists>buf' reply d. udpgw_client_handler_received opts buf l r payload = Some (buf', [BTap_Send reply])
      \<and> device_udp_parse opts reply = Some (Some (r, l, d, payload))"
proof -
  note d = device_udp_parseD [OF assms(2)]
  consider (v4) lip lport rip rport where "l = BAddr_IPv4 lip lport" "r = BAddr_IPv4 rip rport"
    | (v6) lip lport rip rport where "l = BAddr_IPv6 lip lport" "r = BAddr_IPv6 rip rport" "length lip = 16" "length rip = 16"
    using d(1-5) by (cases l; cases r) (auto simp: is_ip_addr_def)
  then show ?thesis
  proof cases
    case v4
    then show ?thesis using received_ipv4 [OF assms(1), of payload buf lip lport rip rport opts] assms(3,4) by auto
  next
    case v6
    have "opt_netif_ip6addr opts" using assms(2) v6(1)
      by (auto simp: device_udp_parse_def device_udp4_def device_udp6_def Let_def ASSERT_def split: if_splits option.splits bind_splits prod.splits)
    then show ?thesis using received_ipv6 [OF assms(1) _ _ v6(4,3), of opts payload buf lport rport] v6 assms(3,4) by auto
  qed
qed

text \<open>
  C7. The way of a datagram from the device and back. In every state that the gateway client reaches: when the device delivers a valid datagram of a
  connection, its payload is sent to the SOCKS server (or the DNS gateway); if the peer returns it, what
  comes back to the device is a valid datagram with the same payload, from the destination of the first to its
  source.
\<close>

theorem device_udp_echo:
  assumes "SocksUdpGwClient_Init size_max 0 udp_mtu mx socks dns = Some o0" and "0 < mx" and "udp_mtu + 22 \<le> 2147483647" and "2147483647 \<le> size_max"
    and "steps sg_step o0 ls o'" and "sg_cons o' p = Some c" and "sc_conaddr c = \<lparr>local_addr = l, remote_addr = r\<rparr>"
    and "opt_udpgw_remote_server_addr opts" and "device_udp_parse opts pkt = Some (Some (l, r, is_dns, payload))"
    and "length payload + 22 \<le> sg_udp_mtu o'" and "length payload + 48 \<le> length buf" and "length buf \<le> 65535"
  shows "\<exists>o'' out. process_device_udp_packet opts malloc failure (\<lambda>_. True) (sg_udp_mtu o') pkt o' = Some (Some (o'', [Dgram_send p (sc_send_addr c) out]))
    \<and> dgram_handler_received p out o'' = Some [Dgram_recv_done p, User_received l r payload]
    \<and> (\<exists>buf' reply d. udpgw_client_handler_received opts buf l r payload = Some (buf', [BTap_Send reply])
         \<and> device_udp_parse opts reply = Some (Some (r, l, d, payload)))"
proof -
  have inv: "sg_inv o'" by (rule sg_reachable_inv [OF assms(1-5)])
  note d = device_udp_parseD [OF assms(9)]
  let ?o = "sg_move_to_front p o'" and ?out = "sg_head c @ payload"
  have i: "sg_inv ?o" by (rule sg_move_to_front_inv [OF inv assms(6)])
  have c: "sg_cons ?o p = Some c" "sg_udp_mtu ?o = sg_udp_mtu o'" using assms(6) by (simp_all add: sg_move_to_front_def)
  have s: "sg_connection_send (\<lambda>_. True) p payload ?o = Some [Dgram_send p (sc_send_addr c) ?out]"
    using sg_send_ok [OF i c(1), of payload "\<lambda>_. True"] assms(10) c(2) by simp
  have "find_connection o' \<lparr>local_addr = l, remote_addr = r\<rparr> = Some p"
    using sg_find(1) [OF inv, of "\<lparr>local_addr = l, remote_addr = r\<rparr>" p] d(3,4) assms(6,7) by (simp add: conaddr_ok_def)
  then have "SocksUdpGwClient_SubmitPacket malloc failure (\<lambda>_. True) o' l r is_dns payload = Some (?o, [Dgram_send p (sc_send_addr c) ?out])"
    using s d(1,2) assms(10) by (simp add: SocksUdpGwClient_SubmitPacket_def)
  then have sub: "process_device_udp_packet opts malloc failure (\<lambda>_. True) (sg_udp_mtu o') pkt o' = Some (Some (?o, [Dgram_send p (sc_send_addr c) ?out]))"
    using assms(8-10) by (simp add: process_device_udp_packet_def)
  have "dgram_handler_received p ?out ?o = Some [Dgram_recv_done p, User_received l r payload]"
    using sg_recv_head [OF c(1) sg_invD(3) [OF i], of payload] sg_invD(5) [OF i c(1)] assms(7,10) c(2) by simp
  moreover have "\<exists>buf' reply d. udpgw_client_handler_received opts buf l r payload = Some (buf', [BTap_Send reply])
      \<and> device_udp_parse opts reply = Some (Some (r, l, d, payload))"
    by (rule reply_of_datagram [OF assms(8,9,11,12)])
  ultimately show ?thesis using sub by blast
qed

lemma example_packet:
  "\<exists>pkt d. device_udp_parse example_opts pkt = Some (Some (example_local, example_remote, d, [5, 6]))"
  using received_ipv4 [of example_opts "[5, 6]" "replicate 100 0" "hton32 0x08080808" "hton16 53" "hton32 0x0A000001" "hton16 4000" example_opts]
  by (auto simp: example_opts_def example_local_def example_remote_def)

theorem device_udp_echo_witness:
  "\<exists>pkt o'' out buf' reply d.
     process_device_udp_packet example_opts None None (\<lambda>_. True) 1472 pkt example_sg1
       = Some (Some (o'', [Dgram_send 7 (BAddr_IPv4 (hton32 0x7F000001) (hton16 5300)) out]))
     \<and> udpgw_client_handler_received example_opts (replicate 1500 0) example_local example_remote [5, 6] = Some (buf', [BTap_Send reply])
     \<and> device_udp_parse example_opts reply = Some (Some (example_remote, example_local, d, [5, 6]))"
proof -
  obtain calls where s: "steps sg_step example_sg [(example_sg_event, calls)] example_sg1" using example_sg_steps by blast
  obtain pkt d where p: "device_udp_parse example_opts pkt = Some (Some (example_local, example_remote, d, [5, 6]))" using example_packet by blast
  have c: "sg_cons example_sg1 7 = Some example_sg_con" "sc_conaddr example_sg_con = \<lparr>local_addr = example_local, remote_addr = example_remote\<rparr>"
    "opt_udpgw_remote_server_addr example_opts" by (simp_all add: example_sg1_def example_sg_con_def example_opts_def)
  have m: "sg_udp_mtu example_sg1 = 1472" "sc_send_addr example_sg_con = BAddr_IPv4 (hton32 0x7F000001) (hton16 5300)"
    by (simp_all add: example_sg1_def example_sg_def example_sg_con_def)
  from device_udp_echo [OF example_sg_Init _ _ _ s c p, of "replicate 1500 0" None None] show ?thesis unfolding m by fastforce
qed



text \<open>
  A datagram whose checksum adds up to 0 is sent with the checksum \<open>0xFFFF\<close> (RFC 768). Since \<open>udp_checksum\<close> gives 0 for
  it, such a datagram from the device is never accepted.
\<close>

lemma checksum_ffff_rejected:
  assumes "ipv4_check pkt = Some (Some (h, d))" and "udp_check d = Some (uh, payload)" and "ntoh16 (udp_csum uh) = 0xFFFF"
  shows "device_udp4 opts pkt = Some None"
proof -
  obtain c where c: "udp_checksum (uh\<lparr>udp_csum := 0\<rparr>) payload (ip4_source_address h) (ip4_destination_address h) = Some c"
    "checksum_field c (words_sum (udp_pseudo (ip4_source_address h) (ip4_destination_address h) (8 + length payload))
       + words_sum (udp_header_mem (uh\<lparr>udp_csum := 0\<rparr>)) + words_sum payload)"
    by (rule udp_checksum_field [OF udp_check_bounds(1) [OF assms(2)]])
  then have "unat (ntoh16 c) \<noteq> 65535" by (simp add: checksum_field_def)
  then have "c \<noteq> udp_csum uh" using assms(3) by auto
  then show ?thesis using assms(1,2) c(1) by (simp add: device_udp4_def)
qed

end
