(* ===== verification/LinkedLists.thy ===== *)
theory LinkedLists
  imports Prelude
begin

section \<open>Linked lists\<close>

text \<open>
  The doubly linked lists of \<open>structure/LinkedList1.h\<close> and \<open>structure/SLinkedList_impl.h\<close> (with
  \<open>SLINKEDLIST_PARAM_FEATURE_LAST\<close> 0, as \<open>base/BPending.c\<close> instantiates it), at the level of the memory they
  change: a node is an address, memory maps addresses to the links of the node there, and a pointer is an
  address or \<open>None\<close> for \<open>NULL\<close>. The lemmas show that each operation acts on the sequence of nodes as it should,
  for every order of the writes and every way in which the nodes can be neighbours, and changes no other node.
  What the users of a list rely on is the locale \<open>linked_list\<close>.
\<close>

subsection \<open>LinkedList1\<close>

record LinkedList1Node =
  ll_p :: "nat option"
  ll_n :: "nat option"

record LinkedList1 =
  ll_first :: "nat option"
  ll_last :: "nat option"

type_synonym list1_mem = "LinkedList1 \<times> (nat \<Rightarrow> LinkedList1Node)"

definition set_p :: "nat \<Rightarrow> nat option \<Rightarrow> (nat \<Rightarrow> LinkedList1Node) \<Rightarrow> nat \<Rightarrow> LinkedList1Node" where
  "set_p a v m = m(a := (m a)\<lparr>ll_p := v\<rparr>)"

definition set_n :: "nat \<Rightarrow> nat option \<Rightarrow> (nat \<Rightarrow> LinkedList1Node) \<Rightarrow> nat \<Rightarrow> LinkedList1Node" where
  "set_n a v m = m(a := (m a)\<lparr>ll_n := v\<rparr>)"

definition LinkedList1_Init :: "LinkedList1" where
  "LinkedList1_Init = \<lparr>ll_first = None, ll_last = None\<rparr>"

definition LinkedList1_IsEmpty :: "list1_mem \<Rightarrow> bool" where
  "LinkedList1_IsEmpty s = (ll_first (fst s) = None)"

definition LinkedList1_GetFirst :: "list1_mem \<Rightarrow> nat option" where
  "LinkedList1_GetFirst s = ll_first (fst s)"

definition LinkedList1_GetLast :: "list1_mem \<Rightarrow> nat option" where
  "LinkedList1_GetLast s = ll_last (fst s)"

definition LinkedList1_Prepend :: "nat \<Rightarrow> list1_mem \<Rightarrow> list1_mem" where
  "LinkedList1_Prepend node s =
     (let (list, m) = s;
          m = set_p node None m;
          m = set_n node (ll_first list) m;
          (list, m) = (case ll_first list of
             Some f \<Rightarrow> (list, set_p f (Some node) m)
           | None \<Rightarrow> (list\<lparr>ll_last := Some node\<rparr>, m))
      in (list\<lparr>ll_first := Some node\<rparr>, m))"

definition LinkedList1_Append :: "nat \<Rightarrow> list1_mem \<Rightarrow> list1_mem" where
  "LinkedList1_Append node s =
     (let (list, m) = s;
          m = set_p node (ll_last list) m;
          m = set_n node None m;
          (list, m) = (case ll_last list of
             Some l \<Rightarrow> (list, set_n l (Some node) m)
           | None \<Rightarrow> (list\<lparr>ll_first := Some node\<rparr>, m))
      in (list\<lparr>ll_last := Some node\<rparr>, m))"

definition LinkedList1_InsertBefore :: "nat \<Rightarrow> nat \<Rightarrow> list1_mem \<Rightarrow> list1_mem" where
  "LinkedList1_InsertBefore node target s =
     (let (list, m) = s;
          m = set_p node (ll_p (m target)) m;
          m = set_n node (Some target) m;
          (list, m) = (case ll_p (m target) of
             Some q \<Rightarrow> (list, set_n q (Some node) m)
           | None \<Rightarrow> (list\<lparr>ll_first := Some node\<rparr>, m))
      in (list, set_p target (Some node) m))"

definition LinkedList1_InsertAfter :: "nat \<Rightarrow> nat \<Rightarrow> list1_mem \<Rightarrow> list1_mem" where
  "LinkedList1_InsertAfter node target s =
     (let (list, m) = s;
          m = set_p node (Some target) m;
          m = set_n node (ll_n (m target)) m;
          (list, m) = (case ll_n (m target) of
             Some q \<Rightarrow> (list, set_p q (Some node) m)
           | None \<Rightarrow> (list\<lparr>ll_last := Some node\<rparr>, m))
      in (list, set_n target (Some node) m))"

definition LinkedList1_Remove :: "nat \<Rightarrow> list1_mem \<Rightarrow> list1_mem" where
  "LinkedList1_Remove node s =
     (let (list, m) = s;
          (list, m) = (case ll_p (m node) of
             Some q \<Rightarrow> (list, set_n q (ll_n (m node)) m)
           | None \<Rightarrow> (list\<lparr>ll_first := ll_n (m node)\<rparr>, m))
      in case ll_n (m node) of
           Some q \<Rightarrow> (list, set_p q (ll_p (m node)) m)
         | None \<Rightarrow> (list\<lparr>ll_last := ll_p (m node)\<rparr>, m))"

definition LinkedList1_InsertListAfter :: "LinkedList1 \<Rightarrow> nat option \<Rightarrow> list1_mem \<Rightarrow> list1_mem" where
  "LinkedList1_InsertListAfter ins_list target s =
     (case (ll_first ins_list, ll_last ins_list) of
        (Some ins_first, Some ins_last) \<Rightarrow>
          (let (list, m) = s;
               t_next = (case target of Some t \<Rightarrow> ll_n (m t) | None \<Rightarrow> ll_first list);
               m = set_p ins_first target m;
               m = set_n ins_last t_next m;
               (list, m) = (case target of
                  Some t \<Rightarrow> (list, set_n t (Some ins_first) m)
                | None \<Rightarrow> (list\<lparr>ll_first := Some ins_first\<rparr>, m))
           in case t_next of
                Some t \<Rightarrow> (list, set_p t (Some ins_last) m)
              | None \<Rightarrow> (list\<lparr>ll_last := Some ins_last\<rparr>, m))
      | _ \<Rightarrow> s)"

definition LinkedList1Node_Next :: "list1_mem \<Rightarrow> nat \<Rightarrow> nat option" where
  "LinkedList1Node_Next s node = ll_n (snd s node)"

definition LinkedList1Node_Prev :: "list1_mem \<Rightarrow> nat \<Rightarrow> nat option" where
  "LinkedList1Node_Prev s node = ll_p (snd s node)"

subsection \<open>SLinkedList\<close>

text \<open>
  The previous link of the first node is never read, and it keeps whatever value it had. A node
  whose next link is the node itself is marked as being in no list. Following a null link is \<open>None\<close>.
\<close>

record SLinkedListNode =
  sl_next :: "nat option"
  sl_prev :: "nat option"

type_synonym slist_mem = "nat option \<times> (nat \<Rightarrow> SLinkedListNode)"

definition set_next :: "nat \<Rightarrow> nat option \<Rightarrow> (nat \<Rightarrow> SLinkedListNode) \<Rightarrow> nat \<Rightarrow> SLinkedListNode" where
  "set_next a v m = m(a := (m a)\<lparr>sl_next := v\<rparr>)"

definition set_prev :: "nat \<Rightarrow> nat option \<Rightarrow> (nat \<Rightarrow> SLinkedListNode) \<Rightarrow> nat \<Rightarrow> SLinkedListNode" where
  "set_prev a v m = m(a := (m a)\<lparr>sl_prev := v\<rparr>)"

definition SLinkedListMarkRemoved :: "nat \<Rightarrow> slist_mem \<Rightarrow> slist_mem" where
  "SLinkedListMarkRemoved entry s = (fst s, set_next entry (Some entry) (snd s))"

definition SLinkedListIsRemoved :: "nat \<Rightarrow> slist_mem \<Rightarrow> bool" where
  "SLinkedListIsRemoved entry s = (sl_next (snd s entry) = Some entry)"

definition SLinkedList_Init :: "slist_mem \<Rightarrow> slist_mem" where
  "SLinkedList_Init s = (None, snd s)"

definition SLinkedList_Next :: "slist_mem \<Rightarrow> nat \<Rightarrow> nat option" where
  "SLinkedList_Next s entry = sl_next (snd s entry)"

definition SLinkedList_Prev :: "slist_mem \<Rightarrow> nat \<Rightarrow> nat option" where
  "SLinkedList_Prev s entry = (if fst s = Some entry then None else sl_prev (snd s entry))"

definition SLinkedList_Prepend :: "nat \<Rightarrow> slist_mem \<Rightarrow> slist_mem" where
  "SLinkedList_Prepend entry s =
     (let (first, m) = s;
          m = set_next entry first m;
          m = (case first of Some f \<Rightarrow> set_prev f (Some entry) m | None \<Rightarrow> m)
      in (Some entry, m))"

definition SLinkedList_InsertBefore :: "nat \<Rightarrow> nat \<Rightarrow> slist_mem \<Rightarrow> slist_mem option" where
  "SLinkedList_InsertBefore entry before_entry s = do {
     let (first, m) = s;
     let m = set_next entry (Some before_entry) m;
     (first, m) \<leftarrow>
       (if Some before_entry \<noteq> first then do {
          let m = set_prev entry (sl_prev (m before_entry)) m;
          q \<leftarrow> sl_prev (m before_entry);
          Some (first, set_next q (Some entry) m) }
        else Some (Some entry, m));
     Some (first, set_prev before_entry (Some entry) m) }"

definition SLinkedList_InsertAfter :: "nat \<Rightarrow> nat \<Rightarrow> slist_mem \<Rightarrow> slist_mem" where
  "SLinkedList_InsertAfter entry after_entry s =
     (let (first, m) = s;
          m = set_next entry (sl_next (m after_entry)) m;
          m = set_prev entry (Some after_entry) m;
          m = (case sl_next (m after_entry) of Some q \<Rightarrow> set_prev q (Some entry) m | None \<Rightarrow> m)
      in (first, set_next after_entry (Some entry) m))"

definition SLinkedList_Remove :: "nat \<Rightarrow> slist_mem \<Rightarrow> slist_mem option" where
  "SLinkedList_Remove entry s = do {
     let (first, m) = s;
     if Some entry \<noteq> first then do {
       q \<leftarrow> sl_prev (m entry);
       let m = set_next q (sl_next (m entry)) m;
       let m = (case sl_next (m entry) of Some q \<Rightarrow> set_prev q (sl_prev (m entry)) m | None \<Rightarrow> m);
       Some (first, m) }
     else Some (sl_next (m entry), m) }"

definition SLinkedList_RemoveFirst :: "slist_mem \<Rightarrow> slist_mem option" where
  "SLinkedList_RemoveFirst s = do {
     let (first, m) = s;
     f \<leftarrow> first;
     Some (sl_next (m f), m) }"

definition SLinkedList_First :: "slist_mem \<Rightarrow> nat option" where
  "SLinkedList_First s = fst s"

definition SLinkedList_IsEmpty :: "slist_mem \<Rightarrow> bool" where
  "SLinkedList_IsEmpty s = (fst s = None)"

subsection \<open>The sequence a list represents\<close>

definition first_or :: "'a list \<Rightarrow> 'a option \<Rightarrow> 'a option" where
  "first_or xs d = (case xs of [] \<Rightarrow> d | x # _ \<Rightarrow> Some x)"

definition last_or :: "'a list \<Rightarrow> 'a option \<Rightarrow> 'a option" where
  "last_or xs d = (if xs = [] then d else Some (last xs))"

lemma first_or_simps [simp]: "first_or [] d = d" "first_or (x # xs) d = Some x"
  "first_or (xs @ ys) d = first_or xs (first_or ys d)"
  by (auto simp: first_or_def split: list.splits)

lemma last_or_simps [simp]: "last_or [] d = d" "last_or (xs @ [x]) d = Some x"
  "last_or (x # xs) d = last_or xs (Some x)" "last_or (xs @ ys) d = last_or ys (last_or xs d)"
  by (auto simp: last_or_def)

lemma first_or_notin: "x \<notin> set xs \<Longrightarrow> first_or xs d = Some x \<longleftrightarrow> xs = [] \<and> d = Some x"
  "x \<notin> set xs \<Longrightarrow> Some x = first_or xs d \<longleftrightarrow> xs = [] \<and> d = Some x"
  by (auto simp: first_or_def split: list.splits)

fun seg1 :: "(nat \<Rightarrow> LinkedList1Node) \<Rightarrow> nat option \<Rightarrow> nat list \<Rightarrow> nat option \<Rightarrow> bool" where
  "seg1 m pr [] nx = True"
| "seg1 m pr (x # xs) nx = (ll_p (m x) = pr \<and> ll_n (m x) = first_or xs nx \<and> seg1 m (Some x) xs nx)"

definition rep1 :: "list1_mem \<Rightarrow> nat list \<Rightarrow> bool" where
  "rep1 s xs \<longleftrightarrow> distinct xs \<and> seg1 (snd s) None xs None \<and> ll_first (fst s) = first_or xs None
                 \<and> ll_last (fst s) = last_or xs None"

fun sseg :: "(nat \<Rightarrow> SLinkedListNode) \<Rightarrow> nat option \<Rightarrow> nat list \<Rightarrow> nat option \<Rightarrow> bool" where
  "sseg m pr [] nx = True"
| "sseg m pr (x # xs) nx = ((pr \<noteq> None \<longrightarrow> sl_prev (m x) = pr) \<and> sl_next (m x) = first_or xs nx \<and> sseg m (Some x) xs nx)"

definition srep :: "slist_mem \<Rightarrow> nat list \<Rightarrow> bool" where
  "srep s xs \<longleftrightarrow> distinct xs \<and> sseg (snd s) None xs None \<and> fst s = first_or xs None"

lemma seg1_append [simp]:
  "seg1 m pr (xs @ ys) nx \<longleftrightarrow> seg1 m pr xs (first_or ys nx) \<and> seg1 m (last_or xs pr) ys nx"
  by (induction xs arbitrary: pr) auto

lemma sseg_append [simp]:
  "sseg m pr (xs @ ys) nx \<longleftrightarrow> sseg m pr xs (first_or ys nx) \<and> sseg m (last_or xs pr) ys nx"
  by (induction xs arbitrary: pr) auto

lemma seg1_frame [simp]:
  "a \<notin> set xs \<Longrightarrow> seg1 (set_p a v m) pr xs nx = seg1 m pr xs nx"
  "a \<notin> set xs \<Longrightarrow> seg1 (set_n a v m) pr xs nx = seg1 m pr xs nx"
  by (induction xs arbitrary: pr) (auto simp: set_p_def set_n_def)

lemma sseg_frame [simp]:
  "a \<notin> set xs \<Longrightarrow> sseg (set_next a v m) pr xs nx = sseg m pr xs nx"
  "a \<notin> set xs \<Longrightarrow> sseg (set_prev a v m) pr xs nx = sseg m pr xs nx"
  by (induction xs arbitrary: pr) (auto simp: set_next_def set_prev_def)

lemma links1 [simp]:
  "ll_p (set_p a v m b) = (if b = a then v else ll_p (m b))" "ll_n (set_p a v m b) = ll_n (m b)"
  "ll_n (set_n a v m b) = (if b = a then v else ll_n (m b))" "ll_p (set_n a v m b) = ll_p (m b)"
  by (auto simp: set_p_def set_n_def)

lemma slinks [simp]:
  "sl_next (set_next a v m b) = (if b = a then v else sl_next (m b))" "sl_prev (set_next a v m b) = sl_prev (m b)"
  "sl_prev (set_prev a v m b) = (if b = a then v else sl_prev (m b))" "sl_next (set_prev a v m b) = sl_next (m b)"
  by (auto simp: set_next_def set_prev_def)

subsection \<open>The contract of a list\<close>

text \<open>
  The operations on the sequence of nodes: inserting a node before or after one of the list, and
  removing one.
\<close>

datatype list_op = Prepend nat | InsertBefore nat nat | InsertAfter nat nat | Remove nat

fun list_op_spec :: "list_op \<Rightarrow> nat list \<Rightarrow> nat list" where
  "list_op_spec (Prepend x) xs = x # xs"
| "list_op_spec (InsertBefore x y) xs = takeWhile (\<lambda>z. z \<noteq> y) xs @ x # dropWhile (\<lambda>z. z \<noteq> y) xs"
| "list_op_spec (InsertAfter x y) xs = takeWhile (\<lambda>z. z \<noteq> y) xs @ y # x # tl (dropWhile (\<lambda>z. z \<noteq> y) xs)"
| "list_op_spec (Remove x) xs = filter (\<lambda>z. z \<noteq> x) xs"

fun list_op_allowed :: "list_op \<Rightarrow> nat list \<Rightarrow> bool" where
  "list_op_allowed (Prepend x) xs = (x \<notin> set xs)"
| "list_op_allowed (InsertBefore x y) xs = (x \<notin> set xs \<and> y \<in> set xs)"
| "list_op_allowed (InsertAfter x y) xs = (x \<notin> set xs \<and> y \<in> set xs)"
| "list_op_allowed (Remove x) xs = (x \<in> set xs)"

fun list_ops_allowed :: "list_op list \<Rightarrow> nat list \<Rightarrow> bool" where
  "list_ops_allowed [] xs = True"
| "list_ops_allowed (p # ps) xs = (list_op_allowed p xs \<and> list_ops_allowed ps (list_op_spec p xs))"

fun run_ops :: "(list_op \<Rightarrow> 'm \<Rightarrow> 'm option) \<Rightarrow> list_op list \<Rightarrow> 'm \<Rightarrow> 'm option" where
  "run_ops exec [] m = Some m"
| "run_ops exec (p # ps) m = exec p m \<bind> run_ops exec ps"

lemma split_around:
  assumes "distinct (xs @ y # ys)"
  shows "takeWhile (\<lambda>z. z \<noteq> y) (xs @ y # ys) = xs" "dropWhile (\<lambda>z. z \<noteq> y) (xs @ y # ys) = y # ys"
    "filter (\<lambda>z. z \<noteq> y) (xs @ y # ys) = xs @ ys"
proof -
  have "\<forall>z\<in>set xs. z \<noteq> y" "\<forall>z\<in>set ys. z \<noteq> y" using assms by auto
  then show "takeWhile (\<lambda>z. z \<noteq> y) (xs @ y # ys) = xs" "dropWhile (\<lambda>z. z \<noteq> y) (xs @ y # ys) = y # ys"
    "filter (\<lambda>z. z \<noteq> y) (xs @ y # ys) = xs @ ys"
    by (simp_all add: takeWhile_append dropWhile_append filter_id_conv)
qed

locale linked_list =
  fixes rep :: "'m \<Rightarrow> nat list \<Rightarrow> bool" and exec :: "list_op \<Rightarrow> 'm \<Rightarrow> 'm option"
    and first :: "'m \<Rightarrow> nat option" and succ :: "'m \<Rightarrow> nat \<Rightarrow> nat option" and pred :: "'m \<Rightarrow> nat \<Rightarrow> nat option"
  assumes rep_distinct: "rep m xs \<Longrightarrow> distinct xs"
    and prepend_ok: "rep m xs \<Longrightarrow> x \<notin> set xs \<Longrightarrow> \<exists>m'. exec (Prepend x) m = Some m' \<and> rep m' (x # xs)"
    and before_ok: "rep m (xs @ y # ys) \<Longrightarrow> x \<notin> set (xs @ y # ys) \<Longrightarrow>
      \<exists>m'. exec (InsertBefore x y) m = Some m' \<and> rep m' (xs @ x # y # ys)"
    and after_ok: "rep m (xs @ y # ys) \<Longrightarrow> x \<notin> set (xs @ y # ys) \<Longrightarrow>
      \<exists>m'. exec (InsertAfter x y) m = Some m' \<and> rep m' (xs @ y # x # ys)"
    and remove_ok: "rep m (xs @ x # ys) \<Longrightarrow> \<exists>m'. exec (Remove x) m = Some m' \<and> rep m' (xs @ ys)"
    and first_ok: "rep m xs \<Longrightarrow> first m = first_or xs None"
    and succ_ok: "rep m (xs @ x # ys) \<Longrightarrow> succ m x = first_or ys None"
    and pred_ok: "rep m (xs @ x # ys) \<Longrightarrow> pred m x = last_or xs None"
begin

lemma exec_ok:
  assumes "rep m xs" and "list_op_allowed p xs"
  shows "\<exists>m'. exec p m = Some m' \<and> rep m' (list_op_spec p xs)"
proof -
  have split: "\<exists>as bs. xs = as @ y # bs \<and> list_op_spec (InsertBefore x y) xs = as @ x # y # bs
      \<and> list_op_spec (InsertAfter x y) xs = as @ y # x # bs \<and> list_op_spec (Remove y) xs = as @ bs"
    if y: "y \<in> set xs" for x y
  proof -
    obtain as bs where "xs = as @ y # bs" using split_list [OF y] by blast
    then show ?thesis using split_around [of as y bs] rep_distinct [OF assms(1)] by auto
  qed
  show ?thesis
  proof (cases p)
    case (Prepend x)
    then show ?thesis using assms prepend_ok by auto
  next
    case (InsertBefore x y)
    then show ?thesis using assms before_ok split [of y x] by fastforce
  next
    case (InsertAfter x y)
    then show ?thesis using assms after_ok split [of y x] by fastforce
  next
    case (Remove x)
    then show ?thesis using assms remove_ok split [of x] by fastforce
  qed
qed

lemma run_ok:
  assumes "rep m xs" and "list_ops_allowed ps xs"
  shows "\<exists>m'. run_ops exec ps m = Some m' \<and> rep m' (fold list_op_spec ps xs)"
  using assms
proof (induction ps arbitrary: m xs)
  case (Cons p ps)
  obtain m' where "exec p m = Some m'" "rep m' (list_op_spec p xs)"
    using exec_ok Cons.prems by fastforce
  then show ?case using Cons.IH Cons.prems(2) by simp
qed simp

lemma rep_functional:
  assumes "rep m xs" and "rep m ys"
  shows "xs = ys"
proof -
  have "take n xs = take n ys" for n
  proof (induction n)
    case (Suc n)
    have "first_or (drop n xs) None = first_or (drop n ys) None"
    proof (cases "take n xs" rule: rev_cases)
      case Nil
      then have "n = 0 \<or> xs = [] " by auto
      moreover have "xs = [] \<longleftrightarrow> ys = []" using first_ok [OF assms(1)] first_ok [OF assms(2)] by (cases xs; cases ys) auto
      ultimately show ?thesis using first_ok [OF assms(1)] first_ok [OF assms(2)] by auto
    next
      case (snoc zs z)
      have "xs = zs @ z # drop n xs" "ys = zs @ z # drop n ys"
        using append_take_drop_id [of n xs] append_take_drop_id [of n ys] snoc Suc by (simp_all del: append_take_drop_id)
      then show ?thesis using succ_ok [of m zs z] assms by metis
    qed
    then have "take 1 (drop n xs) = take 1 (drop n ys)" by (cases "drop n xs"; cases "drop n ys") auto
    then show ?case using Suc take_add [of n 1 xs] take_add [of n 1 ys] by simp
  qed simp
  from this [of "max (length xs) (length ys)"] show ?thesis by simp
qed

end

subsection \<open>Both lists meet it\<close>

lemma list_tail_cases:
  obtains "xs = []" | zs z where "xs = zs @ [z]"
  by (cases xs rule: rev_cases)

fun LinkedList1_exec :: "list_op \<Rightarrow> list1_mem \<Rightarrow> list1_mem option" where
  "LinkedList1_exec (Prepend x) s = Some (LinkedList1_Prepend x s)"
| "LinkedList1_exec (InsertBefore x y) s = Some (LinkedList1_InsertBefore x y s)"
| "LinkedList1_exec (InsertAfter x y) s = Some (LinkedList1_InsertAfter x y s)"
| "LinkedList1_exec (Remove x) s = Some (LinkedList1_Remove x s)"

fun SLinkedList_exec :: "list_op \<Rightarrow> slist_mem \<Rightarrow> slist_mem option" where
  "SLinkedList_exec (Prepend x) s = Some (SLinkedList_Prepend x s)"
| "SLinkedList_exec (InsertBefore x y) s = SLinkedList_InsertBefore x y s"
| "SLinkedList_exec (InsertAfter x y) s = Some (SLinkedList_InsertAfter x y s)"
| "SLinkedList_exec (Remove x) s = SLinkedList_Remove x s"

lemma Prepend1_ok: "rep1 s xs \<Longrightarrow> x \<notin> set xs \<Longrightarrow> rep1 (LinkedList1_Prepend x s) (x # xs)"
  by (cases s; cases xs) (auto simp: rep1_def LinkedList1_Prepend_def)

lemma Append1_ok: "rep1 s xs \<Longrightarrow> x \<notin> set xs \<Longrightarrow> rep1 (LinkedList1_Append x s) (xs @ [x])"
  by (cases s; cases xs rule: rev_cases) (auto simp: rep1_def LinkedList1_Append_def)

lemma InsertBefore1_ok:
  "rep1 s (xs @ y # ys) \<Longrightarrow> x \<notin> set (xs @ y # ys) \<Longrightarrow> rep1 (LinkedList1_InsertBefore x y s) (xs @ x # y # ys)"
  by (cases s; cases xs rule: rev_cases) (auto simp: rep1_def LinkedList1_InsertBefore_def)

lemma InsertAfter1_ok:
  "rep1 s (xs @ y # ys) \<Longrightarrow> x \<notin> set (xs @ y # ys) \<Longrightarrow> rep1 (LinkedList1_InsertAfter x y s) (xs @ y # x # ys)"
  by (cases s; cases ys) (auto simp: rep1_def LinkedList1_InsertAfter_def)

lemma Remove1_ok: "rep1 s (xs @ x # ys) \<Longrightarrow> rep1 (LinkedList1_Remove x s) (xs @ ys)"
  by (cases s; cases xs rule: rev_cases; cases ys) (auto simp: rep1_def LinkedList1_Remove_def)

lemma SPrepend_ok: "srep s xs \<Longrightarrow> x \<notin> set xs \<Longrightarrow> srep (SLinkedList_Prepend x s) (x # xs)"
  by (cases s; cases xs) (auto simp: srep_def SLinkedList_Prepend_def)

lemma SInsertBefore_ok:
  "srep s (xs @ y # ys) \<Longrightarrow> x \<notin> set (xs @ y # ys) \<Longrightarrow>
   \<exists>s'. SLinkedList_InsertBefore x y s = Some s' \<and> srep s' (xs @ x # y # ys)"
  by (cases s; cases xs rule: rev_cases) (auto simp: srep_def SLinkedList_InsertBefore_def Let_def first_or_notin)

lemma SInsertAfter_ok:
  "srep s (xs @ y # ys) \<Longrightarrow> x \<notin> set (xs @ y # ys) \<Longrightarrow> srep (SLinkedList_InsertAfter x y s) (xs @ y # x # ys)"
  by (cases s; cases ys) (auto simp: srep_def SLinkedList_InsertAfter_def)

lemma SRemove_ok:
  "srep s (xs @ x # ys) \<Longrightarrow> \<exists>s'. SLinkedList_Remove x s = Some s' \<and> srep s' (xs @ ys)"
  by (cases s; cases xs rule: rev_cases; cases ys) (auto simp: srep_def SLinkedList_Remove_def Let_def first_or_notin)


interpretation list1: linked_list rep1 LinkedList1_exec LinkedList1_GetFirst LinkedList1Node_Next LinkedList1Node_Prev
proof (unfold_locales, goal_cases)
  case (2 s xs x)
  then show ?case by (simp add: Prepend1_ok)
next
  case (4 s xs y ys x)
  then show ?case by (simp add: InsertAfter1_ok)
next
  case (3 s xs y ys x)
  then show ?case by (simp add: InsertBefore1_ok)
next
  case (5 s xs x ys)
  then show ?case by (simp add: Remove1_ok)
qed (auto simp: rep1_def LinkedList1_GetFirst_def LinkedList1Node_Next_def LinkedList1Node_Prev_def)

interpretation slist: linked_list srep SLinkedList_exec SLinkedList_First SLinkedList_Next SLinkedList_Prev
proof (unfold_locales, goal_cases)
  case (2 s xs x)
  then show ?case by (simp add: SPrepend_ok)
next
  case (3 s xs y ys x)
  show ?case using SInsertBefore_ok [OF 3] by simp
next
  case (4 s xs y ys x)
  then show ?case by (simp add: SInsertAfter_ok)
next
  case (5 s xs x ys)
  show ?case using SRemove_ok [OF 5] by simp
next
  case (8 s xs x ys)
  then show ?case by (cases xs rule: rev_cases) (auto simp: srep_def SLinkedList_Prev_def first_or_notin)
qed (auto simp: srep_def SLinkedList_First_def SLinkedList_Next_def)

subsection \<open>Moving a whole list, and marks\<close>

lemma rep1_empty: "rep1 (LinkedList1_Init, m) []"
  by (simp add: rep1_def LinkedList1_Init_def)

lemma IsEmpty1_iff: "rep1 s xs \<Longrightarrow> LinkedList1_IsEmpty s \<longleftrightarrow> xs = []"
  by (cases xs) (auto simp: rep1_def LinkedList1_IsEmpty_def)

lemma GetLast1: "rep1 s xs \<Longrightarrow> LinkedList1_GetLast s = last_or xs None"
  by (simp add: rep1_def LinkedList1_GetLast_def)

lemma InsertListAfter1_ok:
  assumes "rep1 (list, m) (xs @ ys)" and "rep1 (ins, m) zs" and "set (xs @ ys) \<inter> set zs = {}"
    and "target = last_or xs None"
  shows "rep1 (LinkedList1_InsertListAfter ins target (list, m)) (xs @ zs @ ys)"
proof (cases zs rule: rev_cases)
  case Nil
  then show ?thesis using assms by (simp add: rep1_def LinkedList1_InsertListAfter_def)
next
  case (snoc ws l)
  show ?thesis
    using assms snoc
    by (cases ws; cases xs rule: rev_cases; cases ys) (auto simp: rep1_def LinkedList1_InsertListAfter_def)
qed

lemma IsRemoved_iff:
  assumes "srep s xs" and "x \<in> set xs"
  shows "\<not> SLinkedListIsRemoved x s"
proof -
  obtain ys zs where "xs = ys @ x # zs" using split_list [OF assms(2)] by blast
  then show ?thesis using assms(1) slist.succ_ok [of s ys x zs]
    by (cases zs) (auto simp: srep_def SLinkedList_Next_def SLinkedListIsRemoved_def)
qed

lemma MarkRemoved_ok:
  "srep s xs \<Longrightarrow> x \<notin> set xs \<Longrightarrow> srep (SLinkedListMarkRemoved x s) xs \<and> SLinkedListIsRemoved x (SLinkedListMarkRemoved x s)"
  by (auto simp: srep_def SLinkedListMarkRemoved_def SLinkedListIsRemoved_def)

lemma RemoveFirst_ok: "srep s (x # xs) \<Longrightarrow> \<exists>s'. SLinkedList_RemoveFirst s = Some s' \<and> srep s' xs \<and> snd s' = snd s"
  by (cases s; cases xs) (auto simp: srep_def SLinkedList_RemoveFirst_def)

subsection \<open>What the lists do\<close>

text \<open>
  C17: every sequence of insertions and removals on a \<open>LinkedList1\<close> and on an \<open>SLinkedList\<close>, in which nodes are inserted
  that are not in the list and removed that are, follows no null pointer and has on the
  sequence of nodes the effect it has on an abstract sequence; the first node and the neighbours of every node are then
  those of the sequence.
\<close>

theorem linked_lists_refine:
  assumes "rep1 s xs" and "srep t xs" and "list_ops_allowed ps xs"
  shows "\<exists>s' t' ys. run_ops LinkedList1_exec ps s = Some s' \<and> run_ops SLinkedList_exec ps t = Some t' \<and> ys = fold list_op_spec ps xs
           \<and> rep1 s' ys \<and> srep t' ys
           \<and> LinkedList1_GetFirst s' = first_or ys None \<and> SLinkedList_First t' = first_or ys None
           \<and> (\<forall>as x bs. ys = as @ x # bs \<longrightarrow>
                LinkedList1Node_Next s' x = first_or bs None \<and> LinkedList1Node_Prev s' x = last_or as None
              \<and> SLinkedList_Next t' x = first_or bs None \<and> SLinkedList_Prev t' x = last_or as None)"
proof -
  obtain s' where s': "run_ops LinkedList1_exec ps s = Some s'" "rep1 s' (fold list_op_spec ps xs)"
    using list1.run_ok [OF assms(1,3)] by blast
  obtain t' where t': "run_ops SLinkedList_exec ps t = Some t'" "srep t' (fold list_op_spec ps xs)"
    using slist.run_ok [OF assms(2,3)] by blast
  have "LinkedList1Node_Next s' x = first_or bs None \<and> LinkedList1Node_Prev s' x = last_or as None
      \<and> SLinkedList_Next t' x = first_or bs None \<and> SLinkedList_Prev t' x = last_or as None"
    if ys: "fold list_op_spec ps xs = as @ x # bs" for as x bs
    using s'(2) t'(2) unfolding ys by (simp add: list1.succ_ok list1.pred_ok slist.succ_ok slist.pred_ok)
  then show ?thesis using s' t' list1.first_ok [OF s'(2)] slist.first_ok [OF t'(2)] by auto
qed

definition example_node1 :: LinkedList1Node where
  "example_node1 = \<lparr>ll_p = None, ll_n = None\<rparr>"

definition example_node :: SLinkedListNode where
  "example_node = \<lparr>sl_next = None, sl_prev = None\<rparr>"

theorem linked_lists_refine_witness:
  "let ps = [Prepend 1, InsertAfter 2 1, InsertBefore 3 2, Remove 1, Prepend 4, Remove 2];
       s = (LinkedList1_Init, \<lambda>_. example_node1); t = (None, \<lambda>_. example_node)
   in rep1 s [] \<and> srep t [] \<and> list_ops_allowed ps [] \<and>
      (\<exists>s' t'. run_ops LinkedList1_exec ps s = Some s' \<and> run_ops SLinkedList_exec ps t = Some t' \<and> rep1 s' [4, 3] \<and> srep t' [4, 3])"
  using linked_lists_refine [of "(LinkedList1_Init, \<lambda>_. example_node1)" "[]" "(None, \<lambda>_. example_node)"
      "[Prepend 1, InsertAfter 2 1, InsertBefore 3 2, Remove 1, Prepend 4, Remove 2]"]
  by (simp add: Let_def rep1_empty srep_def del: run_ops.simps) blast

end
