(* ===== verification/PendingList.thy ===== *)
theory PendingList
  imports Pending LinkedLists
begin

section \<open>Pending jobs in memory\<close>

text \<open>
  \<open>base/BPending.c\<close> as it is written, over the linked list \<open>BPending__List\<close> that it instantiates from
  \<open>structure/SLinkedList_impl.h\<close>: whether a job is pending is read off its links, and jobs are unlinked in place. The theorem
  of this theory is that it refines the group of \<open>Pending\<close>, a list of jobs, on which all
  components that set jobs are built.
\<close>

record 'h pending_mem =
  pm_jobs :: slist_mem
  pm_handler :: "job \<rightharpoonup> 'h"
  pm_pending :: "job \<Rightarrow> bool"

definition pm_Group_Init :: "'h pending_mem \<Rightarrow> 'h pending_mem" where
  "pm_Group_Init s = s\<lparr>pm_jobs := SLinkedList_Init (pm_jobs s), pm_handler := Map.empty\<rparr>"

definition pm_Group_Free :: "'h pending_mem \<Rightarrow> unit option" where
  "pm_Group_Free s = ASSERT (SLinkedList_IsEmpty (pm_jobs s))"

definition pm_HasJobs :: "'h pending_mem \<Rightarrow> bool" where
  "pm_HasJobs s = (\<not> SLinkedList_IsEmpty (pm_jobs s))"

definition pm_PeekJob :: "'h pending_mem \<Rightarrow> job option" where
  "pm_PeekJob s = SLinkedList_First (pm_jobs s)"

definition pm_ExecuteJob :: "'h pending_mem \<Rightarrow> ('h \<times> 'h pending_mem) option" where
  "pm_ExecuteJob s = do {
     ASSERT (\<not> SLinkedList_IsEmpty (pm_jobs s));
     p \<leftarrow> SLinkedList_First (pm_jobs s);
     ASSERT (\<not> SLinkedListIsRemoved p (pm_jobs s));
     ASSERT (pm_pending s p);
     list \<leftarrow> SLinkedList_RemoveFirst (pm_jobs s);
     let list = SLinkedListMarkRemoved p list;
     h \<leftarrow> pm_handler s p;
     Some (h, s\<lparr>pm_jobs := list, pm_pending := (pm_pending s)(p := False)\<rparr>) }"

definition pm_Init :: "job \<Rightarrow> 'h \<Rightarrow> 'h pending_mem \<Rightarrow> 'h pending_mem" where
  "pm_Init p h s = s\<lparr>pm_jobs := SLinkedListMarkRemoved p (pm_jobs s), pm_handler := (pm_handler s)(p \<mapsto> h),
                     pm_pending := (pm_pending s)(p := False)\<rparr>"

definition pm_IsSet :: "job \<Rightarrow> 'h pending_mem \<Rightarrow> bool option" where
  "pm_IsSet p s = do {
     ASSERT (pm_pending s p \<longleftrightarrow> \<not> SLinkedListIsRemoved p (pm_jobs s));
     Some (\<not> SLinkedListIsRemoved p (pm_jobs s)) }"

definition pm_unlink :: "job \<Rightarrow> 'h pending_mem \<Rightarrow> 'h pending_mem option" where
  "pm_unlink p s = do {
     ASSERT (pm_pending s p \<longleftrightarrow> \<not> SLinkedListIsRemoved p (pm_jobs s));
     if \<not> SLinkedListIsRemoved p (pm_jobs s) then do {
       list \<leftarrow> SLinkedList_Remove p (pm_jobs s);
       Some (s\<lparr>pm_jobs := list\<rparr>) }
     else Some s }"

definition pm_Free :: "job \<Rightarrow> 'h pending_mem \<Rightarrow> 'h pending_mem option" where
  "pm_Free p s = do {
     s \<leftarrow> pm_unlink p s;
     Some (s\<lparr>pm_handler := (pm_handler s)(p := None)\<rparr>) }"

definition pm_SetHandler :: "job \<Rightarrow> 'h \<Rightarrow> 'h pending_mem \<Rightarrow> 'h pending_mem" where
  "pm_SetHandler p h s = s\<lparr>pm_handler := (pm_handler s)(p \<mapsto> h)\<rparr>"

definition pm_Set :: "job \<Rightarrow> 'h pending_mem \<Rightarrow> 'h pending_mem option" where
  "pm_Set p s = do {
     s \<leftarrow> pm_unlink p s;
     Some (s\<lparr>pm_jobs := SLinkedList_Prepend p (pm_jobs s), pm_pending := (pm_pending s)(p := True)\<rparr>) }"

definition pm_Unset :: "job \<Rightarrow> 'h pending_mem \<Rightarrow> 'h pending_mem option" where
  "pm_Unset p s = do {
     ASSERT (pm_pending s p \<longleftrightarrow> \<not> SLinkedListIsRemoved p (pm_jobs s));
     if \<not> SLinkedListIsRemoved p (pm_jobs s) then do {
       list \<leftarrow> SLinkedList_Remove p (pm_jobs s);
       Some (s\<lparr>pm_jobs := SLinkedListMarkRemoved p list, pm_pending := (pm_pending s)(p := False)\<rparr>) }
     else Some s }"

subsection \<open>Refinement\<close>

text \<open>
  Memory represents a group when its list is the list of jobs, and exactly the initialised jobs that are not in it are marked as removed.
\<close>

definition pm_rep :: "'h pending_mem \<Rightarrow> 'h BPendingGroup \<Rightarrow> bool" where
  "pm_rep s g \<longleftrightarrow> srep (pm_jobs s) (jobs g) \<and> pm_handler s = handler g
     \<and> (\<forall>p. handler g p \<noteq> None \<longrightarrow> (pm_pending s p \<longleftrightarrow> p \<in> set (jobs g)) \<and> (SLinkedListIsRemoved p (pm_jobs s) \<longleftrightarrow> p \<notin> set (jobs g)))"

datatype 'h pending_op = OpInit job 'h | OpFree job | OpSetHandler job 'h | OpSet job | OpUnset job | OpExecute

fun pm_exec :: "'h pending_op \<Rightarrow> 'h pending_mem \<Rightarrow> ('h option \<times> 'h pending_mem) option" where
  "pm_exec (OpInit p h) s = Some (None, pm_Init p h s)"
| "pm_exec (OpFree p) s = map_option (Pair None) (pm_Free p s)"
| "pm_exec (OpSetHandler p h) s = Some (None, pm_SetHandler p h s)"
| "pm_exec (OpSet p) s = map_option (Pair None) (pm_Set p s)"
| "pm_exec (OpUnset p) s = map_option (Pair None) (pm_Unset p s)"
| "pm_exec OpExecute s = map_option (\<lambda>(h, s). (Some h, s)) (pm_ExecuteJob s)"

fun group_exec :: "'h pending_op \<Rightarrow> 'h BPendingGroup \<Rightarrow> ('h option \<times> 'h BPendingGroup) option" where
  "group_exec (OpInit p h) g = Some (None, BSmallPending_Init p h g)"
| "group_exec (OpFree p) g = Some (None, BSmallPending_Free p g)"
| "group_exec (OpSetHandler p h) g = Some (None, BSmallPending_SetHandler p h g)"
| "group_exec (OpSet p) g = Some (None, BSmallPending_Set p g)"
| "group_exec (OpUnset p) g = Some (None, BSmallPending_Unset p g)"
| "group_exec OpExecute g = map_option (\<lambda>(h, g). (Some h, g)) (BPendingGroup_ExecuteJob g)"

fun pending_op_allowed :: "'h pending_op \<Rightarrow> 'h BPendingGroup \<Rightarrow> bool" where
  "pending_op_allowed (OpInit p h) g = (handler g p = None)"
| "pending_op_allowed (OpFree p) g = (handler g p \<noteq> None)"
| "pending_op_allowed (OpSetHandler p h) g = (handler g p \<noteq> None)"
| "pending_op_allowed (OpSet p) g = (handler g p \<noteq> None)"
| "pending_op_allowed (OpUnset p) g = (handler g p \<noteq> None)"
| "pending_op_allowed OpExecute g = (jobs g \<noteq> [])"

lemma SRemove_frame:
  assumes "srep s xs" and "x \<in> set xs"
  obtains s' where "SLinkedList_Remove x s = Some s'" and "srep s' (remove1 x xs)"
    and "\<forall>a. a \<notin> set xs \<longrightarrow> snd s' a = snd s a"
proof -
  obtain ys zs where xs: "xs = ys @ x # zs" using split_list [OF assms(2)] by blast
  then have x: "x \<notin> set ys" using assms(1) by (simp add: srep_def)
  obtain s' where s': "SLinkedList_Remove x s = Some s'" "srep s' (remove1 x xs)"
    using SRemove_ok [of s ys x zs] assms(1) x unfolding xs by (auto simp: remove1_append)
  have "snd s' a = snd s a" if "a \<notin> set xs" for a
    using s'(1) assms(1) that xs
    by (cases s; cases ys rule: rev_cases; cases zs)
       (auto simp: SLinkedList_Remove_def srep_def set_next_def set_prev_def Let_def first_or_notin split: if_splits)
  with s' show ?thesis using that by blast
qed

lemma SPrepend_frame:
  assumes "srep s xs" and "a \<notin> set xs" and "a \<noteq> x"
  shows "snd (SLinkedList_Prepend x s) a = snd s a"
  using assms by (cases s; cases xs) (auto simp: SLinkedList_Prepend_def srep_def set_next_def set_prev_def)

lemma pm_repD:
  assumes "pm_rep s g"
  shows "srep (pm_jobs s) (jobs g)" "pm_handler s = handler g"
    "handler g p \<noteq> None \<Longrightarrow> pm_pending s p \<longleftrightarrow> p \<in> set (jobs g)"
    "handler g p \<noteq> None \<Longrightarrow> SLinkedListIsRemoved p (pm_jobs s) \<longleftrightarrow> p \<notin> set (jobs g)"
  using assms by (auto simp: pm_rep_def)

lemma pm_unlink_ok:
  assumes "pm_rep s g" and "pending_ok g" and "handler g p \<noteq> None"
  obtains list where "pm_unlink p s = Some (s\<lparr>pm_jobs := list\<rparr>)" and "srep list (remove1 p (jobs g))"
    and "\<forall>a. a \<notin> set (jobs g) \<longrightarrow> snd list a = snd (pm_jobs s) a"
proof (cases "p \<in> set (jobs g)")
  case True
  obtain list where "SLinkedList_Remove p (pm_jobs s) = Some list" "srep list (remove1 p (jobs g))"
    "\<forall>a. a \<notin> set (jobs g) \<longrightarrow> snd list a = snd (pm_jobs s) a"
    by (rule SRemove_frame [OF pm_repD(1) [OF assms(1)] True])
  then show ?thesis using that True assms pm_repD(3,4) [OF assms(1,3)] by (simp add: pm_unlink_def)
next
  case False
  show ?thesis
    by (rule that [of "pm_jobs s"]) (use False assms pm_repD [OF assms(1)] in \<open>simp_all add: pm_unlink_def remove1_idem\<close>)
qed


lemma IsRemoved_frame: "snd s a = snd t a \<Longrightarrow> SLinkedListIsRemoved a s = SLinkedListIsRemoved a t"
  by (simp add: SLinkedListIsRemoved_def)

lemma IsRemoved_Mark: "SLinkedListIsRemoved q (SLinkedListMarkRemoved p s) \<longleftrightarrow> q = p \<or> SLinkedListIsRemoved q s"
  by (auto simp: SLinkedListIsRemoved_def SLinkedListMarkRemoved_def)

lemma pm_rep_list:
  assumes "pm_rep s g" and "srep list ps" and "\<forall>a. a \<notin> set (jobs g) \<and> a \<noteq> p \<longrightarrow> snd list a = snd (pm_jobs s) a"
    and "set ps - {p} = set (jobs g) - {p}" and "handler g q \<noteq> None" and "q \<noteq> p"
  shows "SLinkedListIsRemoved q list \<longleftrightarrow> q \<notin> set ps"
proof (cases "q \<in> set ps")
  case True
  then show ?thesis using IsRemoved_iff [OF assms(2)] by simp
next
  case False
  then have q: "q \<notin> set (jobs g)" using assms(4,6) by blast
  then have "SLinkedListIsRemoved q list = SLinkedListIsRemoved q (pm_jobs s)" using assms(3,6) by (intro IsRemoved_frame) simp
  then show ?thesis using False q pm_repD(4) [OF assms(1,5)] by simp
qed

lemma pm_Set_ok:
  assumes "pm_rep s g" and "pending_ok g" and "handler g p \<noteq> None"
  shows "\<exists>s'. pm_Set p s = Some s' \<and> pm_rep s' (BSmallPending_Set p g)"
proof -
  obtain list where list: "pm_unlink p s = Some (s\<lparr>pm_jobs := list\<rparr>)" "srep list (remove1 p (jobs g))"
    "\<forall>a. a \<notin> set (jobs g) \<longrightarrow> snd list a = snd (pm_jobs s) a" by (rule pm_unlink_ok [OF assms])
  let ?l = "SLinkedList_Prepend p list" and ?ps = "p # remove1 p (jobs g)"
  have d: "distinct (jobs g)" using assms(2) by (simp add: pending_ok_def)
  have r: "srep ?l ?ps" by (rule SPrepend_ok [OF list(2)]) (simp add: d)
  have f: "\<forall>a. a \<notin> set (jobs g) \<and> a \<noteq> p \<longrightarrow> snd ?l a = snd (pm_jobs s) a"
    using SPrepend_frame [OF list(2)] list(3) notin_set_remove1 by metis
  have "SLinkedListIsRemoved q ?l \<longleftrightarrow> q \<notin> set ?ps" if "handler g q \<noteq> None" for q
    using pm_rep_list [OF assms(1) r f _ that] IsRemoved_iff [OF r] d by (cases "q = p") auto
  moreover have "((pm_pending s)(p := True)) q \<longleftrightarrow> q \<in> set ?ps" if "handler g q \<noteq> None" for q
    using pm_repD(3) [OF assms(1) that] d by auto
  ultimately have "pm_rep (s\<lparr>pm_jobs := ?l, pm_pending := (pm_pending s)(p := True)\<rparr>) (BSmallPending_Set p g)"
    using r pm_repD(2) [OF assms(1)] unfolding pm_rep_def by (simp add: jobs_Set)
  then show ?thesis using list(1) by (simp add: pm_Set_def)
qed

lemma pm_Free_ok:
  assumes "pm_rep s g" and "pending_ok g" and "handler g p \<noteq> None"
  shows "\<exists>s'. pm_Free p s = Some s' \<and> pm_rep s' (BSmallPending_Free p g)"
proof -
  obtain list where list: "pm_unlink p s = Some (s\<lparr>pm_jobs := list\<rparr>)" "srep list (remove1 p (jobs g))"
    "\<forall>a. a \<notin> set (jobs g) \<longrightarrow> snd list a = snd (pm_jobs s) a" by (rule pm_unlink_ok [OF assms])
  have d: "distinct (jobs g)" using assms(2) by (simp add: pending_ok_def)
  have j: "jobs (BSmallPending_Free p g) = remove1 p (jobs g)" "handler (BSmallPending_Free p g) = (handler g)(p := None)"
    by (simp_all add: BSmallPending_Free_def BSmallPending_IsSet_def remove1_idem)
  have "SLinkedListIsRemoved q list \<longleftrightarrow> q \<notin> set (remove1 p (jobs g))" if "handler g q \<noteq> None" "q \<noteq> p" for q
    using pm_rep_list [OF assms(1) list(2) _ _ that] list(3) d by auto
  then show ?thesis using list(1,2) pm_repD(2,3) [OF assms(1)] d by (auto simp: pm_Free_def pm_rep_def j)
qed

lemma pm_Unset_ok:
  assumes "pm_rep s g" and "pending_ok g" and "handler g p \<noteq> None"
  shows "\<exists>s'. pm_Unset p s = Some s' \<and> pm_rep s' (BSmallPending_Unset p g)"
proof (cases "p \<in> set (jobs g)")
  case True
  obtain list where list: "SLinkedList_Remove p (pm_jobs s) = Some list" "srep list (remove1 p (jobs g))"
    "\<forall>a. a \<notin> set (jobs g) \<longrightarrow> snd list a = snd (pm_jobs s) a"
    by (rule SRemove_frame [OF pm_repD(1) [OF assms(1)] True])
  let ?l = "SLinkedListMarkRemoved p list"
  have d: "distinct (jobs g)" using assms(2) by (simp add: pending_ok_def)
  have r: "srep ?l (remove1 p (jobs g))" "SLinkedListIsRemoved p ?l" using MarkRemoved_ok [OF list(2), of p] d by auto
  have f: "\<forall>a. a \<notin> set (jobs g) \<and> a \<noteq> p \<longrightarrow> snd ?l a = snd (pm_jobs s) a"
    using list(3) by (simp add: SLinkedListMarkRemoved_def set_next_def)
  have "SLinkedListIsRemoved q ?l \<longleftrightarrow> q \<notin> set (remove1 p (jobs g))" if "handler g q \<noteq> None" for q
    using pm_rep_list [OF assms(1) r(1) f _ that] r(2) d by (cases "q = p") auto
  moreover have "((pm_pending s)(p := False)) q \<longleftrightarrow> q \<in> set (remove1 p (jobs g))" if "handler g q \<noteq> None" for q
    using pm_repD(3) [OF assms(1) that] d by auto
  ultimately have "pm_rep (s\<lparr>pm_jobs := ?l, pm_pending := (pm_pending s)(p := False)\<rparr>) (BSmallPending_Unset p g)"
    using r pm_repD(2) [OF assms(1)] True unfolding pm_rep_def by (simp add: jobs_Unset BSmallPending_Unset_def BSmallPending_IsSet_def)
  then show ?thesis using list(1) True pm_repD(3,4) [OF assms(1,3)] by (simp add: pm_Unset_def)
next
  case False
  then show ?thesis using assms(1) pm_repD(3,4) [OF assms(1,3)]
    by (simp add: pm_Unset_def BSmallPending_Unset_def BSmallPending_IsSet_def)
qed

lemma pm_ExecuteJob_ok:
  assumes "pm_rep s g" and "pending_ok g" and "jobs g \<noteq> []"
  shows "\<exists>h g' s'. BPendingGroup_ExecuteJob g = Some (h, g') \<and> pm_ExecuteJob s = Some (h, s') \<and> pm_rep s' g'"
proof -
  obtain p ps where ps: "jobs g = p # ps" using assms(3) by (cases "jobs g") auto
  then obtain h where h: "handler g p = Some h" using assms(2) by (auto simp: pending_ok_def)
  have d: "p \<notin> set ps" using assms(2) ps by (simp add: pending_ok_def)
  have r: "srep (pm_jobs s) (p # ps)" using pm_repD(1) [OF assms(1)] ps by simp
  obtain list where list: "SLinkedList_RemoveFirst (pm_jobs s) = Some list" "srep list ps" "snd list = snd (pm_jobs s)"
    using RemoveFirst_ok [OF r] by blast
  let ?l = "SLinkedListMarkRemoved p list" and ?g = "g\<lparr>jobs := ps\<rparr>"
  have l: "srep ?l ps" using MarkRemoved_ok [OF list(2) d] by blast
  have "SLinkedListIsRemoved q ?l \<longleftrightarrow> q \<notin> set ps" if "handler g q \<noteq> None" for q
    using pm_repD(4) [OF assms(1) that] IsRemoved_frame [of list q "pm_jobs s"] list(3) ps d by (auto simp: IsRemoved_Mark)
  moreover have "((pm_pending s)(p := False)) q \<longleftrightarrow> q \<in> set ps" if "handler g q \<noteq> None" for q
    using pm_repD(3) [OF assms(1) that] ps d by auto
  ultimately have "pm_rep (s\<lparr>pm_jobs := ?l, pm_pending := (pm_pending s)(p := False)\<rparr>) ?g"
    using l pm_repD(2) [OF assms(1)] unfolding pm_rep_def by simp
  moreover have "SLinkedList_First (pm_jobs s) = Some p" using r by (simp add: srep_def SLinkedList_First_def)
  ultimately show ?thesis using list(1) h ps pm_repD(2) [OF assms(1)] pm_repD(3,4) [OF assms(1), of p]
    by (simp add: pm_ExecuteJob_def BPendingGroup_ExecuteJob_def SLinkedList_IsEmpty_def SLinkedList_First_def)
qed

lemma pm_Init_ok:
  assumes "pm_rep s g" and "pending_ok g" and "handler g p = None"
  shows "pm_rep (pm_Init p h s) (BSmallPending_Init p h g)"
proof -
  have "p \<notin> set (jobs g)" using assms(2,3) by (auto simp: pending_ok_def)
  then show ?thesis using MarkRemoved_ok [OF pm_repD(1) [OF assms(1)], of p] pm_repD(2-) [OF assms(1)]
    by (auto simp: pm_rep_def pm_Init_def BSmallPending_Init_def IsRemoved_Mark)
qed

lemma pm_exec_ok:
  assumes "pm_rep s g" and "pending_ok g" and "pending_op_allowed p g"
  shows "\<exists>r s' g'. pm_exec p s = Some (r, s') \<and> group_exec p g = Some (r, g') \<and> pm_rep s' g' \<and> pending_ok g'"
proof (cases p)
  case (OpInit q h)
  then show ?thesis using assms pm_Init_ok [OF assms(1,2)] by (simp add: pending_ok_handler)
next
  case (OpFree q)
  then obtain s' where "pm_Free q s = Some s'" "pm_rep s' (BSmallPending_Free q g)"
    using pm_Free_ok [OF assms(1,2), of q] assms(3) by auto
  then show ?thesis using OpFree pending_ok_Free [OF assms(2)] by simp
next
  case (OpSetHandler q h)
  then have "pm_rep (pm_SetHandler q h s) (BSmallPending_SetHandler q h g)" using assms(1,3)
    by (auto simp: pm_rep_def pm_SetHandler_def BSmallPending_SetHandler_def)
  then show ?thesis using OpSetHandler pending_ok_handler(2) [OF assms(2)] by simp
next
  case (OpSet q)
  then obtain s' where "pm_Set q s = Some s'" "pm_rep s' (BSmallPending_Set q g)"
    using pm_Set_ok [OF assms(1,2), of q] assms(3) by auto
  then show ?thesis using OpSet assms(2,3) by simp
next
  case (OpUnset q)
  then obtain s' where "pm_Unset q s = Some s'" "pm_rep s' (BSmallPending_Unset q g)"
    using pm_Unset_ok [OF assms(1,2), of q] assms(3) by auto
  then show ?thesis using OpUnset assms(2) by simp
next
  case OpExecute
  then obtain p ps where ps: "jobs g = p # ps" using assms(3) by (cases "jobs g") auto
  obtain h where "BPendingGroup_ExecuteJob g = Some (h, g\<lparr>jobs := ps\<rparr>)" "pending_ok (g\<lparr>jobs := ps\<rparr>)"
    by (rule pending_ok_Execute [OF assms(2) ps])
  then show ?thesis using pm_ExecuteJob_ok [OF assms(1,2)] ps OpExecute by auto
qed


fun run_pending :: "('h pending_op \<Rightarrow> 's \<Rightarrow> ('h option \<times> 's) option) \<Rightarrow> 'h pending_op list \<Rightarrow> 's \<Rightarrow> ('h list \<times> 's) option" where
  "run_pending exec [] s = Some ([], s)"
| "run_pending exec (p # ps) s = do {
     (r, s) \<leftarrow> exec p s;
     (rs, s) \<leftarrow> run_pending exec ps s;
     Some ((case r of Some h \<Rightarrow> h # rs | None \<Rightarrow> rs), s) }"

fun pending_ops_allowed :: "'h pending_op list \<Rightarrow> 'h BPendingGroup \<Rightarrow> bool" where
  "pending_ops_allowed [] g = True"
| "pending_ops_allowed (p # ps) g =
     (pending_op_allowed p g \<and> (case group_exec p g of None \<Rightarrow> False | Some (_, g) \<Rightarrow> pending_ops_allowed ps g))"

text \<open>
  C16: in every sequence of initialising, freeing, setting and unsetting jobs and executing the next one, the jobs of
  \<open>base/BPending.c\<close> with their linked list run the same handlers in the same order as the list of jobs of \<open>Pending\<close>, no
  assertion fails and no null link is followed; a job reports that it is set exactly when it is in the list, and the next job
  is its first.
\<close>

theorem pending_refines:
  assumes "pm_rep s g" and "pending_ok g" and "pending_ops_allowed ps g"
  shows "\<exists>hs s' g'. run_pending pm_exec ps s = Some (hs, s') \<and> run_pending group_exec ps g = Some (hs, g')
           \<and> pm_rep s' g' \<and> pending_ok g' \<and> pm_PeekJob s' = BPendingGroup_PeekJob g' \<and> pm_HasJobs s' = BPendingGroup_HasJobs g'
           \<and> (\<forall>p. handler g' p \<noteq> None \<longrightarrow> pm_IsSet p s' = Some (BSmallPending_IsSet p g'))"
  using assms
proof (induction ps arbitrary: s g)
  case Nil
  have "pm_PeekJob s = BPendingGroup_PeekJob g" "pm_HasJobs s = BPendingGroup_HasJobs g"
    using pm_repD(1) [OF Nil(1)]
    by (cases "jobs g"; auto simp: srep_def pm_PeekJob_def pm_HasJobs_def SLinkedList_First_def SLinkedList_IsEmpty_def
        BPendingGroup_PeekJob_def BPendingGroup_HasJobs_def)+
  moreover have "pm_IsSet p s = Some (BSmallPending_IsSet p g)" if "handler g p \<noteq> None" for p
    using pm_repD(3,4) [OF Nil(1) that] by (simp add: pm_IsSet_def BSmallPending_IsSet_def)
  ultimately show ?case using Nil by simp
next
  case (Cons p ps)
  obtain r s1 g1 where 1: "pm_exec p s = Some (r, s1)" "group_exec p g = Some (r, g1)" "pm_rep s1 g1" "pending_ok g1"
    using pm_exec_ok [OF Cons.prems(1,2), of p] Cons.prems(3) by (auto split: option.splits)
  then obtain hs s' g' where "run_pending pm_exec ps s1 = Some (hs, s')" "run_pending group_exec ps g1 = Some (hs, g')"
      "pm_rep s' g'" "pending_ok g'" "pm_PeekJob s' = BPendingGroup_PeekJob g'" "pm_HasJobs s' = BPendingGroup_HasJobs g'"
      "\<forall>p. handler g' p \<noteq> None \<longrightarrow> pm_IsSet p s' = Some (BSmallPending_IsSet p g')"
    using Cons.IH [OF 1(3,4)] Cons.prems(3) by auto
  then show ?case using 1(1,2) by auto
qed

definition example_pending :: "nat pending_mem" where
  "example_pending = pm_Group_Init \<lparr>pm_jobs = (None, \<lambda>_. example_node), pm_handler = Map.empty, pm_pending = \<lambda>_. False\<rparr>"

theorem pending_refines_witness:
  "let ps = [OpInit 1 10, OpInit 2 20, OpSet 1, OpSet 2, OpSet 1, OpExecute, OpUnset 1, OpExecute, OpFree 1]
   in pm_rep example_pending BPendingGroup_Init \<and> pending_ops_allowed ps BPendingGroup_Init \<and>
      (\<exists>s' g'. run_pending pm_exec ps example_pending = Some ([10, 20], s') \<and> pm_rep s' g')"
proof -
  let ?ps = "[OpInit 1 10, OpInit 2 20, OpSet 1, OpSet 2, OpSet 1, OpExecute, OpUnset 1, OpExecute, OpFree 1] :: nat pending_op list"
  have r: "pm_rep example_pending BPendingGroup_Init"
    by (simp add: pm_rep_def srep_def example_pending_def pm_Group_Init_def SLinkedList_Init_def BPendingGroup_Init_def)
  have a: "pending_ops_allowed ?ps BPendingGroup_Init"
    by (simp add: pending_defs)
  have "\<exists>g'. run_pending group_exec ?ps BPendingGroup_Init = Some ([10, 20], g')"
    by (simp add: pending_defs)
  then show ?thesis using pending_refines [OF r pending_ok_Init a] r a by (fastforce simp: Let_def simp del: run_pending.simps pending_ops_allowed.simps)
qed

end
