(* ===== verification/CAvl.thy ===== *)
theory CAvl
  imports BAVL_Map LinkedLists
begin

section \<open>AVL trees in memory\<close>

text \<open>
  \<open>structure/CAvl_impl.h\<close>, the generic AVL tree of which the reactor's tree of timers and, through
  \<open>structure/SAvl_impl.h\<close>, the queue of flows are instances: without counts, associated values and keys
  (\<open>CAVL_PARAM_FEATURE_NOKEYS\<close>). The model is at the level of the memory that the code changes: an entry is an address,
  memory maps an address to the links, the parent and the balance factor stored there, and a link is an address or
  \<open>None\<close> for the null link. Following a null link is \<open>None\<close>.

  The lemmas show that the code, on memory that represents a tree, computes what \<open>BAVL\<close> does on trees
  and paths, through every order of writes and every aliasing of the nodes involved. The correctness of \<open>BAVL\<close>
  (order, balance) then carries over.
\<close>

record cavl_node =
  cv_link :: "bool \<Rightarrow> nat option"
  cv_parent :: "nat option"
  cv_balance :: int

type_synonym cavl_mem = "nat \<Rightarrow> cavl_node"
type_synonym cavl = "nat option \<times> cavl_mem"

definition set_link :: "nat \<Rightarrow> bool \<Rightarrow> nat option \<Rightarrow> cavl_mem \<Rightarrow> cavl_mem" where
  "set_link a side v m = m(a := (m a)\<lparr>cv_link := (cv_link (m a))(side := v)\<rparr>)"

definition set_parent :: "nat \<Rightarrow> nat option \<Rightarrow> cavl_mem \<Rightarrow> cavl_mem" where
  "set_parent a v m = m(a := (m a)\<lparr>cv_parent := v\<rparr>)"

definition set_balance :: "nat \<Rightarrow> int \<Rightarrow> cavl_mem \<Rightarrow> cavl_mem" where
  "set_balance a b m = m(a := (m a)\<lparr>cv_balance := b\<rparr>)"

text \<open>The assignment to the parent of the entry a link leads to, where there is one.\<close>

definition set_parent_of :: "nat option \<Rightarrow> nat option \<Rightarrow> cavl_mem \<Rightarrow> cavl_mem" where
  "set_parent_of a v m = (case a of Some c \<Rightarrow> set_parent c v m | None \<Rightarrow> m)"

text \<open>The assignment to the link that leads from the parent, or the root, to an entry.\<close>

definition set_link_to :: "nat option \<Rightarrow> nat \<Rightarrow> nat option \<Rightarrow> cavl \<Rightarrow> cavl" where
  "set_link_to p c v s =
     (case p of Some q \<Rightarrow> (fst s, set_link q (Some c = cv_link (snd s q) True) v (snd s)) | None \<Rightarrow> (v, snd s))"

definition CAvl_compare_entries :: "(nat \<Rightarrow> nat \<Rightarrow> int) \<Rightarrow> nat \<Rightarrow> nat \<Rightarrow> int option" where
  "CAvl_compare_entries cmp node1 node2 = do {
     let res = cmp node1 node2;
     ASSERT (res \<ge> -1);
     ASSERT (res \<le> 1);
     Some res }"

definition CAvl_check_parent :: "nat option \<Rightarrow> nat \<Rightarrow> cavl_mem \<Rightarrow> bool" where
  "CAvl_check_parent p c m \<longleftrightarrow> p = cv_parent (m c) \<and>
     (case p of None \<Rightarrow> True | Some q \<Rightarrow> Some c = cv_link (m q) False \<or> Some c = cv_link (m q) True)"

definition CAvl_rotate :: "nat \<Rightarrow> bool \<Rightarrow> nat option \<Rightarrow> cavl \<Rightarrow> cavl option" where
  "CAvl_rotate r dir r_parent s = do {
     let (root, m) = s;
     ASSERT (CAvl_check_parent r_parent r m);
     nr \<leftarrow> cv_link (m r) (\<not> dir);
     let m = set_link r (\<not> dir) (cv_link (m nr) dir) m;
     let m = set_parent_of (cv_link (m r) (\<not> dir)) (Some r) m;
     let m = set_link nr dir (Some r) m;
     let m = set_parent nr r_parent m;
     let (root, m) = set_link_to r_parent r (Some nr) (root, m);
     Some (root, set_parent r (Some nr) m) }"

partial_function (option) CAvl_subtree_min :: "nat \<Rightarrow> cavl_mem \<Rightarrow> nat option" where
  "CAvl_subtree_min n m = (case cv_link (m n) False of None \<Rightarrow> Some n | Some c \<Rightarrow> CAvl_subtree_min c m)"

partial_function (option) CAvl_subtree_max :: "nat \<Rightarrow> cavl_mem \<Rightarrow> nat option" where
  "CAvl_subtree_max n m = (case cv_link (m n) True of None \<Rightarrow> Some n | Some c \<Rightarrow> CAvl_subtree_max c m)"

definition CAvl_replace_subtree_fix_assoc :: "nat \<Rightarrow> nat option \<Rightarrow> nat option \<Rightarrow> cavl \<Rightarrow> cavl option" where
  "CAvl_replace_subtree_fix_assoc dest n dest_parent s = do {
     ASSERT (CAvl_check_parent dest_parent dest (snd s));
     let (root, m) = set_link_to dest_parent dest n s;
     Some (root, set_parent_of n (cv_parent (m dest)) m) }"

text \<open>\<open>CAvl_swap_for_remove\<close>: two entries change places. The entries may be parent and child.\<close>

definition CAvl_swap_for_remove :: "nat \<Rightarrow> nat \<Rightarrow> nat option \<Rightarrow> nat option \<Rightarrow> cavl \<Rightarrow> cavl option" where
  "CAvl_swap_for_remove node enode node_parent enode_parent s = do {
     let (root, m) = s;
     ASSERT (CAvl_check_parent node_parent node m);
     ASSERT (CAvl_check_parent enode_parent enode m);
     let (root, m) =
       (if enode_parent = Some node then
          (let side = (Some enode = cv_link (m node) True);
               c = cv_link (m node) (\<not> side);
               m = set_link node False (cv_link (m enode) False) m;
               m = set_parent_of (cv_link (m node) False) (Some node) m;
               m = set_link node True (cv_link (m enode) True) m;
               m = set_parent_of (cv_link (m node) True) (Some node) m;
               m = set_parent enode (cv_parent (m node)) m;
               (root, m) = set_link_to node_parent node (Some enode) (root, m);
               m = set_link enode side (Some node) m;
               m = set_parent node (Some enode) m;
               m = set_link enode (\<not> side) c m;
               m = set_parent_of c (Some enode) m
           in (root, m))
        else
          (let temp = node_parent;
               m = set_parent node (cv_parent (m enode)) m;
               (root, m) = set_link_to enode_parent enode (Some node) (root, m);
               m = set_parent enode temp m;
               (root, m) = set_link_to temp node (Some enode) (root, m);
               temp = cv_link (m node) False;
               m = set_link node False (cv_link (m enode) False) m;
               m = set_parent_of (cv_link (m node) False) (Some node) m;
               m = set_link enode False temp m;
               m = set_parent_of (cv_link (m enode) False) (Some enode) m;
               temp = cv_link (m node) True;
               m = set_link node True (cv_link (m enode) True) m;
               m = set_parent_of (cv_link (m node) True) (Some node) m;
               m = set_link enode True temp m;
               m = set_parent_of (cv_link (m enode) True) (Some enode) m
           in (root, m)));
     let b = cv_balance (m node);
     let m = set_balance node (cv_balance (m enode)) m;
     Some (root, set_balance enode b m) }"

text \<open>The transformations of \<open>CAvl_rebalance\<close> for a node with the balance factor 2 or -2: the node that is now in its place, and \<open>delta\<close>.\<close>

definition CAvl_transform :: "nat \<Rightarrow> int \<Rightarrow> cavl \<Rightarrow> (nat \<times> int \<times> cavl) option" where
  "CAvl_transform node delta s = do {
     let bside = (cv_balance (snd s node) = 2);
     let bsidef = (if bside then 1 else -1);
     child \<leftarrow> cv_link (snd s node) bside;
     let c = cv_balance (snd s child) * bsidef;
     if c = 1 then do {
       (root, m) \<leftarrow> CAvl_rotate node (\<not> bside) (cv_parent (snd s node)) s;
       let m = set_balance node 0 m;
       let m = set_balance child 0 m;
       Some (child, delta - 1, (root, m)) }
     else if c = 0 then do {
       (root, m) \<leftarrow> CAvl_rotate node (\<not> bside) (cv_parent (snd s node)) s;
       let m = set_balance node (1 * bsidef) m;
       let m = set_balance child (-1 * bsidef) m;
       Some (child, delta, (root, m)) }
     else if c = -1 then do {
       gchild \<leftarrow> cv_link (snd s child) (\<not> bside);
       s \<leftarrow> CAvl_rotate child bside (Some node) s;
       (root, m) \<leftarrow> CAvl_rotate node (\<not> bside) (cv_parent (snd s node)) s;
       let m = set_balance node (- max 0 (cv_balance (m gchild) * bsidef) * bsidef) m;
       let m = set_balance child (max 0 (- cv_balance (m gchild) * bsidef) * bsidef) m;
       let m = set_balance gchild 0 m;
       Some (gchild, delta - 1, (root, m)) }
     else None }"

partial_function (option) CAvl_rebalance :: "nat \<Rightarrow> bool \<Rightarrow> int \<Rightarrow> cavl \<Rightarrow> cavl option" where
  "CAvl_rebalance node side deltac s = do {
     ASSERT (deltac \<ge> -1 \<and> deltac \<le> 1);
     let b = cv_balance (snd s node);
     ASSERT (b \<ge> -1 \<and> b \<le> 1);
     if deltac = 0 then Some s
     else do {
       let delta = max deltac (BAVL_OPTNEG b side) - max 0 (BAVL_OPTNEG b side);
       ASSERT (delta \<ge> -1 \<and> delta \<le> 1);
       let b = b - BAVL_OPTNEG deltac side;
       let s = (fst s, set_balance node b (snd s));
       (node, delta, s) \<leftarrow> (if b = 2 \<or> b = -2 then CAvl_transform node delta s else Some (node, delta, s));
       ASSERT (delta \<ge> -1 \<and> delta \<le> 1);
       case cv_parent (snd s node) of
         None \<Rightarrow> Some s
       | Some p \<Rightarrow> CAvl_rebalance p (Some node = cv_link (snd s p) True) delta s } }"

definition CAvl_Init :: "nat option" where
  "CAvl_Init = None"

text \<open>
  The search of \<open>CAvl_Insert\<close>: an entry that compares equal, or the entry below which the new one is to be linked, and on which side.
\<close>

partial_function (option) CAvl_Insert_find ::
  "(nat \<Rightarrow> nat \<Rightarrow> int) \<Rightarrow> nat \<Rightarrow> nat \<Rightarrow> cavl_mem \<Rightarrow> (nat + nat \<times> bool) option" where
  "CAvl_Insert_find cmp node c m = do {
     comp \<leftarrow> CAvl_compare_entries cmp node c;
     if comp = 0 then Some (Inl c)
     else case cv_link (m c) (comp = 1) of
       None \<Rightarrow> Some (Inr (c, comp = 1))
     | Some c' \<Rightarrow> CAvl_Insert_find cmp node c' m }"

text \<open>The result: whether the entry was inserted, the tree, and \<open>out_ref\<close>.\<close>

definition CAvl_Insert :: "(nat \<Rightarrow> nat \<Rightarrow> int) \<Rightarrow> nat \<Rightarrow> cavl \<Rightarrow> (bool \<times> cavl \<times> nat option) option" where
  "CAvl_Insert cmp node s =
     (case s of (root, m) \<Rightarrow> case root of
        None \<Rightarrow> do {
          let m = set_parent node None m;
          let m = set_link node False None m;
          let m = set_link node True None m;
          let m = set_balance node 0 m;
          Some (True, (Some node, m), None) }
      | Some c \<Rightarrow> do {
          r \<leftarrow> CAvl_Insert_find cmp node c m;
          case r of
            Inl c \<Rightarrow> Some (False, s, Some c)
          | Inr (c, side) \<Rightarrow> do {
              let m = set_link c side (Some node) m;
              let m = set_parent node (Some c) m;
              let m = set_link node False None m;
              let m = set_link node True None m;
              let m = set_balance node 0 m;
              s \<leftarrow> CAvl_rebalance c side 1 (root, m);
              Some (True, s, Some c) } })"

text \<open>The part of \<open>CAvl_Remove\<close> after the swap.\<close>

definition CAvl_unlink :: "nat \<Rightarrow> cavl \<Rightarrow> cavl option" where
  "CAvl_unlink node s = do {
     ASSERT (cv_link (snd s node) False = None \<or> cv_link (snd s node) True = None);
     let paren = cv_parent (snd s node);
     let child = (if cv_link (snd s node) False \<noteq> None then cv_link (snd s node) False else cv_link (snd s node) True);
     case paren of
       Some p \<Rightarrow> do {
         let side = (Some node = cv_link (snd s p) True);
         s \<leftarrow> CAvl_replace_subtree_fix_assoc node child paren s;
         CAvl_rebalance p side (-1) s }
     | None \<Rightarrow> CAvl_replace_subtree_fix_assoc node child paren s }"

definition CAvl_Remove :: "nat \<Rightarrow> cavl \<Rightarrow> cavl option" where
  "CAvl_Remove node s = do {
     ASSERT (fst s \<noteq> None);
     s \<leftarrow> (case (cv_link (snd s node) False, cv_link (snd s node) True) of
            (Some l, Some r) \<Rightarrow> do {
              mx \<leftarrow> CAvl_subtree_max l (snd s);
              CAvl_swap_for_remove node mx (cv_parent (snd s node)) (cv_parent (snd s mx)) s }
          | _ \<Rightarrow> Some s);
     CAvl_unlink node s }"

definition CAvl_GetFirst :: "cavl \<Rightarrow> nat option option" where
  "CAvl_GetFirst s = (case fst s of None \<Rightarrow> Some None | Some r \<Rightarrow> map_option Some (CAvl_subtree_min r (snd s)))"

definition CAvl_GetLast :: "cavl \<Rightarrow> nat option option" where
  "CAvl_GetLast s = (case fst s of None \<Rightarrow> Some None | Some r \<Rightarrow> map_option Some (CAvl_subtree_max r (snd s)))"

definition CAvl_IsEmpty :: "cavl \<Rightarrow> bool" where
  "CAvl_IsEmpty s = (fst s = None)"

subsection \<open>The tree that memory represents\<close>

fun tree_root :: "'a bavl \<Rightarrow> 'a option" where
  "tree_root Leaf = None"
| "tree_root (Node l v b r) = Some v"

fun trep :: "cavl_mem \<Rightarrow> nat option \<Rightarrow> nat bavl \<Rightarrow> bool" where
  "trep m p Leaf = True"
| "trep m p (Node l v b r) \<longleftrightarrow> cv_parent (m v) = p \<and> cv_balance (m v) = b
     \<and> cv_link (m v) False = tree_root l \<and> cv_link (m v) True = tree_root r \<and> trep m (Some v) l \<and> trep m (Some v) r"

text \<open>
  The nodes above a place, innermost first: \<open>a\<close> is the link into the place, \<open>tp\<close> the parent of the outermost node and \<open>z\<close> the link to it.
\<close>

fun path_parent :: "'a path \<Rightarrow> 'a option \<Rightarrow> 'a option" where
  "path_parent [] tp = tp"
| "path_parent ((side, v, b, t) # p) tp = Some v"

fun prep :: "cavl_mem \<Rightarrow> nat option \<Rightarrow> nat path \<Rightarrow> nat option \<Rightarrow> nat option \<Rightarrow> bool" where
  "prep m a [] tp z \<longleftrightarrow> z = a"
| "prep m a ((side, v, b, t) # p) tp z \<longleftrightarrow> cv_parent (m v) = path_parent p tp \<and> cv_balance (m v) = b
     \<and> cv_link (m v) side = a \<and> cv_link (m v) (\<not> side) = tree_root t \<and> trep m (Some v) t \<and> prep m (Some v) p tp z"

fun path_nodes :: "'a path \<Rightarrow> 'a list" where
  "path_nodes [] = []"
| "path_nodes ((side, v, b, t) # p) = v # inorder t @ path_nodes p"

definition cavl_rep :: "cavl \<Rightarrow> nat bavl \<Rightarrow> bool" where
  "cavl_rep s t \<longleftrightarrow> fst s = tree_root t \<and> trep (snd s) None t \<and> distinct (inorder t)"

definition zrep :: "cavl \<Rightarrow> nat bavl \<Rightarrow> nat path \<Rightarrow> bool" where
  "zrep s t p \<longleftrightarrow> trep (snd s) (path_parent p None) t \<and> prep (snd s) (tree_root t) p None (fst s)
     \<and> distinct (inorder t @ path_nodes p)"

lemma plug_nodes: "set (inorder (plug t p)) = set (inorder t) \<union> set (path_nodes p)"
  by (induction p arbitrary: t) (auto split: if_splits)

lemma zrep_plug: "cavl_rep s (plug t p) \<longleftrightarrow> zrep s t p"
proof (induction p arbitrary: t)
  case Nil
  then show ?case by (auto simp: cavl_rep_def zrep_def)
next
  case (Cons c p)
  obtain side v b u where c: "c = (side, v, b, u)" by (cases c)
  show ?case unfolding c using Cons [of "plug1 c t"] by (auto simp: c zrep_def)
qed


subsection \<open>Writes and what they leave alone\<close>

lemma tree_root_eq: "tree_root t = Some v \<longleftrightarrow> (\<exists>l b r. t = Node l v b r)"
  by (cases t) auto

lemma tree_root_None: "tree_root t = None \<longleftrightarrow> t = Leaf" "None = tree_root t \<longleftrightarrow> t = Leaf"
  by (cases t; simp)+

lemma tree_root_in: "tree_root t = Some v \<Longrightarrow> v \<in> set (inorder t)"
  by (cases t) auto

lemma tree_root_notin: "v \<notin> set (inorder t) \<Longrightarrow> tree_root t \<noteq> Some v" "v \<notin> set (inorder t) \<Longrightarrow> Some v \<noteq> tree_root t"
  by (cases t; auto)+

lemma path_parent_in: "path_parent p tp = Some v \<Longrightarrow> v \<in> set (path_nodes p) \<or> tp = Some v"
  by (cases p rule: path_nodes.cases) auto

lemma node_writes [simp]:
  "cv_link (set_link a side v m b) = (if b = a then (cv_link (m a))(side := v) else cv_link (m b))"
  "cv_parent (set_link a side v m b) = cv_parent (m b)"
  "cv_balance (set_link a side v m b) = cv_balance (m b)"
  "cv_link (set_parent a p m b) = cv_link (m b)"
  "cv_parent (set_parent a p m b) = (if b = a then p else cv_parent (m b))"
  "cv_balance (set_parent a p m b) = cv_balance (m b)"
  "cv_link (set_balance a x m b) = cv_link (m b)"
  "cv_parent (set_balance a x m b) = cv_parent (m b)"
  "cv_balance (set_balance a x m b) = (if b = a then x else cv_balance (m b))"
  by (auto simp: set_link_def set_parent_def set_balance_def)

lemma trep_frame [simp]:
  assumes "a \<notin> set (inorder t)"
  shows "trep (set_link a side v m) p t = trep m p t" "trep (set_parent a q m) p t = trep m p t"
    "trep (set_balance a x m) p t = trep m p t"
  using assms by (induction t arbitrary: p) (auto simp: set_link_def set_parent_def set_balance_def)

lemma prep_frame [simp]:
  assumes "a \<notin> set (path_nodes p)"
  shows "prep (set_link a side v m) c p tp z = prep m c p tp z" "prep (set_parent a q m) c p tp z = prep m c p tp z"
    "prep (set_balance a x m) c p tp z = prep m c p tp z"
  using assms by (induction p arbitrary: c rule: path_nodes.induct) simp_all

lemma set_parent_of_simps [simp]:
  "set_parent_of None p m = m" "set_parent_of (Some c) p m = set_parent c p m"
  by (simp_all add: set_parent_of_def)

lemma set_parent_of_writes [simp]:
  "cv_link (set_parent_of c p m b) = cv_link (m b)"
  "cv_parent (set_parent_of c p m b) = (if c = Some b then p else cv_parent (m b))"
  "cv_balance (set_parent_of c p m b) = cv_balance (m b)"
  by (auto simp: set_parent_of_def split: option.splits)

lemma set_parent_of_frame [simp]:
  "set (inorder u) \<inter> set (inorder t) = {} \<Longrightarrow> trep (set_parent_of (tree_root u) q m) p t = trep m p t"
  "set (inorder t) \<inter> set (inorder u) = {} \<Longrightarrow> trep (set_parent_of (tree_root u) q m) p t = trep m p t"
  "set (inorder u) \<inter> set (path_nodes path) = {} \<Longrightarrow> prep (set_parent_of (tree_root u) q m) c path tp z = prep m c path tp z"
  "set (path_nodes path) \<inter> set (inorder u) = {} \<Longrightarrow> prep (set_parent_of (tree_root u) q m) c path tp z = prep m c path tp z"
  by (cases u; auto simp: set_parent_of_def)+


lemma trep_reparent:
  "distinct (inorder t) \<Longrightarrow> trep (set_parent_of (tree_root t) q m) q t \<longleftrightarrow> (\<exists>p. trep m p t)"
  by (cases t) (auto simp: set_parent_of_def)

lemmas write_simps = CAvl_check_parent_def set_link_to_def Let_def trep_reparent tree_root_notin Int_Un_distrib Int_Un_distrib2

subsection \<open>Rotation and rebalancing\<close>

lemma rotate_right_ok:
  assumes "zrep (z, m) (Node (Node a nr b2 c) r b1 d) p"
  shows "\<exists>s'. CAvl_rotate r True (path_parent p None) (z, m) = Some s' \<and> zrep s' (Node a nr b2 (Node c r b1 d)) p"
proof (cases p rule: path_nodes.cases)
  case 1
  then show ?thesis using assms by (auto simp: zrep_def CAvl_rotate_def write_simps)
next
  case (2 side v b t p')
  then show ?thesis using assms by (cases side) (auto simp: zrep_def CAvl_rotate_def write_simps)
qed

lemma rotate_left_ok:
  assumes "zrep (z, m) (Node a r b1 (Node c nr b2 d)) p"
  shows "\<exists>s'. CAvl_rotate r False (path_parent p None) (z, m) = Some s' \<and> zrep s' (Node (Node a r b1 c) nr b2 d) p"
proof (cases p rule: path_nodes.cases)
  case 1
  then show ?thesis using assms by (auto simp: zrep_def CAvl_rotate_def write_simps)
next
  case (2 side v b t p')
  then show ?thesis using assms by (cases side) (auto simp: zrep_def CAvl_rotate_def write_simps)
qed

lemma rotate_ok:
  assumes "zrep s t p" and "tree_root t = Some r" and "BAVL_rotate t dir = Some t'"
  shows "\<exists>s'. CAvl_rotate r dir (path_parent p None) s = Some s' \<and> zrep s' t' p"
proof (cases t)
  case (Node l v b u)
  show ?thesis
  proof (cases dir)
    case True
    then show ?thesis using assms Node rotate_right_ok [of "fst s" "snd s" _ _ _ _ v b u p]
      by (cases l) (auto simp: BAVL_rotate_def Let_def)
  next
    case False
    then show ?thesis using assms Node rotate_left_ok [of "fst s" "snd s" l v b _ _ _ _ p]
      by (cases u) (auto simp: BAVL_rotate_def Let_def)
  qed
qed (use assms in simp)


lemma zrep_parent: "zrep s (Node l v b r) p \<Longrightarrow> cv_parent (snd s v) = path_parent p None"
  by (simp add: zrep_def)

lemma zrep_node:
  "zrep s (Node l v b r) p \<Longrightarrow> cv_balance (snd s v) = b \<and> cv_link (snd s v) False = tree_root l \<and> cv_link (snd s v) True = tree_root r"
  by (simp add: zrep_def)

lemma zrep_child:
  "zrep s (Node l v b r) p \<longleftrightarrow> zrep s l ((False, v, b, r) # p)"
  "zrep s (Node l v b r) p \<longleftrightarrow> zrep s r ((True, v, b, l) # p)"
  by (simp_all add: zrep_plug [symmetric])

lemma zrep_balance: "zrep (z, m) (Node l v b r) p \<Longrightarrow> zrep (z, set_balance v x m) (Node l v x r) p"
  by (auto simp: zrep_def)

lemma zrep_balance2:
  assumes "zrep (z, m) t p"
  shows "t = Node (Node l v b r) c b2 u \<Longrightarrow> zrep (z, set_balance c y (set_balance v x m)) (Node (Node l v x r) c y u) p"
    "t = Node u c b2 (Node l v b r) \<Longrightarrow> zrep (z, set_balance c y (set_balance v x m)) (Node u c y (Node l v x r)) p"
  using assms by (auto simp: zrep_def)

lemma zrep_balance3:
  assumes "zrep (z, m) (Node (Node l v b r) c b2 (Node l' v' b' r')) p"
  shows "zrep (z, set_balance c y (set_balance v' x' (set_balance v x m))) (Node (Node l v x r) c y (Node l' v' x' r')) p"
    "zrep (z, set_balance c y (set_balance v x (set_balance v' x' m))) (Node (Node l v x r) c y (Node l' v' x' r')) p"
  using assms by (auto simp: zrep_def)

lemma transform_right_single:
  assumes "zrep s (Node l v 2 (Node ul c bc ur)) p" and "bc = 1 \<or> bc = 0"
  shows "\<exists>s'. CAvl_transform v delta s = Some (c, delta - bc, s') \<and> zrep s' (Node (Node l v (1 - bc) ul) c (bc - 1) ur) p"
proof -
  obtain z m where r: "CAvl_rotate v False (path_parent p None) s = Some (z, m)" "zrep (z, m) (Node (Node l v 2 ul) c bc ur) p"
    using rotate_ok [OF assms(1), of v False] by (auto simp: BAVL_rotate_def Let_def)
  have n: "cv_balance (snd s v) = 2" "cv_link (snd s v) True = Some c" "cv_parent (snd s v) = path_parent p None"
    "cv_balance (snd s c) = bc" using assms(1) by (auto simp: zrep_def)
  show ?thesis using assms(2) r(1) n zrep_balance2(1) [OF r(2) refl]
    by (auto simp: CAvl_transform_def Let_def)
qed


lemma transform_left_single:
  assumes "zrep s (Node (Node ul c bc ur) v (-2) r) p" and "bc = -1 \<or> bc = 0"
  shows "\<exists>s'. CAvl_transform v delta s = Some (c, delta + bc, s') \<and> zrep s' (Node ul c (bc + 1) (Node ur v (-1 - bc) r)) p"
proof -
  obtain z m where r: "CAvl_rotate v True (path_parent p None) s = Some (z, m)" "zrep (z, m) (Node ul c bc (Node ur v (-2) r)) p"
    using rotate_ok [OF assms(1), of v True] by (auto simp: BAVL_rotate_def Let_def)
  have n: "cv_balance (snd s v) = -2" "cv_link (snd s v) False = Some c" "cv_parent (snd s v) = path_parent p None"
    "cv_balance (snd s c) = bc" using assms(1) by (auto simp: zrep_def)
  show ?thesis using assms(2) r(1) n zrep_balance2(2) [OF r(2) refl]
    by (auto simp: CAvl_transform_def Let_def)
qed

lemma transform_right_double:
  assumes "zrep s (Node l v 2 (Node (Node gl g bg gr) c (-1) ur)) p"
  shows "\<exists>s'. CAvl_transform v delta s = Some (g, delta - 1, s')
    \<and> zrep s' (Node (Node l v (- max 0 bg) gl) g 0 (Node gr c (max 0 (- bg)) ur)) p"
proof -
  obtain s1 where r1: "CAvl_rotate c True (Some v) s = Some s1" "zrep s1 (Node l v 2 (Node gl g bg (Node gr c (-1) ur))) p"
    using rotate_ok [of s "Node (Node gl g bg gr) c (-1) ur" "(True, v, 2, l) # p" c True] assms
    by (auto simp: BAVL_rotate_def Let_def zrep_child(2))
  obtain z m where r2: "CAvl_rotate v False (path_parent p None) s1 = Some (z, m)"
      "zrep (z, m) (Node (Node l v 2 gl) g bg (Node gr c (-1) ur)) p"
    using rotate_ok [OF r1(2), of v False] by (auto simp: BAVL_rotate_def Let_def)
  have n: "cv_balance (snd s v) = 2" "cv_link (snd s v) True = Some c" "cv_balance (snd s c) = -1"
    "cv_link (snd s c) False = Some g" "cv_parent (snd s1 v) = path_parent p None" "cv_balance (m g) = bg" "v \<noteq> g" "c \<noteq> g"
    using assms r1(2) r2(2) by (auto simp: zrep_def)
  show ?thesis using r1(1) r2(1) n zrep_balance3(1) [OF r2(2)] by (simp add: CAvl_transform_def Let_def)
qed

lemma transform_left_double:
  assumes "zrep s (Node (Node ul c 1 (Node gl g bg gr)) v (-2) r) p"
  shows "\<exists>s'. CAvl_transform v delta s = Some (g, delta - 1, s')
    \<and> zrep s' (Node (Node ul c (- max 0 bg) gl) g 0 (Node gr v (max 0 (- bg)) r)) p"
proof -
  obtain s1 where r1: "CAvl_rotate c False (Some v) s = Some s1" "zrep s1 (Node (Node (Node ul c 1 gl) g bg gr) v (-2) r) p"
    using rotate_ok [of s "Node ul c 1 (Node gl g bg gr)" "(False, v, -2, r) # p" c False] assms
    by (auto simp: BAVL_rotate_def Let_def zrep_child(1))
  obtain z m where r2: "CAvl_rotate v True (path_parent p None) s1 = Some (z, m)"
      "zrep (z, m) (Node (Node ul c 1 gl) g bg (Node gr v (-2) r)) p"
    using rotate_ok [OF r1(2), of v True] by (auto simp: BAVL_rotate_def Let_def)
  have n: "cv_balance (snd s v) = -2" "cv_link (snd s v) False = Some c" "cv_balance (snd s c) = 1"
    "cv_link (snd s c) True = Some g" "cv_parent (snd s1 v) = path_parent p None" "cv_balance (m g) = bg" "v \<noteq> g" "c \<noteq> g"
    using assms r1(2) r2(2) by (auto simp: zrep_def)
  show ?thesis using r1(1) r2(1) n zrep_balance3(2) [OF r2(2)] by (simp add: CAvl_transform_def Let_def)
qed

lemma transform_ok:
  assumes "zrep s t p" and "tree_root t = Some v" and "bavl_balance t = 2 \<or> bavl_balance t = -2" and "BAVL_transform t delta = Some (t', delta')"
  shows "\<exists>v' s'. CAvl_transform v delta s = Some (v', delta', s') \<and> zrep s' t' p \<and> tree_root t' = Some v'"
proof -
  obtain l b r where t: "t = Node l v b r" using assms(2) by (auto simp: tree_root_eq)
  show ?thesis
  proof (cases "b = 2")
    case True
    then obtain ul c bc ur where r: "r = Node ul c bc ur" using assms(4) t by (cases r) (auto simp: BAVL_transform_def Let_def)
    have rep: "zrep s (Node l v 2 (Node ul c bc ur)) p" using assms(1) t True r by simp
    consider "bc = 1 \<or> bc = 0" | gl g bg gr where "bc = -1" "ul = Node gl g bg gr"
      using assms(4) t True r by (cases ul) (auto simp: BAVL_transform_def Let_def split: if_splits)
    then show ?thesis
    proof cases
      case 1
      then show ?thesis using transform_right_single [OF rep] assms(4) t True r
        by (auto simp: BAVL_transform_def BAVL_rotate_def Let_def)
    next
      case (2 gl g bg gr)
      then show ?thesis using transform_right_double [of s l v gl g bg gr c ur p delta] rep assms(4) t True r
        by (auto simp: BAVL_transform_def BAVL_rotate_def Let_def)
    qed
  next
    case False
    then have b: "b = -2" using assms(3) t by auto
    then obtain ul c bc ur where l: "l = Node ul c bc ur" using assms(4) t by (cases l) (auto simp: BAVL_transform_def Let_def)
    have rep: "zrep s (Node (Node ul c bc ur) v (-2) r) p" using assms(1) t b l by simp
    consider "bc = -1 \<or> bc = 0" | gl g bg gr where "bc = 1" "ur = Node gl g bg gr"
      using assms(4) t b l by (cases ur) (auto simp: BAVL_transform_def Let_def split: if_splits)
    then show ?thesis
    proof cases
      case 1
      then show ?thesis using transform_left_single [OF rep] assms(4) t b l
        by (auto simp: BAVL_transform_def BAVL_rotate_def Let_def)
    next
      case (2 gl g bg gr)
      then show ?thesis using transform_left_double [of s ul c gl g bg gr v r p delta] rep assms(4) t b l
        by (auto simp: BAVL_transform_def BAVL_rotate_def Let_def max_def split: if_splits)
    qed
  qed
qed

lemma zrep_up:
  assumes "zrep s t ((side, q, b, u) # p)" and "tree_root t = Some v"
  shows "cv_parent (snd s v) = Some q" "(Some v = cv_link (snd s q) True) = side" "zrep s (plug1 (side, q, b, u) t) p"
    "tree_root (plug1 (side, q, b, u) t) = Some q"
proof -
  obtain l x r where t: "t = Node l v x r" using assms(2) by (auto simp: tree_root_eq)
  show "cv_parent (snd s v) = Some q" "tree_root (plug1 (side, q, b, u) t) = Some q" "zrep s (plug1 (side, q, b, u) t) p"
    using assms by (simp_all add: t zrep_parent) (simp_all add: zrep_plug [symmetric] split: if_splits)
  show "(Some v = cv_link (snd s q) True) = side"
    using assms by (cases side) (auto simp: t zrep_def tree_root_notin)
qed

text \<open>One level of the rebalancing.\<close>

lemma rebalance_level_mem:
  assumes "zrep s t p" and "tree_root t = Some v" and "BAVL_rebalance t p side deltac = Some t'" and "deltac \<noteq> 0"
  shows "\<exists>v2 delta s2 t2. zrep s2 t2 p \<and> tree_root t2 = Some v2
    \<and> (case p of [] \<Rightarrow> t' = t2 | c # cs \<Rightarrow> BAVL_rebalance (plug1 c t2) cs (fst c) delta = Some t')
    \<and> CAvl_rebalance v side deltac s =
        (case cv_parent (snd s2 v2) of None \<Rightarrow> Some s2 | Some q \<Rightarrow> CAvl_rebalance q (Some v2 = cv_link (snd s2 q) True) delta s2)"
proof -
  obtain l b r where t: "t = Node l v b r" using assms(2) by (auto simp: tree_root_eq)
  have b: "cv_balance (snd s v) = b" using zrep_node assms(1) t by blast
  define delta where "delta = max deltac (BAVL_OPTNEG b side) - max 0 (BAVL_OPTNEG b side)"
  define b' where "b' = b - BAVL_OPTNEG deltac side"
  let ?s = "(fst s, set_balance v b' (snd s))" and ?t = "Node l v b' r"
  have z: "zrep ?s ?t p" using zrep_balance [of "fst s" "snd s" l v b r p b'] assms(1) t by simp
  obtain t2 delta2 where 2: "(if b' = 2 \<or> b' = -2 then BAVL_transform ?t delta else Some (?t, delta)) = Some (t2, delta2)"
    and a: "- 1 \<le> deltac \<and> deltac \<le> 1" "- 1 \<le> b \<and> b \<le> 1" "- 1 \<le> delta \<and> delta \<le> 1" "- 1 \<le> delta2 \<and> delta2 \<le> 1"
    and t': "case p of [] \<Rightarrow> t' = t2 | c # cs \<Rightarrow> BAVL_rebalance (plug1 c t2) cs (fst c) delta2 = Some t'"
    using assms(3,4) unfolding t BAVL_rebalance.simps [of "Node l v b r"]
    by (auto simp: ASSERT_bind bind_Some_iff delta_def [symmetric] b'_def [symmetric] Let_def split: if_splits list.splits)
  have "\<exists>v2 s2. (if b' = 2 \<or> b' = -2 then CAvl_transform v delta ?s else Some (v, delta, ?s)) = Some (v2, delta2, s2)
      \<and> zrep s2 t2 p \<and> tree_root t2 = Some v2"
    using 2 z transform_ok [OF z, of v delta t2 delta2] by (auto split: if_splits)
  then obtain v2 s2 where s2: "(if b' = 2 \<or> b' = -2 then CAvl_transform v delta ?s else Some (v, delta, ?s)) = Some (v2, delta2, s2)"
    "zrep s2 t2 p" "tree_root t2 = Some v2" by blast
  have "CAvl_rebalance v side deltac s =
      (case cv_parent (snd s2 v2) of None \<Rightarrow> Some s2 | Some q \<Rightarrow> CAvl_rebalance q (Some v2 = cv_link (snd s2 q) True) delta2 s2)"
    using a assms(4) s2(1) unfolding CAvl_rebalance.simps [of v side deltac s] b
    by (simp add: delta_def [symmetric] b'_def [symmetric] Let_def) (auto split: if_splits)
  with s2 t' show ?thesis by blast
qed

lemma rebalance_zero_mem:
  assumes "zrep s t p" and "tree_root t = Some v" and "BAVL_rebalance t p side 0 = Some t'"
  shows "CAvl_rebalance v side 0 s = Some s" "cavl_rep s t'"
proof -
  obtain l b r where t: "t = Node l v b r" using assms(2) by (auto simp: tree_root_eq)
  have b: "cv_balance (snd s v) = b" using zrep_node assms(1) t by blast
  have "-1 \<le> b \<and> b \<le> 1 \<and> t' = plug t p" using assms(3) unfolding t BAVL_rebalance.simps [of "Node l v b r"]
    by (auto simp: ASSERT_bind split: if_splits)
  then show "CAvl_rebalance v side 0 s = Some s" "cavl_rep s t'"
    using assms(1) b by (simp_all add: CAvl_rebalance.simps [of v] zrep_plug)
qed

lemma rebalance_mem:
  assumes "zrep s t p" and "tree_root t = Some v" and "BAVL_rebalance t p side deltac = Some t'"
  shows "\<exists>s'. CAvl_rebalance v side deltac s = Some s' \<and> cavl_rep s' t'"
  using assms
proof (induction p arbitrary: s t v side deltac)
  case Nil
  show ?case
  proof (cases "deltac = 0")
    case True
    show ?thesis using rebalance_zero_mem [OF Nil(1,2)] Nil(3) True by blast
  next
    case False
    obtain v2 s2 delta where s2: "zrep s2 t' []" "tree_root t' = Some v2" "CAvl_rebalance v side deltac s =
        (case cv_parent (snd s2 v2) of None \<Rightarrow> Some s2 | Some q \<Rightarrow> CAvl_rebalance q (Some v2 = cv_link (snd s2 q) True) delta s2)"
      using rebalance_level_mem [OF Nil False] by auto
    then have "cv_parent (snd s2 v2) = None" using zrep_parent [of s2] by (auto simp: tree_root_eq)
    then show ?thesis using s2 zrep_plug [of s2 t' "[]"] by simp
  qed
next
  case (Cons c p)
  obtain d q b u where c: "c = (d, q, b, u)" by (cases c)
  show ?case
  proof (cases "deltac = 0")
    case True
    show ?thesis using rebalance_zero_mem [OF Cons.prems(1,2)] Cons.prems(3) True by blast
  next
    case False
    obtain v2 delta s2 t2 where s2: "zrep s2 t2 (c # p)" "tree_root t2 = Some v2"
        "BAVL_rebalance (plug1 c t2) p (fst c) delta = Some t'"
        "CAvl_rebalance v side deltac s =
          (case cv_parent (snd s2 v2) of None \<Rightarrow> Some s2 | Some q \<Rightarrow> CAvl_rebalance q (Some v2 = cv_link (snd s2 q) True) delta s2)"
      using rebalance_level_mem [OF Cons.prems False] by auto
    note up = zrep_up [OF s2(1) [unfolded c] s2(2)]
    show ?thesis using Cons.IH [OF up(3,4), of "fst c" delta] s2(3,4) up(1,2) by (simp add: c)
  qed
qed


subsection \<open>Insertion and the ends of the tree\<close>

definition found_mem :: "cavl \<Rightarrow> nat bavl \<Rightarrow> (nat + nat bavl \<times> nat path \<times> bool) \<Rightarrow> (nat + nat \<times> bool) \<Rightarrow> bool" where
  "found_mem s root res r \<longleftrightarrow>
     (case res of Inl c \<Rightarrow> r = Inl c
      | Inr (t', p', side) \<Rightarrow> \<exists>c. zrep s t' p' \<and> tree_root t' = Some c \<and> bavl_link side t' = Leaf \<and> plug t' p' = root \<and> r = Inr (c, side))"

lemma find_mem:
  assumes "zrep s t p" and "tree_root t = Some v" and "BAVL_Insert_find (\<lambda>x. x) cmp x t p = Some res"
  shows "\<exists>r. CAvl_Insert_find cmp x v (snd s) = Some r \<and> found_mem s (plug t p) res r"
  using assms
proof (induction t arbitrary: p v)
  case (Node l w b r)
  have [simp]: "w = v" using Node.prems(2) by simp
  have n: "cv_link (snd s v) False = tree_root l" "cv_link (snd s v) True = tree_root r"
    using zrep_node Node.prems(1) by auto
  obtain comp where comp: "comp = cmp x v" "comp = -1 \<or> comp = 0 \<or> comp = 1"
    using Node.prems(3) by (auto simp: BAVL_compare_values_def ASSERT_bind Let_def split: if_splits)
  have cc: "BAVL_compare_values cmp x v = Some comp" "CAvl_compare_entries cmp x v = Some comp"
    using comp by (auto simp: BAVL_compare_values_def CAvl_compare_entries_def)
  note unf = CAvl_Insert_find.simps [of cmp x v "snd s"]
  have left: ?case if c: "comp = -1"
  proof (cases "tree_root l")
    case None
    then show ?thesis using Node.prems c cc n unf by (cases l) (auto simp: found_mem_def)
  next
    case (Some a)
    then have "BAVL_Insert_find (\<lambda>x. x) cmp x l ((False, v, b, r) # p) = Some res" using Node.prems(3) c cc by (cases l) auto
    then show ?thesis using Node.IH(1) [OF _ Some, of "(False, v, b, r) # p"] Node.prems(1) Some c cc n unf by (simp add: zrep_child(1))
  qed
  have right: ?case if c: "comp = 1"
  proof (cases "tree_root r")
    case None
    then show ?thesis using Node.prems c cc n unf by (cases r) (auto simp: found_mem_def)
  next
    case (Some a)
    then have "BAVL_Insert_find (\<lambda>x. x) cmp x r ((True, v, b, l) # p) = Some res" using Node.prems(3) c cc by (cases r) auto
    then show ?thesis using Node.IH(2) [OF _ Some, of "(True, v, b, l) # p"] Node.prems(1) Some c cc n unf by (simp add: zrep_child(2))
  qed
  have ?case if "comp = 0" using Node.prems(3) that cc unf by (auto simp: found_mem_def)
  then show ?case using left right comp(2) by blast
qed simp

lemma link_new:
  assumes "zrep (z, m) t p" and "tree_root t = Some c" and "bavl_link side t = Leaf" and "x \<notin> set (inorder t) \<union> set (path_nodes p)"
  shows "zrep (z, set_balance x 0 (set_link x True None (set_link x False None (set_parent x (Some c) (set_link c side (Some x) m)))))
           (bavl_set_link side (Node Leaf x 0 Leaf) t) p"
    "tree_root (bavl_set_link side (Node Leaf x 0 Leaf) t) = Some c"
proof -
  obtain l b r where t: "t = Node l c b r" using assms(2) by (auto simp: tree_root_eq)
  show "zrep (z, set_balance x 0 (set_link x True None (set_link x False None (set_parent x (Some c) (set_link c side (Some x) m)))))
           (bavl_set_link side (Node Leaf x 0 Leaf) t) p"
    using assms unfolding t by (cases side) (auto simp: zrep_def)
  show "tree_root (bavl_set_link side (Node Leaf x 0 Leaf) t) = Some c" by (simp add: t)
qed

lemma CAvl_Insert_mem:
  assumes "cavl_rep s t" and "BAVL_Insert (\<lambda>x. x) cmp t x = Some (res, t', ref)" and "x \<notin> set (inorder t) \<or> \<not> res"
  shows "\<exists>s'. CAvl_Insert cmp x s = Some (res, s', ref) \<and> cavl_rep s' t'"
proof (cases t)
  case Leaf
  then show ?thesis using assms by (cases s) (auto simp: CAvl_Insert_def BAVL_Insert_def cavl_rep_def Let_def)
next
  case (Node l v b r)
  obtain z m where s: "s = (z, m)" by (cases s)
  have z: "zrep (z, m) t []" "z = Some v" using assms(1) zrep_plug [of s t "[]"] s Node by (auto simp: cavl_rep_def)
  obtain f where f: "BAVL_Insert_find (\<lambda>x. x) cmp x t [] = Some f" using assms(2) Node by (auto simp: BAVL_Insert_def bind_Some_iff)
  obtain w where w: "CAvl_Insert_find cmp x v m = Some w" "found_mem (z, m) t f w"
    using find_mem [OF z(1) _ f, of v] Node by auto
  show ?thesis
  proof (cases f)
    case (Inl c)
    then show ?thesis using w f assms(1,2) s z Node by (auto simp: CAvl_Insert_def BAVL_Insert_def found_mem_def)
  next
    case (Inr q)
    obtain u p side where q: "q = (u, p, side)" by (cases q)
    obtain c where c: "zrep (z, m) u p" "tree_root u = Some c" "bavl_link side u = Leaf"
        "CAvl_Insert_find cmp x v m = Some (Inr (c, side))" "plug u p = t"
      using w Inr q by (auto simp: found_mem_def)
    have res: "res" "ref = Some c" "BAVL_rebalance (bavl_set_link side (Node Leaf x 0 Leaf) u) p side 1 = Some t'"
      using assms(2) f Inr q Node c(2) by (auto simp: BAVL_Insert_def bind_Some_iff tree_root_eq)
    have x: "x \<notin> set (inorder u) \<union> set (path_nodes p)" using assms(3) res(1) c(5) plug_nodes [of u p] by auto
    note new = link_new [OF c(1,2,3) x]
    obtain s' where "CAvl_rebalance c side 1 (z, set_balance x 0 (set_link x True None (set_link x False None (set_parent x (Some c) (set_link c side (Some x) m))))) = Some s'"
        "cavl_rep s' t'"
      using rebalance_mem [OF new res(3)] by blast
    then show ?thesis using c(4) z(2) s res by (simp add: CAvl_Insert_def Let_def)
  qed
qed


lemma subtree_min_mem:
  "trep m p t \<Longrightarrow> tree_root t = Some n \<Longrightarrow> CAvl_subtree_min n m = BAVL_GetFirst t"
proof (induction t arbitrary: p n)
  case (Node l v b r)
  have "CAvl_subtree_min v m = (case tree_root l of None \<Rightarrow> Some v | Some c \<Rightarrow> CAvl_subtree_min c m)"
    using Node.prems CAvl_subtree_min.simps [of v m] by auto
  then show ?case using Node by (cases l) auto
qed simp

lemma subtree_max_mem:
  "trep m p t \<Longrightarrow> tree_root t = Some n \<Longrightarrow> CAvl_subtree_max n m = BAVL_GetLast t"
proof (induction t arbitrary: p n)
  case (Node l v b r)
  have "CAvl_subtree_max v m = (case tree_root r of None \<Rightarrow> Some v | Some c \<Rightarrow> CAvl_subtree_max c m)"
    using Node.prems CAvl_subtree_max.simps [of v m] by auto
  then show ?case using Node by (cases r) auto
qed simp

lemma GetFirst_mem: "cavl_rep s t \<Longrightarrow> CAvl_GetFirst s = Some (first_or (inorder t) None)"
proof (cases t)
  case (Node l v b r)
  assume "cavl_rep s t"
  then have "CAvl_subtree_min v (snd s) = BAVL_GetFirst t" "fst s = Some v" using subtree_min_mem [of "snd s" None t v] Node by (auto simp: cavl_rep_def simp del: trep.simps)
  moreover have "BAVL_GetFirst t = Some (hd (inorder t))" "inorder t \<noteq> []" using Node GetFirst_first [of t] by (auto simp: first_of_def split: list.splits)
  ultimately show ?thesis by (cases "inorder t") (auto simp: CAvl_GetFirst_def)
qed (simp add: CAvl_GetFirst_def cavl_rep_def)

lemma GetLast_mem: "cavl_rep s t \<Longrightarrow> CAvl_GetLast s = Some (last_or (inorder t) None)"
proof (cases t)
  case (Node l v b r)
  assume "cavl_rep s t"
  then have "CAvl_subtree_max v (snd s) = BAVL_GetLast t" "fst s = Some v" using subtree_max_mem [of "snd s" None t v] Node by (auto simp: cavl_rep_def simp del: trep.simps)
  moreover have ne: "inorder t \<noteq> []" using Node by simp
  moreover have "BAVL_GetLast t = Some (last (inorder t))"
    unfolding GetLast_last using ne by (cases "inorder t" rule: rev_cases) auto
  ultimately show ?thesis by (simp add: CAvl_GetLast_def last_or_def)
qed (simp add: CAvl_GetLast_def cavl_rep_def)

subsection \<open>Removal\<close>

lemma path_parent_append [simp]: "path_parent (p @ q) tp = path_parent p (path_parent q tp)"
  by (cases p rule: path_nodes.cases) auto

lemma path_nodes_append [simp]: "path_nodes (p @ q) = path_nodes p @ path_nodes q"
  by (induction p rule: path_nodes.induct) auto

lemma prep_append: "prep m a (p @ q) tp z \<longleftrightarrow> (\<exists>y. prep m a p (path_parent q tp) y \<and> prep m y q tp z)"
  by (induction p arbitrary: a rule: path_nodes.induct) auto

lemma prep_top: "prep m (Some a) p tp z \<Longrightarrow> \<exists>w. z = Some w \<and> (w = a \<or> w \<in> set (path_nodes p))"
  by (induction p arbitrary: a rule: path_nodes.induct) auto

lemma prep_reparent:
  assumes "distinct (path_nodes (c # p))"
  shows "prep (set_parent w q m) a (c # p) q (Some w) \<longleftrightarrow> (\<exists>tp. prep m a (c # p) tp (Some w))"
  using assms
proof (induction p arbitrary: a c)
  case Nil
  obtain side v b t where c: "c = (side, v, b, t)" by (cases c)
  show ?case using Nil by (auto simp: c)
next
  case (Cons d p)
  obtain side v b t where c: "c = (side, v, b, t)" by (cases c)
  obtain side' v' b' t' where d: "d = (side', v', b', t')" by (cases d)
  define here where "here m' \<longleftrightarrow> cv_parent (m' v) = Some v' \<and> cv_balance (m' v) = b \<and> cv_link (m' v) side = a
    \<and> cv_link (m' v) (\<not> side) = tree_root t \<and> trep m' (Some v) t" for m'
  have split: "prep m' a (c # d # p) q' (Some w) \<longleftrightarrow> here m' \<and> prep m' (Some v) (d # p) q' (Some w)" for m' q'
    by (auto simp: c d here_def)
  have w: "w \<noteq> v \<and> w \<notin> set (inorder t)" if "prep m' (Some v) (d # p) q' (Some w)" for m' q'
    using prep_top [of m' v' p q' "Some w"] Cons.prems that by (auto simp: c d)
  have "here (set_parent w q m) \<longleftrightarrow> here m" if "w \<noteq> v \<and> w \<notin> set (inorder t)" using that by (simp add: here_def)
  moreover have "prep (set_parent w q m) (Some v) (d # p) q (Some w) \<longleftrightarrow> (\<exists>tp. prep m (Some v) (d # p) tp (Some w))"
    by (rule Cons.IH) (use Cons.prems in \<open>simp add: c\<close>)
  ultimately show ?case unfolding split using w by blast
qed

lemma prep_relink:
  "distinct (path_nodes ((side, v, b, t) # p)) \<Longrightarrow>
   prep (set_link v side a' m) a' ((side, v, b, t) # p) tp z \<longleftrightarrow> (\<exists>a. prep m a ((side, v, b, t) # p) tp z)"
  by auto


lemma swap_near:
  assumes "zrep (z, m) (Node (Node child mx bm Leaf) v b r) p" and "r \<noteq> Leaf"
  shows "\<exists>s'. CAvl_swap_for_remove v mx (path_parent p None) (Some v) (z, m) = Some s'
    \<and> zrep s' (Node child v bm Leaf) ((False, mx, b, r) # p)"
proof (cases p rule: path_nodes.cases)
  case 1
  then show ?thesis using assms by (auto simp: zrep_def CAvl_swap_for_remove_def write_simps)
next
  case (2 side w c t p')
  then show ?thesis using assms by (cases side) (auto simp: zrep_def CAvl_swap_for_remove_def write_simps)
qed


text \<open>The path \<open>P\<close> between the two entries starts with the link of \<open>v1\<close> on the side \<open>s1\<close> and ends at \<open>w\<close>.\<close>

lemma swap_far_writes:
  assumes "trep m (Some v1) (Node child mx bm Leaf)" and "prep m (Some mx) P (Some v) (Some w)"
    and "prep m (Some w) ((False, v, b, r) # p) None z"
    and "distinct (inorder (Node child mx bm Leaf) @ path_nodes P @ path_nodes ((False, v, b, r) # p))"
    and "v1 \<in> set (path_nodes P)" and "w \<in> set (path_nodes P)"
    and "cv_link (m v1) s1 = Some mx" and "cv_link (m v1) (\<not> s1) \<noteq> Some mx"
    and relink: "\<And>m a' tp z. prep (set_link v1 s1 a' m) a' P tp z \<longleftrightarrow> (\<exists>a. prep m a P tp z)"
    and reparent: "\<And>m a q. prep (set_parent w q m) a P q (Some w) \<longleftrightarrow> (\<exists>tp. prep m a P tp (Some w))"
  shows "\<exists>z' m'. CAvl_swap_for_remove v mx (path_parent p None) (Some v1) (z, m) = Some (z', m')
    \<and> trep m' (Some v1) (Node child v bm Leaf) \<and> prep m' (Some v) P (Some mx) (Some w) \<and> prep m' (Some w) ((False, mx, b, r) # p) None z'"
proof -
  have n: "v1 \<noteq> v" "v \<noteq> v1" "w \<noteq> v" "v \<noteq> w" "w \<noteq> mx" "mx \<noteq> w" "v1 \<noteq> mx" "mx \<noteq> v1" "v \<noteq> mx" "mx \<noteq> v"
    "v1 \<notin> set (inorder child)" "v1 \<notin> set (inorder r)" "v1 \<notin> set (path_nodes p)"
    "w \<notin> set (inorder child)" "w \<notin> set (inorder r)" "w \<notin> set (path_nodes p)" "v \<notin> set (path_nodes P)" "mx \<notin> set (path_nodes P)"
    and d: "set (inorder child) \<inter> set (path_nodes P) = {}" "set (inorder r) \<inter> set (path_nodes P) = {}"
    "v \<notin> set (inorder child)" "v \<notin> set (inorder r)" "v \<notin> set (path_nodes p)" "mx \<notin> set (inorder child)" "mx \<notin> set (inorder r)"
    "mx \<notin> set (path_nodes p)" "set (inorder child) \<inter> set (inorder r) = {}" "set (inorder child) \<inter> set (path_nodes p) = {}"
    "set (inorder r) \<inter> set (path_nodes p) = {}" "distinct (inorder child)" "distinct (inorder r)"
    using assms(4-6) by auto
  have l: "cv_parent (m mx) = Some v1" "cv_balance (m mx) = bm" "cv_link (m mx) False = tree_root child" "cv_link (m mx) True = None"
    "cv_parent (m v) = path_parent p None" "cv_balance (m v) = b" "cv_link (m v) False = Some w" "cv_link (m v) True = tree_root r"
    "trep m (Some v) r" "trep m (Some mx) child" "prep m (Some v) p None z"
    using assms(1,3) by auto
  have side: "(Some mx = cv_link (m v1) True) = s1" "Some mx = cv_link (m v1) False \<or> s1" using assms(7,8) by (cases s1; auto)+
  have ex: "\<exists>tp a. prep m a P tp (Some w)" "\<exists>p. trep m p child" "\<exists>p. trep m p r" using assms(2) l by blast+
  show ?thesis
  proof (cases p rule: path_nodes.cases)
    case 1
    show ?thesis unfolding 1 using l(9,10)
      by (simp add: CAvl_swap_for_remove_def write_simps relink reparent n d ex side l(1-4,6-8) l(5,11) [unfolded 1, simplified])
  next
    case (2 e q c t p')
    have q: "v1 \<noteq> q" "w \<noteq> q" "q \<noteq> w" "q \<noteq> v1" "q \<notin> set (path_nodes P)" "q \<notin> set (inorder child)" "q \<notin> set (inorder r)" "q \<noteq> v" "q \<noteq> mx" "v \<noteq> q" "mx \<noteq> q"
      "q \<notin> set (path_nodes p')" "q \<notin> set (inorder t)"
      using assms(4-6) 2 by auto
    have tp: "x \<in> {v, mx, v1, w} \<Longrightarrow> x \<notin> set (inorder t) \<and> x \<notin> set (path_nodes p')" for x using n d 2 by auto
    have dtp: "set (inorder child) \<inter> set (inorder t) = {}" "set (inorder child) \<inter> set (path_nodes p') = {}"
      "set (inorder r) \<inter> set (inorder t) = {}" "set (inorder r) \<inter> set (path_nodes p') = {}" using d 2 by auto
    have e: "(Some v = cv_link (m q) True) = e" "Some v = cv_link (m q) False \<or> e"
      using l(11) d(5) 2 tree_root_notin(2) [of v t] by (cases e; auto)+
    show ?thesis unfolding 2 using l(9,10) l(11) [unfolded 2]
      by (simp add: CAvl_swap_for_remove_def write_simps relink reparent n d ex side e q tp dtp l(1-4,6-8) l(5) [unfolded 2, simplified])
  qed
qed

lemma swap_far:
  assumes "zrep (z, m) (Node child mx bm Leaf) (((s1, v1, b1, t1) # mp) @ (False, v, b, r) # p)"
  shows "\<exists>s'. CAvl_swap_for_remove v mx (path_parent p None) (Some v1) (z, m) = Some s'
    \<and> zrep s' (Node child v bm Leaf) (((s1, v1, b1, t1) # mp) @ (False, mx, b, r) # p)"
proof -
  let ?P = "(s1, v1, b1, t1) # mp"
  obtain y where y: "prep m (Some mx) ?P (Some v) y" "prep m y ((False, v, b, r) # p) None z"
    using assms unfolding zrep_def prep_append by auto
  obtain w where w: "y = Some w" "w \<in> set (path_nodes ?P)"
    using y(1) prep_top [of m v1 mp "Some v" y] by auto
  have t: "trep m (Some v1) (Node child mx bm Leaf)"
    and d: "distinct (inorder (Node child mx bm Leaf) @ path_nodes ?P @ path_nodes ((False, v, b, r) # p))"
    using assms unfolding zrep_def by (simp_all del: trep.simps)
  have l: "cv_link (m v1) s1 = Some mx" "cv_link (m v1) (\<not> s1) \<noteq> Some mx"
    using y(1) d tree_root_notin(1) [of mx t1] by auto
  have dP: "distinct (path_nodes ?P)" using d unfolding distinct_append by blast
  have v1: "v1 \<in> set (path_nodes ?P)" by simp
  obtain z' m' where "CAvl_swap_for_remove v mx (path_parent p None) (Some v1) (z, m) = Some (z', m')"
      and r: "trep m' (Some v1) (Node child v bm Leaf)" "prep m' (Some v) ?P (Some mx) (Some w)" "prep m' (Some w) ((False, mx, b, r) # p) None z'"
    using swap_far_writes [OF t y(1) [unfolded w(1)] y(2) [unfolded w(1)] d v1 w(2) l prep_relink [OF dP] prep_reparent [OF dP]] by blast
  moreover have "zrep (z', m') (Node child v bm Leaf) (?P @ (False, mx, b, r) # p)"
    unfolding zrep_def prep_append using r d by (auto simp del: trep.simps prep.simps)
  ultimately show ?thesis by blast
qed

lemma swap_mem:
  assumes "zrep s (Node child mx bm Leaf) (mp @ (False, v, b, r) # p)" and "r \<noteq> Leaf"
  shows "\<exists>s'. CAvl_swap_for_remove v mx (cv_parent (snd s v)) (cv_parent (snd s mx)) s = Some s'
    \<and> zrep s' (Node child v bm Leaf) (mp @ (False, mx, b, r) # p)"
proof -
  obtain z m where s: "s = (z, m)" by (cases s)
  have pv: "cv_parent (m v) = path_parent p None" and pm: "cv_parent (m mx) = path_parent mp (Some v)"
    using assms(1) s by (auto simp: zrep_def prep_append)
  show ?thesis
  proof (cases mp rule: path_nodes.cases)
    case 1
    then show ?thesis using swap_near [of z m child mx bm v b r p] assms pv pm s by (simp add: zrep_child(1))
  next
    case (2 s1 v1 b1 t1 mp')
    then show ?thesis using swap_far [of z m child mx bm s1 v1 b1 t1 mp' v b r p] assms pv pm s by simp
  qed
qed

lemma replace_mem:
  assumes "zrep (z, m) (Node l v b r) p" and "l = Leaf \<or> r = Leaf" and "c = (if l \<noteq> Leaf then l else r)"
  shows "\<exists>s'. CAvl_replace_subtree_fix_assoc v (tree_root c) (path_parent p None) (z, m) = Some s' \<and> zrep s' c p"
proof (cases p rule: path_nodes.cases)
  case 1
  then show ?thesis using assms by (auto simp: zrep_def CAvl_replace_subtree_fix_assoc_def write_simps)
next
  case (2 side q x t p')
  then show ?thesis using assms by (cases side) (auto simp: zrep_def CAvl_replace_subtree_fix_assoc_def write_simps)
qed


lemma unlink_mem:
  assumes "zrep s (Node l v b r) p" and "l = Leaf \<or> r = Leaf"
    and "BAVL_replace_rebalance (if l \<noteq> Leaf then l else r) p = Some t'"
  shows "\<exists>s'. CAvl_unlink v s = Some s' \<and> cavl_rep s' t'"
proof -
  let ?c = "if l \<noteq> Leaf then l else r"
  obtain z m where s: "s = (z, m)" by (cases s)
  have n: "cv_parent (m v) = path_parent p None" "cv_link (m v) False = tree_root l" "cv_link (m v) True = tree_root r"
    using assms(1) s by (auto simp: zrep_def)
  have c: "(if cv_link (m v) False \<noteq> None then cv_link (m v) False else cv_link (m v) True) = tree_root ?c" using n by (cases l) auto
  have a: "cv_link (m v) False = None \<or> cv_link (m v) True = None" using n assms(2) by auto
  obtain s' where r: "CAvl_replace_subtree_fix_assoc v (tree_root ?c) (path_parent p None) s = Some s'" "zrep s' ?c p"
    using replace_mem [OF assms(1) [unfolded s] assms(2) refl] s by auto
  have eq: "CAvl_unlink v s = (case path_parent p None of
      Some q \<Rightarrow> CAvl_rebalance q (Some v = cv_link (m q) True) (-1) s' | None \<Rightarrow> Some s')"
    unfolding CAvl_unlink_def s snd_conv Let_def c n(1) using a r(1) s by (cases "path_parent p None"; cases "l = Leaf") simp_all
  show ?thesis
  proof (cases p rule: path_nodes.cases)
    case 1
    then show ?thesis using eq r(2) assms(3) zrep_plug [of s' ?c "[]"] by (simp add: BAVL_replace_rebalance_def)
  next
    case (2 side q x t p')
    have up: "(Some v = cv_link (m q) True) = side" using zrep_up(2) [of s "Node l v b r" side q x t p'] assms(1) 2 s by simp
    have z: "zrep s' (plug1 (side, q, x, t) ?c) p'" using r(2) 2 zrep_plug [of s' ?c p] zrep_plug [of s' "plug1 (side, q, x, t) ?c" p']
      by (simp del: plug1.simps)
    obtain s'' where "CAvl_rebalance q side (-1) s' = Some s''" "cavl_rep s'' t'"
      using rebalance_mem [OF z, of q side "-1" t'] assms(3) 2 by (auto simp: BAVL_replace_rebalance_def split: if_splits)
    then show ?thesis using eq up 2 by simp
  qed
qed

lemma CAvl_Remove_mem:
  assumes "zrep s (Node l v b r) p" and "BAVL_Remove (Node l v b r) p = Some t'"
  shows "\<exists>s'. CAvl_Remove v s = Some s' \<and> cavl_rep s' t'"
proof -
  have root: "fst s \<noteq> None" using assms(1) prep_top [of "snd s" v p None "fst s"] by (auto simp: zrep_def)
  have n: "cv_link (snd s v) False = tree_root l" "cv_link (snd s v) True = tree_root r" using zrep_node [OF assms(1)] by auto
  show ?thesis
  proof (cases "l \<noteq> Leaf \<and> r \<noteq> Leaf")
    case False
    then have "(case (tree_root l, tree_root r) of (Some l, Some r) \<Rightarrow> X l r | _ \<Rightarrow> Some s) = Some s" for X by (cases l; cases r) auto
    then show ?thesis using unlink_mem [OF assms(1), of t'] assms(2) False root n by (simp add: CAvl_Remove_def)
  next
    case True
    obtain child mx bm mp where m: "BAVL_subtree_max l [] = Some (child, mx, bm, mp)"
      "plug (Node child mx bm Leaf) mp = l" "path_after mp = []"
      using subtree_max_ok [of l "[]"] True by auto
    obtain lv rv where lr: "tree_root l = Some lv" "tree_root r = Some rv" using True by (cases l; cases r) auto
    have "inorder l = (path_before mp @ inorder child) @ [mx]" using inorder_plug [of "Node child mx bm Leaf" mp] m by simp
    then have "BAVL_GetLast l = Some mx" unfolding GetLast_last by simp
    then have mx: "CAvl_subtree_max lv (snd s) = Some mx"
      using subtree_max_mem [of "snd s" "Some v" l lv] assms(1) lr by (simp add: zrep_def)
    have "zrep s (Node child mx bm Leaf) (mp @ (False, v, b, r) # p)"
      using assms(1) m(2) zrep_plug [of s "Node child mx bm Leaf" "mp @ (False, v, b, r) # p"] zrep_plug [of s "Node l v b r" p]
      by (simp add: plug_append)
    then obtain s1 where s1: "CAvl_swap_for_remove v mx (cv_parent (snd s v)) (cv_parent (snd s mx)) s = Some s1"
        "zrep s1 (Node child v bm Leaf) (mp @ (False, mx, b, r) # p)"
      using swap_mem True by blast
    have "BAVL_replace_rebalance (if child \<noteq> Leaf then child else Leaf) (mp @ (False, mx, b, r) # p) = Some t'"
      using assms(2) m(1) True by (cases "child = Leaf") auto
    then show ?thesis using unlink_mem [OF s1(2), of t'] s1(1) mx root n lr by (simp add: CAvl_Remove_def)
  qed
qed


subsection \<open>The tree as a sorted sequence\<close>

lemma locate_node: "x \<in> set (inorder t) \<Longrightarrow> \<exists>l b r p. t = plug (Node l x b r) p"
proof (induction t)
  case (Node l v b r)
  consider "x = v" | "x \<in> set (inorder l)" | "x \<in> set (inorder r)" using Node.prems by auto
  then show ?case
  proof cases
    case 1
    then show ?thesis by (metis plug.simps(1))
  next
    case 2
    then obtain l' b' r' p where "l = plug (Node l' x b' r') p" using Node.IH(1) by blast
    then have "Node l v b r = plug (Node l' x b' r') (p @ [(False, v, b, r)])" by (simp add: plug_append)
    then show ?thesis by blast
  next
    case 3
    then obtain l' b' r' p where "r = plug (Node l' x b' r') p" using Node.IH(2) by blast
    then have "Node l v b r = plug (Node l' x b' r') (p @ [(True, v, b, l)])" by (simp add: plug_append)
    then show ?thesis by blast
  qed
qed simp

text \<open>
  What the users of a tree see: \<open>xs\<close> are its entries in the order of the comparator.
\<close>

definition cavl_list :: "(nat \<Rightarrow> nat \<Rightarrow> int) \<Rightarrow> cavl \<Rightarrow> nat list \<Rightarrow> bool" where
  "cavl_list cmp s xs \<longleftrightarrow> (\<exists>t. cavl_rep s t \<and> bavl_ok (\<lambda>x. x) cmp (\<lambda>_. True) t \<and> inorder t = xs)"

fun insert_by :: "(nat \<Rightarrow> nat \<Rightarrow> int) \<Rightarrow> nat \<Rightarrow> nat list \<Rightarrow> nat list" where
  "insert_by cmp x [] = [x]"
| "insert_by cmp x (y # ys) = (if cmp x y = -1 then x # y # ys else y # insert_by cmp x ys)"

locale entry_order = comparator cmp "\<lambda>_. True" for cmp :: "nat \<Rightarrow> nat \<Rightarrow> int"
begin

lemma cavl_sorted: "cavl_list cmp s xs \<Longrightarrow> sorted_wrt (\<lambda>a b. cmp a b = -1) xs"
  by (auto simp: cavl_list_def bavl_ok_def bst_def)

lemma insert_by_split:
  "sorted_wrt (\<lambda>a b. cmp a b = -1) (xs @ x # ys) \<Longrightarrow> insert_by cmp x (xs @ ys) = xs @ x # ys"
proof (induction xs)
  case Nil
  then show ?case by (cases ys) auto
next
  case (Cons y xs)
  then show ?case using cmp_asym [of y x] by simp
qed

lemma cavl_insert:
  assumes "cavl_list cmp s xs" and "x \<notin> set xs"
  shows "\<exists>s' ref. CAvl_Insert cmp x s = Some (True, s', ref) \<and> cavl_list cmp s' (insert_by cmp x xs)"
proof -
  obtain t where t: "cavl_rep s t" "bavl_ok (\<lambda>x. x) cmp (\<lambda>_. True) t" "inorder t = xs" using assms(1) by (auto simp: cavl_list_def)
  have "BAVL_LookupExact (\<lambda>x. x) cmp t x = None" using bavl_find_None_iff [OF t(2), of x] t(3) assms(2) by auto
  then obtain t' ref ys zs where t': "BAVL_Insert (\<lambda>x. x) cmp t x = Some (True, t', ref)" "bavl_ok (\<lambda>x. x) cmp (\<lambda>_. True) t'"
      "xs = ys @ zs" "inorder t' = ys @ x # zs"
    using Insert_new [OF t(2) TrueI, of x] unfolding t(3) by blast
  obtain s' where s': "CAvl_Insert cmp x s = Some (True, s', ref)" "cavl_rep s' t'"
    using CAvl_Insert_mem [OF t(1) t'(1)] t(3) assms(2) by auto
  have "insert_by cmp x xs = ys @ x # zs"
    unfolding t'(3) by (rule insert_by_split) (use t'(2,4) in \<open>simp add: bavl_ok_def bst_def\<close>)
  then show ?thesis using s' t' by (auto simp: cavl_list_def)
qed

lemma cavl_remove:
  assumes "cavl_list cmp s xs" and "x \<in> set xs"
  shows "\<exists>s'. CAvl_Remove x s = Some s' \<and> cavl_list cmp s' (remove1 x xs)"
proof -
  obtain t where t: "cavl_rep s t" "bavl_ok (\<lambda>x. x) cmp (\<lambda>_. True) t" "inorder t = xs" using assms(1) by (auto simp: cavl_list_def)
  obtain l b r p where p: "t = plug (Node l x b r) p"
    using locate_node [of x t] assms(2) t(3) by blast
  have a: "avl (plug (Node l x b r) p)" using t(2) p by (simp add: bavl_ok_def)
  obtain t' where t': "BAVL_Remove (Node l x b r) p = Some t'" "avl t'"
      "inorder t' = path_before p @ inorder l @ inorder r @ path_after p"
    using Remove_ok [OF a] by blast
  have xs: "xs = (path_before p @ inorder l) @ x # inorder r @ path_after p" using t(3) p by (simp add: inorder_plug)
  have "x \<notin> set (path_before p @ inorder l)" using t(1,3) xs by (simp add: cavl_rep_def)
  then have i: "inorder t' = remove1 x xs" unfolding t'(3) xs by (simp add: remove1_append)
  have "bst (\<lambda>x. x) cmp (\<lambda>_. True) (remove1 x xs)"
    using t(2,3) bst_remove [of "\<lambda>x. x" "path_before p @ inorder l" x "inorder r @ path_after p"] i t'(3) xs by (simp add: bavl_ok_def)
  then have ok: "bavl_ok (\<lambda>x. x) cmp (\<lambda>_. True) t'" using t'(2) i by (simp add: bavl_ok_def)
  have "zrep s (Node l x b r) p" using t(1) p zrep_plug by simp
  from CAvl_Remove_mem [OF this t'(1)] ok i show ?thesis by (auto simp: cavl_list_def)
qed

lemma cavl_first: "cavl_list cmp s xs \<Longrightarrow> CAvl_GetFirst s = Some (first_or xs None)"
  by (auto simp: cavl_list_def GetFirst_mem)

lemma cavl_last: "cavl_list cmp s xs \<Longrightarrow> CAvl_GetLast s = Some (last_or xs None)"
  by (auto simp: cavl_list_def GetLast_mem)

lemma cavl_empty: "cavl_list cmp s xs \<Longrightarrow> CAvl_IsEmpty s \<longleftrightarrow> xs = []"
  by (auto simp: cavl_list_def cavl_rep_def CAvl_IsEmpty_def tree_root_None)

end

lemma cavl_list_Init: "cavl_list cmp (CAvl_Init, m) []"
  by (simp add: cavl_list_def cavl_rep_def CAvl_Init_def bavl_ok_def bst_def exI [of _ Leaf])


subsection \<open>Verification of a tree\<close>

text \<open>\<open>CAvl_verify_recurser\<close> and \<open>CAvl_Verify\<close>, which check links, order and balance of a whole tree; the result is the height.\<close>

partial_function (option) CAvl_verify_recurser :: "(nat \<Rightarrow> nat \<Rightarrow> int) \<Rightarrow> cavl_mem \<Rightarrow> nat \<Rightarrow> int option" where
  "CAvl_verify_recurser cmp m n = do {
     ASSERT (cv_balance (m n) \<ge> -1);
     ASSERT (cv_balance (m n) \<le> 1);
     height_left \<leftarrow> (case cv_link (m n) False of
        None \<Rightarrow> Some 0
      | Some l \<Rightarrow> do {
          ASSERT (cv_parent (m l) = Some n);
          c \<leftarrow> CAvl_compare_entries cmp l n;
          ASSERT (c = -1);
          CAvl_verify_recurser cmp m l });
     height_right \<leftarrow> (case cv_link (m n) True of
        None \<Rightarrow> Some 0
      | Some r \<Rightarrow> do {
          ASSERT (cv_parent (m r) = Some n);
          c \<leftarrow> CAvl_compare_entries cmp r n;
          ASSERT (c = 1);
          CAvl_verify_recurser cmp m r });
     ASSERT (cv_balance (m n) = height_right - height_left);
     Some (max height_left height_right + 1) }"

definition CAvl_Verify :: "(nat \<Rightarrow> nat \<Rightarrow> int) \<Rightarrow> cavl \<Rightarrow> unit option" where
  "CAvl_Verify cmp s =
     (case fst s of
        None \<Rightarrow> Some ()
      | Some root \<Rightarrow> do {
          ASSERT (cv_parent (snd s root) = None);
          CAvl_verify_recurser cmp (snd s) root;
          Some () })"

context entry_order
begin

lemma compare_entries: "CAvl_compare_entries cmp a b = Some (cmp a b)"
  using cmp_range [of a b] by (auto simp: CAvl_compare_entries_def)

lemma verify_mem:
  "trep m p t \<Longrightarrow> bavl_ok (\<lambda>x. x) cmp (\<lambda>_. True) t \<Longrightarrow> tree_root t = Some n \<Longrightarrow> CAvl_verify_recurser cmp m n = Some (height t)"
proof (induction t arbitrary: p n)
  case (Node l v b r)
  have [simp]: "v = n" using Node.prems(3) by simp
  have a: "avl l" "avl r" "b = height r - height l" "-1 \<le> b" "b \<le> 1" and o: "sorted_wrt (\<lambda>a b. cmp a b = -1) (inorder l @ n # inorder r)"
    using Node.prems(2) by (auto simp: bavl_ok_def bst_def)
  have m: "cv_balance (m n) = b" "cv_link (m n) False = tree_root l" "cv_link (m n) True = tree_root r" "trep m (Some n) l" "trep m (Some n) r"
    using Node.prems(1) by auto
  have ok: "bavl_ok (\<lambda>x. x) cmp (\<lambda>_. True) l" "bavl_ok (\<lambda>x. x) cmp (\<lambda>_. True) r"
    using a o by (auto simp: bavl_ok_def bst_def sorted_wrt_append)
  have left: "(case tree_root l of None \<Rightarrow> Some 0
      | Some x \<Rightarrow> ASSERT (cv_parent (m x) = Some n) \<bind> (\<lambda>_. CAvl_compare_entries cmp x n \<bind> (\<lambda>c. ASSERT (c = -1) \<bind> (\<lambda>_. CAvl_verify_recurser cmp m x)))) = Some (height l)"
    using m(4) o Node.IH(1) [OF m(4) ok(1)] by (cases l) (auto simp: compare_entries sorted_wrt_append)
  have right: "(case tree_root r of None \<Rightarrow> Some 0
      | Some x \<Rightarrow> ASSERT (cv_parent (m x) = Some n) \<bind> (\<lambda>_. CAvl_compare_entries cmp x n \<bind> (\<lambda>c. ASSERT (c = 1) \<bind> (\<lambda>_. CAvl_verify_recurser cmp m x)))) = Some (height r)"
    using m(5) o Node.IH(2) [OF m(5) ok(2)] cmp_gt by (cases r) (auto simp: compare_entries sorted_wrt_append)
  show ?case unfolding CAvl_verify_recurser.simps [of cmp m n] m(1-3) left right using a by simp
qed simp

lemma cavl_verify: "cavl_list cmp s xs \<Longrightarrow> CAvl_Verify cmp s = Some ()"
proof -
  assume "cavl_list cmp s xs"
  then obtain t where t: "cavl_rep s t" "bavl_ok (\<lambda>x. x) cmp (\<lambda>_. True) t" by (auto simp: cavl_list_def)
  then show ?thesis using verify_mem [of "snd s" None t] by (cases t) (auto simp: CAvl_Verify_def cavl_rep_def)
qed

end

subsection \<open>What the tree does\<close>

datatype tree_op = TInsert nat | TRemove nat

fun tree_exec :: "(nat \<Rightarrow> nat \<Rightarrow> int) \<Rightarrow> tree_op \<Rightarrow> cavl \<Rightarrow> cavl option" where
  "tree_exec cmp (TInsert x) s = do { (inserted, s, ref) \<leftarrow> CAvl_Insert cmp x s; ASSERT inserted; Some s }"
| "tree_exec cmp (TRemove x) s = CAvl_Remove x s"

fun tree_spec :: "(nat \<Rightarrow> nat \<Rightarrow> int) \<Rightarrow> tree_op \<Rightarrow> nat list \<Rightarrow> nat list" where
  "tree_spec cmp (TInsert x) xs = insert_by cmp x xs"
| "tree_spec cmp (TRemove x) xs = remove1 x xs"

fun tree_run :: "(nat \<Rightarrow> nat \<Rightarrow> int) \<Rightarrow> tree_op list \<Rightarrow> cavl \<Rightarrow> cavl option" where
  "tree_run cmp [] s = Some s"
| "tree_run cmp (p # ps) s = tree_exec cmp p s \<bind> tree_run cmp ps"

fun tree_ops_allowed :: "(nat \<Rightarrow> nat \<Rightarrow> int) \<Rightarrow> tree_op list \<Rightarrow> nat list \<Rightarrow> bool" where
  "tree_ops_allowed cmp [] xs = True"
| "tree_ops_allowed cmp (TInsert x # ps) xs = (x \<notin> set xs \<and> tree_ops_allowed cmp ps (tree_spec cmp (TInsert x) xs))"
| "tree_ops_allowed cmp (TRemove x # ps) xs = (x \<in> set xs \<and> tree_ops_allowed cmp ps (tree_spec cmp (TRemove x) xs))"

text \<open>
  C15: on memory that holds a tree, every sequence of insertions of entries that are not in the tree and
  removals of entries that are ends without a failed assertion or a null link followed, in memory that holds the tree
  of the entries that a sorted list would then have, in the order of the comparator; the first and last entries are found
  at the ends of the list, and the tree passes its own verification of links, order and balance.
\<close>

theorem CAvl_refines:
  assumes "entry_order cmp" and "cavl_list cmp s xs" and "tree_ops_allowed cmp ps xs"
  shows "\<exists>s' ys. tree_run cmp ps s = Some s' \<and> ys = fold (tree_spec cmp) ps xs \<and> cavl_list cmp s' ys
           \<and> sorted_wrt (\<lambda>a b. cmp a b = -1) ys \<and> CAvl_GetFirst s' = Some (first_or ys None) \<and> CAvl_GetLast s' = Some (last_or ys None)
           \<and> (CAvl_IsEmpty s' \<longleftrightarrow> ys = []) \<and> CAvl_Verify cmp s' = Some ()"
  using assms(2,3)
proof (induction ps arbitrary: s xs)
  case Nil
  then show ?case
    using entry_order.cavl_sorted [OF assms(1)] entry_order.cavl_first [OF assms(1)] entry_order.cavl_last [OF assms(1)]
      entry_order.cavl_empty [OF assms(1)] entry_order.cavl_verify [OF assms(1)] by simp
next
  case (Cons p ps)
  have "\<exists>s1. tree_exec cmp p s = Some s1 \<and> cavl_list cmp s1 (tree_spec cmp p xs)"
    using entry_order.cavl_insert [OF assms(1) Cons.prems(1)] entry_order.cavl_remove [OF assms(1) Cons.prems(1)] Cons.prems(2)
    by (cases p) fastforce+
  then obtain s1 where "tree_exec cmp p s = Some s1" "cavl_list cmp s1 (tree_spec cmp p xs)" by blast
  moreover have "tree_ops_allowed cmp ps (tree_spec cmp p xs)" using Cons.prems(2) by (cases p) auto
  ultimately show ?case using Cons.IH by simp
qed

interpretation address_order: entry_order "B_COMPARE :: nat \<Rightarrow> nat \<Rightarrow> int"
  by (rule entry_order.intro) (rule b_compare.comparator_axioms)

definition example_cavl :: cavl where
  "example_cavl = (CAvl_Init, \<lambda>_. \<lparr>cv_link = \<lambda>_. None, cv_parent = None, cv_balance = 0\<rparr>)"

theorem CAvl_refines_witness:
  "let ps = [TInsert 3, TInsert 2, TInsert 1, TInsert 5, TInsert 4, TRemove 2, TRemove 1, TInsert 6, TRemove 4] in
   entry_order (B_COMPARE :: nat \<Rightarrow> nat \<Rightarrow> int) \<and> cavl_list B_COMPARE example_cavl [] \<and> tree_ops_allowed B_COMPARE ps []
   \<and> (\<exists>s'. tree_run B_COMPARE ps example_cavl = Some s' \<and> cavl_list B_COMPARE s' [3, 5, 6] \<and> CAvl_GetFirst s' = Some (Some 3))"
  using CAvl_refines [OF address_order.entry_order_axioms, of example_cavl "[]"
      "[TInsert 3, TInsert 2, TInsert 1, TInsert 5, TInsert 4, TRemove 2, TRemove 1, TInsert 6, TRemove 4]"]
    address_order.entry_order_axioms cavl_list_Init
  by (simp add: Let_def example_cavl_def B_COMPARE_def del: tree_run.simps) blast

end
