(* ===== verification/Reactor.thy ===== *)
theory Reactor
  imports CAvl Pending
begin

section \<open>The reactor\<close>

text \<open>
  \<open>system/BReactor_badvpn.c\<close> in the configuration of the build (\<open>BADVPN_USE_EPOLL\<close>): timers, limits, file descriptors and the
  event loop, and the clock arithmetic of \<open>system/BTime.h\<close> and \<open>misc/overflow.h\<close>. Timers, limits and file descriptors are named by their addresses; the
  maps of the state hold the initialised ones. The tree of running timers is the tree in memory of
  \<open>CAvl\<close>, the lists of expired timers and active limits are linked lists in memory (\<open>LinkedLists\<close>). The
  members \<open>list_node\<close> and \<open>tree_child\<close> of a timer share their storage in the code; here they are separate, and the
  invariant says that no timer is in the tree and in the list at once.

  The kernel's side of \<open>epoll\<close> is the map \<open>r_epoll\<close> of registered descriptors to the events they are
  registered for. Readings of the clock and results of \<open>epoll_wait\<close> are arguments. Sets of event flags are sets. Handlers
  are not run by the model: an iteration of the loop returns what it dispatches, and the
  operations that handlers call are events of their own.
\<close>

subsection \<open>The clock\<close>

abbreviation INT64_MAX :: int where "INT64_MAX \<equiv> 9223372036854775807"
abbreviation INT64_MIN :: int where "INT64_MIN \<equiv> -9223372036854775808"

definition is_int64 :: "int \<Rightarrow> bool" where
  "is_int64 t \<longleftrightarrow> INT64_MIN \<le> t \<and> t \<le> INT64_MAX"

text \<open>Signed arithmetic that leaves the range of its type is undefined behaviour.\<close>

definition int64_val :: "int \<Rightarrow> int option" where
  "int64_val t = (if is_int64 t then Some t else None)"

definition add_int64_overflows :: "int \<Rightarrow> int \<Rightarrow> int option" where
  "add_int64_overflows a b =
     (if (a < 0) \<noteq> (b < 0) then Some 0
      else if a < 0 then do { d \<leftarrow> int64_val (INT64_MIN - b); Some (if a < d then -1 else 0) }
      else do { d \<leftarrow> int64_val (INT64_MAX - b); Some (if a > d then 1 else 0) })"

definition btime_add :: "int \<Rightarrow> int \<Rightarrow> int option" where
  "btime_add t1 t2 = do {
     overflows \<leftarrow> add_int64_overflows t1 t2;
     if overflows \<noteq> 0 then Some (if overflows > 0 then INT64_MAX else INT64_MIN)
     else int64_val (t1 + t2) }"

definition btime_getpast :: int where
  "btime_getpast = INT64_MIN"

subsection \<open>State\<close>

datatype timer_state = TIMER_STATE_INACTIVE | TIMER_STATE_RUNNING | TIMER_STATE_EXPIRED

record BSmallTimer =
  tm_absTime :: int
  tm_state :: timer_state
  tm_is_small :: bool

datatype fd_event = BREACTOR_READ | BREACTOR_WRITE | BREACTOR_ERROR | BREACTOR_HUP

record BFileDescriptor =
  fd_active :: bool
  fd_waitEvents :: "fd_event set"
  fd_epoll_returned :: "nat option"

record BReactorLimit =
  lm_limit :: int
  lm_count :: int

record 'h BReactor =
  r_exiting :: bool
  r_exit_code :: int
  r_jobs :: "'h BPendingGroup"
  r_tree :: cavl
  r_expired :: list1_mem
  r_timers :: "nat \<rightharpoonup> BSmallTimer"
  r_active_limits :: list1_mem
  r_limits :: "nat \<rightharpoonup> BReactorLimit"
  r_fds :: "nat \<rightharpoonup> BFileDescriptor"
  r_epoll :: "nat \<rightharpoonup> fd_event set"
  r_results :: "(nat option \<times> fd_event set) list"
  r_pos :: nat

definition timer_time :: "(nat \<rightharpoonup> BSmallTimer) \<Rightarrow> nat \<Rightarrow> int" where
  "timer_time ts t = (case ts t of Some tm \<Rightarrow> tm_absTime tm | None \<Rightarrow> 0)"

definition compare_timers :: "(nat \<Rightarrow> int) \<Rightarrow> nat \<Rightarrow> nat \<Rightarrow> int" where
  "compare_timers time t1 t2 =
     (let cmp = B_COMPARE (time t1) (time t2) in
      if cmp \<noteq> 0 then cmp else B_COMPARE t1 t2)"

definition set_timer_state :: "nat \<Rightarrow> timer_state \<Rightarrow> (nat \<rightharpoonup> BSmallTimer) \<Rightarrow> nat \<rightharpoonup> BSmallTimer" where
  "set_timer_state t st ts = ts(t := map_option (\<lambda>tm. tm\<lparr>tm_state := st\<rparr>) (ts t))"

subsection \<open>Timers\<close>

definition BSmallTimer_Init :: "nat \<Rightarrow> bool \<Rightarrow> 'h BReactor \<Rightarrow> 'h BReactor" where
  "BSmallTimer_Init t small r =
     r\<lparr>r_timers := (r_timers r)(t \<mapsto> \<lparr>tm_absTime = timer_time (r_timers r) t, tm_state = TIMER_STATE_INACTIVE, tm_is_small = small\<rparr>)\<rparr>"

definition BSmallTimer_IsRunning :: "nat \<Rightarrow> 'h BReactor \<Rightarrow> bool option" where
  "BSmallTimer_IsRunning t r = do { tm \<leftarrow> r_timers r t; Some (tm_state tm \<noteq> TIMER_STATE_INACTIVE) }"

text \<open>Moving a timer from the tree to the list of expired timers, in the loops of the two functions below.\<close>

definition expire_timer :: "nat \<Rightarrow> 'h BReactor \<Rightarrow> 'h BReactor option" where
  "expire_timer t r = do {
     tree \<leftarrow> CAvl_Remove t (r_tree r);
     Some (r\<lparr>r_tree := tree, r_expired := LinkedList1_Append t (r_expired r),
             r_timers := set_timer_state t TIMER_STATE_EXPIRED (r_timers r)\<rparr>) }"

partial_function (option) move_expired_timers :: "int \<Rightarrow> 'h BReactor \<Rightarrow> (bool \<times> 'h BReactor) option" where
  "move_expired_timers now r = do {
     first \<leftarrow> CAvl_GetFirst (r_tree r);
     case first of
       None \<Rightarrow> Some (False, r)
     | Some t \<Rightarrow> do {
         tm \<leftarrow> r_timers r t;
         ASSERT (tm_state tm = TIMER_STATE_RUNNING);
         if tm_absTime tm > now then Some (False, r)
         else do {
           r \<leftarrow> expire_timer t r;
           (_, r) \<leftarrow> move_expired_timers now r;
           Some (True, r) } } }"

partial_function (option) move_same_timers :: "int \<Rightarrow> 'h BReactor \<Rightarrow> 'h BReactor option" where
  "move_same_timers first_time r = do {
     first \<leftarrow> CAvl_GetFirst (r_tree r);
     case first of
       None \<Rightarrow> Some r
     | Some t \<Rightarrow> do {
         tm \<leftarrow> r_timers r t;
         ASSERT (tm_state tm = TIMER_STATE_RUNNING);
         ASSERT (tm_absTime tm \<ge> first_time);
         if tm_absTime tm > first_time then Some r
         else do {
           r \<leftarrow> expire_timer t r;
           move_same_timers first_time r } } }"

definition move_first_timers :: "'h BReactor \<Rightarrow> 'h BReactor option" where
  "move_first_timers r = do {
     first \<leftarrow> CAvl_GetFirst (r_tree r);
     t \<leftarrow> first;
     tm \<leftarrow> r_timers r t;
     ASSERT (tm_state tm = TIMER_STATE_RUNNING);
     r \<leftarrow> expire_timer t r;
     move_same_timers (tm_absTime tm) r }"

definition BReactor_RemoveSmallTimer :: "nat \<Rightarrow> 'h BReactor \<Rightarrow> 'h BReactor option" where
  "BReactor_RemoveSmallTimer t r = do {
     tm \<leftarrow> r_timers r t;
     if tm_state tm = TIMER_STATE_INACTIVE then Some r
     else do {
       r \<leftarrow> (if tm_state tm = TIMER_STATE_EXPIRED
            then Some (r\<lparr>r_expired := LinkedList1_Remove t (r_expired r)\<rparr>)
            else do { tree \<leftarrow> CAvl_Remove t (r_tree r); Some (r\<lparr>r_tree := tree\<rparr>) });
       Some (r\<lparr>r_timers := set_timer_state t TIMER_STATE_INACTIVE (r_timers r)\<rparr>) } }"

datatype timer_mode = BTIMER_SET_ABSOLUTE | BTIMER_SET_RELATIVE

definition BReactor_SetSmallTimer :: "nat \<Rightarrow> timer_mode \<Rightarrow> int \<Rightarrow> int \<Rightarrow> 'h BReactor \<Rightarrow> 'h BReactor option" where
  "BReactor_SetSmallTimer t mode time now r = do {
     r \<leftarrow> BReactor_RemoveSmallTimer t r;
     time \<leftarrow> (if mode = BTIMER_SET_RELATIVE then btime_add now time else Some time);
     tm \<leftarrow> r_timers r t;
     let ts = (r_timers r)(t \<mapsto> tm\<lparr>tm_absTime := time, tm_state := TIMER_STATE_RUNNING\<rparr>);
     (res, tree, _) \<leftarrow> CAvl_Insert (compare_timers (timer_time ts)) t (r_tree r);
     ASSERT res;
     Some (r\<lparr>r_timers := ts, r_tree := tree\<rparr>) }"

text \<open>\<open>BTimer\<close> adds a default time, an argument here, to \<open>BSmallTimer\<close>; which of the two a timer is selects the type of its handler.\<close>

definition BTimer_Init :: "nat \<Rightarrow> 'h BReactor \<Rightarrow> 'h BReactor" where
  "BTimer_Init t r = BSmallTimer_Init t False r"

definition BTimer_IsRunning :: "nat \<Rightarrow> 'h BReactor \<Rightarrow> bool option" where
  "BTimer_IsRunning t r = BSmallTimer_IsRunning t r"

definition BReactor_SetTimer :: "nat \<Rightarrow> int \<Rightarrow> int \<Rightarrow> 'h BReactor \<Rightarrow> 'h BReactor option" where
  "BReactor_SetTimer t msTime now r = BReactor_SetSmallTimer t BTIMER_SET_RELATIVE msTime now r"

definition BReactor_SetTimerAfter :: "nat \<Rightarrow> int \<Rightarrow> int \<Rightarrow> 'h BReactor \<Rightarrow> 'h BReactor option" where
  "BReactor_SetTimerAfter t after now r = BReactor_SetSmallTimer t BTIMER_SET_RELATIVE after now r"

definition BReactor_SetTimerAbsolute :: "nat \<Rightarrow> int \<Rightarrow> int \<Rightarrow> 'h BReactor \<Rightarrow> 'h BReactor option" where
  "BReactor_SetTimerAbsolute t time now r = BReactor_SetSmallTimer t BTIMER_SET_ABSOLUTE time now r"

definition BReactor_RemoveTimer :: "nat \<Rightarrow> 'h BReactor \<Rightarrow> 'h BReactor option" where
  "BReactor_RemoveTimer t r = BReactor_RemoveSmallTimer t r"

subsection \<open>Limits\<close>

definition BReactorLimit_Init :: "nat \<Rightarrow> int \<Rightarrow> 'h BReactor \<Rightarrow> 'h BReactor option" where
  "BReactorLimit_Init l limit r = do {
     ASSERT (limit > 0);
     Some (r\<lparr>r_limits := (r_limits r)(l \<mapsto> \<lparr>lm_limit = limit, lm_count = 0\<rparr>)\<rparr>) }"

definition BReactorLimit_Free :: "nat \<Rightarrow> 'h BReactor \<Rightarrow> 'h BReactor option" where
  "BReactorLimit_Free l r = do {
     lm \<leftarrow> r_limits r l;
     let r = r\<lparr>r_limits := (r_limits r)(l := None)\<rparr>;
     Some (if lm_count lm > 0 then r\<lparr>r_active_limits := LinkedList1_Remove l (r_active_limits r)\<rparr> else r) }"

definition BReactorLimit_Increment :: "nat \<Rightarrow> 'h BReactor \<Rightarrow> (bool \<times> 'h BReactor) option" where
  "BReactorLimit_Increment l r = do {
     lm \<leftarrow> r_limits r l;
     if lm_count lm \<ge> lm_limit lm then Some (False, r)
     else do {
       let lm = lm\<lparr>lm_count := lm_count lm + 1\<rparr>;
       let r = r\<lparr>r_limits := (r_limits r)(l \<mapsto> lm)\<rparr>;
       Some (True, if lm_count lm = 1 then r\<lparr>r_active_limits := LinkedList1_Append l (r_active_limits r)\<rparr> else r) } }"

definition BReactorLimit_SetLimit :: "nat \<Rightarrow> int \<Rightarrow> 'h BReactor \<Rightarrow> 'h BReactor option" where
  "BReactorLimit_SetLimit l limit r = do {
     ASSERT (limit > 0);
     lm \<leftarrow> r_limits r l;
     Some (r\<lparr>r_limits := (r_limits r)(l \<mapsto> lm\<lparr>lm_limit := limit\<rparr>)\<rparr>) }"

partial_function (option) reset_limits :: "'h BReactor \<Rightarrow> 'h BReactor option" where
  "reset_limits r =
     (case LinkedList1_GetFirst (r_active_limits r) of
        None \<Rightarrow> Some r
      | Some l \<Rightarrow> do {
          lm \<leftarrow> r_limits r l;
          ASSERT (lm_count lm > 0);
          reset_limits (r\<lparr>r_limits := (r_limits r)(l \<mapsto> lm\<lparr>lm_count := 0\<rparr>),
                          r_active_limits := LinkedList1_Remove l (r_active_limits r)\<rparr>) })"

subsection \<open>File descriptors\<close>

definition BSYSTEM_MAX_RESULTS :: nat where
  "BSYSTEM_MAX_RESULTS = 64"

definition BFileDescriptor_Init :: "nat \<Rightarrow> 'h BReactor \<Rightarrow> 'h BReactor" where
  "BFileDescriptor_Init f r =
     r\<lparr>r_fds := (r_fds r)(f \<mapsto> \<lparr>fd_active = False, fd_waitEvents = {}, fd_epoll_returned = None\<rparr>)\<rparr>"

text \<open>\<open>ok\<close> is whether the kernel accepts the registration.\<close>

definition BReactor_AddFileDescriptor :: "bool \<Rightarrow> nat \<Rightarrow> 'h BReactor \<Rightarrow> (bool \<times> 'h BReactor) option" where
  "BReactor_AddFileDescriptor ok f r = do {
     fd \<leftarrow> r_fds r f;
     ASSERT (\<not> fd_active fd);
     if \<not> ok then Some (False, r)
     else Some (True, r\<lparr>r_epoll := (r_epoll r)(f \<mapsto> {}),
                        r_fds := (r_fds r)(f \<mapsto> \<lparr>fd_active = True, fd_waitEvents = {}, fd_epoll_returned = None\<rparr>)\<rparr>) }"

definition BReactor_RemoveFileDescriptor :: "nat \<Rightarrow> 'h BReactor \<Rightarrow> 'h BReactor option" where
  "BReactor_RemoveFileDescriptor f r = do {
     fd \<leftarrow> r_fds r f;
     ASSERT (fd_active fd);
     let r = r\<lparr>r_fds := (r_fds r)(f \<mapsto> fd\<lparr>fd_active := False\<rparr>)\<rparr>;
     ASSERT (r_epoll r f \<noteq> None);
     let r = r\<lparr>r_epoll := (r_epoll r)(f := None)\<rparr>;
     case fd_epoll_returned fd of
       None \<Rightarrow> Some r
     | Some i \<Rightarrow> do {
         ASSERT (i < length (r_results r));
         Some (r\<lparr>r_results := (r_results r)[i := (None, snd (r_results r ! i))]\<rparr>) } }"

definition BReactor_SetFileDescriptorEvents :: "nat \<Rightarrow> fd_event set \<Rightarrow> 'h BReactor \<Rightarrow> 'h BReactor option" where
  "BReactor_SetFileDescriptorEvents f events r = do {
     fd \<leftarrow> r_fds r f;
     ASSERT (fd_active fd);
     ASSERT (events \<subseteq> {BREACTOR_READ, BREACTOR_WRITE});
     if fd_waitEvents fd = events then Some r
     else do {
       ASSERT (r_epoll r f \<noteq> None);
       Some (r\<lparr>r_epoll := (r_epoll r)(f \<mapsto> events), r_fds := (r_fds r)(f \<mapsto> fd\<lparr>fd_waitEvents := events\<rparr>)\<rparr>) } }"

fun set_epoll_fd_pointers :: "nat \<Rightarrow> (nat option \<times> fd_event set) list \<Rightarrow> 'h BReactor \<Rightarrow> 'h BReactor option" where
  "set_epoll_fd_pointers i [] r = Some r"
| "set_epoll_fd_pointers i ((p, ev) # evs) r = do {
     f \<leftarrow> p;
     fd \<leftarrow> r_fds r f;
     ASSERT (fd_active fd);
     ASSERT (fd_epoll_returned fd = None);
     set_epoll_fd_pointers (Suc i) evs (r\<lparr>r_fds := (r_fds r)(f \<mapsto> fd\<lparr>fd_epoll_returned := Some i\<rparr>)\<rparr>) }"

subsection \<open>Waiting\<close>

text \<open>
  An answer of \<open>epoll_wait\<close> (\<open>Returned []\<close> is a timeout), and what the clock reads after it. \<open>Some None\<close> is a wait that the given answers
  do not end. Errors of \<open>epoll_wait\<close> other than \<open>EINTR\<close> are left to its contract.
\<close>

datatype epoll_answer = Interrupted | Returned "(nat \<times> fd_event set) list"

fun wait_loop :: "int option \<Rightarrow> int \<Rightarrow> (epoll_answer \<times> int) list \<Rightarrow> 'h BReactor \<Rightarrow> 'h BReactor option option" where
  "wait_loop timeout now [] r = Some None"
| "wait_loop timeout now ((answer, now') # answers) r = do {
     rel \<leftarrow> (case timeout of Some timeout_abs \<Rightarrow> int64_val (timeout_abs - now) | None \<Rightarrow> Some 0);
     let rel_trunc = (if timeout \<noteq> None \<and> rel > INT_MAX then INT_MAX else rel);
     let try_again =
       (case timeout of
          Some timeout_abs \<Rightarrow>
            if now' \<ge> timeout_abs then do { r \<leftarrow> move_first_timers r; Some (Some r) }
            else wait_loop timeout now' answers r
        | None \<Rightarrow> wait_loop timeout now answers r);
     case answer of
       Interrupted \<Rightarrow> try_again
     | Returned evs \<Rightarrow> do {
         ASSERT (evs \<noteq> [] \<or> timeout \<noteq> None);
         ASSERT (length evs \<le> BSYSTEM_MAX_RESULTS);
         if evs \<noteq> [] then do {
           let results = map (\<lambda>(f, ev). (Some f, ev)) evs;
           r \<leftarrow> set_epoll_fd_pointers 0 results (r\<lparr>r_results := results\<rparr>);
           Some (Some r) }
         else if rel_trunc = rel then do { r \<leftarrow> move_first_timers r; Some (Some r) }
         else try_again } }"

text \<open>\<open>now\<close> is the reading of the clock before the wait, made only when timers are running.\<close>

definition wait_for_events :: "int \<Rightarrow> (epoll_answer \<times> int) list \<Rightarrow> 'h BReactor \<Rightarrow> 'h BReactor option option" where
  "wait_for_events now answers r = do {
     ASSERT (\<not> BPendingGroup_HasJobs (r_jobs r));
     ASSERT (LinkedList1_IsEmpty (r_expired r));
     ASSERT (r_pos r = length (r_results r));
     let r = r\<lparr>r_results := [], r_pos := 0\<rparr>;
     first \<leftarrow> CAvl_GetFirst (r_tree r);
     case first of
       None \<Rightarrow> do {
         w \<leftarrow> wait_loop None 0 answers r;
         case w of None \<Rightarrow> Some None | Some r \<Rightarrow> do { r \<leftarrow> reset_limits r; Some (Some r) } }
     | Some t \<Rightarrow> do {
         tm \<leftarrow> r_timers r t;
         ASSERT (tm_state tm = TIMER_STATE_RUNNING);
         (moved, r) \<leftarrow> move_expired_timers now r;
         if moved then Some (Some r)
         else do {
           w \<leftarrow> wait_loop (Some (tm_absTime tm)) now answers r;
           case w of None \<Rightarrow> Some None | Some r \<Rightarrow> do { r \<leftarrow> reset_limits r; Some (Some r) } } } }"

subsection \<open>The event loop\<close>

datatype 'h dispatch = RunJob 'h | RunTimer nat | RunFd nat "fd_event set" | Skipped | Waited | Waiting

definition reported_events :: "BFileDescriptor \<Rightarrow> fd_event set \<Rightarrow> fd_event set" where
  "reported_events fd ev =
     (if BREACTOR_READ \<in> fd_waitEvents fd \<and> BREACTOR_READ \<in> ev then {BREACTOR_READ} else {})
     \<union> (if BREACTOR_WRITE \<in> fd_waitEvents fd \<and> BREACTOR_WRITE \<in> ev then {BREACTOR_WRITE} else {})
     \<union> (if BREACTOR_ERROR \<in> ev then {BREACTOR_ERROR} else {})
     \<union> (if BREACTOR_HUP \<in> ev then {BREACTOR_HUP} else {})"

text \<open>One iteration of the loop of \<open>BReactor_Exec\<close>; a wait that has not ended leaves the state as it is.\<close>

definition BReactor_Exec_iteration ::
  "int \<Rightarrow> (epoll_answer \<times> int) list \<Rightarrow> 'h BReactor \<Rightarrow> ('h dispatch \<times> 'h BReactor) option" where
  "BReactor_Exec_iteration now answers r =
     (if BPendingGroup_HasJobs (r_jobs r) then do {
        (h, jobs) \<leftarrow> BPendingGroup_ExecuteJob (r_jobs r);
        Some (RunJob h, r\<lparr>r_jobs := jobs\<rparr>) }
      else case LinkedList1_GetFirst (r_expired r) of
        Some t \<Rightarrow> do {
          tm \<leftarrow> r_timers r t;
          ASSERT (tm_state tm = TIMER_STATE_EXPIRED);
          Some (RunTimer t, r\<lparr>r_expired := LinkedList1_Remove t (r_expired r),
                              r_timers := set_timer_state t TIMER_STATE_INACTIVE (r_timers r)\<rparr>) }
      | None \<Rightarrow>
          if r_pos r < length (r_results r) then do {
            let (p, ev) = r_results r ! r_pos r;
            let i = r_pos r;
            let r = r\<lparr>r_pos := Suc i\<rparr>;
            case p of
              None \<Rightarrow> Some (Skipped, r)
            | Some f \<Rightarrow> do {
                fd \<leftarrow> r_fds r f;
                ASSERT (fd_active fd);
                ASSERT (fd_epoll_returned fd = Some i);
                let r = r\<lparr>r_fds := (r_fds r)(f \<mapsto> fd\<lparr>fd_epoll_returned := None\<rparr>)\<rparr>;
                let events = reported_events fd ev;
                Some (if events = {} then (Skipped, r) else (RunFd f events, r)) } }
          else do {
            w \<leftarrow> wait_for_events now answers r;
            Some (case w of None \<Rightarrow> (Waiting, r) | Some r \<Rightarrow> (Waited, r)) })"

definition BReactor_Quit :: "int \<Rightarrow> 'h BReactor \<Rightarrow> 'h BReactor" where
  "BReactor_Quit code r = r\<lparr>r_exiting := True, r_exit_code := code\<rparr>"

text \<open>\<open>BReactor_Init\<close>, where \<open>created\<close> is whether \<open>epoll_create\<close> succeeded, and \<open>m0\<close>, \<open>l0\<close>, \<open>a0\<close> are the unused links.\<close>

definition BReactor_Init :: "bool \<Rightarrow> cavl_mem \<Rightarrow> (nat \<Rightarrow> LinkedList1Node) \<Rightarrow> (nat \<Rightarrow> LinkedList1Node) \<Rightarrow> 'h BReactor option" where
  "BReactor_Init created m0 l0 a0 =
     (if \<not> created then None
      else Some \<lparr>r_exiting = False, r_exit_code = 0, r_jobs = BPendingGroup_Init, r_tree = (CAvl_Init, m0),
                 r_expired = (LinkedList1_Init, l0), r_timers = Map.empty, r_active_limits = (LinkedList1_Init, a0),
                 r_limits = Map.empty, r_fds = Map.empty, r_epoll = Map.empty, r_results = [], r_pos = 0\<rparr>)"

definition BReactor_Free :: "'h BReactor \<Rightarrow> unit option" where
  "BReactor_Free r = do {
     ASSERT (\<not> BPendingGroup_HasJobs (r_jobs r));
     ASSERT (CAvl_IsEmpty (r_tree r));
     ASSERT (LinkedList1_IsEmpty (r_expired r));
     ASSERT (LinkedList1_IsEmpty (r_active_limits r));
     BPendingGroup_Free (r_jobs r) }"

subsection \<open>The clock saturates\<close>

lemma int64_val_Some [simp]: "int64_val t = Some u \<longleftrightarrow> is_int64 t \<and> u = t"
  by (auto simp: int64_val_def)

lemma btime_add_val:
  assumes "is_int64 a" and "is_int64 b"
  shows "btime_add a b = Some (max INT64_MIN (min INT64_MAX (a + b)))"
  using assms by (auto simp: btime_add_def add_int64_overflows_def int64_val_def is_int64_def)

lemma btime_add_ok: "is_int64 a \<Longrightarrow> is_int64 b \<Longrightarrow> \<exists>c. btime_add a b = Some c \<and> is_int64 c"
  using btime_add_val by (auto simp: is_int64_def)

subsection \<open>The tree of timers\<close>

lemma compare_timers_less: "compare_timers time a b = -1 \<longleftrightarrow> time a < time b \<or> (time a = time b \<and> a < b)"
  by (auto simp: compare_timers_def Let_def)

interpretation timer_order: entry_order "compare_timers time" for time
proof -
  have "comparator (compare_timers time) (\<lambda>_. True)" for time
  proof (unfold_locales, goal_cases)
    case (1 a b)
    then show ?case using B_COMPARE_range [of "time a" "time b"] B_COMPARE_range [of a b] by (auto simp: compare_timers_def Let_def)
  next
    case (2 a b)
    then show ?case by (auto simp: compare_timers_def Let_def)
  next
    case (3 a b)
    then show ?case using B_COMPARE_anti [of "time a" "time b"] B_COMPARE_anti [of a b] by (auto simp: compare_timers_def Let_def)
  next
    case (4 a b c)
    then show ?case by (auto simp: compare_timers_less)
  qed
  then show "entry_order (compare_timers time)" for time by (rule entry_order.intro)
qed

lemma cavl_list_time:
  assumes "cavl_list (compare_timers time) s xs" and "\<forall>x\<in>set xs. time' x = time x"
  shows "cavl_list (compare_timers time') s xs"
proof -
  obtain t where t: "cavl_rep s t" "avl t" "inorder t = xs" "sorted_wrt (\<lambda>a b. compare_timers time a b = -1) xs"
    using assms(1) by (auto simp: cavl_list_def bavl_ok_def bst_def)
  have "sorted_wrt (\<lambda>a b. compare_timers time' a b = -1) xs"
    by (rule sorted_wrt_mono_rel [OF _ t(4)]) (use assms(2) in \<open>simp add: compare_timers_less\<close>)
  then show ?thesis using t by (auto simp: cavl_list_def bavl_ok_def bst_def)
qed

lemma timer_times_sorted: "cavl_list (compare_timers time) s xs \<Longrightarrow> sorted_wrt (\<lambda>a b. time a \<le> time b) xs"
  by (rule sorted_wrt_mono_rel [OF _ timer_order.cavl_sorted]) (auto simp: compare_timers_less)

lemma timer_distinct: "cavl_list (compare_timers time) s xs \<Longrightarrow> distinct xs"
  by (auto simp: cavl_list_def cavl_rep_def)

definition timer_state_of :: "'h BReactor \<Rightarrow> nat \<Rightarrow> timer_state option" where
  "timer_state_of r t = map_option tm_state (r_timers r t)"

abbreviation time_of_timer :: "'h BReactor \<Rightarrow> nat \<Rightarrow> int" where
  "time_of_timer r \<equiv> timer_time (r_timers r)"

definition timers_ok :: "'h BReactor \<Rightarrow> nat list \<Rightarrow> nat list \<Rightarrow> bool" where
  "timers_ok r ts es \<longleftrightarrow> cavl_list (compare_timers (time_of_timer r)) (r_tree r) ts \<and> rep1 (r_expired r) es
     \<and> (\<forall>t. is_int64 (time_of_timer r t))
     \<and> (\<forall>t. t \<in> set ts \<longleftrightarrow> timer_state_of r t = Some TIMER_STATE_RUNNING)
     \<and> (\<forall>t. t \<in> set es \<longleftrightarrow> timer_state_of r t = Some TIMER_STATE_EXPIRED)"

lemma timer_time_state [simp]: "timer_time (set_timer_state t st ts) = timer_time ts"
  by (auto simp: timer_time_def set_timer_state_def split: option.splits)

lemma dom_timer_state [simp]: "dom (set_timer_state t st ts) = dom ts"
  by (auto simp: set_timer_state_def)

lemma timers_okD:
  assumes "timers_ok r ts es"
  shows "cavl_list (compare_timers (time_of_timer r)) (r_tree r) ts" "rep1 (r_expired r) es"
    "distinct ts" "distinct es" "set ts \<inter> set es = {}"
    "t \<in> set ts \<Longrightarrow> \<exists>tm. r_timers r t = Some tm \<and> tm_state tm = TIMER_STATE_RUNNING \<and> tm_absTime tm = time_of_timer r t"
    "t \<in> set es \<Longrightarrow> \<exists>tm. r_timers r t = Some tm \<and> tm_state tm = TIMER_STATE_EXPIRED"
  using assms timer_distinct [of "time_of_timer r" "r_tree r" ts]
  by (auto simp: timers_ok_def rep1_def timer_state_of_def timer_time_def)

text \<open>What moving timers leaves alone.\<close>

definition only_timers :: "'h BReactor \<Rightarrow> 'h BReactor \<Rightarrow> bool" where
  "only_timers r r' \<longleftrightarrow> r' = r\<lparr>r_tree := r_tree r', r_expired := r_expired r', r_timers := r_timers r'\<rparr>
     \<and> time_of_timer r' = time_of_timer r \<and> dom (r_timers r') = dom (r_timers r)"

lemma only_timers_refl [simp]: "only_timers r r"
  by (simp add: only_timers_def)

lemma only_timers_trans: "only_timers r r' \<Longrightarrow> only_timers r' r'' \<Longrightarrow> only_timers r r''"
  by (cases r; cases r'; cases r'') (simp add: only_timers_def)

lemma expire_timer_ok:
  assumes "timers_ok r (t # ts) es"
  obtains r' where "expire_timer t r = Some r'" and "timers_ok r' ts (es @ [t])" and "only_timers r r'"
proof -
  note d = timers_okD [OF assms]
  obtain tree where tree: "CAvl_Remove t (r_tree r) = Some tree" "cavl_list (compare_timers (time_of_timer r)) tree ts"
    using timer_order.cavl_remove [OF d(1), of t] by auto
  obtain tm where tm: "r_timers r t = Some tm" using d(6) [of t] by auto
  let ?r = "r\<lparr>r_tree := tree, r_expired := LinkedList1_Append t (r_expired r), r_timers := set_timer_state t TIMER_STATE_EXPIRED (r_timers r)\<rparr>"
  have "rep1 (LinkedList1_Append t (r_expired r)) (es @ [t])" by (rule Append1_ok [OF d(2)]) (use d(5) in simp)
  moreover have "timer_state_of ?r = (timer_state_of r)(t \<mapsto> TIMER_STATE_EXPIRED)"
    by (rule ext) (simp add: timer_state_of_def set_timer_state_def tm)
  ultimately have "timers_ok ?r ts (es @ [t])" using assms tree(2) d(3,5) by (auto simp: timers_ok_def)
  moreover have "only_timers r ?r" by (simp add: only_timers_def)
  ultimately show ?thesis using that tree(1) by (simp add: expire_timer_def)
qed

lemma move_expired_ok:
  assumes "timers_ok r ts es"
  shows "\<exists>r'. move_expired_timers now r = Some (takeWhile (\<lambda>t. time_of_timer r t \<le> now) ts \<noteq> [], r')
           \<and> timers_ok r' (dropWhile (\<lambda>t. time_of_timer r t \<le> now) ts) (es @ takeWhile (\<lambda>t. time_of_timer r t \<le> now) ts)
           \<and> only_timers r r'"
  using assms
proof (induction ts arbitrary: r es)
  case Nil
  then show ?case using timer_order.cavl_first [OF timers_okD(1) [OF Nil]] by (simp add: move_expired_timers.simps [of now r])
next
  case (Cons t ts)
  have first: "CAvl_GetFirst (r_tree r) = Some (Some t)" using timer_order.cavl_first [OF timers_okD(1) [OF Cons.prems]] by simp
  obtain tm where tm: "r_timers r t = Some tm" "tm_state tm = TIMER_STATE_RUNNING" "tm_absTime tm = time_of_timer r t"
    using timers_okD(6) [OF Cons.prems, of t] by auto
  show ?case
  proof (cases "time_of_timer r t \<le> now")
    case False
    then show ?thesis using Cons.prems first tm by (simp add: move_expired_timers.simps [of now r])
  next
    case True
    obtain r1 where r1: "expire_timer t r = Some r1" "timers_ok r1 ts (es @ [t])" "only_timers r r1"
      by (rule expire_timer_ok [OF Cons.prems])
    have "time_of_timer r1 = time_of_timer r" using r1(3) by (simp add: only_timers_def)
    then show ?thesis using Cons.IH [OF r1(2)] r1 True first tm only_timers_trans [OF r1(3)]
      by (auto simp: move_expired_timers.simps [of now r])
  qed
qed

lemma move_same_ok:
  assumes "timers_ok r ts es" and "\<forall>t\<in>set ts. time_of_timer r t \<ge> x"
  shows "\<exists>r'. move_same_timers x r = Some r'
           \<and> timers_ok r' (dropWhile (\<lambda>t. time_of_timer r t \<le> x) ts) (es @ takeWhile (\<lambda>t. time_of_timer r t \<le> x) ts)
           \<and> only_timers r r'"
  using assms
proof (induction ts arbitrary: r es)
  case Nil
  then show ?case using timer_order.cavl_first [OF timers_okD(1) [OF Nil(1)]] by (simp add: move_same_timers.simps [of x r])
next
  case (Cons t ts)
  have first: "CAvl_GetFirst (r_tree r) = Some (Some t)" using timer_order.cavl_first [OF timers_okD(1) [OF Cons.prems(1)]] by simp
  obtain tm where tm: "r_timers r t = Some tm" "tm_state tm = TIMER_STATE_RUNNING" "tm_absTime tm = time_of_timer r t"
    using timers_okD(6) [OF Cons.prems(1), of t] by auto
  show ?case
  proof (cases "time_of_timer r t \<le> x")
    case False
    then show ?thesis using Cons.prems first tm by (simp add: move_same_timers.simps [of x r])
  next
    case True
    obtain r1 where r1: "expire_timer t r = Some r1" "timers_ok r1 ts (es @ [t])" "only_timers r r1"
      by (rule expire_timer_ok [OF Cons.prems(1)])
    have "time_of_timer r1 = time_of_timer r" using r1(3) by (simp add: only_timers_def)
    moreover have "move_same_timers x r = move_same_timers x r1"
      unfolding move_same_timers.simps [of x r] using Cons.prems(2) True first tm r1(1) by simp
    ultimately show ?thesis using Cons.IH [OF r1(2)] Cons.prems(2) True only_timers_trans [OF r1(3)] by auto
  qed
qed

lemma move_first_ok:
  assumes "timers_ok r (t # ts) es" and "x = time_of_timer r t"
  shows "\<exists>r'. move_first_timers r = Some r'
           \<and> timers_ok r' (dropWhile (\<lambda>t. time_of_timer r t \<le> x) (t # ts)) (es @ takeWhile (\<lambda>t. time_of_timer r t \<le> x) (t # ts))
           \<and> only_timers r r'"
proof -
  have first: "CAvl_GetFirst (r_tree r) = Some (Some t)" using timer_order.cavl_first [OF timers_okD(1) [OF assms(1)]] by simp
  obtain tm where tm: "r_timers r t = Some tm" "tm_state tm = TIMER_STATE_RUNNING" "tm_absTime tm = x"
    using timers_okD(6) [OF assms(1), of t] assms(2) by auto
  obtain r1 where r1: "expire_timer t r = Some r1" "timers_ok r1 ts (es @ [t])" "only_timers r r1"
    by (rule expire_timer_ok [OF assms(1)])
  have s: "time_of_timer r1 = time_of_timer r" using r1(3) by (simp add: only_timers_def)
  have "\<forall>u\<in>set ts. time_of_timer r1 u \<ge> x" using timer_times_sorted [OF timers_okD(1) [OF assms(1)]] assms(2) s by simp
  from move_same_ok [OF r1(2) this] show ?thesis
    using s r1 first tm assms(2) only_timers_trans [OF r1(3)] by (auto simp: move_first_timers_def)
qed


lemma RemoveSmallTimer_ok:
  assumes "timers_ok r ts es" and "r_timers r t \<noteq> None"
  obtains r' where "BReactor_RemoveSmallTimer t r = Some r'" and "timers_ok r' (remove1 t ts) (remove1 t es)" and "only_timers r r'"
    and "timer_state_of r' = (timer_state_of r)(t \<mapsto> TIMER_STATE_INACTIVE)"
proof -
  note d = timers_okD [OF assms(1)]
  obtain tm where tm: "r_timers r t = Some tm" using assms(2) by blast
  have st: "t \<in> set ts \<longleftrightarrow> tm_state tm = TIMER_STATE_RUNNING" "t \<in> set es \<longleftrightarrow> tm_state tm = TIMER_STATE_EXPIRED"
    using assms(1) tm by (auto simp: timers_ok_def timer_state_of_def)
  let ?set = "\<lambda>r. r\<lparr>r_timers := set_timer_state t TIMER_STATE_INACTIVE (r_timers r)\<rparr>"
  have state: "timer_state_of (?set r') = (timer_state_of r)(t \<mapsto> TIMER_STATE_INACTIVE)" if "r_timers r' = r_timers r" for r' :: "'a BReactor"
    by (rule ext) (simp add: timer_state_of_def set_timer_state_def tm that)
  show ?thesis
  proof (cases "tm_state tm")
    case TIMER_STATE_INACTIVE
    then have "timer_state_of r = (timer_state_of r)(t \<mapsto> TIMER_STATE_INACTIVE)" by (auto simp: timer_state_of_def tm)
    then show ?thesis using that [of r] assms(1) st tm TIMER_STATE_INACTIVE
      by (simp add: BReactor_RemoveSmallTimer_def remove1_idem)
  next
    case TIMER_STATE_RUNNING
    obtain tree where tree: "CAvl_Remove t (r_tree r) = Some tree" "cavl_list (compare_timers (time_of_timer r)) tree (remove1 t ts)"
      using timer_order.cavl_remove [OF d(1)] TIMER_STATE_RUNNING st by blast
    let ?r = "?set (r\<lparr>r_tree := tree\<rparr>)"
    have "timers_ok ?r (remove1 t ts) (remove1 t es)"
      using assms(1) tree(2) d(3) st TIMER_STATE_RUNNING state [of "r\<lparr>r_tree := tree\<rparr>"] by (simp add: timers_ok_def remove1_idem)
    then show ?thesis using that [of ?r] tree(1) tm TIMER_STATE_RUNNING state [of "r\<lparr>r_tree := tree\<rparr>"]
      by (simp add: BReactor_RemoveSmallTimer_def only_timers_def)
  next
    case TIMER_STATE_EXPIRED
    obtain as bs where es: "es = as @ t # bs" using TIMER_STATE_EXPIRED st split_list by metis
    let ?r = "?set (r\<lparr>r_expired := LinkedList1_Remove t (r_expired r)\<rparr>)"
    have "rep1 (LinkedList1_Remove t (r_expired r)) (remove1 t es)"
      using Remove1_ok [of "r_expired r" as t bs] d(2,4) es by (simp add: remove1_append)
    then have "timers_ok ?r (remove1 t ts) (remove1 t es)"
      using assms(1) d(4) st TIMER_STATE_EXPIRED state [of "r\<lparr>r_expired := LinkedList1_Remove t (r_expired r)\<rparr>"]
      by (simp add: timers_ok_def remove1_idem)
    then show ?thesis using that [of ?r] tm TIMER_STATE_EXPIRED state [of "r\<lparr>r_expired := LinkedList1_Remove t (r_expired r)\<rparr>"]
      by (simp add: BReactor_RemoveSmallTimer_def only_timers_def)
  qed
qed

lemma SetSmallTimer_ok:
  assumes "timers_ok r ts es" and "r_timers r t \<noteq> None" and "is_int64 time" and "is_int64 now"
    and "abs_time = (if mode = BTIMER_SET_RELATIVE then max INT64_MIN (min INT64_MAX (now + time)) else time)"
  obtains r' where "BReactor_SetSmallTimer t mode time now r = Some r'"
    and "timers_ok r' (insert_by (compare_timers (time_of_timer r')) t (remove1 t ts)) (remove1 t es)"
    and "time_of_timer r' = (time_of_timer r)(t := abs_time)"
    and "r' = r\<lparr>r_tree := r_tree r', r_expired := r_expired r', r_timers := r_timers r'\<rparr>" and "dom (r_timers r') = dom (r_timers r)"
    and "timer_state_of r' = (timer_state_of r)(t \<mapsto> TIMER_STATE_RUNNING)"
proof -
  obtain r1 where r1: "BReactor_RemoveSmallTimer t r = Some r1" "timers_ok r1 (remove1 t ts) (remove1 t es)" "only_timers r r1"
      "timer_state_of r1 = (timer_state_of r)(t \<mapsto> TIMER_STATE_INACTIVE)"
    by (rule RemoveSmallTimer_ok [OF assms(1,2)])
  obtain tm where tm: "r_timers r1 t = Some tm" using assms(2) r1(3) by (auto simp: only_timers_def)
  have abs: "is_int64 abs_time" "(if mode = BTIMER_SET_RELATIVE then btime_add now time else Some time) = Some abs_time"
    using assms(3-5) btime_add_val [OF assms(4,3)] by (auto simp: is_int64_def)
  let ?ts = "(r_timers r1)(t \<mapsto> tm\<lparr>tm_absTime := abs_time, tm_state := TIMER_STATE_RUNNING\<rparr>)"
  have nt: "t \<notin> set (remove1 t ts)" using timers_okD(3) [OF assms(1)] by simp
  have time: "timer_time ?ts = (time_of_timer r)(t := abs_time)"
    using r1(3) by (auto simp: only_timers_def timer_time_def fun_eq_iff split: option.splits)
  have "cavl_list (compare_timers (timer_time ?ts)) (r_tree r1) (remove1 t ts)"
    by (rule cavl_list_time [OF timers_okD(1) [OF r1(2)]]) (use nt r1(3) in \<open>auto simp: time only_timers_def\<close>)
  then obtain tree ref where tree: "CAvl_Insert (compare_timers (timer_time ?ts)) t (r_tree r1) = Some (True, tree, ref)"
      "cavl_list (compare_timers (timer_time ?ts)) tree (insert_by (compare_timers (timer_time ?ts)) t (remove1 t ts))"
    using timer_order.cavl_insert nt by blast
  let ?r = "r1\<lparr>r_timers := ?ts, r_tree := tree\<rparr>"
  have st: "timer_state_of ?r = (timer_state_of r)(t \<mapsto> TIMER_STATE_RUNNING)"
    using r1(4) by (auto simp: timer_state_of_def fun_eq_iff)
  have "set (insert_by cmp t xs) = insert t (set xs)" for cmp xs by (induction xs) auto
  then have "timers_ok ?r (insert_by (compare_timers (timer_time ?ts)) t (remove1 t ts)) (remove1 t es)"
    using r1(2,4) tree(2) st abs(1) assms(1) time by (auto simp: timers_ok_def)
  moreover have "?r = r\<lparr>r_tree := r_tree ?r, r_expired := r_expired ?r, r_timers := r_timers ?r\<rparr>" "dom (r_timers ?r) = dom (r_timers r)"
    using r1(3) tm by (cases r; cases r1; auto simp: only_timers_def)+
  ultimately show ?thesis using that [of ?r] r1(1) abs(2) tm tree(1) time st by (simp add: BReactor_SetSmallTimer_def Let_def)
qed


subsection \<open>Limits\<close>

definition limits_ok :: "'h BReactor \<Rightarrow> nat list \<Rightarrow> bool" where
  "limits_ok r ls \<longleftrightarrow> rep1 (r_active_limits r) ls
     \<and> (\<forall>l. l \<in> set ls \<longleftrightarrow> (\<exists>lm. r_limits r l = Some lm \<and> lm_count lm > 0))
     \<and> (\<forall>l lm. r_limits r l = Some lm \<longrightarrow> 0 \<le> lm_count lm \<and> 0 < lm_limit lm)"

lemma Remove1_member:
  assumes "rep1 s xs" and "x \<in> set xs"
  shows "rep1 (LinkedList1_Remove x s) (remove1 x xs)"
proof -
  obtain as bs where xs: "xs = as @ x # bs" using split_list [OF assms(2)] by blast
  then show ?thesis using Remove1_ok [of s as x bs] assms(1) by (simp add: rep1_def remove1_append)
qed

lemma LimitInit_ok:
  assumes "limits_ok r ls" and "r_limits r l = None" and "0 < n"
  shows "\<exists>r'. BReactorLimit_Init l n r = Some r' \<and> limits_ok r' ls"
  using assms by (auto simp: BReactorLimit_Init_def limits_ok_def)

lemma LimitFree_ok:
  assumes "limits_ok r ls" and "r_limits r l = Some lm"
  shows "\<exists>r'. BReactorLimit_Free l r = Some r' \<and> limits_ok r' (remove1 l ls)"
proof -
  have d: "distinct ls" "rep1 (r_active_limits r) ls" using assms(1) by (auto simp: limits_ok_def rep1_def)
  have l: "l \<in> set ls \<longleftrightarrow> lm_count lm > 0" using assms by (auto simp: limits_ok_def)
  show ?thesis
  proof (cases "l \<in> set ls")
    case True
    then show ?thesis using assms d l Remove1_member [OF d(2) True] by (simp add: BReactorLimit_Free_def limits_ok_def Let_def)
  next
    case False
    then show ?thesis using assms d l by (auto simp: BReactorLimit_Free_def limits_ok_def Let_def remove1_idem)
  qed
qed

lemma LimitIncrement_ok:
  assumes "limits_ok r ls" and "r_limits r l = Some lm"
  obtains r' ls' where "BReactorLimit_Increment l r = Some (lm_count lm < lm_limit lm, r')" and "limits_ok r' ls'"
    and "r' = r\<lparr>r_limits := r_limits r', r_active_limits := r_active_limits r'\<rparr>"
    and "r_limits r' = (if lm_count lm < lm_limit lm then (r_limits r)(l \<mapsto> lm\<lparr>lm_count := lm_count lm + 1\<rparr>) else r_limits r)"
proof (cases "lm_count lm < lm_limit lm")
  case False
  then show ?thesis using that [of r ls] assms by (simp add: BReactorLimit_Increment_def)
next
  case True
  have c: "0 \<le> lm_count lm" "l \<in> set ls \<longleftrightarrow> lm_count lm > 0" "rep1 (r_active_limits r) ls" using assms by (auto simp: limits_ok_def)
  let ?r = "r\<lparr>r_limits := (r_limits r)(l \<mapsto> lm\<lparr>lm_count := lm_count lm + 1\<rparr>)\<rparr>"
  show ?thesis
  proof (cases "lm_count lm = 0")
    case True
    then show ?thesis using that [of "?r\<lparr>r_active_limits := LinkedList1_Append l (r_active_limits r)\<rparr>" "ls @ [l]"] assms c \<open>lm_count lm < lm_limit lm\<close>
        Append1_ok [OF c(3), of l] by (auto simp: BReactorLimit_Increment_def limits_ok_def Let_def)
  next
    case False
    have "0 < lm_count lm" using False c(1) by simp
    then have "limits_ok ?r ls" using assms by (auto simp: limits_ok_def)
    then show ?thesis using that [of ?r ls] assms True False by (simp add: BReactorLimit_Increment_def)
  qed
qed

lemma LimitSet_ok:
  assumes "limits_ok r ls" and "r_limits r l = Some lm" and "0 < n"
  shows "\<exists>r'. BReactorLimit_SetLimit l n r = Some r' \<and> limits_ok r' ls"
  using assms by (auto simp: BReactorLimit_SetLimit_def limits_ok_def)

text \<open>The counters are all zero afterwards.\<close>

definition zero_counts :: "(nat \<rightharpoonup> BReactorLimit) \<Rightarrow> nat \<rightharpoonup> BReactorLimit" where
  "zero_counts m l = map_option (\<lambda>lm. lm\<lparr>lm_count := 0\<rparr>) (m l)"

lemma reset_limits_ok:
  assumes "limits_ok r ls"
  shows "\<exists>a. reset_limits r = Some (r\<lparr>r_limits := zero_counts (r_limits r), r_active_limits := a\<rparr>)
           \<and> limits_ok (r\<lparr>r_limits := zero_counts (r_limits r), r_active_limits := a\<rparr>) []"
  using assms
proof (induction ls arbitrary: r)
  case Nil
  have "lm\<lparr>lm_count := 0\<rparr> = lm" if "r_limits r l = Some lm" for l lm
    using Nil that by (cases lm) (fastforce simp: limits_ok_def)
  then have z: "zero_counts (r_limits r) = r_limits r"
    by (auto simp: zero_counts_def fun_eq_iff map_option_case split: option.splits)
  have "LinkedList1_GetFirst (r_active_limits r) = None" using Nil list1.first_ok by (fastforce simp: limits_ok_def)
  then have "reset_limits r = Some r" by (simp add: reset_limits.simps [of r])
  moreover have "r\<lparr>r_limits := zero_counts (r_limits r), r_active_limits := r_active_limits r\<rparr> = r" by (simp add: z)
  ultimately show ?case using Nil by metis
next
  case (Cons l ls)
  obtain lm where lm: "r_limits r l = Some lm" "lm_count lm > 0" using Cons.prems by (fastforce simp: limits_ok_def)
  have rep: "rep1 (r_active_limits r) (l # ls)" using Cons.prems by (simp add: limits_ok_def)
  let ?r = "r\<lparr>r_limits := (r_limits r)(l \<mapsto> lm\<lparr>lm_count := 0\<rparr>), r_active_limits := LinkedList1_Remove l (r_active_limits r)\<rparr>"
  have d: "l \<notin> set ls" using rep by (simp add: rep1_def)
  have "limits_ok ?r ls" using Cons.prems d lm Remove1_member [OF rep, of l] by (auto simp: limits_ok_def)
  from Cons.IH [OF this] obtain a where a: "reset_limits ?r = Some (?r\<lparr>r_limits := zero_counts (r_limits ?r), r_active_limits := a\<rparr>)"
    "limits_ok (?r\<lparr>r_limits := zero_counts (r_limits ?r), r_active_limits := a\<rparr>) []" by blast
  have "zero_counts (r_limits ?r) = zero_counts (r_limits r)" using lm by (auto simp: zero_counts_def)
  moreover have "reset_limits r = reset_limits ?r"
    unfolding reset_limits.simps [of r] using lm list1.first_ok [OF rep] by simp
  ultimately show ?case using a by (intro exI [of _ a]) simp
qed

subsection \<open>File descriptors\<close>

definition fds_ok :: "'h BReactor \<Rightarrow> bool" where
  "fds_ok r \<longleftrightarrow> r_pos r \<le> length (r_results r)
     \<and> (\<forall>f. r_epoll r f = (case r_fds r f of Some fd \<Rightarrow> if fd_active fd then Some (fd_waitEvents fd) else None | None \<Rightarrow> None))
     \<and> (\<forall>f fd i. r_fds r f = Some fd \<longrightarrow> fd_active fd \<longrightarrow> fd_epoll_returned fd = Some i \<longrightarrow>
          r_pos r \<le> i \<and> i < length (r_results r) \<and> fst (r_results r ! i) = Some f)
     \<and> (\<forall>i f. r_pos r \<le> i \<longrightarrow> i < length (r_results r) \<longrightarrow> fst (r_results r ! i) = Some f \<longrightarrow>
          (\<exists>fd. r_fds r f = Some fd \<and> fd_active fd \<and> fd_epoll_returned fd = Some i))"

lemma AddFd_ok:
  assumes "fds_ok r" and "r_fds r f = Some fd" and "\<not> fd_active fd"
  shows "\<exists>r'. BReactor_AddFileDescriptor ok f r = Some (ok, r') \<and> fds_ok r'"
proof -
  have "fst (r_results r ! i) \<noteq> Some f" if "r_pos r \<le> i" "i < length (r_results r)" for i
    using assms that by (fastforce simp: fds_ok_def)
  then show ?thesis using assms by (auto simp: BReactor_AddFileDescriptor_def fds_ok_def)
qed

lemma RemoveFd_ok:
  assumes "fds_ok r" and "r_fds r f = Some fd" and "fd_active fd"
  shows "\<exists>r'. BReactor_RemoveFileDescriptor f r = Some r' \<and> fds_ok r'"
proof (cases "fd_epoll_returned fd")
  case None
  have "fst (r_results r ! i) \<noteq> Some f" if "r_pos r \<le> i" "i < length (r_results r)" for i
    using assms None that by (fastforce simp: fds_ok_def)
  then show ?thesis using assms None by (auto simp: BReactor_RemoveFileDescriptor_def fds_ok_def)
next
  case (Some i)
  have i: "r_pos r \<le> i" "i < length (r_results r)" "fst (r_results r ! i) = Some f" using assms Some by (auto simp: fds_ok_def)
  have other: "fst (r_results r ! j) \<noteq> Some f" if "r_pos r \<le> j" "j < length (r_results r)" "j \<noteq> i" for j
    using assms Some that by (fastforce simp: fds_ok_def)
  have other': "fd_epoll_returned gd \<noteq> Some i" if "r_fds r g = Some gd" "fd_active gd" "g \<noteq> f" for g gd
    using assms(1) i that by (fastforce simp: fds_ok_def)
  have "r_epoll r f = Some (fd_waitEvents fd)" using assms by (simp add: fds_ok_def)
  then show ?thesis using assms Some i other other'
    by (auto simp: BReactor_RemoveFileDescriptor_def fds_ok_def nth_list_update; use i in linarith)
qed

lemma SetFdEvents_ok:
  assumes "fds_ok r" and "r_fds r f = Some fd" and "fd_active fd" and "events \<subseteq> {BREACTOR_READ, BREACTOR_WRITE}"
  shows "\<exists>r'. BReactor_SetFileDescriptorEvents f events r = Some r' \<and> fds_ok r'"
proof -
  have "r_epoll r f = Some (fd_waitEvents fd)" using assms by (simp add: fds_ok_def)
  then show ?thesis using assms by (auto simp: BReactor_SetFileDescriptorEvents_def fds_ok_def)
qed


fun point_to :: "nat \<Rightarrow> nat list \<Rightarrow> (nat \<rightharpoonup> BFileDescriptor) \<Rightarrow> nat \<rightharpoonup> BFileDescriptor" where
  "point_to i [] m = m"
| "point_to i (f # fs) m = point_to (Suc i) fs (m(f := map_option (\<lambda>fd. fd\<lparr>fd_epoll_returned := Some i\<rparr>) (m f)))"

lemma point_to_notin: "f \<notin> set fs \<Longrightarrow> point_to i fs m f = m f"
  by (induction fs arbitrary: i m) auto

lemma point_to_in:
  "distinct fs \<Longrightarrow> j < length fs \<Longrightarrow> point_to i fs m (fs ! j) = map_option (\<lambda>fd. fd\<lparr>fd_epoll_returned := Some (i + j)\<rparr>) (m (fs ! j))"
proof (induction fs arbitrary: i j m)
  case (Cons f fs)
  then show ?case by (cases j) (auto simp: point_to_notin)
qed simp

lemma set_pointers:
  assumes "distinct (map fst evs)"
    and "\<forall>f\<in>set (map fst evs). \<exists>fd. r_fds r f = Some fd \<and> fd_active fd \<and> fd_epoll_returned fd = None"
  shows "set_epoll_fd_pointers i (map (\<lambda>(f, ev). (Some f, ev)) evs) r = Some (r\<lparr>r_fds := point_to i (map fst evs) (r_fds r)\<rparr>)"
  using assms
proof (induction evs arbitrary: i r)
  case (Cons e evs)
  obtain f ev where e: "e = (f, ev)" by (cases e)
  obtain fd where fd: "r_fds r f = Some fd" "fd_active fd" "fd_epoll_returned fd = None" using Cons.prems(2) e by auto
  let ?r = "r\<lparr>r_fds := (r_fds r)(f \<mapsto> fd\<lparr>fd_epoll_returned := Some i\<rparr>)\<rparr>"
  have "\<forall>g\<in>set (map fst evs). \<exists>fd. r_fds ?r g = Some fd \<and> fd_active fd \<and> fd_epoll_returned fd = None"
    using Cons.prems e by auto
  then have "set_epoll_fd_pointers (Suc i) (map (\<lambda>(f, ev). (Some f, ev)) evs) ?r = Some (?r\<lparr>r_fds := point_to (Suc i) (map fst evs) (r_fds ?r)\<rparr>)"
    by (intro Cons.IH) (use Cons.prems(1) in simp_all)
  then show ?case using fd by (simp add: e)
qed simp

text \<open>
  What \<open>epoll_wait\<close> promises: at most as many results as asked for, each for another registered descriptor, with
  some of the events it is registered for, errors and hang-ups; no result only when a timeout was given.
\<close>

fun answer_ok :: "(nat \<rightharpoonup> fd_event set) \<Rightarrow> bool \<Rightarrow> epoll_answer \<Rightarrow> bool" where
  "answer_ok ep have_timeout Interrupted = True"
| "answer_ok ep have_timeout (Returned evs) =
     (length evs \<le> BSYSTEM_MAX_RESULTS \<and> distinct (map fst evs) \<and> (evs = [] \<longrightarrow> have_timeout)
      \<and> (\<forall>(f, ev)\<in>set evs. \<exists>mask. ep f = Some mask \<and> ev \<noteq> {} \<and> ev \<subseteq> mask \<union> {BREACTOR_ERROR, BREACTOR_HUP}))"

definition answers_ok :: "(nat \<rightharpoonup> fd_event set) \<Rightarrow> bool \<Rightarrow> (epoll_answer \<times> int) list \<Rightarrow> bool" where
  "answers_ok ep have_timeout answers \<longleftrightarrow> (\<forall>(a, now)\<in>set answers. answer_ok ep have_timeout a \<and> is_int64 now \<and> 0 \<le> now)"

lemma events_ok:
  assumes "fds_ok r" and "r_results r = []" and "r_pos r = 0" and "answer_ok (r_epoll r) b (Returned evs)"
  defines "results \<equiv> map (\<lambda>(f, ev). (Some f, ev)) evs"
  defines "r' \<equiv> r\<lparr>r_results := results, r_fds := point_to 0 (map fst evs) (r_fds r)\<rparr>"
  shows "set_epoll_fd_pointers 0 results (r\<lparr>r_results := results\<rparr>) = Some r'" "fds_ok r'"
proof -
  have act: "\<exists>fd. r_fds r f = Some fd \<and> fd_active fd \<and> fd_epoll_returned fd = None" if f: "f \<in> set (map fst evs)" for f
  proof -
    obtain ev where "(f, ev) \<in> set evs" using f by auto
    then obtain mask where "r_epoll r f = Some mask" using assms(4) by fastforce
    then obtain fd where fd: "r_fds r f = Some fd" "fd_active fd" using assms(1) by (auto simp: fds_ok_def split: option.splits if_splits)
    then have "fd_epoll_returned fd = None" using assms(1-3) by (cases "fd_epoll_returned fd") (auto simp: fds_ok_def)
    then show ?thesis using fd by blast
  qed
  have d: "distinct (map fst evs)" using assms(4) by simp
  show "set_epoll_fd_pointers 0 results (r\<lparr>r_results := results\<rparr>) = Some r'"
    unfolding results_def r'_def by (subst set_pointers [OF d]) (use act in \<open>auto simp del: set_map\<close>)
  have p: "point_to 0 (map fst evs) (r_fds r) f = map_option (\<lambda>fd. fd\<lparr>fd_epoll_returned := Some j\<rparr>) (r_fds r f)"
    if "j < length evs" "fst (evs ! j) = f" for f j
    using point_to_in [OF d, of j 0 "r_fds r"] that by simp
  have res: "fst (results ! j) = Some (fst (evs ! j))" if "j < length evs" for j using that by (simp add: results_def split: prod.split)
  have at: "(\<exists>j<length evs. fst (evs ! j) = f) \<or> f \<notin> set (map fst evs)" for f by (metis in_set_conv_nth length_map nth_map)
  have pf: "(\<exists>j<length evs. fst (evs ! j) = f \<and> point_to 0 (map fst evs) (r_fds r) f = map_option (\<lambda>fd. fd\<lparr>fd_epoll_returned := Some j\<rparr>) (r_fds r f))
      \<or> point_to 0 (map fst evs) (r_fds r) f = r_fds r f" for f
    using at [of f] p [of _ f] point_to_notin [of f "map fst evs"] by blast
  show "fds_ok r'" unfolding fds_ok_def
  proof (intro conjI allI impI)
    fix f
    show "r_epoll r' f = (case r_fds r' f of Some fd \<Rightarrow> if fd_active fd then Some (fd_waitEvents fd) else None | None \<Rightarrow> None)"
      using pf [of f] assms(1) by (cases "r_fds r f") (auto simp: r'_def fds_ok_def)
  next
    fix f fd i
    assume "r_fds r' f = Some fd" "fd_active fd" "fd_epoll_returned fd = Some i"
    then show "r_pos r' \<le> i" "i < length (r_results r')" "fst (r_results r' ! i) = Some f"
      using pf [of f] assms(1-3) res by (cases "r_fds r f"; auto simp: r'_def results_def fds_ok_def)+
  next
    fix i f
    assume "i < length (r_results r')" "fst (r_results r' ! i) = Some f"
    then have i: "i < length evs" "fst (evs ! i) = f" using res by (auto simp: r'_def results_def)
    then show "\<exists>fd. r_fds r' f = Some fd \<and> fd_active fd \<and> fd_epoll_returned fd = Some i"
      using p [OF i] act [of f] by (auto simp: r'_def)
  qed (simp add: r'_def assms(3))
qed


subsection \<open>Waiting\<close>

definition timers_due :: "'h BReactor \<Rightarrow> nat list \<Rightarrow> int \<Rightarrow> 'h BReactor \<Rightarrow> bool" where
  "timers_due r ts x r' \<longleftrightarrow> only_timers r r'
     \<and> timers_ok r' (dropWhile (\<lambda>t. time_of_timer r t \<le> x) ts) (takeWhile (\<lambda>t. time_of_timer r t \<le> x) ts)"

definition events_due :: "'h BReactor \<Rightarrow> (nat \<times> fd_event set) list \<Rightarrow> 'h BReactor \<Rightarrow> bool" where
  "events_due r evs r' \<longleftrightarrow> evs \<noteq> [] \<and> fds_ok r'
     \<and> r' = r\<lparr>r_results := map (\<lambda>(f, ev). (Some f, ev)) evs, r_fds := point_to 0 (map fst evs) (r_fds r)\<rparr>"

text \<open>
  Time passes in a wait as \<open>epoll_wait\<close> promises: a timeout is reported not before the time given for it.
\<close>

fun wait_clock :: "int option \<Rightarrow> int \<Rightarrow> (epoll_answer \<times> int) list \<Rightarrow> bool" where
  "wait_clock timeout now [] = True"
| "wait_clock timeout now ((answer, now') # answers) \<longleftrightarrow>
     (case timeout of Some x \<Rightarrow> answer = Returned [] \<longrightarrow> now' \<ge> now + min (x - now) INT_MAX | None \<Rightarrow> True)
     \<and> wait_clock timeout now' answers"

text \<open>
  A wait that ended moved the timers due, or took over the results of an answer; with the clock as promised, the
  first timers' time has then been reached. A wait that has not ended saw neither.
\<close>

definition wait_good :: "'h BReactor \<Rightarrow> nat list \<Rightarrow> int option \<Rightarrow> int \<Rightarrow> (epoll_answer \<times> int) list \<Rightarrow> 'h BReactor option \<Rightarrow> bool" where
  "wait_good r ts timeout now answers w \<longleftrightarrow>
     (case w of
        Some r' \<Rightarrow>
          (\<exists>t ts'. ts = t # ts' \<and> timers_due r ts (time_of_timer r t) r'
             \<and> (wait_clock timeout now answers \<longrightarrow> (\<exists>(a, n)\<in>set answers. time_of_timer r t \<le> n)))
          \<or> (\<exists>n evs. (Returned evs, n) \<in> set answers \<and> events_due r evs r')
      | None \<Rightarrow> \<forall>(a, n)\<in>set answers. (\<forall>evs. a = Returned evs \<longrightarrow> evs = []) \<and> (\<forall>x. timeout = Some x \<longrightarrow> n < x))"

lemma wait_good_later:
  assumes "wait_good r ts timeout n' answers w" and "\<forall>evs. a = Returned evs \<longrightarrow> evs = []"
    and "\<forall>x. timeout = Some x \<longrightarrow> n' = n \<and> n < x"
  shows "wait_good r ts timeout now ((a, n) # answers) w"
proof -
  have "wait_clock timeout now ((a, n) # answers) \<Longrightarrow> wait_clock timeout n' answers"
  proof (cases timeout)
    case None
    have "wait_clock None k answers" for k by (induction answers arbitrary: k) auto
    then show ?thesis using None by simp
  qed (use assms(3) in simp)
  then show ?thesis using assms unfolding wait_good_def by (cases w) fastforce+
qed

text \<open>One answer, while timers are running.\<close>

lemma wait_loop_timer_step:
  assumes "timers_ok r (t # ts) []" and "fds_ok r" and "r_results r = []" and "r_pos r = 0"
    and "x = time_of_timer r t" and "answer_ok (r_epoll r) True a" and "0 \<le> now" and "now < x"
    and IH: "n < x \<Longrightarrow> \<exists>w. wait_loop (Some x) n answers r = Some w \<and> wait_good r (t # ts) (Some x) n answers w"
  shows "\<exists>w. wait_loop (Some x) now ((a, n) # answers) r = Some w \<and> wait_good r (t # ts) (Some x) now ((a, n) # answers) w"
proof -
  have "is_int64 x" using assms(1,5) by (simp add: timers_ok_def)
  then have rel: "is_int64 (x - now)" using assms(7,8) by (simp add: is_int64_def)
  obtain r1 where r1: "move_first_timers r = Some r1" "timers_due r (t # ts) x r1"
    using move_first_ok [of r t ts "[]"] assms(1,5) unfolding timers_due_def by auto
  have due: "wait_good r (t # ts) (Some x) now ((a, n) # answers) (Some r1)"
    if "wait_clock (Some x) now ((a, n) # answers) \<longrightarrow> x \<le> n"
    using r1(2) that assms(5) by (auto simp: wait_good_def)
  define again where "again = (if n \<ge> x then Some (Some r1) else wait_loop (Some x) n answers r)"
  have good: "\<exists>w. again = Some w \<and> wait_good r (t # ts) (Some x) now ((a, n) # answers) w" if e: "\<forall>evs. a = Returned evs \<longrightarrow> evs = []"
  proof (cases "n \<ge> x")
    case True
    then show ?thesis using due by (simp add: again_def)
  next
    case False
    then show ?thesis using IH wait_good_later [of r "t # ts" "Some x" n answers _ a n now] e by (auto simp: again_def)
  qed
  consider "a = Interrupted" | evs where "a = Returned evs" "evs \<noteq> []" | "a = Returned []" "x - now \<le> INT_MAX" | "a = Returned []" "x - now > INT_MAX"
    by (cases a; cases "x - now \<le> INT_MAX") fastforce+
  then show ?thesis
  proof cases
    case 1
    then have "wait_loop (Some x) now ((a, n) # answers) r = again" using rel r1(1) by (simp add: int64_val_def again_def)
    then show ?thesis using good 1 by simp
  next
    case (2 evs)
    then show ?thesis using events_ok [OF assms(2-4), of True evs] assms(6) rel
      by (auto simp: wait_good_def events_due_def Let_def int64_val_def)
  next
    case 3
    then have "wait_loop (Some x) now ((a, n) # answers) r = Some (Some r1)" using rel r1(1) by (simp add: int64_val_def)
    then show ?thesis using due 3 by simp
  next
    case 4
    then have "wait_loop (Some x) now ((a, n) # answers) r = again" using rel r1(1) by (simp add: int64_val_def again_def)
    then show ?thesis using good 4 by simp
  qed
qed

lemma wait_loop_ok:
  assumes "timers_ok r ts []" and "fds_ok r" and "r_results r = []" and "r_pos r = 0"
    and "timeout = map_option (time_of_timer r) (first_or ts None)" and "answers_ok (r_epoll r) (ts \<noteq> []) answers"
    and "0 \<le> now" and "\<forall>x. timeout = Some x \<longrightarrow> now < x"
  shows "\<exists>w. wait_loop timeout now answers r = Some w \<and> wait_good r ts timeout now answers w"
  using assms(6-8)
proof (induction answers arbitrary: now)
  case Nil
  show ?case by (simp add: wait_good_def)
next
  case (Cons an answers)
  obtain a n where an: "an = (a, n)" by (cases an)
  have a: "answer_ok (r_epoll r) (ts \<noteq> []) a" "0 \<le> n" and rest: "answers_ok (r_epoll r) (ts \<noteq> []) answers"
    using Cons.prems(1) by (auto simp: answers_ok_def an)
  show ?case
  proof (cases "ts = []")
    case True
    then have t: "timeout = None" using assms(5) by simp
    show ?thesis
    proof (cases a)
      case Interrupted
      then show ?thesis using Cons.IH [OF rest Cons.prems(2)] t wait_good_later [of r ts None now answers _ a n now] by (auto simp: an)
    next
      case (Returned evs)
      then show ?thesis using events_ok [OF assms(2-4) a(1) [unfolded Returned]] a(1) t True
        by (auto simp: an wait_good_def events_due_def)
    qed
  next
    case False
    then obtain t ts' where ts: "ts = t # ts'" by (cases ts) auto
    then have x: "timeout = Some (time_of_timer r t)" using assms(5) by simp
    show ?thesis unfolding an ts x
      by (rule wait_loop_timer_step [OF assms(1) [unfolded ts] assms(2-4) refl])
        (use a Cons.prems(2,3) Cons.IH [OF rest a(2)] ts x in auto)
  qed
qed


text \<open>The invariant; expired timers are dispatched in the order in which they were to expire.\<close>

definition in_time_order :: "'h BReactor \<Rightarrow> nat list \<Rightarrow> bool" where
  "in_time_order r es \<longleftrightarrow> sorted_wrt (\<lambda>a b. compare_timers (time_of_timer r) a b = -1) es"

definition reactor_ok :: "'h BReactor \<Rightarrow> bool" where
  "reactor_ok r \<longleftrightarrow> (\<exists>ts es. timers_ok r ts es \<and> in_time_order r es) \<and> (\<exists>ls. limits_ok r ls) \<and> fds_ok r \<and> pending_ok (r_jobs r)"

lemma reactor_okI:
  "timers_ok r ts es \<Longrightarrow> in_time_order r es \<Longrightarrow> limits_ok r ls \<Longrightarrow> fds_ok r \<Longrightarrow> pending_ok (r_jobs r) \<Longrightarrow> reactor_ok r"
  by (auto simp: reactor_ok_def)

lemma reactor_okE:
  assumes "reactor_ok r"
  obtains ts es ls where "timers_ok r ts es" and "in_time_order r es" and "limits_ok r ls" and "fds_ok r" and "pending_ok (r_jobs r)"
  using assms by (auto simp: reactor_ok_def)

lemma in_time_order_cong: "in_time_order r es \<Longrightarrow> \<forall>t\<in>set es. time_of_timer r' t = time_of_timer r t \<Longrightarrow> in_time_order r' es"
  unfolding in_time_order_def by (rule sorted_wrt_mono_rel [rotated]) (auto simp: compare_timers_less)

lemma in_time_order_remove: "in_time_order r es \<Longrightarrow> in_time_order r (remove1 t es)"
  unfolding in_time_order_def
proof (induction es)
  case (Cons e es)
  then show ?case using notin_set_remove1 [of _ es t] by auto
qed simp

lemma in_time_order_take:
  assumes "timers_ok r ts es'"
  shows "in_time_order r (takeWhile P ts)"
proof -
  have "sorted_wrt (\<lambda>a b. compare_timers (time_of_timer r) a b = -1) (takeWhile P ts @ dropWhile P ts)"
    using timer_order.cavl_sorted [OF timers_okD(1) [OF assms]] by simp
  then show ?thesis unfolding in_time_order_def sorted_wrt_append by blast
qed

lemma in_time_order_Nil [simp]: "in_time_order r []"
  by (simp add: in_time_order_def)

lemma timers_due_order:
  assumes "timers_due r ts x r'" and "timers_ok r ts []"
  shows "in_time_order r' (takeWhile (\<lambda>t. time_of_timer r t \<le> x) ts)"
proof -
  have "time_of_timer r' = time_of_timer r" using assms(1) by (simp add: timers_due_def only_timers_def)
  then show ?thesis using in_time_order_take [OF assms(2)] by (simp add: in_time_order_def)
qed

lemma only_timers_keeps:
  assumes "only_timers r r'"
  shows "limits_ok r' ls \<longleftrightarrow> limits_ok r ls" "fds_ok r' \<longleftrightarrow> fds_ok r" "r_jobs r' = r_jobs r" "r_results r' = r_results r" "r_pos r' = r_pos r"
    "r_epoll r' = r_epoll r" "r_fds r' = r_fds r" "r_limits r' = r_limits r" "r_exiting r' = r_exiting r"
  using assms by (cases r; cases r'; simp add: only_timers_def limits_ok_def fds_ok_def)+

lemma timers_ok_other [simp]:
  "timers_ok (r\<lparr>r_results := a\<rparr>) ts es = timers_ok r ts es" "timers_ok (r\<lparr>r_pos := b\<rparr>) ts es = timers_ok r ts es"
  "timers_ok (r\<lparr>r_fds := c\<rparr>) ts es = timers_ok r ts es" "timers_ok (r\<lparr>r_limits := d\<rparr>) ts es = timers_ok r ts es"
  "timers_ok (r\<lparr>r_active_limits := e\<rparr>) ts es = timers_ok r ts es" "timers_ok (r\<lparr>r_jobs := f\<rparr>) ts es = timers_ok r ts es"
  "timers_ok (r\<lparr>r_epoll := g\<rparr>) ts es = timers_ok r ts es" "timers_ok (r\<lparr>r_exiting := h\<rparr>) ts es = timers_ok r ts es"
  "timers_ok (r\<lparr>r_exit_code := i\<rparr>) ts es = timers_ok r ts es"
  by (simp_all add: timers_ok_def timer_state_of_def)

lemma limits_ok_other [simp]:
  "limits_ok (r\<lparr>r_results := a\<rparr>) ls = limits_ok r ls" "limits_ok (r\<lparr>r_pos := b\<rparr>) ls = limits_ok r ls"
  "limits_ok (r\<lparr>r_fds := c\<rparr>) ls = limits_ok r ls" "limits_ok (r\<lparr>r_timers := d\<rparr>) ls = limits_ok r ls"
  "limits_ok (r\<lparr>r_expired := e\<rparr>) ls = limits_ok r ls" "limits_ok (r\<lparr>r_jobs := f\<rparr>) ls = limits_ok r ls"
  "limits_ok (r\<lparr>r_epoll := g\<rparr>) ls = limits_ok r ls" "limits_ok (r\<lparr>r_exiting := h\<rparr>) ls = limits_ok r ls"
  "limits_ok (r\<lparr>r_exit_code := i\<rparr>) ls = limits_ok r ls" "limits_ok (r\<lparr>r_tree := j\<rparr>) ls = limits_ok r ls"
  by (simp_all add: limits_ok_def)

lemma fds_ok_other [simp]:
  "fds_ok (r\<lparr>r_timers := d\<rparr>) = fds_ok r" "fds_ok (r\<lparr>r_expired := e\<rparr>) = fds_ok r" "fds_ok (r\<lparr>r_jobs := f\<rparr>) = fds_ok r"
  "fds_ok (r\<lparr>r_limits := g\<rparr>) = fds_ok r" "fds_ok (r\<lparr>r_active_limits := h\<rparr>) = fds_ok r" "fds_ok (r\<lparr>r_tree := i\<rparr>) = fds_ok r"
  "fds_ok (r\<lparr>r_exiting := j\<rparr>) = fds_ok r" "fds_ok (r\<lparr>r_exit_code := k\<rparr>) = fds_ok r"
  by (simp_all add: fds_ok_def)

text \<open>The end of a wait: timers that were due before it, or what the wait brought and all limits reset.\<close>

definition wait_outcome :: "'h BReactor \<Rightarrow> nat list \<Rightarrow> int \<Rightarrow> (epoll_answer \<times> int) list \<Rightarrow> 'h BReactor option \<Rightarrow> bool" where
  "wait_outcome r ts now answers w \<longleftrightarrow>
     (let r0 = r\<lparr>r_results := [], r_pos := 0\<rparr>; due = takeWhile (\<lambda>t. time_of_timer r t \<le> now) ts in
      if due \<noteq> [] then (\<exists>r'. w = Some r' \<and> timers_due r0 ts now r')
      else case w of
        None \<Rightarrow> wait_good r0 ts (map_option (time_of_timer r) (first_or ts None)) now answers None
      | Some r' \<Rightarrow> \<exists>r1 a. wait_good r0 ts (map_option (time_of_timer r) (first_or ts None)) now answers (Some r1)
                     \<and> r' = r1\<lparr>r_limits := zero_counts (r_limits r), r_active_limits := a\<rparr>)"

lemma wait_good_parts:
  assumes "wait_good r ts timeout now answers (Some r1)" and "timers_ok r ts []" and "limits_ok r ls" and "fds_ok r"
  shows "\<exists>ts' es'. timers_ok r1 ts' es' \<and> in_time_order r1 es'" "limits_ok r1 ls" "fds_ok r1" "r_jobs r1 = r_jobs r" "r_limits r1 = r_limits r"
proof -
  have "(\<exists>x. timers_due r ts x r1) \<or> (\<exists>evs. events_due r evs r1)" using assms(1) by (auto simp: wait_good_def)
  then have "(\<exists>ts' es'. timers_ok r1 ts' es' \<and> in_time_order r1 es') \<and> limits_ok r1 ls \<and> fds_ok r1 \<and> r_jobs r1 = r_jobs r \<and> r_limits r1 = r_limits r"
  proof (elim disjE exE)
    fix x assume d: "timers_due r ts x r1"
    then show ?thesis using only_timers_keeps [of r r1] assms(3,4) timers_due_order [OF d assms(2)] unfolding timers_due_def by blast
  next
    fix evs assume "events_due r evs r1"
    then have "fds_ok r1" "r1 = r\<lparr>r_results := map (\<lambda>(f, ev). (Some f, ev)) evs, r_fds := point_to 0 (map fst evs) (r_fds r)\<rparr>"
      by (auto simp: events_due_def)
    then show ?thesis using assms(2,3) in_time_order_Nil by fastforce
  qed
  then show "\<exists>ts' es'. timers_ok r1 ts' es' \<and> in_time_order r1 es'" "limits_ok r1 ls" "fds_ok r1" "r_jobs r1 = r_jobs r" "r_limits r1 = r_limits r" by blast+
qed

lemma wait_finish:
  assumes "wait_good r ts timeout now answers w" and "timers_ok r ts []" and "limits_ok r ls" and "fds_ok r" and "pending_ok (r_jobs r)"
  shows "\<exists>a. (case w of None \<Rightarrow> Some None | Some r \<Rightarrow> do { r \<leftarrow> reset_limits r; Some (Some r) })
        = Some (map_option (\<lambda>r1. r1\<lparr>r_limits := zero_counts (r_limits r), r_active_limits := a\<rparr>) w)
        \<and> (\<forall>r1. w = Some r1 \<longrightarrow> reactor_ok (r1\<lparr>r_limits := zero_counts (r_limits r), r_active_limits := a\<rparr>))"
proof (cases w)
  case (Some r1)
  note p = wait_good_parts [OF assms(1) [unfolded Some] assms(2-4)]
  obtain ts' es' where te: "timers_ok r1 ts' es'" "in_time_order r1 es'" using p(1) by blast
  obtain a where "reset_limits r1 = Some (r1\<lparr>r_limits := zero_counts (r_limits r1), r_active_limits := a\<rparr>)"
    "limits_ok (r1\<lparr>r_limits := zero_counts (r_limits r1), r_active_limits := a\<rparr>) []"
    using reset_limits_ok [OF p(2)] by blast
  moreover then have "reactor_ok (r1\<lparr>r_limits := zero_counts (r_limits r), r_active_limits := a\<rparr>)"
    using te p(3-5) assms(5) by (intro reactor_okI [of _ ts' es' "[]"]) (simp_all add: in_time_order_def)
  ultimately show ?thesis using p(5) Some by (intro exI [of _ a]) simp
qed simp

lemma wait_outcome_late:
  assumes "takeWhile (\<lambda>t. time_of_timer r t \<le> now) ts = []"
    and "wait_good (r\<lparr>r_results := [], r_pos := 0\<rparr>) ts (map_option (time_of_timer r) (first_or ts None)) now answers w"
  shows "wait_outcome r ts now answers (map_option (\<lambda>r1. r1\<lparr>r_limits := zero_counts (r_limits r), r_active_limits := a\<rparr>) w)"
proof (cases w)
  case (Some r1)
  then show ?thesis using assms unfolding wait_outcome_def Let_def by (simp del: split_paired_Ex) blast
qed (use assms in \<open>simp add: wait_outcome_def\<close>)

lemma wait_for_events_ok:
  assumes "timers_ok r ts []" and "limits_ok r ls" and "fds_ok r" and "pending_ok (r_jobs r)" and "jobs (r_jobs r) = []"
    and "r_pos r = length (r_results r)" and "answers_ok (r_epoll r) (ts \<noteq> []) answers" and "0 \<le> now"
  shows "\<exists>w. wait_for_events now answers r = Some w \<and> wait_outcome r ts now answers w \<and> (\<forall>r'. w = Some r' \<longrightarrow> reactor_ok r')"
proof -
  let ?r = "r\<lparr>r_results := [], r_pos := 0\<rparr>"
  have "\<not> fd_active fd \<or> fd_epoll_returned fd = None" if "r_fds r f = Some fd" for f fd
    using assms(3,6) that by (cases "fd_epoll_returned fd") (fastforce simp: fds_ok_def)+
  then have f0: "fds_ok ?r" using assms(3) by (auto simp: fds_ok_def)
  have t0: "timers_ok ?r ts []" and l0: "limits_ok ?r ls" and p0: "pending_ok (r_jobs ?r)" using assms(1,2,4) by simp_all
  have first: "CAvl_GetFirst (r_tree r) = Some (first_or ts None)" using timer_order.cavl_first [OF timers_okD(1) [OF assms(1)]] .
  have e: "LinkedList1_IsEmpty (r_expired r)" using IsEmpty1_iff [OF timers_okD(2) [OF assms(1)]] by simp
  have ans: "answers_ok (r_epoll ?r) (ts \<noteq> []) answers" using assms(7) by simp
  note loop = wait_loop_ok [OF t0 f0 _ _ refl ans]
  show ?thesis
  proof (cases ts)
    case Nil
    obtain w where w: "wait_loop None 0 answers ?r = Some w" "wait_good ?r ts None 0 answers w" using loop [of 0] Nil by auto
    have "wait_good ?r ts None now answers w" using w(2) Nil by (auto simp: wait_good_def split: option.splits)
    moreover obtain a where "(case w of None \<Rightarrow> Some None | Some r \<Rightarrow> do { r \<leftarrow> reset_limits r; Some (Some r) })
        = Some (map_option (\<lambda>r1. r1\<lparr>r_limits := zero_counts (r_limits r), r_active_limits := a\<rparr>) w)"
        "\<forall>r1. w = Some r1 \<longrightarrow> reactor_ok (r1\<lparr>r_limits := zero_counts (r_limits r), r_active_limits := a\<rparr>)"
      using wait_finish [OF w(2) t0 l0 f0 p0] by auto
    ultimately show ?thesis using w(1) wait_outcome_late [of r now ts answers w a] first e assms(5,6) Nil
      by (intro exI [of _ "map_option (\<lambda>r1. r1\<lparr>r_limits := zero_counts (r_limits r), r_active_limits := a\<rparr>) w"])
         (auto simp: wait_for_events_def BPendingGroup_HasJobs_def)
  next
    case (Cons t ts')
    obtain tm where tm: "r_timers r t = Some tm" "tm_state tm = TIMER_STATE_RUNNING" "tm_absTime tm = time_of_timer r t"
      using timers_okD(6) [OF assms(1), of t] Cons by auto
    obtain r1 where r1: "move_expired_timers now ?r = Some (takeWhile (\<lambda>t. time_of_timer r t \<le> now) ts \<noteq> [], r1)"
        "timers_ok r1 (dropWhile (\<lambda>t. time_of_timer r t \<le> now) ts) (takeWhile (\<lambda>t. time_of_timer r t \<le> now) ts)" "only_timers ?r r1"
      using move_expired_ok [OF t0, of now] by auto
    show ?thesis
    proof (cases "time_of_timer r t \<le> now")
      case True
      have "in_time_order r1 (takeWhile (\<lambda>t. time_of_timer r t \<le> now) ts)"
        using timers_due_order [of ?r ts now r1] r1(2,3) t0 by (simp add: timers_due_def)
      then have "reactor_ok r1" using r1(2) only_timers_keeps [OF r1(3)] l0 f0 p0 by (intro reactor_okI) auto
      then show ?thesis using r1 first e assms(5,6) tm Cons True
        by (auto simp: wait_for_events_def wait_outcome_def timers_due_def BPendingGroup_HasJobs_def)
    next
      case False
      have "move_expired_timers now ?r = Some (False, ?r)"
        unfolding move_expired_timers.simps [of now ?r] using first tm Cons False by simp
      moreover obtain w where "wait_loop (Some (time_of_timer r t)) now answers ?r = Some w" and w: "wait_good ?r ts (Some (time_of_timer r t)) now answers w"
        using loop [of now] Cons False assms(8) by auto
      moreover obtain a where "(case w of None \<Rightarrow> Some None | Some r \<Rightarrow> do { r \<leftarrow> reset_limits r; Some (Some r) })
          = Some (map_option (\<lambda>r1. r1\<lparr>r_limits := zero_counts (r_limits r), r_active_limits := a\<rparr>) w)"
          "\<forall>r1. w = Some r1 \<longrightarrow> reactor_ok (r1\<lparr>r_limits := zero_counts (r_limits r), r_active_limits := a\<rparr>)"
        using wait_finish [OF w t0 l0 f0 p0] by auto
      ultimately show ?thesis using w wait_outcome_late [of r now ts answers w a] first e assms(5,6) tm Cons False
        by (intro exI [of _ "map_option (\<lambda>r1. r1\<lparr>r_limits := zero_counts (r_limits r), r_active_limits := a\<rparr>) w"])
           (auto simp: wait_for_events_def BPendingGroup_HasJobs_def)
    qed
  qed
qed


subsection \<open>Runs of the reactor\<close>

text \<open>
  The operations that handlers call, and iterations of the loop. Objects are initialised when they are not in use, and operated on when they are; a job is as in \<open>Pending\<close>.
\<close>

datatype 'h reactor_event =
    EvTimerInit nat bool | EvSetTimer nat timer_mode int int | EvRemoveTimer nat
  | EvLimitInit nat int | EvLimitFree nat | EvLimitIncrement nat | EvLimitSet nat int
  | EvFdInit nat | EvFdAdd bool nat | EvFdRemove nat | EvFdEvents nat "fd_event set"
  | EvJobInit job 'h | EvJobFree job | EvJobSet job | EvJobUnset job
  | EvQuit int | EvIterate int "(epoll_answer \<times> int) list"

definition fd_is_active :: "'h BReactor \<Rightarrow> nat \<Rightarrow> bool" where
  "fd_is_active r f = (case r_fds r f of Some fd \<Rightarrow> fd_active fd | None \<Rightarrow> False)"

fun reactor_allowed :: "'h BReactor \<Rightarrow> 'h reactor_event \<Rightarrow> bool" where
  "reactor_allowed r (EvTimerInit t small) = (timer_state_of r t \<notin> {Some TIMER_STATE_RUNNING, Some TIMER_STATE_EXPIRED})"
| "reactor_allowed r (EvSetTimer t mode time now) = (r_timers r t \<noteq> None \<and> is_int64 time \<and> is_int64 now)"
| "reactor_allowed r (EvRemoveTimer t) = (r_timers r t \<noteq> None)"
| "reactor_allowed r (EvLimitInit l n) = (r_limits r l = None \<and> 0 < n)"
| "reactor_allowed r (EvLimitFree l) = (r_limits r l \<noteq> None)"
| "reactor_allowed r (EvLimitIncrement l) = (r_limits r l \<noteq> None)"
| "reactor_allowed r (EvLimitSet l n) = (r_limits r l \<noteq> None \<and> 0 < n)"
| "reactor_allowed r (EvFdInit f) = (\<not> fd_is_active r f)"
| "reactor_allowed r (EvFdAdd ok f) = (r_fds r f \<noteq> None \<and> \<not> fd_is_active r f)"
| "reactor_allowed r (EvFdRemove f) = fd_is_active r f"
| "reactor_allowed r (EvFdEvents f events) = (fd_is_active r f \<and> events \<subseteq> {BREACTOR_READ, BREACTOR_WRITE})"
| "reactor_allowed r (EvJobInit p h) = (handler (r_jobs r) p = None)"
| "reactor_allowed r (EvJobFree p) = (handler (r_jobs r) p \<noteq> None)"
| "reactor_allowed r (EvJobSet p) = (handler (r_jobs r) p \<noteq> None)"
| "reactor_allowed r (EvJobUnset p) = (handler (r_jobs r) p \<noteq> None)"
| "reactor_allowed r (EvQuit code) = True"
| "reactor_allowed r (EvIterate now answers) =
     (\<not> r_exiting r \<and> 0 \<le> now \<and> is_int64 now \<and> answers_ok (r_epoll r) (\<exists>t. timer_state_of r t = Some TIMER_STATE_RUNNING) answers)"

fun reactor_handle :: "'h BReactor \<Rightarrow> 'h reactor_event \<Rightarrow> ('h BReactor \<times> 'h dispatch option) option" where
  "reactor_handle r (EvTimerInit t small) = Some (BSmallTimer_Init t small r, None)"
| "reactor_handle r (EvSetTimer t mode time now) = map_option (\<lambda>r. (r, None)) (BReactor_SetSmallTimer t mode time now r)"
| "reactor_handle r (EvRemoveTimer t) = map_option (\<lambda>r. (r, None)) (BReactor_RemoveSmallTimer t r)"
| "reactor_handle r (EvLimitInit l n) = map_option (\<lambda>r. (r, None)) (BReactorLimit_Init l n r)"
| "reactor_handle r (EvLimitFree l) = map_option (\<lambda>r. (r, None)) (BReactorLimit_Free l r)"
| "reactor_handle r (EvLimitIncrement l) = map_option (\<lambda>(_, r). (r, None)) (BReactorLimit_Increment l r)"
| "reactor_handle r (EvLimitSet l n) = map_option (\<lambda>r. (r, None)) (BReactorLimit_SetLimit l n r)"
| "reactor_handle r (EvFdInit f) = Some (BFileDescriptor_Init f r, None)"
| "reactor_handle r (EvFdAdd ok f) = map_option (\<lambda>(_, r). (r, None)) (BReactor_AddFileDescriptor ok f r)"
| "reactor_handle r (EvFdRemove f) = map_option (\<lambda>r. (r, None)) (BReactor_RemoveFileDescriptor f r)"
| "reactor_handle r (EvFdEvents f events) = map_option (\<lambda>r. (r, None)) (BReactor_SetFileDescriptorEvents f events r)"
| "reactor_handle r (EvJobInit p h) = Some (r\<lparr>r_jobs := BSmallPending_Init p h (r_jobs r)\<rparr>, None)"
| "reactor_handle r (EvJobFree p) = Some (r\<lparr>r_jobs := BSmallPending_Free p (r_jobs r)\<rparr>, None)"
| "reactor_handle r (EvJobSet p) = Some (r\<lparr>r_jobs := BSmallPending_Set p (r_jobs r)\<rparr>, None)"
| "reactor_handle r (EvJobUnset p) = Some (r\<lparr>r_jobs := BSmallPending_Unset p (r_jobs r)\<rparr>, None)"
| "reactor_handle r (EvQuit code) = Some (BReactor_Quit code r, None)"
| "reactor_handle r (EvIterate now answers) = map_option (\<lambda>(d, r). (r, Some d)) (BReactor_Exec_iteration now answers r)"

definition reactor_step :: "'h BReactor \<Rightarrow> 'h reactor_event \<times> 'h dispatch option \<Rightarrow> 'h BReactor \<Rightarrow> bool" where
  "reactor_step r l r' \<longleftrightarrow> reactor_allowed r (fst l) \<and> reactor_handle r (fst l) = Some (r', snd l)"

text \<open>What an iteration does, in a state of the invariant with the running timers \<open>ts\<close> and the expired ones \<open>es\<close>.\<close>

definition iteration_outcome :: "'h BReactor \<Rightarrow> nat list \<Rightarrow> nat list \<Rightarrow> int \<Rightarrow> (epoll_answer \<times> int) list \<Rightarrow> 'h dispatch \<Rightarrow> 'h BReactor \<Rightarrow> bool" where
  "iteration_outcome r ts es now answers d r' \<longleftrightarrow>
     (case jobs (r_jobs r) of
        p # ps \<Rightarrow> \<exists>h. handler (r_jobs r) p = Some h \<and> d = RunJob h \<and> r' = r\<lparr>r_jobs := (r_jobs r)\<lparr>jobs := ps\<rparr>\<rparr>
      | [] \<Rightarrow> case es of
          t # es' \<Rightarrow> d = RunTimer t \<and> only_timers r r' \<and> timers_ok r' ts es' \<and> timer_state_of r' = (timer_state_of r)(t \<mapsto> TIMER_STATE_INACTIVE)
        | [] \<Rightarrow>
            if r_pos r < length (r_results r)
            then r' = r\<lparr>r_pos := Suc (r_pos r), r_fds := r_fds r'\<rparr>
               \<and> (case r_results r ! r_pos r of
                    (None, _) \<Rightarrow> d = Skipped
                  | (Some f, ev) \<Rightarrow> \<exists>fd. r_fds r f = Some fd \<and> fd_active fd \<and>
                      (let events = reported_events fd ev in d = (if events = {} then Skipped else RunFd f events)))
            else (case d of Waiting \<Rightarrow> r' = r \<and> wait_outcome r ts now answers None
                  | Waited \<Rightarrow> wait_outcome r ts now answers (Some r') | _ \<Rightarrow> False))"

lemma fds_okD:
  assumes "fds_ok r"
  shows "r_fds r f = Some fd \<Longrightarrow> fd_active fd \<Longrightarrow> fd_epoll_returned fd = Some i \<Longrightarrow>
      r_pos r \<le> i \<and> i < length (r_results r) \<and> fst (r_results r ! i) = Some f"
    "r_pos r \<le> i \<Longrightarrow> i < length (r_results r) \<Longrightarrow> fst (r_results r ! i) = Some f \<Longrightarrow>
      \<exists>fd. r_fds r f = Some fd \<and> fd_active fd \<and> fd_epoll_returned fd = Some i"
  using assms unfolding fds_ok_def by blast+

lemma fd_dispatch_ok:
  assumes "fds_ok r" and "r_pos r < length (r_results r)" and "r_results r ! r_pos r = (Some f, ev)"
  obtains fd where "r_fds r f = Some fd" and "fd_active fd" and "fd_epoll_returned fd = Some (r_pos r)"
    and "fds_ok (r\<lparr>r_pos := Suc (r_pos r), r_fds := (r_fds r)(f \<mapsto> fd\<lparr>fd_epoll_returned := None\<rparr>)\<rparr>)"
proof -
  obtain fd where fd: "r_fds r f = Some fd" "fd_active fd" "fd_epoll_returned fd = Some (r_pos r)"
    using fds_okD(2) [OF assms(1), of "r_pos r" f] assms(2,3) by auto
  have later: "Suc (r_pos r) \<le> i" if "r_fds r g = Some gd" "fd_active gd" "fd_epoll_returned gd = Some i" "g \<noteq> f" for g gd i
    using fds_okD(1) [OF assms(1) that(1-3)] that(4) assms(3) by (cases "i = r_pos r") auto
  have "g \<noteq> f" if "Suc (r_pos r) \<le> i" "i < length (r_results r)" "fst (r_results r ! i) = Some g" for i g
    using fds_okD(2) [OF assms(1), of i g] fd that by auto
  then have "fds_ok (r\<lparr>r_pos := Suc (r_pos r), r_fds := (r_fds r)(f \<mapsto> fd\<lparr>fd_epoll_returned := None\<rparr>)\<rparr>)"
    using assms(1,2) fd later unfolding fds_ok_def by (simp add: Suc_le_eq)
  with fd that show ?thesis by blast
qed

lemma fd_skip_ok:
  assumes "fds_ok r" and "r_pos r < length (r_results r)" and "r_results r ! r_pos r = (None, ev)"
  shows "fds_ok (r\<lparr>r_pos := Suc (r_pos r)\<rparr>)"
proof -
  have later: "Suc (r_pos r) \<le> i" if "r_fds r g = Some gd" "fd_active gd" "fd_epoll_returned gd = Some i" for g gd i
    using fds_okD(1) [OF assms(1) that] assms(3) by (cases "i = r_pos r") auto
  then show ?thesis using assms(1,2) unfolding fds_ok_def by (simp add: Suc_le_eq)
qed


lemma timers_ok_pop:
  assumes "timers_ok r ts (t # es)"
  defines "r' \<equiv> r\<lparr>r_expired := LinkedList1_Remove t (r_expired r), r_timers := set_timer_state t TIMER_STATE_INACTIVE (r_timers r)\<rparr>"
  shows "timers_ok r' ts es" "only_timers r r'" "timer_state_of r' = (timer_state_of r)(t \<mapsto> TIMER_STATE_INACTIVE)"
proof -
  note d = timers_okD [OF assms(1)]
  obtain tm where tm: "r_timers r t = Some tm" using d(7) [of t] by auto
  show st: "timer_state_of r' = (timer_state_of r)(t \<mapsto> TIMER_STATE_INACTIVE)"
    by (rule ext) (simp add: r'_def timer_state_of_def set_timer_state_def tm)
  have "rep1 (LinkedList1_Remove t (r_expired r)) es" using Remove1_member [OF d(2), of t] by simp
  then show "timers_ok r' ts es" using assms(1) d(4,5) st by (auto simp: timers_ok_def r'_def)
  show "only_timers r r'" by (simp add: r'_def only_timers_def)
qed

lemma iteration_ok:
  assumes "timers_ok r ts es" and "in_time_order r es" and "limits_ok r ls" and "fds_ok r" and "pending_ok (r_jobs r)"
    and "reactor_allowed r (EvIterate now answers)"
  shows "\<exists>d r'. BReactor_Exec_iteration now answers r = Some (d, r') \<and> iteration_outcome r ts es now answers d r' \<and> reactor_ok r'"
proof (cases "jobs (r_jobs r)")
  case (Cons p ps)
  obtain h where h: "handler (r_jobs r) p = Some h" "BPendingGroup_ExecuteJob (r_jobs r) = Some (h, (r_jobs r)\<lparr>jobs := ps\<rparr>)"
      "pending_ok ((r_jobs r)\<lparr>jobs := ps\<rparr>)"
    by (rule pending_ok_Execute [OF assms(5) Cons])
  moreover then have "reactor_ok (r\<lparr>r_jobs := (r_jobs r)\<lparr>jobs := ps\<rparr>\<rparr>)"
    using assms(1-4) by (intro reactor_okI [of _ ts es ls]) (simp_all add: in_time_order_def)
  ultimately show ?thesis using Cons by (simp add: BReactor_Exec_iteration_def BPendingGroup_HasJobs_def iteration_outcome_def)
next
  case Nil
  have first: "LinkedList1_GetFirst (r_expired r) = first_or es None" using list1.first_ok [OF timers_okD(2) [OF assms(1)]] .
  show ?thesis
  proof (cases es)
    case (Cons t es')
    obtain tm where tm: "r_timers r t = Some tm" "tm_state tm = TIMER_STATE_EXPIRED" using timers_okD(7) [OF assms(1), of t] Cons by auto
    note p = timers_ok_pop [OF assms(1) [unfolded Cons]]
    let ?r = "r\<lparr>r_expired := LinkedList1_Remove t (r_expired r), r_timers := set_timer_state t TIMER_STATE_INACTIVE (r_timers r)\<rparr>"
    have "in_time_order ?r es'" using assms(2) Cons by (simp add: in_time_order_def)
    then have "reactor_ok ?r" using p(1) assms(3-5) by (intro reactor_okI [of _ ts es' ls]) simp_all
    then show ?thesis using Nil Cons first tm p
      by (simp add: BReactor_Exec_iteration_def BPendingGroup_HasJobs_def iteration_outcome_def)
  next
    case es: Nil
    show ?thesis
    proof (cases "r_pos r < length (r_results r)")
      case True
      obtain q ev where q: "r_results r ! r_pos r = (q, ev)" by (cases "r_results r ! r_pos r")
      show ?thesis
      proof (cases q)
        case None
        have "reactor_ok (r\<lparr>r_pos := Suc (r_pos r)\<rparr>)" using fd_skip_ok [OF assms(4) True] q None assms(1,3,5) es
          by (intro reactor_okI [of _ ts es ls]) simp_all
        then show ?thesis using Nil es first True q None
          by (simp add: BReactor_Exec_iteration_def BPendingGroup_HasJobs_def iteration_outcome_def)
      next
        case (Some f)
        obtain fd where fd: "r_fds r f = Some fd" "fd_active fd" "fd_epoll_returned fd = Some (r_pos r)"
            "fds_ok (r\<lparr>r_pos := Suc (r_pos r), r_fds := (r_fds r)(f \<mapsto> fd\<lparr>fd_epoll_returned := None\<rparr>)\<rparr>)"
          by (rule fd_dispatch_ok [OF assms(4) True q [unfolded Some]])
        then have "reactor_ok (r\<lparr>r_pos := Suc (r_pos r), r_fds := (r_fds r)(f \<mapsto> fd\<lparr>fd_epoll_returned := None\<rparr>)\<rparr>)"
          using assms(1,3,5) es by (intro reactor_okI [of _ ts es ls]) simp_all
        then show ?thesis using Nil es first True q Some fd
          by (auto simp: BReactor_Exec_iteration_def BPendingGroup_HasJobs_def iteration_outcome_def Let_def)
      qed
    next
      case False
      then have pos: "r_pos r = length (r_results r)" using assms(4) by (auto simp: fds_ok_def)
      have "(\<exists>t. timer_state_of r t = Some TIMER_STATE_RUNNING) \<longleftrightarrow> ts \<noteq> []"
        using assms(1) last_in_set [of ts] by (auto simp: timers_ok_def)
      then obtain w where w: "wait_for_events now answers r = Some w" "wait_outcome r ts now answers w" "\<forall>r'. w = Some r' \<longrightarrow> reactor_ok r'"
        using wait_for_events_ok [OF assms(1) [unfolded es] assms(3-5) Nil pos, of answers now] assms(6) by auto
      have "reactor_ok r" using assms(1-5) by (rule reactor_okI)
      then show ?thesis using Nil es first False w
        by (cases w) (auto simp: BReactor_Exec_iteration_def BPendingGroup_HasJobs_def iteration_outcome_def)
    qed
  qed
qed


lemma timers_ok_Init:
  assumes "timers_ok r ts es" and "timer_state_of r t \<notin> {Some TIMER_STATE_RUNNING, Some TIMER_STATE_EXPIRED}"
  shows "timers_ok (BSmallTimer_Init t small r) ts es" "time_of_timer (BSmallTimer_Init t small r) = time_of_timer r"
    "timer_state_of (BSmallTimer_Init t small r) = (timer_state_of r)(t \<mapsto> TIMER_STATE_INACTIVE)"
proof -
  show time: "time_of_timer (BSmallTimer_Init t small r) = time_of_timer r"
    by (rule ext) (simp add: BSmallTimer_Init_def timer_time_def)
  show st: "timer_state_of (BSmallTimer_Init t small r) = (timer_state_of r)(t \<mapsto> TIMER_STATE_INACTIVE)"
    by (rule ext) (simp add: BSmallTimer_Init_def timer_state_of_def)
  have "r_tree (BSmallTimer_Init t small r) = r_tree r" "r_expired (BSmallTimer_Init t small r) = r_expired r"
    by (simp_all add: BSmallTimer_Init_def)
  then show "timers_ok (BSmallTimer_Init t small r) ts es" using assms by (auto simp: timers_ok_def time st)
qed

lemma reactor_jobs_ok: "reactor_ok r \<Longrightarrow> pending_ok g \<Longrightarrow> reactor_ok (r\<lparr>r_jobs := g\<rparr>)"
proof -
  assume "reactor_ok r" "pending_ok g"
  then show ?thesis by (elim reactor_okE, intro reactor_okI) (simp_all add: in_time_order_def)
qed

lemma reactor_fds_ok:
  assumes "reactor_ok r" and "fds_ok r'" and "r' = r\<lparr>r_fds := r_fds r', r_epoll := r_epoll r', r_results := r_results r'\<rparr>"
  shows "reactor_ok r'"
proof -
  obtain ts es ls where a: "timers_ok r ts es" "in_time_order r es" "limits_ok r ls" "pending_ok (r_jobs r)" by (rule reactor_okE [OF assms(1)])
  have "timers_ok r' ts es" "in_time_order r' es" "limits_ok r' ls" "pending_ok (r_jobs r')"
    by (subst assms(3); use a in \<open>simp add: in_time_order_def\<close>)+
  then show ?thesis using assms(2) by (intro reactor_okI)
qed

lemma reactor_limits_ok:
  assumes "reactor_ok r" and "limits_ok r' ls'" and "r' = r\<lparr>r_limits := r_limits r', r_active_limits := r_active_limits r'\<rparr>"
  shows "reactor_ok r'"
proof -
  obtain ts es ls where a: "timers_ok r ts es" "in_time_order r es" "fds_ok r" "pending_ok (r_jobs r)" by (rule reactor_okE [OF assms(1)])
  have "timers_ok r' ts es" "in_time_order r' es" "fds_ok r'" "pending_ok (r_jobs r')"
    by (subst assms(3); use a in \<open>simp add: in_time_order_def\<close>)+
  then show ?thesis using assms(2) by (intro reactor_okI)
qed

lemma reactor_timers_ok:
  assumes "reactor_ok r" and "timers_ok r' ts es" and "in_time_order r' es"
    and "r' = r\<lparr>r_tree := r_tree r', r_expired := r_expired r', r_timers := r_timers r'\<rparr>"
  shows "reactor_ok r'"
proof -
  obtain ls where a: "limits_ok r ls" "fds_ok r" "pending_ok (r_jobs r)" by (rule reactor_okE [OF assms(1)])
  have "limits_ok r' ls" "fds_ok r'" "pending_ok (r_jobs r')" by (subst assms(4); use a in simp)+
  then show ?thesis using assms(2,3) by (intro reactor_okI)
qed

lemma reactor_timer_events:
  assumes "reactor_ok r"
  shows "reactor_allowed r (EvTimerInit t small) \<Longrightarrow> reactor_ok (BSmallTimer_Init t small r)"
    "reactor_allowed r (EvSetTimer t mode time now) \<Longrightarrow> \<exists>r'. BReactor_SetSmallTimer t mode time now r = Some r' \<and> reactor_ok r'"
    "reactor_allowed r (EvRemoveTimer t) \<Longrightarrow> \<exists>r'. BReactor_RemoveSmallTimer t r = Some r' \<and> reactor_ok r'"
proof -
  obtain ts es where ok: "timers_ok r ts es" "in_time_order r es" by (rule reactor_okE [OF assms])
  show "reactor_ok (BSmallTimer_Init t small r)" if "reactor_allowed r (EvTimerInit t small)"
    using timers_ok_Init [OF ok(1), of t small] that ok(2)
    by (intro reactor_timers_ok [OF assms, of _ ts es]) (auto simp: in_time_order_def BSmallTimer_Init_def [of t small r])
  show "\<exists>r'. BReactor_SetSmallTimer t mode time now r = Some r' \<and> reactor_ok r'" if a: "reactor_allowed r (EvSetTimer t mode time now)"
  proof -
    obtain r' where r': "BReactor_SetSmallTimer t mode time now r = Some r'"
        "timers_ok r' (insert_by (compare_timers (time_of_timer r')) t (remove1 t ts)) (remove1 t es)"
        "time_of_timer r' = (time_of_timer r)(t := if mode = BTIMER_SET_RELATIVE then max INT64_MIN (min INT64_MAX (now + time)) else time)"
        "r' = r\<lparr>r_tree := r_tree r', r_expired := r_expired r', r_timers := r_timers r'\<rparr>"
      using a by (auto intro: SetSmallTimer_ok [OF ok(1), of t time now _ mode])
    have "in_time_order r' (remove1 t es)"
      by (rule in_time_order_cong [OF in_time_order_remove [OF ok(2)]]) (use timers_okD(4) [OF ok(1)] r'(3) in auto)
    then show ?thesis using reactor_timers_ok [OF assms r'(2) _ r'(4)] r'(1) by simp
  qed
  show "\<exists>r'. BReactor_RemoveSmallTimer t r = Some r' \<and> reactor_ok r'" if a: "reactor_allowed r (EvRemoveTimer t)"
  proof -
    obtain r' where r': "BReactor_RemoveSmallTimer t r = Some r'" "timers_ok r' (remove1 t ts) (remove1 t es)" "only_timers r r'"
      using a RemoveSmallTimer_ok [OF ok(1), of t] by auto
    then have "in_time_order r' (remove1 t es)" using in_time_order_remove [OF ok(2)] by (simp add: only_timers_def in_time_order_def)
    then show ?thesis using reactor_timers_ok [OF assms r'(2)] r'(1,3) by (simp add: only_timers_def)
  qed
qed

lemma reactor_limit_events:
  assumes "reactor_ok r"
  shows "reactor_allowed r (EvLimitInit l n) \<Longrightarrow> \<exists>r'. BReactorLimit_Init l n r = Some r' \<and> reactor_ok r'"
    "reactor_allowed r (EvLimitFree l) \<Longrightarrow> \<exists>r'. BReactorLimit_Free l r = Some r' \<and> reactor_ok r'"
    "reactor_allowed r (EvLimitIncrement l) \<Longrightarrow> \<exists>b r'. BReactorLimit_Increment l r = Some (b, r') \<and> reactor_ok r'"
    "reactor_allowed r (EvLimitSet l n) \<Longrightarrow> \<exists>r'. BReactorLimit_SetLimit l n r = Some r' \<and> reactor_ok r'"
proof -
  obtain ls where ok: "limits_ok r ls" by (rule reactor_okE [OF assms])
  note fin = reactor_limits_ok [OF assms]
  show "\<exists>r'. BReactorLimit_Init l n r = Some r' \<and> reactor_ok r'" if "reactor_allowed r (EvLimitInit l n)"
    using LimitInit_ok [OF ok, of l n] that fin by (fastforce simp: BReactorLimit_Init_def)
  show "\<exists>r'. BReactorLimit_Free l r = Some r' \<and> reactor_ok r'" if "reactor_allowed r (EvLimitFree l)"
    using LimitFree_ok [OF ok, of l] that fin by (fastforce simp: BReactorLimit_Free_def Let_def)
  show "\<exists>b r'. BReactorLimit_Increment l r = Some (b, r') \<and> reactor_ok r'" if "reactor_allowed r (EvLimitIncrement l)"
    using that LimitIncrement_ok [OF ok, of l] fin by (metis not_None_eq reactor_allowed.simps(6))
  show "\<exists>r'. BReactorLimit_SetLimit l n r = Some r' \<and> reactor_ok r'" if "reactor_allowed r (EvLimitSet l n)"
    using LimitSet_ok [OF ok, of l] that fin by (fastforce simp: BReactorLimit_SetLimit_def)
qed

lemma fd_is_active_iff: "fd_is_active r f \<longleftrightarrow> (\<exists>fd. r_fds r f = Some fd \<and> fd_active fd)"
  by (auto simp: fd_is_active_def split: option.splits)

lemma FdInit_ok:
  assumes "fds_ok r" and "\<not> fd_is_active r f"
  shows "fds_ok (BFileDescriptor_Init f r)"
proof -
  have "g \<noteq> f" if "r_pos r \<le> i" "i < length (r_results r)" "fst (r_results r ! i) = Some g" for i g
    using fds_okD(2) [OF assms(1) that] assms(2) by (auto simp: fd_is_active_iff)
  moreover have "r_epoll r f = None" using assms by (auto simp: fds_ok_def fd_is_active_def split: option.splits)
  ultimately show ?thesis using assms(1) unfolding fds_ok_def BFileDescriptor_Init_def by simp
qed

lemma reactor_fd_events:
  assumes "reactor_ok r"
  shows "reactor_allowed r (EvFdInit f) \<Longrightarrow> reactor_ok (BFileDescriptor_Init f r)"
    "reactor_allowed r (EvFdAdd ok f) \<Longrightarrow> \<exists>b r'. BReactor_AddFileDescriptor ok f r = Some (b, r') \<and> reactor_ok r'"
    "reactor_allowed r (EvFdRemove f) \<Longrightarrow> \<exists>r'. BReactor_RemoveFileDescriptor f r = Some r' \<and> reactor_ok r'"
    "reactor_allowed r (EvFdEvents f events) \<Longrightarrow> \<exists>r'. BReactor_SetFileDescriptorEvents f events r = Some r' \<and> reactor_ok r'"
proof -
  have fds: "fds_ok r" by (rule reactor_okE [OF assms])
  note fin = reactor_fds_ok [OF assms]
  show "reactor_ok (BFileDescriptor_Init f r)" if "reactor_allowed r (EvFdInit f)"
    using FdInit_ok [OF fds, of f] that by (intro fin) (simp_all add: BFileDescriptor_Init_def)
  show "\<exists>b r'. BReactor_AddFileDescriptor ok f r = Some (b, r') \<and> reactor_ok r'" if "reactor_allowed r (EvFdAdd ok f)"
    using AddFd_ok [OF fds, of f _ ok] that fin by (fastforce simp: BReactor_AddFileDescriptor_def fd_is_active_iff split: if_splits)
  show "\<exists>r'. BReactor_RemoveFileDescriptor f r = Some r' \<and> reactor_ok r'" if "reactor_allowed r (EvFdRemove f)"
    using RemoveFd_ok [OF fds, of f] that fin
    by (fastforce simp: BReactor_RemoveFileDescriptor_def fd_is_active_iff Let_def ASSERT_bind split: if_splits option.splits)
  show "\<exists>r'. BReactor_SetFileDescriptorEvents f events r = Some r' \<and> reactor_ok r'" if "reactor_allowed r (EvFdEvents f events)"
    using SetFdEvents_ok [OF fds, of f _ events] that fin
    by (fastforce simp: BReactor_SetFileDescriptorEvents_def fd_is_active_iff ASSERT_bind split: if_splits)
qed


lemma reactor_handle_ok:
  assumes "reactor_ok r" and "reactor_allowed r e"
  shows "\<exists>r' d. reactor_handle r e = Some (r', d) \<and> reactor_ok r'"
proof -
  note events = reactor_timer_events [OF assms(1)] reactor_limit_events [OF assms(1)] reactor_fd_events [OF assms(1)]
  obtain ts es ls where ok: "timers_ok r ts es" "in_time_order r es" "limits_ok r ls" "fds_ok r" "pending_ok (r_jobs r)"
    by (rule reactor_okE [OF assms(1)])
  show ?thesis
  proof (cases e)
    case (EvIterate now answers)
    then show ?thesis using iteration_ok [OF ok, of now answers] assms(2) by auto
  next
    case (EvQuit code)
    have "reactor_ok (BReactor_Quit code r)" using ok by (intro reactor_okI [of _ ts es ls]) (simp_all add: BReactor_Quit_def in_time_order_def)
    then show ?thesis using EvQuit by simp
  next
    case (EvTimerInit t small)
    then show ?thesis using events(1) [of t small] assms(2) by (auto simp del: split_paired_Ex)
  next
    case (EvSetTimer t mode time now)
    then show ?thesis using events(2) [of t mode time now] assms(2) by (auto simp del: split_paired_Ex)
  next
    case (EvRemoveTimer t)
    then show ?thesis using events(3) [of t] assms(2) by (auto simp del: split_paired_Ex)
  next
    case (EvLimitInit l n)
    then show ?thesis using events(4) [of l n] assms(2) by (auto simp del: split_paired_Ex)
  next
    case (EvLimitFree l)
    then show ?thesis using events(5) [of l] assms(2) by (auto simp del: split_paired_Ex)
  next
    case (EvLimitIncrement l)
    then show ?thesis using events(6) [of l] assms(2) by (auto simp del: split_paired_Ex)
  next
    case (EvLimitSet l n)
    then show ?thesis using events(7) [of l n] assms(2) by (auto simp del: split_paired_Ex)
  next
    case (EvFdInit f)
    then show ?thesis using events(8) [of f] assms(2) by (auto simp del: split_paired_Ex)
  next
    case (EvFdAdd b f)
    then show ?thesis using events(9) [of b f] assms(2) by (auto simp del: split_paired_Ex)
  next
    case (EvFdRemove f)
    then show ?thesis using events(10) [of f] assms(2) by (auto simp del: split_paired_Ex)
  next
    case (EvFdEvents f ev)
    then show ?thesis using events(11) [of f ev] assms(2) by (auto simp del: split_paired_Ex)
  next
    case (EvJobInit p h)
    then show ?thesis using reactor_jobs_ok [OF assms(1) pending_ok_handler(1) [OF ok(5)]] assms(2) by (auto simp del: split_paired_Ex)
  next
    case (EvJobFree p)
    then show ?thesis using reactor_jobs_ok [OF assms(1) pending_ok_Free [OF ok(5)]] assms(2) by (auto simp del: split_paired_Ex)
  next
    case (EvJobSet p)
    then show ?thesis using reactor_jobs_ok [OF assms(1), of "BSmallPending_Set p (r_jobs r)"] ok(5) assms(2) by (auto simp del: split_paired_Ex)
  next
    case (EvJobUnset p)
    then show ?thesis using reactor_jobs_ok [OF assms(1) pending_ok_Unset [OF ok(5)]] assms(2) by (auto simp del: split_paired_Ex)
  qed
qed

interpretation rct: event_system reactor_ok reactor_allowed reactor_handle reactor_step
  by unfold_locales (use reactor_handle_ok in \<open>auto simp: reactor_step_def\<close>)

lemma reactor_ok_Init: "BReactor_Init True m0 l0 a0 = Some r \<Longrightarrow> reactor_ok r"
  by (auto simp: BReactor_Init_def timers_ok_def limits_ok_def fds_ok_def timer_state_of_def timer_time_def is_int64_def
      cavl_list_Init rep1_empty pending_ok_Init intro!: reactor_okI [of _ "[]" "[]" "[]"])

end
