(* ===== verification/ReactorRuns.thy ===== *)
theory ReactorRuns
  imports Reactor
begin

section \<open>Runs of the reactor\<close>

text \<open>
  What the event loop of \<open>Reactor\<close> does over time: the life of a timer from being set to being dispatched, the order in
  which an iteration chooses what to dispatch, and what the iterations after a wait dispatch.
\<close>

subsection \<open>The life of a timer\<close>

lemma takeWhile_times:
  assumes "timers_ok r ts es"
  shows "set (takeWhile (\<lambda>t. time_of_timer r t \<le> x) ts) = {t \<in> set ts. time_of_timer r t \<le> x}"
proof -
  have "sorted_wrt (\<lambda>a b. time_of_timer r a \<le> time_of_timer r b) ts" using timer_times_sorted [OF timers_okD(1) [OF assms]] .
  then show ?thesis by (induction ts) auto
qed

lemma timers_due_states:
  assumes "timers_ok r ts []" and "timers_due r ts x r'"
  shows "timer_state_of r' t = (if timer_state_of r t = Some TIMER_STATE_RUNNING \<and> time_of_timer r t \<le> x
                                then Some TIMER_STATE_EXPIRED else timer_state_of r t)"
proof -
  let ?P = "\<lambda>t. time_of_timer r t \<le> x"
  have ok: "timers_ok r' (dropWhile ?P ts) (takeWhile ?P ts)" and only: "only_timers r r'" using assms(2) by (auto simp: timers_due_def)
  have run: "t \<in> set ts \<longleftrightarrow> timer_state_of r t = Some TIMER_STATE_RUNNING" "timer_state_of r t \<noteq> Some TIMER_STATE_EXPIRED"
    using assms(1) by (auto simp: timers_ok_def)
  have run': "t \<in> set (dropWhile ?P ts) \<longleftrightarrow> timer_state_of r' t = Some TIMER_STATE_RUNNING"
    "t \<in> set (takeWhile ?P ts) \<longleftrightarrow> timer_state_of r' t = Some TIMER_STATE_EXPIRED" using ok by (auto simp: timers_ok_def)
  have split: "t \<in> set ts \<longleftrightarrow> t \<in> set (takeWhile ?P ts) \<or> t \<in> set (dropWhile ?P ts)"
    by (metis Un_iff set_append takeWhile_dropWhile_id)
  have "t \<in> dom (r_timers r') \<longleftrightarrow> t \<in> dom (r_timers r)" using only by (simp add: only_timers_def)
  then have dom: "timer_state_of r' t = None \<longleftrightarrow> timer_state_of r t = None" by (auto simp: timer_state_of_def)
  have three: "s = Some TIMER_STATE_INACTIVE \<or> s = Some TIMER_STATE_RUNNING \<or> s = Some TIMER_STATE_EXPIRED \<or> s = None" for s
  proof (cases s)
    case (Some a)
    then show ?thesis by (cases a) auto
  qed simp
  have tw: "t \<in> set (takeWhile ?P ts) \<longleftrightarrow> t \<in> set ts \<and> ?P t" using takeWhile_times [OF assms(1), of x] by auto
  show ?thesis
  proof (cases "t \<in> set ts")
    case True
    then have r: "timer_state_of r t = Some TIMER_STATE_RUNNING" using run(1) by blast
    show ?thesis
    proof (cases "?P t")
      case P: True
      then have "timer_state_of r' t = Some TIMER_STATE_EXPIRED" using run'(2) tw True by blast
      then show ?thesis using r P by simp
    next
      case P: False
      then have "timer_state_of r' t = Some TIMER_STATE_RUNNING" using run'(1) tw True split by blast
      then show ?thesis using r P by simp
    qed
  next
    case False
    then have "timer_state_of r' t \<noteq> Some TIMER_STATE_RUNNING" "timer_state_of r' t \<noteq> Some TIMER_STATE_EXPIRED" "timer_state_of r t \<noteq> Some TIMER_STATE_RUNNING"
      using run run' split by blast+
    then have "timer_state_of r' t = timer_state_of r t" using three [of "timer_state_of r t"] three [of "timer_state_of r' t"] run(2) dom by metis
    then show ?thesis using False run(1) by simp
  qed
qed

definition wait_moves :: "'h BReactor \<Rightarrow> int \<Rightarrow> (epoll_answer \<times> int) list \<Rightarrow> 'h BReactor \<Rightarrow> bool" where
  "wait_moves r now answers r' \<longleftrightarrow> time_of_timer r' = time_of_timer r \<and>
     (timer_state_of r' = timer_state_of r \<or>
      (\<exists>x. (x \<le> now \<or> (\<exists>t. timer_state_of r t = Some TIMER_STATE_RUNNING \<and> time_of_timer r t = x
                         \<and> (\<forall>u. timer_state_of r u = Some TIMER_STATE_RUNNING \<longrightarrow> x \<le> time_of_timer r u))
                      \<and> (wait_clock (Some x) now answers \<longrightarrow> (\<exists>(a, n)\<in>set answers. x \<le> n)))
         \<and> (\<forall>t. timer_state_of r' t = (if timer_state_of r t = Some TIMER_STATE_RUNNING \<and> time_of_timer r t \<le> x
                                       then Some TIMER_STATE_EXPIRED else timer_state_of r t))))"

lemma wait_movesI:
  assumes "time_of_timer r' = time_of_timer r"
    and "x \<le> now \<or> (\<exists>t. timer_state_of r t = Some TIMER_STATE_RUNNING \<and> time_of_timer r t = x
                         \<and> (\<forall>u. timer_state_of r u = Some TIMER_STATE_RUNNING \<longrightarrow> x \<le> time_of_timer r u))
                      \<and> (wait_clock (Some x) now answers \<longrightarrow> (\<exists>(a, n)\<in>set answers. x \<le> n))"
    and "\<And>t. timer_state_of r' t = (if timer_state_of r t = Some TIMER_STATE_RUNNING \<and> time_of_timer r t \<le> x
                                     then Some TIMER_STATE_EXPIRED else timer_state_of r t)"
  shows "wait_moves r now answers r'"
  unfolding wait_moves_def using assms by blast

lemma states_other [simp]:
  "timer_state_of (r\<lparr>r_results := a\<rparr>) = timer_state_of r" "timer_state_of (r\<lparr>r_pos := b\<rparr>) = timer_state_of r"
  "timer_state_of (r\<lparr>r_limits := c\<rparr>) = timer_state_of r" "timer_state_of (r\<lparr>r_active_limits := d\<rparr>) = timer_state_of r"
  "timer_state_of (r\<lparr>r_fds := e\<rparr>) = timer_state_of r" "timer_state_of (r\<lparr>r_jobs := f\<rparr>) = timer_state_of r"
  "timer_state_of (r\<lparr>r_epoll := g\<rparr>) = timer_state_of r" "timer_state_of (r\<lparr>r_exiting := h\<rparr>) = timer_state_of r"
  "timer_state_of (r\<lparr>r_exit_code := i\<rparr>) = timer_state_of r"
  by (auto simp: timer_state_of_def)

lemma waited_states:
  assumes "timers_ok r ts []" and "wait_outcome r ts now answers (Some r')"
  shows "wait_moves r now answers r'"
proof -
  let ?r = "r\<lparr>r_results := [], r_pos := 0\<rparr>"
  have ok: "timers_ok ?r ts []" using assms(1) by simp
  show ?thesis
  proof (cases "takeWhile (\<lambda>t. time_of_timer r t \<le> now) ts = []")
    case False
    then have d: "timers_due ?r ts now r'" using assms(2) by (simp add: wait_outcome_def Let_def)
    then have "time_of_timer r' = time_of_timer r" by (simp add: timers_due_def only_timers_def)
    then show ?thesis using timers_due_states [OF ok d] by (intro wait_movesI [of _ _ now]) simp_all
  next
    case True
    then obtain r1 a where r1: "wait_good ?r ts (map_option (time_of_timer r) (first_or ts None)) now answers (Some r1)"
      "r' = r1\<lparr>r_limits := zero_counts (r_limits r), r_active_limits := a\<rparr>" using assms(2) by (auto simp: wait_outcome_def Let_def)
    consider t ts' where "ts = t # ts'" "timers_due ?r ts (time_of_timer r t) r1"
        "wait_clock (Some (time_of_timer r t)) now answers \<longrightarrow> (\<exists>(a, n)\<in>set answers. time_of_timer r t \<le> n)"
      | evs where "events_due ?r evs r1" using r1(1) by (auto simp: wait_good_def)
    then show ?thesis
    proof cases
      case (1 t ts')
      have t: "timer_state_of r t = Some TIMER_STATE_RUNNING" and least: "\<forall>u. timer_state_of r u = Some TIMER_STATE_RUNNING \<longrightarrow> time_of_timer r t \<le> time_of_timer r u"
        using assms(1) 1(1) timer_times_sorted [OF timers_okD(1) [OF assms(1)]] by (auto simp: timers_ok_def)
      have "time_of_timer r1 = time_of_timer r" using 1(2) by (simp add: timers_due_def only_timers_def)
      then have time: "time_of_timer r' = time_of_timer r" using r1(2) by simp
      have st: "timer_state_of r' u = (if timer_state_of r u = Some TIMER_STATE_RUNNING \<and> time_of_timer r u \<le> time_of_timer r t
          then Some TIMER_STATE_EXPIRED else timer_state_of r u)" for u
        using timers_due_states [OF ok 1(2), of u] r1(2) by simp
      show ?thesis by (rule wait_movesI [OF time _ st]) (use 1(3) t least in blast)
    next
      case (2 evs)
      then show ?thesis using r1(2) unfolding wait_moves_def by (auto simp: events_due_def)
    qed
  qed
qed

lemma iterated:
  assumes "reactor_ok r" and "reactor_step r (EvIterate now answers, d) r'"
  obtains ts es x where "d = Some x" and "timers_ok r ts es" and "in_time_order r es" and "iteration_outcome r ts es now answers x r'"
proof -
  obtain ts es ls where ok: "timers_ok r ts es" "in_time_order r es" "limits_ok r ls" "fds_ok r" "pending_ok (r_jobs r)"
    by (rule reactor_okE [OF assms(1)])
  have "reactor_allowed r (EvIterate now answers)" and h: "reactor_handle r (EvIterate now answers) = Some (r', d)"
    using assms(2) by (simp_all add: reactor_step_def)
  from iteration_ok [OF ok this(1)] obtain x r'' where "BReactor_Exec_iteration now answers r = Some (x, r'')" "iteration_outcome r ts es now answers x r''"
    by blast
  then show ?thesis using that [of x ts es] ok(1,2) h by simp
qed

lemma other_events_timers:
  assumes "reactor_handle r e = Some (r', d)" and "\<forall>t small. e \<noteq> EvTimerInit t small" and "\<forall>t mode time now. e \<noteq> EvSetTimer t mode time now"
    and "\<forall>t. e \<noteq> EvRemoveTimer t" and "\<forall>now answers. e \<noteq> EvIterate now answers"
  shows "r_timers r' = r_timers r"
proof (cases e)
  case (EvLimitIncrement l)
  then show ?thesis using assms(1) by (auto simp: BReactorLimit_Increment_def Let_def split: bind_splits if_splits)
next
  case (EvFdRemove f)
  then show ?thesis using assms(1) by (auto simp: BReactor_RemoveFileDescriptor_def Let_def split: bind_splits if_splits option.splits)
qed (use assms in \<open>auto simp: BReactorLimit_Init_def BReactorLimit_Free_def BReactorLimit_SetLimit_def BFileDescriptor_Init_def
    BReactor_AddFileDescriptor_def BReactor_SetFileDescriptorEvents_def BReactor_Quit_def Let_def split: bind_splits if_splits\<close>)

lemma iteration_cases:
  assumes "iteration_outcome r ts es now answers d r'"
  obtains (job) p ps h where "jobs (r_jobs r) = p # ps" and "handler (r_jobs r) p = Some h" and "d = RunJob h" and "r_timers r' = r_timers r"
  | (timer) t es' where "jobs (r_jobs r) = []" and "es = t # es'" and "d = RunTimer t" and "only_timers r r'" and "timers_ok r' ts es'"
      and "timer_state_of r' = (timer_state_of r)(t \<mapsto> TIMER_STATE_INACTIVE)"
  | (fd) f ev fd where "jobs (r_jobs r) = []" and "es = []" and "r_pos r < length (r_results r)" and "r_results r ! r_pos r = (Some f, ev)"
      and "r_fds r f = Some fd" and "fd_active fd" and "reported_events fd ev \<noteq> {}" and "d = RunFd f (reported_events fd ev)" and "r_timers r' = r_timers r"
  | (skipped) "jobs (r_jobs r) = []" and "es = []" and "r_pos r < length (r_results r)" and "d = Skipped" and "r_timers r' = r_timers r"
  | (waited) "jobs (r_jobs r) = []" and "es = []" and "length (r_results r) \<le> r_pos r" and "d = Waited" and "wait_outcome r ts now answers (Some r')"
  | (waiting) "jobs (r_jobs r) = []" and "es = []" and "length (r_results r) \<le> r_pos r" and "d = Waiting" and "r' = r" and "wait_outcome r ts now answers None"
proof (cases "jobs (r_jobs r)")
  case (Cons p ps)
  then obtain h where "handler (r_jobs r) p = Some h" "d = RunJob h" "r' = r\<lparr>r_jobs := (r_jobs r)\<lparr>jobs := ps\<rparr>\<rparr>"
    using assms by (auto simp: iteration_outcome_def)
  then show ?thesis using job Cons by simp
next
  case jobs: Nil
  show ?thesis
  proof (cases es)
    case (Cons t es')
    then show ?thesis using assms timer jobs by (simp add: iteration_outcome_def)
  next
    case es: Nil
    note out = assms [unfolded iteration_outcome_def jobs es, simplified]
    show ?thesis
    proof (cases "r_pos r < length (r_results r)")
      case True
      then have r': "r' = r\<lparr>r_pos := Suc (r_pos r), r_fds := r_fds r'\<rparr>" using out by simp
      have "r_timers r' = r_timers r" by (subst r') simp
      then show ?thesis using out True fd skipped jobs es by (auto simp: Let_def split: prod.splits option.splits if_splits)
    next
      case False
      then show ?thesis using out waited waiting jobs es by (cases d) simp_all
    qed
  qed
qed

text \<open>What an iteration does to timers: it dispatches the first of the expired ones, or moves timers while it waits.\<close>

definition timer_moves :: "'h BReactor \<Rightarrow> int \<Rightarrow> (epoll_answer \<times> int) list \<Rightarrow> 'h dispatch \<Rightarrow> 'h BReactor \<Rightarrow> bool" where
  "timer_moves r now answers d r' \<longleftrightarrow> time_of_timer r' = time_of_timer r \<and>
     (case d of
        RunTimer t \<Rightarrow> timer_state_of r t = Some TIMER_STATE_EXPIRED \<and> timer_state_of r' = (timer_state_of r)(t \<mapsto> TIMER_STATE_INACTIVE)
          \<and> (\<forall>u. timer_state_of r u = Some TIMER_STATE_EXPIRED \<longrightarrow> u = t \<or> compare_timers (time_of_timer r) t u = -1)
      | Waited \<Rightarrow> (\<forall>u. timer_state_of r u \<noteq> Some TIMER_STATE_EXPIRED) \<and> wait_moves r now answers r'
      | _ \<Rightarrow> timer_state_of r' = timer_state_of r)"

lemma iteration_timers:
  assumes "timers_ok r ts es" and "in_time_order r es" and "iteration_outcome r ts es now answers d r'"
  shows "timer_moves r now answers d r'"
proof -
  have es: "t \<in> set es \<longleftrightarrow> timer_state_of r t = Some TIMER_STATE_EXPIRED" for t using assms(1) by (simp add: timers_ok_def)
  from assms(3) show ?thesis
  proof (cases rule: iteration_cases)
    case (timer t es')
    then have "\<forall>u. timer_state_of r u = Some TIMER_STATE_EXPIRED \<longrightarrow> u = t \<or> compare_timers (time_of_timer r) t u = -1"
      using assms(2) es by (auto simp: in_time_order_def)
    then show ?thesis using timer es [of t] by (simp add: timer_moves_def only_timers_def)
  next
    case waited
    then have "wait_moves r now answers r'" using waited_states assms(1) by simp
    then show ?thesis using es waited by (simp add: timer_moves_def wait_moves_def)
  qed (simp_all add: timer_moves_def timer_state_of_def [abs_def])
qed


subsection \<open>What an iteration dispatches\<close>

lemma reported_events_eq: "reported_events fd ev = ev \<inter> (fd_waitEvents fd \<union> {BREACTOR_ERROR, BREACTOR_HUP})"
proof (rule set_eqI)
  fix x
  show "x \<in> reported_events fd ev \<longleftrightarrow> x \<in> ev \<inter> (fd_waitEvents fd \<union> {BREACTOR_ERROR, BREACTOR_HUP})"
    by (cases x) (auto simp: reported_events_def)
qed

text \<open>A wait ends with something to dispatch.\<close>

definition wait_brings :: "'h BReactor \<Rightarrow> int \<Rightarrow> 'h BReactor \<Rightarrow> bool" where
  "wait_brings r now r' \<longleftrightarrow>
     ((\<exists>t. timer_state_of r' t = Some TIMER_STATE_EXPIRED) \<or> (r_results r' \<noteq> [] \<and> r_pos r' = 0))
     \<and> ((\<forall>t. timer_state_of r t = Some TIMER_STATE_RUNNING \<longrightarrow> now < time_of_timer r t) \<longrightarrow>
          (\<forall>l lm. r_limits r' l = Some lm \<longrightarrow> lm_count lm = 0))"

lemma timers_due_expired: "timers_due r ts x r' \<Longrightarrow> takeWhile (\<lambda>t. time_of_timer r t \<le> x) ts \<noteq> [] \<Longrightarrow> \<exists>t. timer_state_of r' t = Some TIMER_STATE_EXPIRED"
  unfolding timers_due_def timers_ok_def by (metis last_in_set)

lemma none_due:
  assumes "timers_ok r ts es"
  shows "takeWhile (\<lambda>t. time_of_timer r t \<le> x) ts = [] \<longleftrightarrow> (\<forall>t. timer_state_of r t = Some TIMER_STATE_RUNNING \<longrightarrow> x < time_of_timer r t)"
proof -
  have "takeWhile (\<lambda>t. time_of_timer r t \<le> x) ts = [] \<longleftrightarrow> set (takeWhile (\<lambda>t. time_of_timer r t \<le> x) ts) = {}" by simp
  then show ?thesis unfolding takeWhile_times [OF assms] using assms by (auto simp: timers_ok_def not_le)
qed

lemma waited_brings:
  assumes "timers_ok r ts []" and "wait_outcome r ts now answers (Some r')"
  shows "wait_brings r now r'"
proof (cases "takeWhile (\<lambda>t. time_of_timer r t \<le> now) ts = []")
  case False
  then have "timers_due (r\<lparr>r_results := [], r_pos := 0\<rparr>) ts now r'" using assms(2) by (simp add: wait_outcome_def Let_def)
  then show ?thesis using timers_due_expired False none_due [OF assms(1), of now] unfolding wait_brings_def by fastforce
next
  case True
  then obtain r1 a where r1: "wait_good (r\<lparr>r_results := [], r_pos := 0\<rparr>) ts (map_option (time_of_timer r) (first_or ts None)) now answers (Some r1)"
    "r' = r1\<lparr>r_limits := zero_counts (r_limits r), r_active_limits := a\<rparr>" using assms(2) by (auto simp: wait_outcome_def Let_def)
  have limits: "\<forall>l lm. r_limits r' l = Some lm \<longrightarrow> lm_count lm = 0" using r1(2) by (auto simp: zero_counts_def)
  consider t ts' where "ts = t # ts'" "timers_due (r\<lparr>r_results := [], r_pos := 0\<rparr>) ts (time_of_timer r t) r1"
    | evs where "events_due (r\<lparr>r_results := [], r_pos := 0\<rparr>) evs r1" using r1(1) by (auto simp: wait_good_def)
  then show ?thesis
  proof cases
    case (1 t ts')
    then show ?thesis using timers_due_expired [OF 1(2)] r1(2) limits by (simp add: wait_brings_def)
  next
    case (2 evs)
    then show ?thesis using r1(2) limits by (simp add: wait_brings_def events_due_def)
  qed
qed

lemma waiting_idle:
  assumes "timers_ok r ts []" and "wait_outcome r ts now answers None"
  shows "\<forall>t. timer_state_of r t = Some TIMER_STATE_RUNNING \<longrightarrow> now < time_of_timer r t \<and> (\<forall>(a, n)\<in>set answers. n < time_of_timer r t)"
    and "\<forall>(a, n)\<in>set answers. \<forall>evs. a = Returned evs \<longrightarrow> evs = []"
proof -
  have none: "takeWhile (\<lambda>t. time_of_timer r t \<le> now) ts = []" using assms(2) by (auto simp: wait_outcome_def Let_def split: if_splits)
  then have good: "\<forall>(a, n)\<in>set answers. (\<forall>evs. a = Returned evs \<longrightarrow> evs = []) \<and> (\<forall>x. map_option (time_of_timer r) (first_or ts None) = Some x \<longrightarrow> n < x)"
    using assms(2) by (simp add: wait_outcome_def wait_good_def Let_def)
  then show "\<forall>(a, n)\<in>set answers. \<forall>evs. a = Returned evs \<longrightarrow> evs = []" by fast
  have "\<exists>u. first_or ts None = Some u \<and> time_of_timer r u \<le> time_of_timer r t" if "timer_state_of r t = Some TIMER_STATE_RUNNING" for t
  proof -
    have "t \<in> set ts" using assms(1) that by (simp add: timers_ok_def)
    then show ?thesis using timer_times_sorted [OF timers_okD(1) [OF assms(1)]] by (cases ts) auto
  qed
  then show "\<forall>t. timer_state_of r t = Some TIMER_STATE_RUNNING \<longrightarrow> now < time_of_timer r t \<and> (\<forall>(a, n)\<in>set answers. n < time_of_timer r t)"
    using good none_due [OF assms(1), of now] none by fastforce
qed

text \<open>The choice of an iteration: jobs first, then expired timers, then descriptors, and only then waiting.\<close>

definition dispatch_right :: "'h BReactor \<Rightarrow> int \<Rightarrow> (epoll_answer \<times> int) list \<Rightarrow> 'h dispatch \<Rightarrow> 'h BReactor \<Rightarrow> bool" where
  "dispatch_right r now answers d r' \<longleftrightarrow>
     (let idle = (jobs (r_jobs r) = [] \<and> (\<forall>t. timer_state_of r t \<noteq> Some TIMER_STATE_EXPIRED)) in
      case d of
        RunJob h \<Rightarrow> \<exists>p ps. jobs (r_jobs r) = p # ps \<and> handler (r_jobs r) p = Some h
      | RunTimer t \<Rightarrow> jobs (r_jobs r) = [] \<and> timer_state_of r t = Some TIMER_STATE_EXPIRED
      | RunFd f events \<Rightarrow> idle \<and> r_pos r < length (r_results r) \<and> events \<noteq> {}
          \<and> (\<exists>fd ev. r_results r ! r_pos r = (Some f, ev) \<and> r_fds r f = Some fd \<and> fd_active fd
                     \<and> events = ev \<inter> (fd_waitEvents fd \<union> {BREACTOR_ERROR, BREACTOR_HUP}))
      | Skipped \<Rightarrow> idle \<and> r_pos r < length (r_results r)
      | Waited \<Rightarrow> idle \<and> length (r_results r) \<le> r_pos r \<and> wait_brings r now r'
      | Waiting \<Rightarrow> idle \<and> length (r_results r) \<le> r_pos r \<and> r' = r
          \<and> (\<forall>t. timer_state_of r t = Some TIMER_STATE_RUNNING \<longrightarrow> now < time_of_timer r t \<and> (\<forall>(a, n)\<in>set answers. n < time_of_timer r t))
          \<and> (\<forall>(a, n)\<in>set answers. \<forall>evs. a = Returned evs \<longrightarrow> evs = []))"

lemma iteration_dispatch:
  assumes "timers_ok r ts es" and "iteration_outcome r ts es now answers d r'"
  shows "dispatch_right r now answers d r'"
proof -
  have es: "t \<in> set es \<longleftrightarrow> timer_state_of r t = Some TIMER_STATE_EXPIRED" for t using assms(1) by (simp add: timers_ok_def)
  from assms(2) show ?thesis
  proof (cases rule: iteration_cases)
    case (timer t es')
    then show ?thesis using es [of t] by (simp add: dispatch_right_def)
  next
    case (fd f ev fd)
    then show ?thesis using es by (simp add: dispatch_right_def Let_def reported_events_eq)
  next
    case waited
    then show ?thesis using es waited_brings [of r ts now answers r'] assms(1) by (simp add: dispatch_right_def Let_def)
  next
    case waiting
    then show ?thesis using es waiting_idle [of r ts now answers] assms(1) by (simp add: dispatch_right_def Let_def)
  qed (use es in \<open>simp_all add: dispatch_right_def Let_def\<close>)
qed


subsection \<open>Due timers are dispatched\<close>

text \<open>Iterations of the loop while the clock reads \<open>now\<close>, no descriptor has events, and handlers do nothing.\<close>

fun run_iterations :: "nat \<Rightarrow> int \<Rightarrow> 'h BReactor \<Rightarrow> ('h dispatch list \<times> 'h BReactor) option" where
  "run_iterations 0 now r = Some ([], r)"
| "run_iterations (Suc n) now r = do {
     (d, r) \<leftarrow> BReactor_Exec_iteration now [] r;
     (ds, r) \<leftarrow> run_iterations n now r;
     Some (d # ds, r) }"

lemma expired_run:
  assumes "timers_ok r ts es" and "in_time_order r es" and "limits_ok r ls" and "fds_ok r" and "pending_ok (r_jobs r)"
    and "jobs (r_jobs r) = []" and "\<not> r_exiting r" and "0 \<le> now" and "is_int64 now"
  shows "\<exists>r'. run_iterations (length es) now r = Some (map RunTimer es, r')
           \<and> timer_state_of r' = (\<lambda>u. if u \<in> set es then Some TIMER_STATE_INACTIVE else timer_state_of r u)"
  using assms
proof (induction es arbitrary: r)
  case (Cons t es)
  have "reactor_allowed r (EvIterate now [])" using Cons.prems(7-9) by (simp add: answers_ok_def)
  from iteration_ok [OF Cons.prems(1-5) this] obtain d r1 where it: "BReactor_Exec_iteration now [] r = Some (d, r1)"
    "iteration_outcome r ts (t # es) now [] d r1" by blast
  then have r1: "d = RunTimer t" "only_timers r r1" "timers_ok r1 ts es" "timer_state_of r1 = (timer_state_of r)(t \<mapsto> TIMER_STATE_INACTIVE)"
    using Cons.prems(6) by (simp_all add: iteration_outcome_def)
  have "in_time_order r1 es" using Cons.prems(2) r1(2) by (simp add: in_time_order_def only_timers_def)
  then obtain r' where "run_iterations (length es) now r1 = Some (map RunTimer es, r')"
    "timer_state_of r' = (\<lambda>u. if u \<in> set es then Some TIMER_STATE_INACTIVE else timer_state_of r1 u)"
    using Cons.IH [of r1] Cons.prems(3-9) r1(3) only_timers_keeps [OF r1(2)] by auto
  then show ?case using it(1) r1(1,4) by (auto simp: fun_eq_iff)
qed simp

lemma due_timers_run:
  assumes "reactor_ok r" and "jobs (r_jobs r) = []" and "\<forall>t. timer_state_of r t \<noteq> Some TIMER_STATE_EXPIRED"
    and "length (r_results r) \<le> r_pos r" and "\<not> r_exiting r" and "0 \<le> now" and "is_int64 now"
    and "timer_state_of r t = Some TIMER_STATE_RUNNING" and "time_of_timer r t \<le> now"
  shows "\<exists>ts r'. run_iterations (Suc (length ts)) now r = Some (Waited # map RunTimer ts, r')
           \<and> set ts = {u. timer_state_of r u = Some TIMER_STATE_RUNNING \<and> time_of_timer r u \<le> now}
           \<and> distinct ts \<and> sorted_wrt (\<lambda>a b. compare_timers (time_of_timer r) a b = -1) ts
           \<and> timer_state_of r' = (\<lambda>u. if u \<in> set ts then Some TIMER_STATE_INACTIVE else timer_state_of r u)"
proof -
  obtain rs es ls where ok: "timers_ok r rs es" "in_time_order r es" "limits_ok r ls" "fds_ok r" "pending_ok (r_jobs r)"
    by (rule reactor_okE [OF assms(1)])
  let ?due = "takeWhile (\<lambda>t. time_of_timer r t \<le> now) rs"
  have es: "es = []" using ok(1) assms(3) by (cases es) (auto simp: timers_ok_def)
  have due: "?due \<noteq> []" unfolding none_due [OF ok(1)] using assms(8,9) by fastforce
  have "reactor_allowed r (EvIterate now [])" using assms(5-7) by (simp add: answers_ok_def)
  from iteration_ok [OF ok this] obtain d r1 where it: "BReactor_Exec_iteration now [] r = Some (d, r1)"
    "iteration_outcome r rs [] now [] d r1" and ok1: "reactor_ok r1" using es by blast
  then have d: "d = Waited" "timers_due (r\<lparr>r_results := [], r_pos := 0\<rparr>) rs now r1"
    using assms(2,4) due by (cases d; auto simp: iteration_outcome_def wait_outcome_def Let_def)+
  have t0: "timers_ok (r\<lparr>r_results := [], r_pos := 0\<rparr>) rs []" using ok(1) es by simp
  have r1: "timers_ok r1 (dropWhile (\<lambda>t. time_of_timer r t \<le> now) rs) ?due" "only_timers (r\<lparr>r_results := [], r_pos := 0\<rparr>) r1"
    using d(2) by (simp_all add: timers_due_def)
  have order: "in_time_order r1 ?due" using timers_due_order [OF d(2) t0] by simp
  obtain ls1 where "limits_ok r1 ls1" "fds_ok r1" "pending_ok (r_jobs r1)" by (rule reactor_okE [OF ok1])
  from expired_run [OF r1(1) order this _ _ assms(6,7)] obtain r' where r':
    "run_iterations (length ?due) now r1 = Some (map RunTimer ?due, r')"
    "timer_state_of r' = (\<lambda>u. if u \<in> set ?due then Some TIMER_STATE_INACTIVE else timer_state_of r1 u)"
    using only_timers_keeps(3,9) [OF r1(2)] assms(2,5) by auto
  have set: "set ?due = {u. timer_state_of r u = Some TIMER_STATE_RUNNING \<and> time_of_timer r u \<le> now}"
    unfolding takeWhile_times [OF ok(1)] using ok(1) by (auto simp: timers_ok_def)
  have "timer_state_of r1 u = timer_state_of r u" if "u \<notin> set ?due" for u
    using timers_due_states [OF t0 d(2), of u] that unfolding set by simp
  then have "timer_state_of r' = (\<lambda>u. if u \<in> set ?due then Some TIMER_STATE_INACTIVE else timer_state_of r u)"
    unfolding r'(2) by auto
  moreover have "sorted_wrt (\<lambda>a b. compare_timers (time_of_timer r) a b = -1) ?due"
    using in_time_order_take [OF ok(1)] by (simp add: in_time_order_def)
  moreover have "run_iterations (Suc (length ?due)) now r = Some (Waited # map RunTimer ?due, r')" using it(1) d(1) r'(1) by simp
  ultimately show ?thesis using set timers_okD(4) [OF r1(1)] by blast
qed


subsection \<open>Runs from the start\<close>

fun reactor_run :: "'h reactor_event list \<Rightarrow> 'h BReactor \<Rightarrow> ('h dispatch option list \<times> 'h BReactor) option" where
  "reactor_run [] r = Some ([], r)"
| "reactor_run (e # es) r = do {
     ASSERT (reactor_allowed r e);
     (r, d) \<leftarrow> reactor_handle r e;
     (ds, r) \<leftarrow> reactor_run es r;
     Some (d # ds, r) }"

lemma reactor_run_steps: "reactor_run es r = Some (ds, r') \<Longrightarrow> \<exists>ls. steps reactor_step r ls r' \<and> map fst ls = es \<and> map snd ls = ds"
proof (induction es arbitrary: r ds)
  case Nil
  then show ?case by (auto intro: exI [of _ "[]"])
next
  case (Cons e es)
  then obtain r1 d ds' where r1: "reactor_allowed r e" "reactor_handle r e = Some (r1, d)" "reactor_run es r1 = Some (ds', r')" "ds = d # ds'"
    by (auto split: bind_splits if_splits)
  then obtain ls where "steps reactor_step r1 ls r'" "map fst ls = es" "map snd ls = ds'" using Cons.IH by blast
  moreover have "reactor_step r (e, d) r1" using r1(1,2) by (simp add: reactor_step_def)
  ultimately show ?case using steps_Cons [of reactor_step r "(e, d)" r1 ls r'] r1(4) by (intro exI [of _ "(e, d) # ls"]) simp
qed

definition reactor_start :: "string BReactor" where
  "reactor_start = \<lparr>r_exiting = False, r_exit_code = 0, r_jobs = BPendingGroup_Init, r_tree = example_cavl,
     r_expired = (LinkedList1_Init, \<lambda>_. \<lparr>ll_p = None, ll_n = None\<rparr>), r_timers = Map.empty, r_active_limits = (LinkedList1_Init, \<lambda>_. \<lparr>ll_p = None, ll_n = None\<rparr>),
     r_limits = Map.empty, r_fds = Map.empty, r_epoll = Map.empty, r_results = [], r_pos = 0\<rparr>"

definition two_timers :: "string reactor_event list" where
  "two_timers = [EvTimerInit 1 True, EvTimerInit 2 True, EvSetTimer 1 BTIMER_SET_ABSOLUTE 30 0, EvSetTimer 2 BTIMER_SET_RELATIVE 5 10]"


lemmas run_eval = reactor_start_def two_timers_def example_cavl_def BSmallTimer_Init_def timer_state_of_def timer_time_def is_int64_def
  BReactor_SetSmallTimer_def BReactor_RemoveSmallTimer_def btime_add_def add_int64_overflows_def int64_val_def
  CAvl_Insert_def CAvl_Init_def set_link_def set_parent_def set_balance_def set_parent_of_def set_link_to_def CAvl_compare_entries_def
  CAvl_check_parent_def compare_timers_def B_COMPARE_def CAvl_Insert_find.simps CAvl_rebalance.simps CAvl_unlink_def CAvl_replace_subtree_fix_assoc_def
  CAvl_Remove_def CAvl_GetFirst_def CAvl_IsEmpty_def CAvl_subtree_min.simps BPendingGroup_HasJobs_def BPendingGroup_Init_def LinkedList1_Init_def
  answers_ok_def BAVL_OPTNEG_def CAvl_transform_def

lemma two_timers_run:
  "map_option (\<lambda>(ds, r). (ds, r_timers r, jobs (r_jobs r), r_results r, r_pos r, r_exiting r)) (reactor_run two_timers reactor_start)
     = Some ([None, None, None, None],
             [1 \<mapsto> \<lparr>tm_absTime = 30, tm_state = TIMER_STATE_RUNNING, tm_is_small = True\<rparr>,
              2 \<mapsto> \<lparr>tm_absTime = 15, tm_state = TIMER_STATE_RUNNING, tm_is_small = True\<rparr>], [], [], 0, False)"
  by (simp add: run_eval Let_def)

lemma two_timers_state:
  obtains ls r where "steps reactor_step reactor_start ls r" and "map fst ls = two_timers" and "jobs (r_jobs r) = []" and "r_results r = []"
    and "r_pos r = 0" and "\<not> r_exiting r"
    and "timer_state_of r = [1 \<mapsto> TIMER_STATE_RUNNING, 2 \<mapsto> TIMER_STATE_RUNNING]" and "time_of_timer r 1 = 30" and "time_of_timer r 2 = 15"
proof -
  obtain ds r where r: "reactor_run two_timers reactor_start = Some (ds, r)"
    "r_timers r = [1 \<mapsto> \<lparr>tm_absTime = 30, tm_state = TIMER_STATE_RUNNING, tm_is_small = True\<rparr>,
                   2 \<mapsto> \<lparr>tm_absTime = 15, tm_state = TIMER_STATE_RUNNING, tm_is_small = True\<rparr>]"
    "jobs (r_jobs r) = []" "r_results r = []" "r_pos r = 0" "\<not> r_exiting r"
    using two_timers_run by auto
  then show ?thesis using reactor_run_steps [OF r(1)] that by (auto simp: timer_state_of_def [abs_def] timer_time_def fun_eq_iff)
qed

lemma reactor_start_Init:
  "BReactor_Init True (snd example_cavl) (\<lambda>_. \<lparr>ll_p = None, ll_n = None\<rparr>) (\<lambda>_. \<lparr>ll_p = None, ll_n = None\<rparr>) = Some reactor_start"
  by (simp add: BReactor_Init_def reactor_start_def example_cavl_def)

lemma reactor_reached: "BReactor_Init True m0 l0 a0 = Some r0 \<Longrightarrow> steps reactor_step r0 ls r \<Longrightarrow> reactor_ok r"
  using rct.reached_inv reactor_ok_Init by blast

lemma distinct_singleton_set:
  assumes "distinct xs" and "set xs = {a}"
  shows "xs = [a]"
proof -
  have "length xs = 1" using distinct_card [OF assms(1)] assms(2) by simp
  then show ?thesis using assms(2) by (cases xs) auto
qed

lemma two_timers_iterate:
  obtains ls r d r' where "steps reactor_step reactor_start ls r" and "map fst ls = two_timers" and "reactor_step r (EvIterate 20 [], d) r'"
proof -
  obtain ls r where r: "steps reactor_step reactor_start ls r" "map fst ls = two_timers" "\<not> r_exiting r" by (rule two_timers_state)
  have a: "reactor_allowed r (EvIterate 20 [])" using r(3) by (simp add: answers_ok_def is_int64_def)
  obtain r' d where "reactor_handle r (EvIterate 20 []) = Some (r', d)"
    using reactor_handle_ok [OF reactor_reached [OF reactor_start_Init r(1)] a] by blast
  then show ?thesis using that [OF r(1,2)] a unfolding reactor_step_def fst_conv snd_conv by blast
qed

text \<open>
  C11: The reactor never fails. In every state that a run from \<open>BReactor_Init\<close> reaches, the tree of timers, the lists of expired
  timers and of active limits, and the pointers between results and descriptors are consistent, and every operation
  whose documented preconditions hold, and every iteration of the loop, goes through: no assertion fails, no null pointer
  is followed, no clock arithmetic overflows, and the loops over timers and limits end.
\<close>

theorem reactor_safe:
  assumes "BReactor_Init True m0 l0 a0 = Some r0" and "steps reactor_step r0 ls r"
  shows "reactor_ok r \<and> (\<forall>e. reactor_allowed r e \<longrightarrow> reactor_handle r e \<noteq> None)"
  using reactor_reached [OF assms] rct.never_fails by blast

theorem reactor_safe_witness:
  "\<exists>ls r. steps reactor_step reactor_start ls r \<and> map fst ls = two_timers \<and> reactor_ok r \<and> reactor_allowed r (EvIterate 20 [])
     \<and> reactor_handle r (EvIterate 20 []) \<noteq> None"
proof -
  obtain ls r where r: "steps reactor_step reactor_start ls r" "map fst ls = two_timers" "\<not> r_exiting r" by (rule two_timers_state)
  have "reactor_allowed r (EvIterate 20 [])" using r(3) by (simp add: answers_ok_def is_int64_def)
  then show ?thesis using r(1,2) reactor_safe [OF reactor_start_Init r(1)] by blast
qed





text \<open>
  C13: Due timers are dispatched. In a reachable state with nothing to dispatch, in which the time of some running timer has been
  reached, the loop does not wait: its next iterations, as long as handlers do nothing else, dispatch exactly the timers whose time has been
  reached, each once, in the order of their times, and leave all other timers as they are.
\<close>

theorem due_timers_fire:
  assumes "BReactor_Init True m0 l0 a0 = Some r0" and "steps reactor_step r0 ls r"
    and "jobs (r_jobs r) = []" and "\<forall>t. timer_state_of r t \<noteq> Some TIMER_STATE_EXPIRED" and "length (r_results r) \<le> r_pos r"
    and "\<not> r_exiting r" and "0 \<le> now" and "is_int64 now"
    and "timer_state_of r t = Some TIMER_STATE_RUNNING" and "time_of_timer r t \<le> now"
  shows "\<exists>ts r'. run_iterations (Suc (length ts)) now r = Some (Waited # map RunTimer ts, r')
           \<and> set ts = {u. timer_state_of r u = Some TIMER_STATE_RUNNING \<and> time_of_timer r u \<le> now}
           \<and> distinct ts \<and> sorted_wrt (\<lambda>a b. compare_timers (time_of_timer r) a b = -1) ts
           \<and> timer_state_of r' = (\<lambda>u. if u \<in> set ts then Some TIMER_STATE_INACTIVE else timer_state_of r u)"
  by (rule due_timers_run [OF reactor_reached [OF assms(1,2)] assms(3-10)])

theorem due_timers_fire_witness:
  "\<exists>ls r r'. steps reactor_step reactor_start ls r \<and> map fst ls = two_timers
     \<and> run_iterations (Suc (Suc 0)) 20 r = Some ([Waited, RunTimer 2], r')
     \<and> timer_state_of r' 1 = Some TIMER_STATE_RUNNING \<and> timer_state_of r' 2 = Some TIMER_STATE_INACTIVE"
proof -
  obtain ls r where r: "steps reactor_step reactor_start ls r" "map fst ls = two_timers" "jobs (r_jobs r) = []" "r_results r = []"
    "r_pos r = 0" "\<not> r_exiting r" "timer_state_of r = [1 \<mapsto> TIMER_STATE_RUNNING, 2 \<mapsto> TIMER_STATE_RUNNING]" "time_of_timer r 1 = 30" "time_of_timer r 2 = 15"
    by (rule two_timers_state)
  have none: "\<forall>t. timer_state_of r t \<noteq> Some TIMER_STATE_EXPIRED" and running: "timer_state_of r 2 = Some TIMER_STATE_RUNNING"
    and now: "is_int64 20" and pos: "length (r_results r) \<le> r_pos r" and zero: "(0 :: int) \<le> 20" and time: "time_of_timer r 2 \<le> 20"
    by (simp_all add: r(4,5,7,9) is_int64_def)
  from due_timers_fire [OF reactor_start_Init r(1,3) none pos r(6) zero now running time] show ?thesis
  proof (elim exE conjE)
    fix ts r'
    assume ts: "run_iterations (Suc (length ts)) 20 r = Some (Waited # map RunTimer ts, r')"
      "set ts = {u. timer_state_of r u = Some TIMER_STATE_RUNNING \<and> time_of_timer r u \<le> 20}" "distinct ts"
      "timer_state_of r' = (\<lambda>u. if u \<in> set ts then Some TIMER_STATE_INACTIVE else timer_state_of r u)"
    have "u \<in> set ts \<longleftrightarrow> u = 2" for u unfolding ts(2) r(7) using r(8,9) by (cases "u = 1") auto
    then have "ts = [2]" by (intro distinct_singleton_set [OF ts(3)]) blast
    then have "run_iterations (Suc (Suc 0)) 20 r = Some ([Waited, RunTimer 2], r')" "timer_state_of r' 1 = Some TIMER_STATE_RUNNING" "timer_state_of r' 2 = Some TIMER_STATE_INACTIVE"
      using ts(1) by (simp_all add: ts(4) r(7) del: run_iterations.simps)
    then show ?thesis using r(1,2) by (intro exI [of _ ls] exI [of _ r] exI [of _ r'] conjI)
  qed
qed

end
