(* ===== verification/Spec2Isabelle.thy ===== *)
theory Spec2Isabelle
  imports ByteOrder Pending Flow_Interfaces ChunkBuffer PacketProto PacketFlow BAVL_Map IpUdp Addr FairQueue UdpGw SocksClient SocksUdpGw TcpRelay Device LinkedLists PendingList CAvl Reactor ReactorRuns
begin

text \<open>
  The program is the native part of the app: \<open>tun2socks\<close> of \<open>badvpn\<close> (under
  \<open>src/vpn/src/main/jni/badvpn/\<close>, the files that \<open>Android.mk\<close> compiles). It reads IP packets from a TUN
  device. UDP datagrams it hands to a UDP client, which sends them through the SOCKS server or to a
  DNS gateway; all else goes to lwIP, and for every TCP connection that lwIP accepts it opens a SOCKS
  connection and relays the data. It is one thread: a reactor runs timers, file descriptors and pending
  jobs, and the components call each other through interfaces that set jobs.

  \<^bold>\<open>How the code is read.\<close> Each component is a record of its state and one function per
  operation or handler, with the names of the source. \<open>ASSERT\<close> of the code is \<open>ASSERT\<close> of an option monad, so
  \<open>None\<close> is a failed assertion, and likewise an access outside a memory block, a use of a freed object
  or a call that breaks the contract of a neighbour. Results that the code reports to its caller are inner
  options or values. Calls to neighbours are returned as lists, or act on a record of what the
  neighbour knows. Objects on the heap are named by their addresses. Decisions of the environment
  (\<open>malloc\<close>, initialisations that can fail, room in buffers, answers of lwIP and of system calls) are
  parameters, and the theorems hold for all of them. Sequences of events are lists of labels of a step
  relation or of events that can occur; the locale \<open>event_system\<close> of \<open>Prelude\<close> states once what the invariants of
  such components give.

  \<^bold>\<open>The theories\<close>, in the order of the layers:

  \<^item> \<open>Prelude\<close>: types, \<open>ASSERT\<close>, memory blocks (\<open>store\<close>, \<open>segment\<close>), traces, \<open>event_system\<close>.

  \<^item> \<open>ByteOrder\<close>: \<open>misc/byteorder.h\<close>, \<open>read_write_int.h\<close>, \<open>bsize.h\<close>, \<open>balign.h\<close>, \<open>compare.h\<close>. Integers and their memory
  images are inverse (locale \<open>memory_integer\<close>), sizes overflow to a value of their own, comparators are total orders
  (locale \<open>comparator\<close>).

  \<^item> \<open>Pending\<close>: \<open>base/BPending.c\<close> and \<open>BReactor_Synchronize\<close>. Jobs run last in first out; \<open>Synchronize\<close>
  returns with exactly the jobs above the reference gone.

  \<^item> \<open>Flow_Interfaces\<close>: the four interfaces of \<open>flow/\<close>. Each implements one abstract protocol (locale
  \<open>implements_protocol\<close>): every operation is answered exactly once, under any order of calls,
  cancellations and jobs.

  \<^item> \<open>ChunkBuffer\<close>: \<open>structure/ChunkBuffer2.h\<close> refines a queue of packets (locale \<open>packet_fifo\<close>), and has
  room for the number of packets it was dimensioned for.

  \<^item> \<open>PacketProto\<close>, \<open>PacketFlow\<close>: \<open>flow/PacketProtoEncoder\<close>, \<open>PacketProtoDecoder\<close>, \<open>PacketStreamSender\<close>,
  \<open>PacketBuffer\<close>, \<open>PacketProtoFlow\<close>, \<open>BufferWriter\<close>, \<open>SinglePacketBuffer\<close>, \<open>PacketPassConnector\<close> and
  \<open>flowextra/PacketPassInactivityMonitor\<close>. Packets that are framed, buffered, sent in pieces and decoded arrive
  unchanged, in order and complete (locale \<open>stream_codec\<close>).

  \<^item> \<open>FairQueue\<close>: \<open>flow/PacketPassFairQueue.c\<close>. Delivery, progress and the virtual times, with 64-bit overflow.

  \<^item> \<open>BAVL\<close>, \<open>BAVL_Map\<close>: \<open>structure/BAVL.h\<close>. Insertion, removal, lookups and iteration of balanced trees
  with parent pointers, for every comparator (locale \<open>keyed_table\<close>).

  \<^item> \<open>IpUdp\<close>: \<open>misc/ipv4_proto.h\<close>, \<open>ipv6_proto.h\<close>, \<open>udp_proto.h\<close>. Checksums agree with RFC 1071, checks accept exactly the
  well-formed packets.

  \<^item> \<open>Addr\<close>: \<open>system/BAddr.h\<close>. Order, printing and parsing of addresses.

  \<^item> \<open>ConnTable\<close>, \<open>UdpGw\<close>: \<open>udpgw_client/UdpGwClient.c\<close>, \<open>protocol/udpgw_proto.h\<close>. Echoed packets reach the user,
  submitting finds, creates or takes over a connection, no handler fails.

  \<^item> \<open>SocksClient\<close>: \<open>socksclient/BSocksClient.c\<close>. The handshake refines RFC 1928 and 1929, for every
  fragmentation; safety and progress.

  \<^item> \<open>SocksUdpGw\<close>: \<open>tun2socks/SocksUdpGwClient.c\<close>. UDP through the SOCKS server.

  \<^item> \<open>TcpClient\<close>, \<open>TcpRelay\<close>: the TCP side of \<open>tun2socks/tun2socks.c\<close>. All data is relayed in order
  and without loss, no call breaks a contract of lwIP or of the SOCKS client, no client waits for nothing,
  and closing one end flushes what is on the way to the other.

  \<^item> \<open>Device\<close>: the device path of \<open>tun2socks/tun2socks.c\<close>, composed with \<open>IpUdp\<close> and \<open>SocksUdpGw\<close>: a datagram
  goes out and comes back.

  \<^item> \<open>LinkedLists\<close>, \<open>PendingList\<close>: \<open>structure/LinkedList1.h\<close> and \<open>structure/SLinkedList_impl.h\<close> on nodes in memory refine lists
  (locale \<open>linked_list\<close>), and \<open>base/BPending.c\<close> over such a list refines \<open>Pending\<close>.

  \<^item> \<open>CAvl\<close>: \<open>structure/CAvl_impl.h\<close>, the tree of timers, on nodes in memory with parent links. It simulates the
  trees of \<open>BAVL\<close>, and so refines a sorted list, for every order of the entries (locale \<open>entry_order\<close>).

  \<^item> \<open>Reactor\<close>, \<open>ReactorRuns\<close>: \<open>system/BReactor_badvpn.c\<close> on epoll, with the clock arithmetic of \<open>system/BTime.h\<close>: timers,
  limits, descriptors and the event loop, over \<open>CAvl\<close>, \<open>LinkedLists\<close> and \<open>Pending\<close>. No operation fails, the life of
  a timer, what an iteration dispatches, and that due timers are dispatched.
  \<^bold>\<open>Loops.\<close> Loops over data are structural recursion or \<open>function\<close> with a termination proof. Loops whose end depends
  on the state are \<open>partial_function (option)\<close> (\<open>unused_conid_loop\<close>, \<open>free_connections\<close>,
  \<open>sg_free_connections\<close>, the descents and the rebalancing of \<open>CAvl\<close>, the loops over timers and limits of \<open>Reactor\<close>), with proofs that they return in every state of the invariant; \<open>BReactor_Synchronize\<close>
  takes the number of jobs as fuel, and it is proved how much is enough. Waiting and the event loop may last forever: the model of a wait takes the answers of
  \<open>epoll_wait\<close> so far, and the event loop is the sequence of its iterations.

  \<^bold>\<open>Not modelled.\<close> lwIP itself (\<open>lwip/src/\<close>): its promises to its users appear as the rules by which the events of
  \<open>TcpClient\<close> can occur. \<open>BConnection_unix.c\<close>, \<open>BDatagram_unix.c\<close>, \<open>BTap.c\<close>, \<open>BSignal.c\<close>, which wrap system calls. Logging (\<open>base/BLog.c\<close>), the command
  line and start-up of \<open>tun2socks.c\<close>, and the parts of the tree that the Android build does not compile.
\<close>

end
